(* ===== verification/Go_Base.thy ===== *)
theory Go_Base
  imports Main "HOL-Library.Monad_Syntax" "HOL-Library.Word" "HOL-Library.Signed_Division"
begin

text \<open>
  What the development uses of Go itself, shared by every component.

  A run-time panic (an index or slice bound out of range, the close of a closed channel, an
  explicit \<open>panic\<close>) is the value \<^term>\<open>None\<close> of an option, so a theorem that an
  operation is \<open>Some\<close> of something says that it does not panic. A loop whose end is not
  obvious is a \<open>partial_function (option)\<close>; there \<^term>\<open>None\<close> also stands for
  "does not return", and the theorems prove that it does return. Error values that the code
  returns to its caller are values of a sum, \<^term>\<open>Inl\<close> holding the error.

  Strings and byte slices are lists of characters: a HOL character is one byte.
  The type \<open>int\<close> of Go is \<^typ>\<open>int\<close> (\<^typ>\<open>nat\<close> where the code keeps it
  non-negative); \<open>wrap64\<close> writes out the 64-bit wrap-around where it can matter.
\<close>

named_theorems go_simps \<open>evaluation of the Go primitives\<close>

type_synonym bytes = string

section \<open>Integers\<close>

text \<open>The value a signed 64-bit integer holds after an arithmetic operation.\<close>

definition wrap64 :: "int \<Rightarrow> int" where
  "wrap64 n = signed_take_bit 63 n"

lemma wrap64_id [go_simps]: "- (2 ^ 63) \<le> n \<Longrightarrow> n < 2 ^ 63 \<Longrightarrow> wrap64 n = n"
  unfolding wrap64_def by (rule signed_take_bit_int_eq_self) auto

text \<open>Go's division and remainder truncate towards zero; on non-negative operands they agree with
  \<open>div\<close> and \<open>mod\<close>.\<close>

lemma sdiv_nonneg [go_simps]: "0 \<le> a \<Longrightarrow> 0 < b \<Longrightarrow> a sdiv b = a div (b :: int)"
  by (cases "a = 0") (auto simp: signed_divide_int_def sgn_if)

lemma smod_nonneg [go_simps]: "0 \<le> a \<Longrightarrow> 0 < b \<Longrightarrow> a smod b = a mod (b :: int)"
  by (cases "a = 0") (auto simp: signed_modulo_int_def sgn_if)

lemma div_less_of_less_mult: "0 < b \<Longrightarrow> a < b * c \<Longrightarrow> a div b < (c :: int)"
  by (smt (verit) mult_left_mono mult_div_mod_eq pos_mod_sign)

section \<open>Slices\<close>

text \<open>Reading and writing a slice element; \<^term>\<open>None\<close> is the index-out-of-range panic.\<close>

definition idx :: "'a list \<Rightarrow> int \<Rightarrow> 'a option" where
  "idx xs i = (if 0 \<le> i \<and> i < int (length xs) then Some (xs ! nat i) else None)"

definition upd :: "'a list \<Rightarrow> int \<Rightarrow> 'a \<Rightarrow> 'a list option" where
  "upd xs i a = (if 0 \<le> i \<and> i < int (length xs) then Some (xs[nat i := a]) else None)"

lemma idx_Some [go_simps]: "0 \<le> i \<Longrightarrow> i < int (length xs) \<Longrightarrow> idx xs i = Some (xs ! nat i)"
  by (simp add: idx_def)

lemma idx_nat [go_simps]: "i < length xs \<Longrightarrow> idx xs (int i) = Some (xs ! i)"
  by (simp add: idx_def)

lemma upd_Some [go_simps]: "0 \<le> i \<Longrightarrow> i < int (length xs) \<Longrightarrow> upd xs i a = Some (xs[nat i := a])"
  by (simp add: upd_def)

lemma idx_eq_Some_iff: "idx xs i = Some a \<longleftrightarrow> 0 \<le> i \<and> i < int (length xs) \<and> a = xs ! nat i"
  by (auto simp: idx_def)

lemma upd_eq_Some_iff:
  "upd xs i a = Some ys \<longleftrightarrow> 0 \<le> i \<and> i < int (length xs) \<and> ys = xs[nat i := a]"
  by (auto simp: upd_def)

text \<open>
  \<open>slice_to\<close> and \<open>slice_from\<close> are the slices \<open>xs[:n]\<close> and \<open>xs[n:]\<close>. Go lets \<open>n\<close> in
  \<open>xs[:n]\<close> reach the capacity; the model stops at the length, which is stricter, and the
  theorems show that the code stays within it.
\<close>

definition slice_to :: "'a list \<Rightarrow> int \<Rightarrow> 'a list option" where
  "slice_to xs n = (if 0 \<le> n \<and> n \<le> int (length xs) then Some (take (nat n) xs) else None)"

definition slice_from :: "'a list \<Rightarrow> int \<Rightarrow> 'a list option" where
  "slice_from xs n = (if 0 \<le> n \<and> n \<le> int (length xs) then Some (drop (nat n) xs) else None)"

lemma slice_to_Some [go_simps]:
  "0 \<le> n \<Longrightarrow> n \<le> int (length xs) \<Longrightarrow> slice_to xs n = Some (take (nat n) xs)"
  by (simp add: slice_to_def)

lemma slice_from_Some [go_simps]:
  "0 \<le> n \<Longrightarrow> n \<le> int (length xs) \<Longrightarrow> slice_from xs n = Some (drop (nat n) xs)"
  by (simp add: slice_from_def)

text \<open>Setting every element of the range \<open>lo..hi-1\<close> of a list of flags.\<close>

definition mark_range :: "bool list \<Rightarrow> nat \<Rightarrow> nat \<Rightarrow> bool list" where
  "mark_range c lo hi = map (\<lambda>i. c ! i \<or> (lo \<le> i \<and> i < hi)) [0..<length c]"

lemma length_mark_range [simp]: "length (mark_range c lo hi) = length c"
  by (simp add: mark_range_def)

lemma nth_mark_range: "i < length c \<Longrightarrow> mark_range c lo hi ! i = (c ! i \<or> (lo \<le> i \<and> i < hi))"
  by (simp add: mark_range_def)

lemma mark_range_empty: "hi \<le> lo \<Longrightarrow> mark_range c lo hi = c"
  by (rule nth_equalityI) (auto simp: nth_mark_range)

lemma mark_range_step:
  "lo < hi \<Longrightarrow> lo < length c \<Longrightarrow> mark_range (c[lo := True]) (Suc lo) hi = mark_range c lo hi"
  by (rule nth_equalityI) (auto simp: nth_mark_range nth_list_update)

text \<open>The loop \<open>for i < e { c[i] = true; i++ }\<close>, with the panic of an index out of range.\<close>

function mark_from :: "bool list \<Rightarrow> nat \<Rightarrow> nat \<Rightarrow> bool list option" where
  "mark_from c i e =
     (if i < e then do { c' \<leftarrow> upd c (int i) True; mark_from c' (Suc i) e } else Some c)"
  by pat_completeness auto
termination by (relation "measure (\<lambda>(c, i, e). e - i)") auto

declare mark_from.simps [simp del]

lemma mark_from_eq: "e \<le> length c \<Longrightarrow> mark_from c i e = Some (mark_range c i e)"
proof (induction c i e rule: mark_from.induct)
  case (1 c i e)
  show ?case
  proof (cases "i < e")
    case True
    then have u: "upd c (int i) True = Some (c[i := True])" using "1.prems" by (simp add: upd_def)
    then show ?thesis
      using True "1.IH" [OF True u] "1.prems" by (subst mark_from.simps) (simp add: mark_range_step)
  next
    case False
    then show ?thesis by (subst mark_from.simps) (simp add: mark_range_empty)
  qed
qed

section \<open>Flagged lists\<close>

text \<open>The elements that a list of change flags leaves unmarked, in order.\<close>

definition kept :: "'a list \<Rightarrow> bool list \<Rightarrow> 'a list" where
  "kept xs c = map fst (filter (\<lambda>p. \<not> snd p) (zip xs c))"

lemma kept_Nil [simp]: "kept [] c = []" "kept xs [] = []"
  by (simp_all add: kept_def)

lemma kept_Cons [simp]: "kept (x # xs) (b # c) = (if b then kept xs c else x # kept xs c)"
  by (simp add: kept_def)

lemma kept_append:
  "length xs = length c \<Longrightarrow> kept (xs @ ys) (c @ d) = kept xs c @ kept ys d"
  by (simp add: kept_def)

lemma kept_False: "length xs = n \<Longrightarrow> kept xs (replicate n False) = xs"
  by (induction xs arbitrary: n) auto

lemma kept_True: "kept xs (replicate n True) = []"
proof (induction xs arbitrary: n)
  case (Cons x xs)
  then show ?case by (cases n) auto
qed simp

lemma kept_map: "kept (map f xs) c = map f (kept xs c)"
proof (induction xs arbitrary: c)
  case (Cons x xs)
  then show ?case by (cases c) auto
qed simp

lemma length_kept_le: "length (kept xs c) \<le> length xs"
proof (induction xs arbitrary: c)
  case (Cons x xs)
  then show ?case by (cases c) (auto simp: le_SucI)
qed simp

lemma set_kept: "set (kept xs c) \<subseteq> set xs"
  unfolding kept_def by (auto dest: set_zip_leftD)

lemma kept_eq_Nil: "length c = length xs \<Longrightarrow> kept xs c = [] \<Longrightarrow> c = replicate (length xs) True"
proof (induction xs arbitrary: c)
  case (Cons x xs)
  then show ?case by (cases c) (auto split: if_splits)
qed simp

lemma mark_range_replicate:
  "lo \<le> hi \<Longrightarrow> hi \<le> n \<Longrightarrow> mark_range (replicate n False) lo hi =
     replicate lo False @ replicate (hi - lo) True @ replicate (n - hi) False"
  by (rule nth_equalityI) (auto simp: nth_mark_range nth_append)

end
