(* ===== verification/Timing_Wheel.thy ===== *)
theory Timing_Wheel
  imports Go_Base
begin

text \<open>
  The timing wheel of \<open>utils/xman_timewheel.go\<close>: a ring of channels, one of which is
  closed and replaced at each tick. Channels are numbered; \<open>closed\<close> holds the numbers of
  the closed ones and \<open>next_ch\<close> the first number that no \<open>make\<close> has returned yet.
  The mutex makes \<open>After\<close> and \<open>onTicker\<close> atomic, so each is one function on the
  state. The lemmas show that the ring never holds a closed channel, that a tick therefore
  never panics, and at exactly which tick the channel handed out by \<open>After\<close> is closed.
\<close>

record TimingWheel =
  interval :: int
  maxTimeout :: int
  cs :: "nat list"
  pos :: nat
  next_ch :: nat
  closed :: "nat set"
  quit_closed :: bool
  ticker_on :: bool
  running :: bool

text \<open>\<open>make\<close> panics for a negative length, \<open>time.NewTicker\<close> for an interval that is not positive.\<close>

definition NewTimingWheel :: "int \<Rightarrow> int \<Rightarrow> TimingWheel option" where
  "NewTimingWheel ival buckets =
     (if buckets < 0 \<or> ival \<le> 0 then None
      else Some \<lparr>interval = ival, maxTimeout = wrap64 (ival * buckets), cs = [0..<nat buckets], pos = 0,
        next_ch = nat buckets, closed = {}, quit_closed = False, ticker_on = True, running = True\<rparr>)"

text \<open>\<open>Stop\<close> closes the quit channel; a second \<open>Stop\<close> panics.\<close>

definition TimingWheel_Stop :: "TimingWheel \<Rightarrow> TimingWheel option" where
  "TimingWheel_Stop w = (if quit_closed w then None else Some (w\<lparr>quit_closed := True\<rparr>))"

text \<open>
  \<open>After\<close> returns the channel that is \<open>timeout / interval\<close> places ahead. Go's integer
  division and remainder truncate towards zero (\<open>sdiv\<close>, \<open>smod\<close>); a division by zero
  and an index out of range panic, as does a timeout of \<open>maxTimeout\<close> or more.
\<close>

definition TimingWheel_After :: "TimingWheel \<Rightarrow> int \<Rightarrow> nat option" where
  "TimingWheel_After w timeout =
     (if timeout \<ge> maxTimeout w then None
      else if interval w = 0 \<or> cs w = [] then None
      else idx (cs w) ((int (pos w) + timeout sdiv interval w) smod int (length (cs w))))"

text \<open>
  One tick: the channel at \<open>pos\<close> is replaced by a new one, \<open>pos\<close> moves on, and the
  old channel is closed, which wakes everybody who waits on it.
\<close>

definition TimingWheel_onTicker :: "TimingWheel \<Rightarrow> TimingWheel option" where
  "TimingWheel_onTicker w =
     (case idx (cs w) (int (pos w)) of
        None \<Rightarrow> None
      | Some lastC \<Rightarrow>
          (let w' = w\<lparr>cs := (cs w)[pos w := next_ch w], next_ch := Suc (next_ch w),
                      pos := Suc (pos w) mod length (cs w)\<rparr>
           in if lastC \<in> closed w' then None else Some (w'\<lparr>closed := insert lastC (closed w')\<rparr>)))"

text \<open>
  The goroutine \<open>run\<close>: each turn of its select takes a tick or the quit signal. The list
  says which was taken; the quit branch can only be taken once the channel is closed, and
  ends the loop.
\<close>

datatype wheel_event = TickerC | QuitC

fun TimingWheel_run :: "TimingWheel \<Rightarrow> wheel_event list \<Rightarrow> TimingWheel option" where
  "TimingWheel_run w [] = Some w"
| "TimingWheel_run w (e # es) =
     (if \<not> running w then Some w
      else case e of
        TickerC \<Rightarrow> (case TimingWheel_onTicker w of None \<Rightarrow> None | Some w' \<Rightarrow> TimingWheel_run w' es)
      | QuitC \<Rightarrow> (if quit_closed w then Some (w\<lparr>ticker_on := False, running := False\<rparr>)
                  else TimingWheel_run w es))"

section \<open>The invariant\<close>

definition wheel_inv :: "TimingWheel \<Rightarrow> bool" where
  "wheel_inv w \<longleftrightarrow> cs w \<noteq> [] \<and> pos w < length (cs w) \<and> distinct (cs w) \<and>
     set (cs w) \<inter> closed w = {} \<and> (\<forall>c \<in> set (cs w). c < next_ch w) \<and> (\<forall>c \<in> closed w. c < next_ch w)"

lemma wheel_inv_New: "0 < n \<Longrightarrow> NewTimingWheel i n = Some w \<Longrightarrow> wheel_inv w"
  by (auto simp: wheel_inv_def NewTimingWheel_def split: if_splits)

lemma onTicker_Some:
  assumes "wheel_inv w"
  shows "TimingWheel_onTicker w =
    Some (w\<lparr>cs := (cs w)[pos w := next_ch w], next_ch := Suc (next_ch w),
            pos := Suc (pos w) mod length (cs w), closed := insert (cs w ! pos w) (closed w)\<rparr>)"
proof -
  have "cs w ! pos w \<notin> closed w" using assms nth_mem by (fastforce simp: wheel_inv_def)
  then show ?thesis using assms by (simp add: TimingWheel_onTicker_def idx_nat wheel_inv_def Let_def)
qed

lemma wheel_inv_onTicker:
  assumes inv: "wheel_inv w" and tick: "TimingWheel_onTicker w = Some w'"
  shows "wheel_inv w'"
proof -
  let ?c = "cs w ! pos w"
  have p: "pos w < length (cs w)" and d: "distinct (cs w)" using inv by (auto simp: wheel_inv_def)
  have fresh: "next_ch w \<notin> set (cs w)" using inv by (auto simp: wheel_inv_def)
  have set': "set ((cs w)[pos w := next_ch w]) = insert (next_ch w) (set (cs w) - {?c})"
    using d p by (rule set_update_distinct)
  have w': "w' = w\<lparr>cs := (cs w)[pos w := next_ch w], next_ch := Suc (next_ch w),
            pos := Suc (pos w) mod length (cs w), closed := insert ?c (closed w)\<rparr>"
    using tick onTicker_Some [OF inv] by simp
  have c: "?c < next_ch w" using inv nth_mem [OF p] by (simp add: wheel_inv_def)
  have "next_ch w \<notin> closed w" and "set (cs w) \<inter> closed w = {}" using inv by (auto simp: wheel_inv_def)
  then have "set (cs w') \<inter> closed w' = {}" unfolding w' using set' c by auto
  moreover have "distinct (cs w')" unfolding w' using d fresh p by (simp add: distinct_list_update)
  moreover have "\<forall>k \<in> set (cs w') \<union> closed w'. k < next_ch w'"
    unfolding w' using set' c inv by (auto simp: wheel_inv_def less_Suc_eq)
  ultimately show ?thesis using p unfolding wheel_inv_def w' by (auto intro!: mod_less_divisor)
qed

fun ticks :: "nat \<Rightarrow> TimingWheel \<Rightarrow> TimingWheel option" where
  "ticks 0 w = Some w"
| "ticks (Suc n) w = (case TimingWheel_onTicker w of None \<Rightarrow> None | Some w' \<Rightarrow> ticks n w')"

section \<open>When a channel fires\<close>

text \<open>The channel \<open>j\<close> places ahead of the hand.\<close>

definition ahead :: "TimingWheel \<Rightarrow> nat \<Rightarrow> nat" where
  "ahead w j = cs w ! ((pos w + j) mod length (cs w))"

lemma onTicker_ahead_0:
  "wheel_inv w \<Longrightarrow> TimingWheel_onTicker w = Some w' \<Longrightarrow> ahead w 0 \<in> closed w'"
  by (auto simp: onTicker_Some ahead_def wheel_inv_def)

lemma onTicker_ahead_Suc:
  assumes inv: "wheel_inv w" and tick: "TimingWheel_onTicker w = Some w'"
    and j: "Suc j < length (cs w)"
  shows "ahead w' j = ahead w (Suc j)"
proof -
  let ?L = "length (cs w)"
  have p: "pos w < ?L" using inv by (simp add: wheel_inv_def)
  have "(Suc (pos w) mod ?L + j) mod ?L = (pos w + Suc j) mod ?L" by (simp add: mod_add_left_eq)
  moreover have "(pos w + Suc j) mod ?L \<noteq> pos w"
    using p j by (cases "pos w + Suc j < ?L") (auto simp: mod_if)
  ultimately show ?thesis using tick p by (auto simp: onTicker_Some [OF inv] ahead_def)
qed

lemma onTicker_frame:
  assumes "wheel_inv w" and "TimingWheel_onTicker w = Some w'"
  shows "length (cs w') = length (cs w)" and "interval w' = interval w"
    and "maxTimeout w' = maxTimeout w" and "closed w \<subseteq> closed w'"
  using assms by (auto simp: onTicker_Some)

lemma ticks_Some: "wheel_inv w \<Longrightarrow> \<exists>w'. ticks n w = Some w' \<and> wheel_inv w' \<and> closed w \<subseteq> closed w'"
proof (induction n arbitrary: w)
  case (Suc n)
  obtain w1 where w1: "TimingWheel_onTicker w = Some w1" using onTicker_Some [OF Suc.prems] by blast
  then obtain w2 where "ticks n w1 = Some w2 \<and> wheel_inv w2 \<and> closed w1 \<subseteq> closed w2"
    using Suc.IH wheel_inv_onTicker [OF Suc.prems] by blast
  then show ?case using w1 onTicker_frame(4) [OF Suc.prems w1] by auto
qed simp

lemma ticks_ahead_closed:
  "wheel_inv w \<Longrightarrow> ticks n w = Some w' \<Longrightarrow> j < length (cs w) \<Longrightarrow> ahead w j \<in> closed w' \<longleftrightarrow> j < n"
proof (induction n arbitrary: w j)
  case 0
  have "ahead w j \<in> set (cs w)" using "0.prems" by (auto simp: ahead_def wheel_inv_def)
  then show ?case using "0.prems" by (auto simp: wheel_inv_def)
next
  case (Suc n)
  obtain w1 where w1: "TimingWheel_onTicker w = Some w1" using onTicker_Some [OF Suc.prems(1)] by blast
  have inv1: "wheel_inv w1" by (rule wheel_inv_onTicker [OF Suc.prems(1) w1])
  have t1: "ticks n w1 = Some w'" using Suc.prems(2) w1 by simp
  show ?case
  proof (cases j)
    case 0
    have "closed w1 \<subseteq> closed w'" using ticks_Some [OF inv1, of n] t1 by auto
    then show ?thesis using 0 onTicker_ahead_0 [OF Suc.prems(1) w1] by auto
  next
    case (Suc i)
    then have "i < length (cs w1)"
      using Suc.prems(3) onTicker_frame(1) [OF Suc.prems(1) w1] by simp
    then have "ahead w1 i \<in> closed w' \<longleftrightarrow> i < n" by (rule Suc.IH [OF inv1 t1])
    then show ?thesis
      using Suc onTicker_ahead_Suc [OF Suc.prems(1) w1] Suc.prems(3) by auto
  qed
qed

lemma After_eq_ahead:
  assumes inv: "wheel_inv w" and i: "0 < interval w" and t: "0 \<le> t" "t < maxTimeout w"
  shows "TimingWheel_After w t = Some (ahead w (nat (t div interval w)))"
proof -
  have q: "t sdiv interval w = int (nat (t div interval w))"
    using i t by (simp add: sdiv_nonneg pos_imp_zdiv_nonneg_iff)
  have L: "0 < length (cs w)" using inv by (simp add: wheel_inv_def)
  have "(int (pos w) + t sdiv interval w) smod int (length (cs w)) =
    int ((pos w + nat (t div interval w)) mod length (cs w))"
    using q L by (simp add: smod_nonneg zmod_int del: of_nat_nat)
  then show ?thesis
    using i t inv L by (simp add: TimingWheel_After_def ahead_def idx_nat wheel_inv_def)
qed

text \<open>
  C16. A wait on the timing wheel ends at exactly one tick. On a wheel that satisfies the invariant, with a positive interval and
  \<open>maxTimeout = interval * buckets\<close> (no overflow), and for \<open>0 \<le> t\<close>: \<open>After t\<close> panics if \<open>t \<ge> maxTimeout\<close>, and only then.
  Otherwise no number of ticks panics, and after \<open>n\<close> ticks the channel it returned is closed if and only if \<open>n > t / interval\<close>.
\<close>

theorem After_fires_after_timeout:
  assumes "wheel_inv w" and "0 < interval w" and "0 \<le> t" and "maxTimeout w = interval w * int (length (cs w))"
  shows "(TimingWheel_After w t = None \<longleftrightarrow> maxTimeout w \<le> t) \<and>
    (t < maxTimeout w \<longrightarrow>
      (\<exists>b w'. TimingWheel_After w t = Some b \<and> ticks n w = Some w' \<and> wheel_inv w' \<and>
        (b \<in> closed w' \<longleftrightarrow> t div interval w < int n)))"
proof (cases "t < maxTimeout w")
  case True
  let ?j = "nat (t div interval w)"
  obtain w' where w': "ticks n w = Some w'" "wheel_inv w'" using ticks_Some [OF assms(1)] by blast
  have "t div interval w < int (length (cs w))"
    using assms True by (simp add: div_less_of_less_mult)
  moreover have "0 \<le> t div interval w" using assms by (simp add: pos_imp_zdiv_nonneg_iff)
  ultimately have "?j < length (cs w)" and "?j < n \<longleftrightarrow> t div interval w < int n" by auto
  then show ?thesis
    using After_eq_ahead [OF assms(1-3) True] ticks_ahead_closed [OF assms(1) w'(1), of ?j] w' True by auto
next
  case False
  then show ?thesis by (simp add: TimingWheel_After_def)
qed

theorem After_fires_after_timeout_witness:
  "\<exists>w b w'. NewTimingWheel 2 4 = Some w \<and> TimingWheel_After w 8 = None \<and> TimingWheel_After w 5 = Some b \<and> ticks 3 w = Some w' \<and>
    wheel_inv w' \<and> (b \<in> closed w' \<longleftrightarrow> 5 div (2 :: int) < int 3)"
proof -
  obtain w where w: "NewTimingWheel 2 4 = Some w" by (simp add: NewTimingWheel_def)
  have inv: "wheel_inv w" by (rule wheel_inv_New [OF _ w]) simp
  show ?thesis using After_fires_after_timeout [OF inv, of 5 3] After_fires_after_timeout [OF inv, of 8 0] w
    by (auto simp: NewTimingWheel_def go_simps)
qed

end
