(* ===== verification/Go_Utf8.thy ===== *)
theory Go_Utf8
  imports Go_Base
begin

text \<open>
  The characters of UTF-8, as \<open>unicode/utf8\<close> decodes and encodes them.
\<close>

text \<open>
  \<open>utf8.DecodeRune\<close> : the first character and the number of bytes it takes;
  an invalid sequence is the character U+FFFD of one byte.
\<close>

definition decode_rune :: "bytes \<Rightarrow> nat \<times> nat" where
  "decode_rune s =
     (case map of_char s of
        [] \<Rightarrow> (0xFFFD, 0)
      | b0 # bs \<Rightarrow>
          (let cont = (\<lambda>lo hi k. k < length bs \<and> lo \<le> bs ! k \<and> bs ! k \<le> hi) in
           if b0 < 0x80 then (b0, 1)
           else if 0xC2 \<le> b0 \<and> b0 \<le> 0xDF \<and> cont 0x80 0xBF 0
             then ((b0 - 0xC0) * 64 + (bs ! 0 - 0x80), 2)
           else if 0xE0 \<le> b0 \<and> b0 \<le> 0xEF \<and>
               cont (if b0 = 0xE0 then 0xA0 else 0x80) (if b0 = 0xED then 0x9F else 0xBF) 0 \<and> cont 0x80 0xBF 1
             then ((b0 - 0xE0) * 4096 + (bs ! 0 - 0x80) * 64 + (bs ! 1 - 0x80), 3)
           else if 0xF0 \<le> b0 \<and> b0 \<le> 0xF4 \<and>
               cont (if b0 = 0xF0 then 0x90 else 0x80) (if b0 = 0xF4 then 0x8F else 0xBF) 0 \<and>
               cont 0x80 0xBF 1 \<and> cont 0x80 0xBF 2
             then ((b0 - 0xF0) * 262144 + (bs ! 0 - 0x80) * 4096 + (bs ! 1 - 0x80) * 64 + (bs ! 2 - 0x80), 4)
           else (0xFFFD, 1)))"

lemma decode_rune_size: "s \<noteq> [] \<Longrightarrow> 1 \<le> snd (decode_rune s)"
  by (cases s) (simp_all add: decode_rune_def Let_def)

lemma decode_rune_le: "s \<noteq> [] \<Longrightarrow> snd (decode_rune s) \<le> length s"
  by (cases s) (auto simp: decode_rune_def Let_def simp del: length_greater_0_conv)

lemma decode_rune_ascii: "of_char b < (0x80 :: nat) \<Longrightarrow> decode_rune (b # rest) = (of_char b, 1)"
  by (simp add: decode_rune_def)

lemma decode_rune_multi: "\<not> of_char b < (0x80 :: nat) \<Longrightarrow> 0x80 \<le> fst (decode_rune (b # rest))"
  by (auto simp: decode_rune_def Let_def)

text \<open>\<open>utf8.EncodeRune\<close>; surrogates and values out of range become U+FFFD.\<close>

definition encode_rune :: "nat \<Rightarrow> bytes" where
  "encode_rune r =
     (if r < 0x80 then [char_of r]
      else if r < 0x800 then [char_of (0xC0 + r div 64), char_of (0x80 + r mod 64)]
      else if 0xD800 \<le> r \<and> r \<le> 0xDFFF \<or> r > 0x10FFFF then [char_of (0xEF :: nat), char_of (0xBF :: nat), char_of (0xBD :: nat)]
      else if r < 0x10000 then [char_of (0xE0 + r div 4096), char_of (0x80 + r div 64 mod 64), char_of (0x80 + r mod 64)]
      else [char_of (0xF0 + r div 262144), char_of (0x80 + r div 4096 mod 64), char_of (0x80 + r div 64 mod 64), char_of (0x80 + r mod 64)])"

text \<open>\<open>utf8.Valid\<close>.\<close>

function valid_utf8 :: "bytes \<Rightarrow> bool" where
  "valid_utf8 s =
     (if s = [] then True
      else if decode_rune s = (0xFFFD, 1) then False
      else valid_utf8 (drop (snd (decode_rune s)) s))"
  by pat_completeness auto
termination
proof (relation "measure length", simp, goal_cases)
  case (1 s)
  then have "1 \<le> snd (decode_rune s)" using decode_rune_size [of s] by simp
  then show ?case using 1 by simp
qed

declare valid_utf8.simps [simp del]

lemma valid_utf8_ascii: "list_all (\<lambda>c. of_char c < (0x80 :: nat)) s \<Longrightarrow> valid_utf8 s"
  by (induction s) (simp_all add: valid_utf8.simps [of "_ # _"] valid_utf8.simps [of "[]"] decode_rune_ascii)

text \<open>The first character does not depend on what follows it.\<close>

lemma decode_rune_cases:
  assumes "decode_rune (b # bs) \<noteq> (0xFFFD, 1)"
  obtains (one) "of_char b < (0x80 :: nat)"
  | (two) c r where "bs = c # r" "0xC2 \<le> (of_char b :: nat)" "of_char b \<le> (0xDF :: nat)" "0x80 \<le> (of_char c :: nat)" "of_char c \<le> (0xBF :: nat)"
  | (three) c d r where "bs = c # d # r" "0xE0 \<le> (of_char b :: nat)" "of_char b \<le> (0xEF :: nat)"
      "(if of_char b = (0xE0 :: nat) then 0xA0 else 0x80) \<le> (of_char c :: nat)" "of_char c \<le> (if of_char b = (0xED :: nat) then 0x9F else 0xBF :: nat)"
      "0x80 \<le> (of_char d :: nat)" "of_char d \<le> (0xBF :: nat)"
  | (four) c d e r where "bs = c # d # e # r" "0xF0 \<le> (of_char b :: nat)" "of_char b \<le> (0xF4 :: nat)"
      "(if of_char b = (0xF0 :: nat) then 0x90 else 0x80) \<le> (of_char c :: nat)" "of_char c \<le> (if of_char b = (0xF4 :: nat) then 0x8F else 0xBF :: nat)"
      "0x80 \<le> (of_char d :: nat)" "of_char d \<le> (0xBF :: nat)" "0x80 \<le> (of_char e :: nat)" "of_char e \<le> (0xBF :: nat)"
proof -
  have split1: "0 < length bs \<Longrightarrow> \<exists>c r. bs = c # r" by (cases bs) auto
  have split2: "1 < length bs \<Longrightarrow> \<exists>c d r. bs = c # d # r" by (cases bs; cases "tl bs") auto
  have split3: "2 < length bs \<Longrightarrow> \<exists>c d e r. bs = c # d # e # r" by (cases bs; cases "tl bs"; cases "tl (tl bs)") auto
  show thesis
  proof (cases "of_char b < (0x80 :: nat)")
    case True
    then show thesis by (rule one)
  next
    case b: False
    let ?cont = "\<lambda>lo hi k. k < length bs \<and> lo \<le> (of_char (bs ! k) :: nat) \<and> of_char (bs ! k) \<le> (hi :: nat)"
    let ?b = "of_char b :: nat"
    let ?c2 = "0xC2 \<le> ?b \<and> ?b \<le> 0xDF \<and> ?cont 0x80 0xBF 0"
    let ?c3 = "0xE0 \<le> ?b \<and> ?b \<le> 0xEF \<and> ?cont (if ?b = 0xE0 then 0xA0 else 0x80) (if ?b = 0xED then 0x9F else 0xBF) 0 \<and> ?cont 0x80 0xBF 1"
    let ?c4 = "0xF0 \<le> ?b \<and> ?b \<le> 0xF4 \<and> ?cont (if ?b = 0xF0 then 0x90 else 0x80) (if ?b = 0xF4 then 0x8F else 0xBF) 0 \<and> ?cont 0x80 0xBF 1 \<and> ?cont 0x80 0xBF 2"
    have cont: "k < length bs \<and> lo \<le> map of_char bs ! k \<and> map of_char bs ! k \<le> hi \<longleftrightarrow> ?cont lo hi k" for k lo hi by auto
    have "?c2 \<or> ?c3 \<or> ?c4"
    proof (rule ccontr)
      assume "\<not> (?c2 \<or> ?c3 \<or> ?c4)"
      then have n: "\<not> ?c2" "\<not> ?c3" "\<not> ?c4" by blast+
      have "decode_rune (b # bs) = (0xFFFD, 1)"
        unfolding decode_rune_def list.map list.case Let_def length_map cont if_not_P [OF b] if_not_P [OF n(1)] if_not_P [OF n(2)] if_not_P [OF n(3)] by (rule refl)
      then show False using assms by simp
    qed
    then show thesis
    proof (elim disjE)
      assume c: ?c2
      then obtain c r where "bs = c # r" using split1 by blast
      then show thesis using c two by simp
    next
      assume c: ?c3
      then obtain c d r where "bs = c # d # r" using split2 by blast
      then show thesis using c three by simp
    next
      assume c: ?c4
      then obtain c d e r where "bs = c # d # e # r" using split3 by blast
      then show thesis using c four by simp
    qed
  qed
qed

lemma decode_rune_append:
  assumes "s \<noteq> []" and "decode_rune s \<noteq> (0xFFFD, 1)"
  shows "decode_rune (s @ t) = decode_rune s"
proof -
  obtain b bs where s: "s = b # bs" using assms(1) by (cases s) auto
  show ?thesis using assms(2) unfolding s by (cases rule: decode_rune_cases) (auto simp: decode_rune_def Let_def)
qed

lemma decode_rune_take:
  assumes "s \<noteq> []" and "decode_rune s \<noteq> (0xFFFD, 1)"
  shows "decode_rune (take (snd (decode_rune s)) s) = decode_rune s"
proof -
  obtain b bs where s: "s = b # bs" using assms(1) by (cases s) auto
  show ?thesis using assms(2) unfolding s by (cases rule: decode_rune_cases) (auto simp: decode_rune_def Let_def)
qed

end
