(* ===== verification/Xdiff_Lines.thy ===== *)
theory Xdiff_Lines
  imports Go_Utf8
begin

unbundle bit_operations_syntax

text \<open>
  The lines of a text and when two of them count as equal (\<open>to_lower_byte\<close>, \<open>split_lines\<close>,
  the \<open>compare_line\<close> and \<open>compute_hash\<close> functions and their choice in \<open>xdiff.go\<close>).

  A position in a line is modelled by what is left of the line, which is empty where the index
  has reached the length. The byte version and the Unicode version of a function differ only in
  what a character is, so one definition over lists of characters models both: its parameters are
  the test for a space, the lower-case function and the hash of one character.

  \<open>line_compare\<close> is the contract that the rest of the program relies on: comparison is an
  equivalence and lines that compare equal have the same hash. It is proved for every setting
  of the flags.
\<close>

section \<open>The flags\<close>

record Flags =
  cmp_ignore_case :: bool
  cmp_ignore_blank_lines :: bool
  cmp_ignore_space_change :: bool
  cmp_ignore_all_space :: bool
  unicode_case_and_space :: bool
  show_identical_files :: bool
  suppress_line_changes :: bool
  suppress_missing_file :: bool
  output_as_text :: bool
  unified_context :: bool
  context_lines :: int
  max_goroutines :: int

definition default_flags :: Flags where
  "default_flags = \<lparr>cmp_ignore_case = False, cmp_ignore_blank_lines = False,
     cmp_ignore_space_change = False, cmp_ignore_all_space = False, unicode_case_and_space = False,
     show_identical_files = False, suppress_line_changes = False, suppress_missing_file = False,
     output_as_text = False, unified_context = False, context_lines = 3, max_goroutines = 1\<rparr>"

section \<open>Splitting a text into lines\<close>

definition BINARY_CHECK_SIZE :: nat where "BINARY_CHECK_SIZE = 65536"

text \<open>
  \<open>cur\<close> is the slice \<open>data[previ:i]\<close>, reversed; \<open>None\<close> stands for the \<open>nil\<close> that is returned when the
  file turns out to be binary.
\<close>

fun split_lines_from :: "nat \<Rightarrow> char \<Rightarrow> bytes \<Rightarrow> bytes \<Rightarrow> bytes list option" where
  "split_lines_from i lastb cur [] = Some (if cur = [] then [] else [rev cur])"
| "split_lines_from i lastb cur (b # data) =
     (if b = CHR 0x0A \<and> lastb = CHR 0x0D then split_lines_from (Suc i) b [] data
      else if b = CHR 0x0A \<or> b = CHR 0x0D then
        map_option ((#) (rev cur)) (split_lines_from (Suc i) b [] data)
      else if b = CHR 0x00 \<and> i < BINARY_CHECK_SIZE then None
      else split_lines_from (Suc i) b (b # cur) data)"

definition split_lines :: "bytes \<Rightarrow> bytes list option" where
  "split_lines data = split_lines_from 0 (CHR 0x00) [] data"

section \<open>Characters\<close>

definition to_lower_byte :: "char \<Rightarrow> char" where
  "to_lower_byte b =
     (if of_char b \<ge> (65 :: nat) \<and> of_char b \<le> (90 :: nat)
      then char_of ((of_char b :: nat) - 65 + 97) else b)"

definition is_space :: "char \<Rightarrow> bool" where
  "is_space b \<longleftrightarrow> b = CHR 0x20 \<or> b = CHR 0x09 \<or> b = CHR 0x0B \<or> b = CHR 0x0C"

text \<open>The characters of a line; every position the Unicode functions hold is the start of one.\<close>

function runes :: "bytes \<Rightarrow> nat list" where
  "runes s = (if s = [] then [] else fst (decode_rune s) # runes (drop (snd (decode_rune s)) s))"
  by pat_completeness auto
termination
proof (relation "measure length")
  fix s :: bytes
  assume "s \<noteq> []"
  then have "1 \<le> snd (decode_rune s)" "0 < length s" using decode_rune_size [of s] by auto
  then show "(drop (snd (decode_rune s)) s, s) \<in> measure length" by auto
qed simp

declare runes.simps [simp del]

text \<open>\<open>unicode.IsSpace\<close> of the standard library.\<close>

definition unicode_IsSpace :: "nat \<Rightarrow> bool" where
  "unicode_IsSpace r \<longleftrightarrow> 9 \<le> r \<and> r \<le> 13 \<or> 0x2000 \<le> r \<and> r \<le> 0x200A \<or>
     r \<in> {0x20, 0x85, 0xA0, 0x1680, 0x2028, 0x2029, 0x202F, 0x205F, 0x3000}"

section \<open>Comparing lines\<close>

fun skip_space :: "('v \<Rightarrow> bool) \<Rightarrow> 'v list \<Rightarrow> 'v list" where
  "skip_space sp [] = []"
| "skip_space sp (v # line) = (if \<not> sp v then v # line else skip_space sp line)"

definition get_next_nonspace :: "('v \<Rightarrow> bool) \<Rightarrow> 'v \<Rightarrow> 'v list \<Rightarrow> 'v \<times> 'v list" where
  "get_next_nonspace sp v line = (v, skip_space sp line)"

fun skip_space_after :: "('v \<Rightarrow> bool) \<Rightarrow> bool \<Rightarrow> 'v list \<Rightarrow> bool \<times> 'v list" where
  "skip_space_after sp space_after [] = (space_after, [])"
| "skip_space_after sp space_after (v # line) =
     (if \<not> sp v then (space_after, v # line) else skip_space_after sp True line)"

definition get_next_xspace :: "('v \<Rightarrow> bool) \<Rightarrow> 'v \<Rightarrow> 'v list \<Rightarrow> 'v \<times> bool \<times> 'v list" where
  "get_next_xspace sp v line =
     (let (space_after, line) = skip_space_after sp False line
      in (v, if space_after \<and> line = [] then False else space_after, line))"

lemma length_skip_space: "length (skip_space sp l) \<le> length l"
  by (induction l) auto

lemma snd_skip_space_after: "snd (skip_space_after sp f l) = skip_space sp l"
  by (induction l arbitrary: f) auto

function compare_all_space :: "bool \<Rightarrow> ('v \<Rightarrow> bool) \<Rightarrow> ('v \<Rightarrow> 'v) \<Rightarrow> 'v list \<Rightarrow> 'v list \<Rightarrow> bool" where
  "compare_all_space ic sp low (v1 # line1) (v2 # line2) =
     (let (v1, line1) = get_next_nonspace sp v1 line1; (v2, line2) = get_next_nonspace sp v2 line2;
          (v1, v2) = (if ic \<and> v1 \<noteq> v2 then (low v1, low v2) else (v1, v2))
      in if v1 \<noteq> v2 then False else compare_all_space ic sp low line1 line2)"
| "compare_all_space ic sp low [] line2 = (line2 = [])"
| "compare_all_space ic sp low (v1 # line1) [] = False"
  by pat_completeness auto
termination
  by (relation "measure (\<lambda>(ic, sp, low, line1, line2). length line1)")
    (auto simp: get_next_nonspace_def le_imp_less_Suc length_skip_space)

function compare_space_change :: "bool \<Rightarrow> ('v \<Rightarrow> bool) \<Rightarrow> ('v \<Rightarrow> 'v) \<Rightarrow> 'v list \<Rightarrow> 'v list \<Rightarrow> bool" where
  "compare_space_change ic sp low (v1 # line1) (v2 # line2) =
     (let (v1, space_after1, line1) = get_next_xspace sp v1 line1;
          (v2, space_after2, line2) = get_next_xspace sp v2 line2;
          (v1, v2) = (if ic \<and> v1 \<noteq> v2 then (low v1, low v2) else (v1, v2))
      in if v1 \<noteq> v2 \<or> space_after1 \<noteq> space_after2 then False
         else compare_space_change ic sp low line1 line2)"
| "compare_space_change ic sp low [] line2 = (line2 = [])"
| "compare_space_change ic sp low (v1 # line1) [] = False"
  by pat_completeness auto
termination
proof (relation "measure (\<lambda>(ic, sp, low, line1, line2). length line1)", goal_cases)
  case (2 ic sp low v1 line1 v2 line2 x1 x2 y1 y2 z1 z2 x3 x4 y3 y4 z3 z4)
  then show ?case
    using length_skip_space [of sp line1] snd_skip_space_after [of sp False line1]
    by (auto simp: get_next_xspace_def split: prod.splits)
qed simp

fun compare_case :: "('v \<Rightarrow> 'v) \<Rightarrow> 'v list \<Rightarrow> 'v list \<Rightarrow> bool" where
  "compare_case low (v1 # line1) (v2 # line2) = (if low v1 \<noteq> low v2 then False else compare_case low line1 line2)"
| "compare_case low [] line2 = (line2 = [])"
| "compare_case low (v1 # line1) [] = False"

text \<open>The switch on the flags; \<open>len1\<close> and \<open>len2\<close> are the lengths in bytes.\<close>

definition compare_switch ::
  "Flags \<Rightarrow> ('v \<Rightarrow> bool) \<Rightarrow> ('v \<Rightarrow> 'v) \<Rightarrow> nat \<Rightarrow> nat \<Rightarrow> 'v list \<Rightarrow> 'v list \<Rightarrow> bool"
where
  "compare_switch fl sp low len1 len2 line1 line2 =
     (if cmp_ignore_all_space fl
      then compare_all_space (cmp_ignore_case fl) sp low (skip_space sp line1) (skip_space sp line2)
      else if cmp_ignore_space_change fl
      then compare_space_change (cmp_ignore_case fl) sp low (skip_space sp line1) (skip_space sp line2)
      else if cmp_ignore_case fl then (if len1 \<noteq> len2 then False else compare_case low line1 line2)
      else True)"

definition compare_line_bytes :: "Flags \<Rightarrow> bytes \<Rightarrow> bytes \<Rightarrow> bool" where
  "compare_line_bytes fl line1 line2 =
     compare_switch fl is_space to_lower_byte (length line1) (length line2) line1 line2"

definition compare_line_unicode :: "Flags \<Rightarrow> (nat \<Rightarrow> nat) \<Rightarrow> bytes \<Rightarrow> bytes \<Rightarrow> bool" where
  "compare_line_unicode fl ToLower line1 line2 =
     compare_switch fl unicode_IsSpace ToLower (length line1) (length line2) (runes line1) (runes line2)"

section \<open>Hashing lines\<close>

text \<open>The table of \<open>crc32.MakeTable(crc32.Castagnoli)\<close>.\<close>

definition crc_bit :: "32 word \<Rightarrow> 32 word" where
  "crc_bit crc = (if bit crc 0 then drop_bit 1 crc XOR 0x82f63b78 else drop_bit 1 crc)"

definition crc_table :: "32 word list" where
  "crc_table = map (\<lambda>i. (crc_bit ^^ 8) (of_nat i)) [0..<256]"

definition hash32 :: "32 word \<Rightarrow> 8 word \<Rightarrow> 32 word" where
  "hash32 h b = (crc_table ! unat ((ucast h :: 8 word) XOR b)) XOR drop_bit 8 h"

function hash32_unicode :: "32 word \<Rightarrow> nat \<Rightarrow> 32 word" where
  "hash32_unicode h r = (if r \<noteq> 0 then hash32_unicode (hash32 h (of_nat r)) (r div 256) else h)"
  by pat_completeness auto
termination by (relation "measure (\<lambda>(h, r). r)") auto

declare hash32_unicode.simps [simp del]

text \<open>\<open>crc32.Update(0, crc_table, data)\<close>.\<close>

definition compute_hash_exact :: "bytes \<Rightarrow> 32 word" where
  "compute_hash_exact data = NOT (foldl (\<lambda>crc b. hash32 crc (of_char b)) (NOT 0) data)"

fun hash_all_space :: "bool \<Rightarrow> ('v \<Rightarrow> bool) \<Rightarrow> ('v \<Rightarrow> 'v) \<Rightarrow> (32 word \<Rightarrow> 'v \<Rightarrow> 32 word) \<Rightarrow>
    32 word \<Rightarrow> 'v list \<Rightarrow> 32 word" where
  "hash_all_space ic sp low put hash [] = hash"
| "hash_all_space ic sp low put hash (v # line) =
     (if \<not> sp v then hash_all_space ic sp low put (put hash (if ic then low v else v)) line
      else hash_all_space ic sp low put hash line)"

fun hash_space_change :: "bool \<Rightarrow> ('v \<Rightarrow> bool) \<Rightarrow> ('v \<Rightarrow> 'v) \<Rightarrow> (32 word \<Rightarrow> 'v \<Rightarrow> 32 word) \<Rightarrow>
    32 word \<Rightarrow> 32 word \<Rightarrow> bool \<Rightarrow> 'v list \<Rightarrow> 32 word" where
  "hash_space_change ic sp low put hash last_hash last_space [] =
     (if last_space then last_hash else hash)"
| "hash_space_change ic sp low put hash last_hash last_space (v # line) =
     (if sp v then
        (if \<not> last_space then hash_space_change ic sp low put (hash32 hash 0x20) hash True line
         else hash_space_change ic sp low put hash last_hash True line)
      else hash_space_change ic sp low put (put hash (if ic then low v else v)) last_hash False line)"

fun hash_case :: "('v \<Rightarrow> 'v) \<Rightarrow> (32 word \<Rightarrow> 'v \<Rightarrow> 32 word) \<Rightarrow> 32 word \<Rightarrow> 'v list \<Rightarrow> 32 word" where
  "hash_case low put hash [] = hash"
| "hash_case low put hash (v # line) = hash_case low put (put hash (low v)) line"

definition hash_switch ::
  "Flags \<Rightarrow> ('v \<Rightarrow> bool) \<Rightarrow> ('v \<Rightarrow> 'v) \<Rightarrow> (32 word \<Rightarrow> 'v \<Rightarrow> 32 word) \<Rightarrow> 'v list \<Rightarrow> 32 word"
where
  "hash_switch fl sp low put line =
     (if cmp_ignore_all_space fl then hash_all_space (cmp_ignore_case fl) sp low put 0 line
      else if cmp_ignore_space_change fl then hash_space_change (cmp_ignore_case fl) sp low put 0 0 True line
      else if cmp_ignore_case fl then hash_case low put 0 line else 0)"

definition compute_hash_bytes :: "Flags \<Rightarrow> bytes \<Rightarrow> 32 word" where
  "compute_hash_bytes fl line = hash_switch fl is_space to_lower_byte (\<lambda>h b. hash32 h (of_char b)) line"

definition compute_hash_unicode :: "Flags \<Rightarrow> (nat \<Rightarrow> nat) \<Rightarrow> bytes \<Rightarrow> 32 word" where
  "compute_hash_unicode fl ToLower line = hash_switch fl unicode_IsSpace ToLower hash32_unicode (runes line)"

text \<open>The choice that \<open>Xdiff\<close> and \<open>XdiffToString\<close> make.\<close>

definition choose_compare_line :: "Flags \<Rightarrow> (nat \<Rightarrow> nat) \<Rightarrow> bytes \<Rightarrow> bytes \<Rightarrow> bool" where
  "choose_compare_line fl ToLower =
     (if cmp_ignore_case fl \<or> cmp_ignore_space_change fl \<or> cmp_ignore_all_space fl
      then if unicode_case_and_space fl then compare_line_unicode fl ToLower else compare_line_bytes fl
      else (=))"

definition choose_compute_hash :: "Flags \<Rightarrow> (nat \<Rightarrow> nat) \<Rightarrow> bytes \<Rightarrow> 32 word" where
  "choose_compute_hash fl ToLower =
     (if cmp_ignore_case fl \<or> cmp_ignore_space_change fl \<or> cmp_ignore_all_space fl
      then if unicode_case_and_space fl then compute_hash_unicode fl ToLower else compute_hash_bytes fl
      else compute_hash_exact)"

section \<open>What is compared and hashed\<close>

text \<open>
  Lines are compared through a normal form: the characters that are not spaces, or each of them with the
  information whether spaces and another one follow.
\<close>

definition folded :: "bool \<Rightarrow> ('v \<Rightarrow> 'v) \<Rightarrow> 'v \<Rightarrow> 'v" where
  "folded ic low v = (if ic then low v else v)"

definition norm_all :: "bool \<Rightarrow> ('v \<Rightarrow> bool) \<Rightarrow> ('v \<Rightarrow> 'v) \<Rightarrow> 'v list \<Rightarrow> 'v list" where
  "norm_all ic sp low line = map (folded ic low) (filter (\<lambda>v. \<not> sp v) line)"

text \<open>A space follows, and later a character that is not one.\<close>

definition space_follows :: "('v \<Rightarrow> bool) \<Rightarrow> 'v list \<Rightarrow> bool" where
  "space_follows sp line \<longleftrightarrow> line \<noteq> [] \<and> sp (hd line) \<and> (\<exists>w \<in> set line. \<not> sp w)"

fun norm_change :: "bool \<Rightarrow> ('v \<Rightarrow> bool) \<Rightarrow> ('v \<Rightarrow> 'v) \<Rightarrow> 'v list \<Rightarrow> ('v \<times> bool) list" where
  "norm_change ic sp low [] = []"
| "norm_change ic sp low (v # line) =
     (if sp v then norm_change ic sp low line
      else (folded ic low v, space_follows sp line) # norm_change ic sp low line)"

lemma folded_eq: "(if ic \<and> v1 \<noteq> v2 then low v1 else v1) = (if ic \<and> v1 \<noteq> v2 then low v2 else v2) \<longleftrightarrow>
    folded ic low v1 = folded ic low v2"
  by (auto simp: folded_def)

lemma skip_space_hd: "skip_space sp l = [] \<or> \<not> sp (hd (skip_space sp l))"
  by (induction l) auto

lemma norm_all_skip: "norm_all ic sp low (skip_space sp l) = norm_all ic sp low l"
  by (induction l) (auto simp: norm_all_def)

lemma norm_change_skip: "norm_change ic sp low (skip_space sp l) = norm_change ic sp low l"
  by (induction l) auto

lemma skip_space_eq_Nil: "skip_space sp l = [] \<longleftrightarrow> (\<forall>v \<in> set l. sp v)"
  by (induction l) auto

lemma fst_skip_space_after: "fst (skip_space_after sp f l) \<longleftrightarrow> f \<or> l \<noteq> [] \<and> sp (hd l)"
proof (induction l arbitrary: f)
  case (Cons a l)
  then show ?case by (cases l) auto
qed simp

lemma get_next_xspace_eq: "get_next_xspace sp v line = (v, space_follows sp line, skip_space sp line)"
  by (auto simp: get_next_xspace_def case_prod_beta fst_skip_space_after snd_skip_space_after skip_space_eq_Nil
    space_follows_def)

lemma compare_all_space_iff:
  "line1 = [] \<or> \<not> sp (hd line1) \<Longrightarrow> line2 = [] \<or> \<not> sp (hd line2) \<Longrightarrow>
   compare_all_space ic sp low line1 line2 \<longleftrightarrow> norm_all ic sp low line1 = norm_all ic sp low line2"
proof (induction ic sp low line1 line2 rule: compare_all_space.induct)
  case (1 ic sp low v1 line1 v2 line2)
  have "norm_all ic sp low (v1 # line1) = folded ic low v1 # norm_all ic sp low line1"
    "norm_all ic sp low (v2 # line2) = folded ic low v2 # norm_all ic sp low line2"
    using "1.prems" by (simp_all add: norm_all_def)
  then show ?case
    using 1 skip_space_hd [of sp line1] skip_space_hd [of sp line2]
    by (auto simp: get_next_nonspace_def norm_all_skip folded_def)
next
  case (2 ic sp low line2)
  then show ?case by (cases line2) (auto simp: norm_all_def)
next
  case (3 ic sp low v1 line1)
  then show ?case by (auto simp: norm_all_def)
qed

lemma compare_space_change_Cons: "compare_space_change ic sp low (v1 # line1) (v2 # line2) \<longleftrightarrow>
    folded ic low v1 = folded ic low v2 \<and> space_follows sp line1 = space_follows sp line2 \<and>
    compare_space_change ic sp low (skip_space sp line1) (skip_space sp line2)"
  by (simp add: get_next_xspace_eq folded_def)

lemma compare_space_change_iff:
  "line1 = [] \<or> \<not> sp (hd line1) \<Longrightarrow> line2 = [] \<or> \<not> sp (hd line2) \<Longrightarrow>
   compare_space_change ic sp low line1 line2 \<longleftrightarrow> norm_change ic sp low line1 = norm_change ic sp low line2"
proof (induction line1 arbitrary: line2 rule: length_induct)
  case (1 l1)
  show ?case
  proof (cases l1)
    case Nil
    then show ?thesis using "1.prems" by (cases line2) auto
  next
    case (Cons v1 line1)
    show ?thesis
    proof (cases line2)
      case Nil
      then show ?thesis using "1.prems" Cons by simp
    next
      case (Cons v2 line2)
      have "compare_space_change ic sp low (skip_space sp line1) (skip_space sp line2) \<longleftrightarrow>
          norm_change ic sp low line1 = norm_change ic sp low line2"
        using "1.IH" [rule_format, of "skip_space sp line1" "skip_space sp line2"] \<open>l1 = v1 # line1\<close>
        by (simp add: norm_change_skip skip_space_hd le_imp_less_Suc length_skip_space)
      then show ?thesis
        using "1.prems" Cons \<open>l1 = v1 # line1\<close>
        by (simp add: compare_space_change_Cons del: compare_space_change.simps)
    qed
  qed
qed

lemma compare_case_iff: "compare_case low line1 line2 \<longleftrightarrow> map low line1 = map low line2"
  by (induction low line1 line2 rule: compare_case.induct) auto

lemma hash_all_space_eq: "hash_all_space ic sp low put h l = foldl put h (norm_all ic sp low l)"
  by (induction ic sp low put h l rule: hash_all_space.induct) (auto simp: norm_all_def folded_def)

lemma hash_case_eq: "hash_case low put h l = foldl put h (map low l)"
  by (induction low put h l rule: hash_case.induct) auto

definition hash_pairs :: "(32 word \<Rightarrow> 'v \<Rightarrow> 32 word) \<Rightarrow> 32 word \<Rightarrow> ('v \<times> bool) list \<Rightarrow> 32 word" where
  "hash_pairs put = foldl (\<lambda>h (v, s). if s then hash32 (put h v) 0x20 else put h v)"

lemma norm_change_Nil: "norm_change ic sp low l = [] \<longleftrightarrow> (\<forall>v \<in> set l. sp v)"
  by (induction l) auto

lemma norm_change_spaces: "\<forall>v \<in> set l. sp v \<Longrightarrow> norm_change ic sp low l = []"
  by (simp add: norm_change_Nil)

lemma space_follows_simps:
  "\<not> space_follows sp []"
  "space_follows sp (v # l) \<longleftrightarrow> sp v \<and> (\<exists>w \<in> set l. \<not> sp w)"
  by (auto simp: space_follows_def)

lemma hash_space_change_eq:
  "hash_space_change ic sp low put h lh True l =
     (if norm_change ic sp low l = [] then lh else hash_pairs put h (norm_change ic sp low l))"
  "hash_space_change ic sp low put h lh False l =
     hash_pairs put (if space_follows sp l then hash32 h 0x20 else h) (norm_change ic sp low l)"
proof (induction l arbitrary: h lh)
  case (Cons v l)
  {
    case 1
    then show ?case using Cons by (auto simp: hash_pairs_def folded_def)
  next
    case 2
    then show ?case using Cons
      by (auto simp: hash_pairs_def folded_def space_follows_simps norm_change_Nil norm_change_spaces)
  }
qed (auto simp: hash_pairs_def space_follows_simps)

lemma compare_switch_iff: "compare_switch fl sp low n1 n2 l1 l2 \<longleftrightarrow>
    (if cmp_ignore_all_space fl
     then norm_all (cmp_ignore_case fl) sp low l1 = norm_all (cmp_ignore_case fl) sp low l2
     else if cmp_ignore_space_change fl
     then norm_change (cmp_ignore_case fl) sp low l1 = norm_change (cmp_ignore_case fl) sp low l2
     else cmp_ignore_case fl \<longrightarrow> n1 = n2 \<and> map low l1 = map low l2)"
  by (simp add: compare_switch_def compare_all_space_iff compare_space_change_iff compare_case_iff
      skip_space_hd norm_all_skip norm_change_skip)

lemma hash_switch_eq: "compare_switch fl sp low n1 n2 l1 l2 \<Longrightarrow>
    hash_switch fl sp low put l1 = hash_switch fl sp low put l2"
  by (cases "cmp_ignore_case fl")
    (simp_all add: compare_switch_iff hash_switch_def hash_all_space_eq hash_space_change_eq(1) hash_case_eq
      split: if_splits)

section \<open>The contract of the comparison\<close>

locale line_compare =
  fixes compare_line :: "bytes \<Rightarrow> bytes \<Rightarrow> bool" and compute_hash :: "bytes \<Rightarrow> 32 word"
  assumes compare_equivp: "equivp compare_line"
    and compare_hash: "compare_line l1 l2 \<Longrightarrow> compute_hash l1 = compute_hash l2"
begin

lemma compare_refl: "compare_line l l"
  using compare_equivp by (rule equivp_reflp)

lemma compare_sym: "compare_line l1 l2 \<Longrightarrow> compare_line l2 l1"
  using compare_equivp by (rule equivp_symp)

lemma compare_trans: "compare_line l1 l2 \<Longrightarrow> compare_line l2 l3 \<Longrightarrow> compare_line l1 l3"
  using compare_equivp by (rule equivp_transp)

end

lemma equivp_of_iff:
  assumes "\<And>x y. R x y \<longleftrightarrow> (if a then f x = f y else if b then g x = g y else c \<longrightarrow> h x = h y \<and> k x = k y)"
  shows "equivp R"
  by (rule equivpI) (auto intro!: reflpI sympI transpI simp: assms split: if_splits)

interpretation exact: line_compare "(=)" compute_hash_exact
  by unfold_locales (simp_all add: identity_equivp)

interpretation octets: line_compare "compare_line_bytes fl" "compute_hash_bytes fl"
proof
  show "equivp (compare_line_bytes fl)"
    by (rule equivp_of_iff) (simp only: compare_line_bytes_def compare_switch_iff)
  show "compare_line_bytes fl l1 l2 \<Longrightarrow> compute_hash_bytes fl l1 = compute_hash_bytes fl l2" for l1 l2
    by (simp add: compare_line_bytes_def compute_hash_bytes_def hash_switch_eq)
qed

interpretation unicode: line_compare "compare_line_unicode fl low" "compute_hash_unicode fl low"
proof
  show "equivp (compare_line_unicode fl low)"
    by (rule equivp_of_iff) (simp only: compare_line_unicode_def compare_switch_iff)
  show "compare_line_unicode fl low l1 l2 \<Longrightarrow> compute_hash_unicode fl low l1 = compute_hash_unicode fl low l2" for l1 l2
    by (simp add: compare_line_unicode_def compute_hash_unicode_def hash_switch_eq)
qed

interpretation choice: line_compare "choose_compare_line fl low" "choose_compute_hash fl low"
  by unfold_locales
    (auto simp: choose_compare_line_def choose_compute_hash_def identity_equivp octets.compare_equivp
      unicode.compare_equivp octets.compare_hash unicode.compare_hash split: if_splits)

text \<open>
  C24. For every setting of the flags and every lower-case function, the comparison that is chosen is an
  equivalence, and lines that it takes for equal have the same hash, so that looking a line up by
  its hash never misses an equal one.
\<close>

theorem choice_is_congruent:
  "equivp (choose_compare_line fl low) \<and>
   (\<forall>l1 l2. choose_compare_line fl low l1 l2 \<longrightarrow> choose_compute_hash fl low l1 = choose_compute_hash fl low l2)"
  using choice.compare_equivp choice.compare_hash by blast

theorem choice_is_congruent_witness:
  "choose_compute_hash (default_flags\<lparr>cmp_ignore_space_change := True\<rparr>) id ''a b'' =
   choose_compute_hash (default_flags\<lparr>cmp_ignore_space_change := True\<rparr>) id '' a   b ''"
proof -
  have "choose_compare_line (default_flags\<lparr>cmp_ignore_space_change := True\<rparr>) id ''a b'' '' a   b ''"
    by code_simp
  then show ?thesis
    using choice_is_congruent [of "default_flags\<lparr>cmp_ignore_space_change := True\<rparr>" id] by blast
qed


section \<open>What the flags mean\<close>

text \<open>The maximal runs of characters that are not spaces.\<close>

fun words_of :: "('v \<Rightarrow> bool) \<Rightarrow> 'v list \<Rightarrow> 'v list list" where
  "words_of sp [] = []"
| "words_of sp (v # l) =
     (if sp v then words_of sp l
      else if l = [] \<or> sp (hd l) then [v] # words_of sp l
      else (v # hd (words_of sp l)) # tl (words_of sp l))"

lemma words_of_ne: "w \<in> set (words_of sp l) \<Longrightarrow> w \<noteq> []"
proof (induction sp l rule: words_of.induct)
  case (2 sp v l)
  then show ?case by (cases "words_of sp l") (auto split: if_splits)
qed simp

lemma words_of_Nil: "words_of sp l = [] \<longleftrightarrow> (\<forall>v \<in> set l. sp v)"
  by (induction sp l rule: words_of.induct) auto

lemma words_of_starts: "l \<noteq> [] \<Longrightarrow> \<not> sp (hd l) \<Longrightarrow> words_of sp l \<noteq> []"
  by (cases l) (auto simp: words_of_Nil)

lemma concat_words_of: "concat (words_of sp l) = filter (\<lambda>v. \<not> sp v) l"
proof (induction sp l rule: words_of.induct)
  case (2 sp v l)
  then show ?case using words_of_starts [of l sp] by (cases "words_of sp l") auto
qed simp

text \<open>The normal form of the comparison and the words determine each other.\<close>

fun pairs_of_words :: "'v list list \<Rightarrow> ('v \<times> bool) list" where
  "pairs_of_words [] = []"
| "pairs_of_words (w # ws) = map (\<lambda>v. (v, False)) (butlast w) @ (last w, ws \<noteq> []) # pairs_of_words ws"

fun words_of_pairs :: "('v \<times> bool) list \<Rightarrow> 'v list list" where
  "words_of_pairs [] = []"
| "words_of_pairs ((v, s) # ps) =
     (if s \<or> ps = [] then [v] # words_of_pairs ps
      else (v # hd (words_of_pairs ps)) # tl (words_of_pairs ps))"

lemma norm_change_words: "norm_change ic sp low l = pairs_of_words (map (map (folded ic low)) (words_of sp l))"
proof (induction sp l rule: words_of.induct)
  case (2 sp v l)
  show ?case
  proof (cases "sp v \<or> l = [] \<or> sp (hd l)")
    case True
    then show ?thesis using 2 by (auto simp: space_follows_def words_of_Nil)
  next
    case False
    then obtain w ws where w: "words_of sp l = w # ws" using words_of_starts [of l sp] by (cases "words_of sp l") auto
    then have "w \<noteq> []" using words_of_ne [of w sp l] by simp
    then show ?thesis using 2 False w by (simp add: space_follows_def)
  qed
qed simp

lemma words_norm_change: "words_of_pairs (norm_change ic sp low l) = map (map (folded ic low)) (words_of sp l)"
proof (induction sp l rule: words_of.induct)
  case (2 sp v l)
  show ?case
  proof (cases "sp v \<or> l = [] \<or> sp (hd l)")
    case True
    then show ?thesis using 2 by (auto simp: space_follows_def norm_change_Nil words_of_Nil)
  next
    case False
    then obtain w ws where w: "words_of sp l = w # ws" using words_of_starts [of l sp] by (cases "words_of sp l") auto
    moreover have "norm_change ic sp low l \<noteq> []" using False by (cases l) (auto simp: norm_change_Nil)
    ultimately show ?thesis using 2 False by (simp add: space_follows_def)
  qed
qed simp

text \<open>
  C25. What the byte comparison compares: with spaces ignored, the texts without their spaces; with
  changes of spaces ignored, the lists of words; otherwise the whole lines; in each case up to
  the case of the letters A to Z when case is ignored. With none of the three flags it is
  never called, and takes all lines for equal.
\<close>

theorem compare_line_bytes_spec:
  "compare_line_bytes fl l1 l2 \<longleftrightarrow>
    (let low = (if cmp_ignore_case fl then to_lower_byte else id) in
     if cmp_ignore_all_space fl
     then map low (filter (\<lambda>b. \<not> is_space b) l1) = map low (filter (\<lambda>b. \<not> is_space b) l2)
     else if cmp_ignore_space_change fl
     then map (map low) (words_of is_space l1) = map (map low) (words_of is_space l2)
     else if cmp_ignore_case fl then map low l1 = map low l2 else True)"
proof -
  have f: "folded ic low = (if ic then low else id)" for ic and low :: "char \<Rightarrow> char"
    by (auto simp: folded_def fun_eq_iff)
  have n: "norm_change ic is_space low l1 = norm_change ic is_space low l2 \<longleftrightarrow>
      map (map (folded ic low)) (words_of is_space l1) = map (map (folded ic low)) (words_of is_space l2)" for ic low
    by (metis norm_change_words words_norm_change)
  show ?thesis
    unfolding compare_line_bytes_def compare_switch_iff Let_def n norm_all_def f [symmetric]
    by (auto simp: f dest: map_eq_imp_length_eq)
qed

section \<open>The lines of a text\<close>

text \<open>Line contents have no newline and no zero byte.\<close>

definition plain :: "bytes \<Rightarrow> bool" where
  "plain l \<longleftrightarrow> CHR 0x0A \<notin> set l \<and> CHR 0x0D \<notin> set l \<and> CHR 0x00 \<notin> set l"

definition newlines :: "bytes set" where
  "newlines = {[CHR 0x0A], [CHR 0x0D], [CHR 0x0D, CHR 0x0A]}"

lemma split_lines_plain: "plain l \<Longrightarrow>
    split_lines_from i lastb cur (l @ rest) =
    split_lines_from (i + length l) (if l = [] then lastb else last l) (rev l @ cur) rest"
proof (induction l arbitrary: i lastb cur)
  case (Cons b l)
  then show ?case by (auto simp: plain_def)
qed simp

lemma split_lines_newline:
  assumes "t \<in> newlines" and "plain l" and "lastb = CHR 0x0D \<longrightarrow> t \<noteq> [CHR 0x0A]"
  shows "split_lines_from i lastb [] (l @ t @ rest) =
    map_option ((#) l) (split_lines_from (i + length l + length t) (last t) [] rest)"
proof -
  have "l \<noteq> [] \<Longrightarrow> last l \<noteq> CHR 0x0D"
    using assms(2) by (metis last_in_set plain_def)
  then show ?thesis
    using assms unfolding split_lines_plain [OF assms(2)] by (auto simp: newlines_def)
qed

lemma split_lines_join:
  "t \<in> newlines \<Longrightarrow> \<forall>l \<in> set ls. plain l \<Longrightarrow> plain r \<Longrightarrow> lastb = CHR 0x0D \<longrightarrow> t \<noteq> [CHR 0x0A] \<Longrightarrow>
   split_lines_from i lastb [] (concat (map (\<lambda>l. l @ t) ls) @ r) = Some (ls @ (if r = [] then [] else [r]))"
proof (induction ls arbitrary: i lastb)
  case Nil
  then show ?case using split_lines_plain [of r i lastb "[]" "[]"] by simp
next
  case (Cons l ls)
  have "last t = CHR 0x0D \<longrightarrow> t \<noteq> [CHR 0x0A]" using Cons.prems(1) by (auto simp: newlines_def)
  then show ?case
    using Cons.IH [of "last t"] Cons.prems by (simp add: split_lines_newline)
qed

text \<open>
  C26. Splitting recovers the lines of a text written with any one of the three newline conventions
  (Unix, old Mac, DOS), whether or not the last line is terminated.
\<close>

theorem split_lines_roundtrip:
  assumes "t \<in> newlines" and "\<forall>l \<in> set ls. plain l" and "plain r"
  shows "split_lines (concat (map (\<lambda>l. l @ t) ls) @ r) = Some (ls @ (if r = [] then [] else [r]))"
  unfolding split_lines_def by (rule split_lines_join) (use assms in auto)

theorem split_lines_roundtrip_witness:
  "split_lines (concat (map (\<lambda>l. l @ [CHR 0x0D, CHR 0x0A]) [''ab'', '''', ''c'']) @ ''d'') =
    Some [''ab'', '''', ''c'', ''d'']"
  using split_lines_roundtrip [of "[CHR 0x0D, CHR 0x0A]" "[''ab'', '''', ''c'']" "''d''"]
  by (simp add: newlines_def plain_def)

end
