(* ===== verification/Go_Strings.thy ===== *)
theory Go_Strings
  imports Go_Base
begin

text \<open>
  The functions of the packages \<open>strings\<close>, \<open>strconv\<close>, \<open>bufio\<close> and \<open>path\<close> that several components use,
  on strings as lists of bytes.
\<close>

section \<open>Numbers\<close>

definition nl :: bytes where "nl = [CHR 0x0A]"

text \<open>\<open>%d\<close>.\<close>

fun digits :: "nat \<Rightarrow> bytes" where
  "digits n = (if n < 10 then [char_of (48 + n)] else digits (n div 10) @ [char_of (48 + n mod 10)])"

declare digits.simps [simp del]

definition itoa :: "int \<Rightarrow> bytes" where
  "itoa i = (if i < 0 then ''-'' @ digits (nat (- i)) else digits (nat i))"

section \<open>The package strings\<close>

definition HasPrefix :: "bytes \<Rightarrow> bytes \<Rightarrow> bool" where
  "HasPrefix s p \<longleftrightarrow> take (length p) s = p"

definition HasSuffix :: "bytes \<Rightarrow> bytes \<Rightarrow> bool" where
  "HasSuffix s p \<longleftrightarrow> HasPrefix (rev s) (rev p)"

fun Index_from :: "nat \<Rightarrow> bytes \<Rightarrow> char \<Rightarrow> nat option" where
  "Index_from i [] c = None"
| "Index_from i (x # s) c = (if x = c then Some i else Index_from (i + 1) s c)"

text \<open>\<open>strings.Index\<close> of a string of one byte; \<^term>\<open>None\<close> is the result -1.\<close>

definition Index :: "bytes \<Rightarrow> char \<Rightarrow> nat option" where
  "Index s c = Index_from 0 s c"

definition TrimLeft :: "bytes \<Rightarrow> bytes \<Rightarrow> bytes" where
  "TrimLeft s cutset = dropWhile (\<lambda>c. c \<in> set cutset) s"

definition Trim :: "bytes \<Rightarrow> bytes \<Rightarrow> bytes" where
  "Trim s cutset = rev (TrimLeft (rev (TrimLeft s cutset)) cutset)"

definition Contains :: "bytes \<Rightarrow> char \<Rightarrow> bool" where
  "Contains s c \<longleftrightarrow> c \<in> set s"

lemma Index_from_eq:
  "Index_from i s c = (if c \<in> set s then Some (i + length (takeWhile (\<lambda>x. x \<noteq> c) s)) else None)"
  by (induction i s c rule: Index_from.induct) auto

lemma Index_None_iff [simp]: "Index s c = None \<longleftrightarrow> c \<notin> set s"
  by (simp add: Index_def Index_from_eq)

lemma Index_append [simp]: "c \<notin> set k \<Longrightarrow> Index (k @ c # v) c = Some (length k)"
proof -
  assume "c \<notin> set k"
  then have "takeWhile (\<lambda>x. x \<noteq> c) k = k" by (simp add: takeWhile_eq_all_conv) blast
  then show ?thesis by (simp add: Index_def Index_from_eq takeWhile_tail)
qed

text \<open>A string that \<open>Trim\<close> leaves as it is.\<close>

definition trimmed :: "bytes \<Rightarrow> bytes \<Rightarrow> bool" where
  "trimmed s cutset \<longleftrightarrow> s = [] \<or> hd s \<notin> set cutset \<and> last s \<notin> set cutset"

lemma TrimLeft_id: "s = [] \<or> hd s \<notin> set cutset \<Longrightarrow> TrimLeft s cutset = s"
  by (cases s) (auto simp: TrimLeft_def)

lemma Trim_id [simp]: "trimmed s cutset \<Longrightarrow> Trim s cutset = s"
  by (cases "s = []") (simp_all add: Trim_def trimmed_def TrimLeft_id hd_rev)

lemma TrimLeft_prefix: "set p \<subseteq> set cutset \<Longrightarrow> TrimLeft (p @ s) cutset = TrimLeft s cutset"
  by (induction p) (auto simp: TrimLeft_def)

lemma Trim_around:
  assumes "set p \<subseteq> set cutset" and "set q \<subseteq> set cutset" and "trimmed s cutset"
  shows "Trim (p @ s @ q) cutset = s"
proof (cases "s = []")
  case True
  have "TrimLeft q cutset = []" using assms(2) TrimLeft_prefix [of q cutset "[]"] by (simp add: TrimLeft_def)
  then show ?thesis using True assms(1) by (simp add: Trim_def TrimLeft_prefix) (simp add: TrimLeft_def)
next
  case False
  then have s: "hd s \<notin> set cutset" "last s \<notin> set cutset" using assms(3) by (auto simp: trimmed_def)
  have "TrimLeft (p @ s @ q) cutset = s @ q" using assms(1) s(1) False by (simp add: TrimLeft_prefix TrimLeft_id)
  moreover have "TrimLeft (rev q @ rev s) cutset = rev s"
    using assms(2) s(2) False by (simp add: TrimLeft_prefix TrimLeft_id hd_rev)
  ultimately show ?thesis by (simp add: Trim_def)
qed

section \<open>Reading lines\<close>

text \<open>
  \<open>bufio.Scanner\<close> with its default split function: lines end with a newline, a carriage return before it is
  dropped, a last line may lack the newline; a line that does not fit the buffer of 64 KB is an error.
\<close>

definition MaxScanTokenSize :: nat where "MaxScanTokenSize = 64 * 1024"

fun raw_lines :: "bytes \<Rightarrow> bytes \<Rightarrow> bytes list" where
  "raw_lines cur [] = (if cur = [] then [] else [cur])"
| "raw_lines cur (c # s) = (if c = CHR 0x0A then cur # raw_lines [] s else raw_lines (cur @ [c]) s)"

definition drop_cr :: "bytes \<Rightarrow> bytes" where
  "drop_cr s = (if s \<noteq> [] \<and> last s = CHR 0x0D then butlast s else s)"

text \<open>The lines that are scanned, and whether a line was too long.\<close>

definition scan_lines :: "bytes \<Rightarrow> bytes list \<times> bool" where
  "scan_lines s =
     (let ls = raw_lines [] s; fit = takeWhile (\<lambda>l. length l < MaxScanTokenSize) ls
      in (map drop_cr fit, length fit < length ls))"

lemma raw_lines_append: "CHR 0x0A \<notin> set l \<Longrightarrow> raw_lines cur (l @ CHR 0x0A # s) = (cur @ l) # raw_lines [] s"
  by (induction l arbitrary: cur) auto

lemma raw_lines_concat:
  "\<forall>l \<in> set ls. CHR 0x0A \<notin> set l \<Longrightarrow> raw_lines [] (concat (map (\<lambda>l. l @ nl) ls)) = ls"
  by (induction ls) (simp_all add: raw_lines_append nl_def)

lemma scan_lines_concat:
  assumes "\<forall>l \<in> set ls. CHR 0x0A \<notin> set l \<and> (l = [] \<or> last l \<noteq> CHR 0x0D) \<and> length l < MaxScanTokenSize"
  shows "scan_lines (concat (map (\<lambda>l. l @ nl) ls)) = (ls, False)"
proof -
  have 1: "raw_lines [] (concat (map (\<lambda>l. l @ nl) ls)) = ls" using assms by (intro raw_lines_concat) simp
  have 2: "takeWhile (\<lambda>l. length l < MaxScanTokenSize) ls = ls" using assms unfolding takeWhile_eq_all_conv by blast
  have 3: "map drop_cr ls = ls" using assms by (intro map_idI) (auto simp: drop_cr_def)
  show ?thesis unfolding scan_lines_def Let_def 1 2 3 by simp
qed

section \<open>The package path\<close>

text \<open>\<open>path.Clean\<close>: the elements of the path, without \<open>.\<close> and empty ones, each \<open>..\<close> taking back the one before.\<close>

fun split_path :: "bytes \<Rightarrow> bytes \<Rightarrow> bytes list" where
  "split_path cur [] = [cur]"
| "split_path cur (c # s) = (if c = CHR ''/'' then cur # split_path [] s else split_path (cur @ [c]) s)"

fun clean_elems :: "bool \<Rightarrow> bytes list \<Rightarrow> bytes list \<Rightarrow> bytes list" where
  "clean_elems rooted acc [] = rev acc"
| "clean_elems rooted acc (e # es) =
     (if e = [] \<or> e = ''.'' then clean_elems rooted acc es
      else if e = ''..'' then
        (if acc \<noteq> [] \<and> hd acc \<noteq> ''..'' then clean_elems rooted (tl acc) es
         else if rooted then clean_elems rooted acc es
         else clean_elems rooted (e # acc) es)
      else clean_elems rooted (e # acc) es)"

fun join_with :: "bytes \<Rightarrow> bytes list \<Rightarrow> bytes" where
  "join_with sep [] = []"
| "join_with sep [x] = x"
| "join_with sep (x # y # xs) = x @ sep @ join_with sep (y # xs)"

definition Clean :: "bytes \<Rightarrow> bytes" where
  "Clean p =
     (if p = [] then ''.''
      else if HasPrefix p ''/'' then ''/'' @ join_with ''/'' (clean_elems True [] (split_path [] p))
      else (let q = join_with ''/'' (clean_elems False [] (split_path [] p)) in if q = [] then ''.'' else q))"

end
