(* ===== verification/Xdiff_Output.thy ===== *)
theory Xdiff_Output
  imports Xdiff_Lines Go_Strings
begin

text \<open>
  Writing the output (\<open>OutputFormat\<close>, the \<open>write_html_*\<close> functions, \<open>split_runes\<close>, the file
  tables and the output lock of \<open>xdiff.go\<close>).

  The buffered output \<open>out\<close> and the mutex \<open>out_lock\<close> are shared by the goroutines; what a function does
  with them, with the files of the system and with the job queue is a list of actions, which it extends at the end. The two buffers of an \<open>OutputFormat\<close> belong to
  one goroutine and are strings. The changers hold a pointer to one \<open>OutputFormat\<close>, which is
  threaded through; its fields and those of \<open>DiffChangerData\<close> are one record.

  Shown: \<open>write_html_bytes\<close> is \<open>html.EscapeString\<close>, what it writes can be read back and holds no markup;
  \<open>split_runes\<close> cuts a line into its characters; and a line whose changes are marked is still that line, with exactly the changed characters marked and every tag closed.
\<close>

section \<open>Formatting\<close>

text \<open>\<open>%-*s\<close> (\<open>%-*d\<close> of the number as a string).\<close>

definition pad :: "int \<Rightarrow> bytes \<Rightarrow> bytes" where
  "pad w s = s @ replicate (nat \<bar>w\<bar> - length s) (CHR '' '')"

text \<open>\<open>html.EscapeString\<close> of the standard library.\<close>

definition esc_char :: "char \<Rightarrow> bytes" where
  "esc_char c = (if c = CHR ''&'' then ''&amp;'' else if c = CHR 0x27 then ''&#39;''
     else if c = CHR ''<'' then ''&lt;'' else if c = CHR ''>'' then ''&gt;''
     else if c = CHR 0x22 then ''&#34;'' else [c])"

definition EscapeString :: "bytes \<Rightarrow> bytes" where
  "EscapeString s = concat (map esc_char s)"

definition html_entity_amp :: bytes where "html_entity_amp = EscapeString ''&''"
definition html_entity_gt :: bytes where "html_entity_gt = EscapeString ''>''"
definition html_entity_lt :: bytes where "html_entity_lt = EscapeString ''<''"
definition html_entity_squote :: bytes where "html_entity_squote = EscapeString [CHR 0x27]"
definition html_entity_dquote :: bytes where "html_entity_dquote = EscapeString [CHR 0x22]"

section \<open>The state\<close>

text \<open>The parts of an \<open>os.FileInfo\<close> that are used; the time is already formatted as \<open>time.RFC1123\<close>.\<close>

record FileInfo =
  fi_Name :: bytes
  fi_Size :: int
  fi_ModTime :: bytes
  fi_IsDir :: bool

datatype OutAction = Lock | Unlock | Write bytes
  | OpenFile bytes | CloseFile bytes | MapFile bytes | UnmapFile bytes
  | AddJob | QueueJob bytes bytes FileInfo FileInfo | JobDone | WaitJobs

type_synonym trace = "OutAction list"

definition out_acquire_lock :: "Flags \<Rightarrow> trace \<Rightarrow> trace" where
  "out_acquire_lock fl tr = (if max_goroutines fl > 1 then tr @ [Lock] else tr)"

definition out_release_lock :: "Flags \<Rightarrow> trace \<Rightarrow> trace" where
  "out_release_lock fl tr = (if max_goroutines fl > 1 then tr @ [Unlock] else tr)"

record OutputFormat =
  buf1 :: bytes
  buf2 :: bytes
  name1 :: bytes
  name2 :: bytes
  fileinfo1 :: "FileInfo option"
  fileinfo2 :: "FileInfo option"
  header_printed :: bool
  lineno_width :: int

record DiffChangerData = OutputFormat +
  file1 :: "bytes list"
  file2 :: "bytes list"

text \<open>The slice \<open>xs[a:b]\<close>, within the length.\<close>

definition slice :: "'a list \<Rightarrow> int \<Rightarrow> int \<Rightarrow> 'a list option" where
  "slice xs a b = (if 0 \<le> a \<and> a \<le> b \<and> b \<le> int (length xs) then Some (take (nat (b - a)) (drop (nat a) xs)) else None)"

lemma slice_Some [go_simps]: "0 \<le> a \<Longrightarrow> a \<le> b \<Longrightarrow> b \<le> int (length xs) \<Longrightarrow> slice xs a b = Some (take (nat (b - a)) (drop (nat a) xs))"
  by (simp add: slice_def)

section \<open>Writing HTML\<close>

text \<open>\<open>cur\<close> is the slice \<open>line[lasti:i]\<close>, reversed.\<close>

fun write_html_bytes_from :: "bytes \<Rightarrow> bytes \<Rightarrow> bytes \<Rightarrow> bytes" where
  "write_html_bytes_from buf cur [] = buf @ rev cur"
| "write_html_bytes_from buf cur (v # line) =
     (if v = CHR ''<'' then write_html_bytes_from (buf @ rev cur @ html_entity_lt) [] line
      else if v = CHR ''>'' then write_html_bytes_from (buf @ rev cur @ html_entity_gt) [] line
      else if v = CHR ''&'' then write_html_bytes_from (buf @ rev cur @ html_entity_amp) [] line
      else if v = CHR 0x27 then write_html_bytes_from (buf @ rev cur @ html_entity_squote) [] line
      else if v = CHR 0x22 then write_html_bytes_from (buf @ rev cur @ html_entity_dquote) [] line
      else write_html_bytes_from buf (v # cur) line)"

definition write_html_bytes :: "bytes \<Rightarrow> bytes \<Rightarrow> bytes" where
  "write_html_bytes buf line = write_html_bytes_from buf [] line"

definition write_html_lineno :: "bytes \<Rightarrow> int \<Rightarrow> int \<Rightarrow> bytes" where
  "write_html_lineno buf lineno width =
     (if lineno > 0 then buf @ ''<span class=\"lno\">'' @ pad width (itoa lineno) @ '' </span>''
      else buf @ ''<span class=\"lno\"> </span>'')"

definition write_html_lineno_unified :: "bytes \<Rightarrow> bytes \<Rightarrow> int \<Rightarrow> int \<Rightarrow> int \<Rightarrow> bytes" where
  "write_html_lineno_unified buf mode lineno1 lineno2 width =
     (let buf = buf @ ''<span class=\"lno\">'';
          buf = (if lineno1 > 0 then buf @ pad width (itoa lineno1) else buf @ pad width []);
          buf = (if lineno2 > 0 then buf @ '' '' @ pad width (itoa lineno2) @ '' ''
                 else buf @ '' '' @ pad width [] @ '' '')
      in buf @ mode @ '' </span>'')"

fun write_html_lines_from :: "bytes \<Rightarrow> bytes list \<Rightarrow> int \<Rightarrow> int \<Rightarrow> bytes" where
  "write_html_lines_from buf [] lineno w = buf"
| "write_html_lines_from buf (line # rest) lineno w =
     write_html_lines_from (write_html_bytes (write_html_lineno buf (lineno + 1) w) line @ nl) rest (lineno + 1) w"

definition write_html_lines :: "bytes \<Rightarrow> bytes \<Rightarrow> bytes list \<Rightarrow> int \<Rightarrow> int \<Rightarrow> bytes" where
  "write_html_lines buf cls lines lineno w =
     write_html_lines_from (buf @ ''<span class=\"'' @ cls @ ''\">'') lines lineno w @ ''</span>''"

fun write_html_lines_unified_from :: "bytes \<Rightarrow> bytes \<Rightarrow> bytes list \<Rightarrow> int \<Rightarrow> int \<Rightarrow> int \<Rightarrow> bytes" where
  "write_html_lines_unified_from buf mode [] s1 s2 w = buf"
| "write_html_lines_unified_from buf mode (line # rest) s1 s2 w =
     (let s1 = (if s1 \<ge> 0 then s1 + 1 else s1); s2 = (if s2 \<ge> 0 then s2 + 1 else s2)
      in write_html_lines_unified_from
           (write_html_bytes (write_html_lineno_unified buf mode s1 s2 w) line @ nl) mode rest s1 s2 w)"

definition write_html_lines_unified ::
  "bytes \<Rightarrow> bytes \<Rightarrow> bytes \<Rightarrow> bytes list \<Rightarrow> int \<Rightarrow> int \<Rightarrow> int \<Rightarrow> bytes"
where
  "write_html_lines_unified buf cls mode lines s1 s2 w =
     write_html_lines_unified_from (buf @ ''<span class=\"'' @ cls @ ''\">'') mode lines s1 s2 w @ ''</span>''"

definition write_html_blanks :: "bytes \<Rightarrow> int \<Rightarrow> bytes" where
  "write_html_blanks buf n =
     buf @ ''<span class=\"nop\">'' @ concat (replicate (nat n) (''<span class=\"lno\"> </span>'' @ nl)) @ ''</span>''"

definition html_preview_file :: "bytes \<Rightarrow> bytes list \<Rightarrow> bytes" where
  "html_preview_file buf lines =
     (let n = min 10 (length lines); w = int (length (itoa (int n)))
      in write_html_lines_from (buf @ ''<span class=\"nop\">'') (take n lines) 0 w @ ''</span></span>'')"

section \<open>The characters of a line\<close>

text \<open>
  \<open>s\<close> is the rest of the line at position \<open>i\<close>; \<open>low\<close> is \<open>unicode.ToLower\<close>. The result is the pair of the
  positions and the characters from there on.
\<close>

function split_runes_from :: "Flags \<Rightarrow> (nat \<Rightarrow> nat) \<Rightarrow> int \<Rightarrow> bytes \<Rightarrow> int list \<times> int list" where
  "split_runes_from fl low i [] = ([i], [])"
| "split_runes_from fl low i (b # rest) =
     (let (r, rsize) = decode_rune (b # rest);
          (h, size) =
            (if (of_char b :: nat) < 0x80 then
               (if cmp_ignore_case fl then
                  (if unicode_case_and_space fl then int (low (of_char b)) else of_char (to_lower_byte b))
                else of_char b, 1)
             else (if cmp_ignore_case fl \<and> unicode_case_and_space fl then int (low r) else int r, rsize));
          (pos, cmp) = split_runes_from fl low (i + int size) (drop (size - 1) rest)
      in (i # pos, h # cmp))"
  by pat_completeness auto
termination
  by (relation "measure (\<lambda>(fl, low, i, s). length s)") auto

declare split_runes_from.simps(2) [simp del]

definition split_runes :: "Flags \<Rightarrow> (nat \<Rightarrow> nat) \<Rightarrow> bytes \<Rightarrow> int list \<times> int list" where
  "split_runes fl low s = split_runes_from fl low 0 s"

text \<open>The line with its changes marked.\<close>

function change_run :: "bool list \<Rightarrow> bool \<Rightarrow> int \<Rightarrow> int option" where
  "change_run change c j =
     (if j < int (length change) then
        do { b \<leftarrow> idx change j; if b = c then change_run change c (j + 1) else Some j }
      else Some j)"
  by pat_completeness auto
termination by (relation "measure (\<lambda>(change, c, j). nat (int (length change) - j))") auto

declare change_run.simps [simp del]

lemma change_run_ge: "change_run change c j = Some k \<Longrightarrow> j \<le> k"
proof (induction change c j rule: change_run.induct)
  case (1 change c j)
  show ?case
  proof (cases "j < int (length change) \<and> idx change j = Some c")
    case True
    then have "change_run change c (j + 1) = Some k" using "1.prems" by (subst (asm) change_run.simps) simp
    then show ?thesis using "1.IH" True by fastforce
  next
    case False
    then show ?thesis using "1.prems"
      by (subst (asm) change_run.simps) (auto split: if_splits simp: bind_eq_Some_conv)
  qed
qed

function write_html_line_change_from ::
  "bytes \<Rightarrow> bytes \<Rightarrow> int list \<Rightarrow> bool list \<Rightarrow> int \<Rightarrow> bool \<Rightarrow> bytes option"
where
  "write_html_line_change_from buf line pos change i in_chg =
     (if i < int (length change) then
        do { c \<leftarrow> idx change i;
             j \<leftarrow> change_run change c (i + 1);
             let buf = (if c \<and> \<not> in_chg then buf @ ''<span class=\"chg\">''
                        else if \<not> c \<and> in_chg then buf @ ''</span>'' else buf);
             a \<leftarrow> idx pos i;
             b \<leftarrow> idx pos j;
             text \<leftarrow> slice line a b;
             write_html_line_change_from (write_html_bytes buf text) line pos change j c }
      else Some (if in_chg then buf @ ''</span>'' else buf))"
  by pat_completeness auto
termination
  by (relation "measure (\<lambda>(buf, line, pos, change, i, in_chg). nat (int (length change) - i))")
    (auto dest: change_run_ge)

declare write_html_line_change_from.simps [simp del]

definition write_html_line_change :: "bytes \<Rightarrow> bytes \<Rightarrow> int list \<Rightarrow> bool list \<Rightarrow> bytes option" where
  "write_html_line_change buf line pos change = write_html_line_change_from buf line pos change 0 False"

section \<open>The table of a pair of files\<close>

definition file_info_text :: "bytes \<Rightarrow> FileInfo option \<Rightarrow> trace" where
  "file_info_text before info =
     (case info of
        None \<Rightarrow> []
      | Some fi \<Rightarrow> [Write (before @ ''<span class=\"inf\">'' @ itoa (fi_Size fi) @ '' '' @ fi_ModTime fi @ ''</span>'')])"

definition html_file_table :: "Flags \<Rightarrow> 'a OutputFormat_scheme \<Rightarrow> trace \<Rightarrow> 'a OutputFormat_scheme \<times> trace" where
  "html_file_table fl outfmt tr =
     (if \<not> header_printed outfmt then
        (let tr = out_acquire_lock fl tr;
             outfmt = outfmt\<lparr>header_printed := True\<rparr>;
             tr = tr @ [Write ''<table class=\"tab\"><tr><td class=\"tth\"><span class=\"hdr\">''];
             tr = tr @ [Write (EscapeString (name1 outfmt)), Write ''</span>''];
             tr = tr @ file_info_text ''<br>'' (fileinfo1 outfmt);
             tr = tr @ [Write ''</td><td class=\"tth\"><span class=\"hdr\">''];
             tr = tr @ [Write (EscapeString (name2 outfmt)), Write ''</span>''];
             tr = tr @ file_info_text ''<br>'' (fileinfo2 outfmt)
         in (outfmt, tr @ [Write ''</td></tr>'']))
      else (outfmt, tr))"

definition html_file_table_unified ::
  "Flags \<Rightarrow> 'a OutputFormat_scheme \<Rightarrow> trace \<Rightarrow> 'a OutputFormat_scheme \<times> trace"
where
  "html_file_table_unified fl outfmt tr =
     (if \<not> header_printed outfmt then
        (let tr = out_acquire_lock fl tr;
             outfmt = outfmt\<lparr>header_printed := True\<rparr>;
             tr = tr @ [Write ''<table class=\"tab\"><tr><td class=\"tth\"><span class=\"hdr\">''];
             tr = tr @ [Write (EscapeString (name1 outfmt)), Write ''</span>''];
             tr = tr @ file_info_text '' '' (fileinfo1 outfmt);
             tr = tr @ [Write ''<br><span class=\"hdr\">''];
             tr = tr @ [Write (EscapeString (name2 outfmt)), Write ''</span>''];
             tr = tr @ file_info_text '' '' (fileinfo2 outfmt)
         in (outfmt, tr @ [Write ''</td></tr>'']))
      else (outfmt, tr))"


section \<open>Escaping\<close>

lemma EscapeString_simps [simp]:
  "EscapeString [] = []" "EscapeString (c # s) = esc_char c @ EscapeString s"
  "EscapeString (s @ t) = EscapeString s @ EscapeString t"
  by (simp_all add: EscapeString_def)

lemmas entity_defs = html_entity_amp_def html_entity_gt_def html_entity_lt_def html_entity_squote_def
  html_entity_dquote_def

lemma write_html_bytes_from_eq:
  "\<forall>c \<in> set cur. esc_char c = [c] \<Longrightarrow> write_html_bytes_from buf cur line = buf @ rev cur @ EscapeString line"
proof (induction line arbitrary: buf cur)
  case (Cons v line)
  show ?case
  proof (cases "esc_char v = [v]")
    case True
    then have "v \<noteq> CHR ''<''" "v \<noteq> CHR ''>''" "v \<noteq> CHR ''&''" "v \<noteq> CHR 0x27" "v \<noteq> CHR 0x22"
      by (auto simp: esc_char_def)
    then show ?thesis using Cons True by simp
  next
    case False
    then have "v \<in> {CHR ''<'', CHR ''>'', CHR ''&'', CHR 0x27, CHR 0x22}"
      by (auto simp: esc_char_def split: if_splits)
    then show ?thesis using Cons.IH [of "[]"] by (auto simp: entity_defs)
  qed
qed simp

lemma write_html_bytes_eq [simp]: "write_html_bytes buf line = buf @ EscapeString line"
  by (simp add: write_html_bytes_def write_html_bytes_from_eq)

definition markup :: "char set" where "markup = {CHR ''<'', CHR ''>'', CHR 0x22, CHR 0x27}"

lemma esc_char_markup: "set (esc_char c) \<inter> markup = {}"
  by (auto simp: esc_char_def markup_def split: if_splits)

lemma EscapeString_markup: "set (EscapeString s) \<inter> markup = {}"
  using esc_char_markup by (induction s) auto

lemma esc_char_inj: "esc_char c @ s = esc_char d @ t \<longleftrightarrow> c = d \<and> s = t"
  by (auto simp: esc_char_def split: if_splits)

lemma EscapeString_inj: "EscapeString s = EscapeString t \<longleftrightarrow> s = t"
proof (induction s arbitrary: t)
  case Nil
  show ?case by (cases t) (auto simp: esc_char_def)
next
  case (Cons c s)
  show ?case
  proof (cases t)
    case Nil
    then show ?thesis by (auto simp: esc_char_def)
  qed (use Cons in \<open>simp add: esc_char_inj\<close>)
qed

text \<open>
  C30. Lines are written as text, not as markup. \<open>write_html_bytes\<close> appends to the buffer exactly what
  \<open>html.EscapeString\<close> gives; that holds no character of markup, and different lines are written
  differently.
\<close>

theorem write_html_bytes_escapes:
  "write_html_bytes buf line = buf @ EscapeString line \<and>
   set (EscapeString line) \<inter> {CHR ''<'', CHR ''>'', CHR 0x22, CHR 0x27} = {} \<and>
   (write_html_bytes buf line = write_html_bytes buf line' \<longleftrightarrow> line = line')"
  using EscapeString_markup [of line] by (simp add: EscapeString_inj markup_def)

section \<open>Reading HTML\<close>

text \<open>
  A reader of what is written: the characters outside tags, each with the tags it is in, innermost first. A tag is kept with its attributes;
  a closing tag must have the name of the innermost tag that is open. \<open>tag\<close> is the tag being read, if any; nothing is read if the text ends within one.
\<close>

definition tag_step :: "bytes \<Rightarrow> bytes list \<Rightarrow> bytes list option" where
  "tag_step tag st =
     (if take 1 tag = ''/'' then
        (case st of [] \<Rightarrow> None | t # st \<Rightarrow> if takeWhile (\<lambda>c. c \<noteq> CHR '' '') t = drop 1 tag then Some st else None)
      else Some (tag # st))"

fun read_html :: "bytes list \<Rightarrow> bytes option \<Rightarrow> bytes \<Rightarrow> ((char \<times> bytes list) list \<times> bytes list) option" where
  "read_html st None [] = Some ([], st)"
| "read_html st (Some tag) [] = None"
| "read_html st None (c # s) = (if c = CHR ''<'' then read_html st (Some []) s else map_option (apfst ((#) (c, st))) (read_html st None s))"
| "read_html st (Some tag) (c # s) =
     (if c = CHR ''>'' then Option.bind (tag_step tag st) (\<lambda>st. read_html st None s) else read_html st (Some (tag @ [c])) s)"

text \<open>Read from \<open>st\<close> on, a piece of text shows some characters and leaves the tags \<open>st'\<close> open.\<close>

definition reads :: "bytes list \<Rightarrow> bytes \<Rightarrow> (char \<times> bytes list) list \<Rightarrow> bytes list \<Rightarrow> bool" where
  "reads st s xs st' \<longleftrightarrow> read_html st None s = Some (xs, st')"

definition within :: "bytes list \<Rightarrow> bytes \<Rightarrow> (char \<times> bytes list) list" where
  "within st t = map (\<lambda>c. (c, st)) t"

text \<open>What a whole buffer shows, and the tags that are still open at its end; \<open>[]\<close> if each tag is closed by its own closing tag.\<close>

definition shows_html :: "bytes list \<Rightarrow> bytes \<Rightarrow> bytes \<Rightarrow> bool" where
  "shows_html st buf t \<longleftrightarrow> (\<exists>xs. reads [] buf xs st \<and> map fst xs = t)"

lemma read_html_append:
  "read_html st tag s = Some (xs, st1) \<Longrightarrow> read_html st tag (s @ t) = map_option (apfst ((@) xs)) (read_html st1 None t)"
proof (induction st tag s arbitrary: xs rule: read_html.induct)
  case (1 st)
  then show ?case by (cases "read_html st1 None t") auto
next
  case (3 st c s)
  show ?case
  proof (cases "c = CHR ''<''")
    case False
    then obtain ys where "read_html st None s = Some (ys, st1)" "xs = (c, st) # ys" using "3.prems" by auto
    then show ?thesis using "3.IH"(2) [OF False] False by (simp add: option.map_comp comp_def apfst_def map_prod_def split_beta)
  qed (use 3 in simp)
qed (auto split: if_splits Option.bind_splits)

lemma reads_append: "reads st s xs st1 \<Longrightarrow> reads st1 t ys st2 \<Longrightarrow> reads st (s @ t) (xs @ ys) st2"
  by (simp add: reads_def read_html_append)

lemma reads_Nil: "reads st [] [] st"
  by (simp add: reads_def)

lemma reads_plain: "CHR ''<'' \<notin> set s \<Longrightarrow> reads st s (within st s) st"
  unfolding reads_def within_def by (induction s) auto

lemma reads_escaped: "reads st (EscapeString s) (within st (EscapeString s)) st"
  using EscapeString_markup [of s] by (intro reads_plain) (auto simp: markup_def)

lemma within_simps [simp]: "within st [] = []" "map fst (within st t) = t" "within st (s @ t) = within st s @ within st t"
  by (simp_all add: within_def comp_def)

lemma shows_html_reads: "shows_html st s t \<Longrightarrow> reads st u ys st' \<Longrightarrow> shows_html st' (s @ u) (t @ map fst ys)"
  unfolding shows_html_def by (metis reads_append map_append)

lemma shows_html_Nil [simp]: "shows_html [] [] []"
  by (simp add: shows_html_def reads_def)

lemma shows_html_str: "shows_html st s t \<Longrightarrow> CHR ''<'' \<notin> set u \<Longrightarrow> shows_html st (s @ u) (t @ u)"
  using shows_html_reads [OF _ reads_plain] by fastforce

lemma shows_html_escaped: "shows_html st s t \<Longrightarrow> shows_html st (s @ EscapeString u) (t @ EscapeString u)"
  using shows_html_reads [OF _ reads_escaped] by fastforce

lemma shows_html_tag: "shows_html st s t \<Longrightarrow> reads st u [] st' \<Longrightarrow> shows_html st' (s @ u) t"
  using shows_html_reads [of st s t u "[]" st'] by simp

lemma read_tag: "CHR ''>'' \<notin> set s \<Longrightarrow>
  read_html st (Some tag) (s @ CHR ''>'' # t) = Option.bind (tag_step (tag @ s) st) (\<lambda>st. read_html st None t)"
  by (induction s arbitrary: tag) auto

lemma reads_tag: "CHR ''>'' \<notin> set tag \<Longrightarrow> tag_step tag st = Some st' \<Longrightarrow> reads st (CHR ''<'' # tag @ ''>'') [] st'"
  using read_tag [of tag st "[]" "[]"] by (simp add: reads_def)

text \<open>The span tags; \<open>in_span\<close> is the full text of the tag.\<close>

definition in_span :: "bytes \<Rightarrow> bytes" where
  "in_span cls = ''span class=\"'' @ cls @ ''\"''"

lemma reads_spans:
  "reads st ''<span class=\"add\">'' [] (in_span ''add'' # st)" "reads st ''<span class=\"del\">'' [] (in_span ''del'' # st)"
  "reads st ''<span class=\"nop\">'' [] (in_span ''nop'' # st)" "reads st ''<span class=\"upd\">'' [] (in_span ''upd'' # st)"
  "reads st ''<span class=\"chg\">'' [] (in_span ''chg'' # st)" "reads st ''<span class=\"lno\">'' [] (in_span ''lno'' # st)"
  by (simp_all add: in_span_def reads_def tag_step_def)

lemma in_span_name: "takeWhile (\<lambda>c. c \<noteq> CHR '' '') (in_span cls) = ''span''"
  unfolding in_span_def by simp

lemma end_span_step: "tag_step ''/span'' (in_span cls # st) = Some st"
  by (simp add: tag_step_def in_span_name)

lemma reads_end_span: "reads (in_span cls # st) ''</span>'' [] st"
  using reads_tag [of "''/span''", OF _ end_span_step, of cls st] by simp

section \<open>The characters and changes of a line\<close>

definition cmp_char :: "Flags \<Rightarrow> (nat \<Rightarrow> nat) \<Rightarrow> nat \<Rightarrow> int" where
  "cmp_char fl low r =
     (if cmp_ignore_case fl then
        if unicode_case_and_space fl then int (low r)
        else if r < 0x80 then of_char (to_lower_byte (char_of r)) else int r
      else int r)"

lemma split_runes_from_step:
  "split_runes_from fl low i (b # rest) =
     (let (r, size) = decode_rune (b # rest);
          (pos, cmp) = split_runes_from fl low (i + int size) (drop size (b # rest))
      in (i # pos, cmp_char fl low r # cmp))"
proof (cases "of_char b < (0x80 :: nat)")
  case True
  then show ?thesis
    by (auto simp: split_runes_from.simps decode_rune_ascii cmp_char_def Let_def of_nat_of_char split: prod.splits)
next
  case False
  then have r: "0x80 \<le> fst (decode_rune (b # rest))" by (rule decode_rune_multi)
  have "1 \<le> snd (decode_rune (b # rest))" by (rule decode_rune_size) simp
  then have "drop (snd (decode_rune (b # rest))) (b # rest) = drop (snd (decode_rune (b # rest)) - 1) rest"
    by (simp add: drop_Cons')
  then show ?thesis using False r
    by (auto simp: split_runes_from.simps cmp_char_def Let_def split: prod.splits)
qed


text \<open>The positions are increasing, from \<open>i\<close> to the end of the line.\<close>

lemma split_runes_from_spec:
  "split_runes_from fl low i s = (pos, cmp) \<Longrightarrow>
   cmp = map (cmp_char fl low) (runes s) \<and> length pos = Suc (length cmp) \<and>
   sorted_wrt (<) pos \<and> hd pos = i \<and> last pos = i + int (length s)"
proof (induction s arbitrary: i pos cmp rule: runes.induct)
  case (1 s)
  show ?case
  proof (cases s)
    case Nil
    then show ?thesis using "1.prems" by (auto simp: runes.simps)
  next
    case (Cons b rest)
    obtain r size where d: "decode_rune s = (r, size)" by fastforce
    then have sz: "1 \<le> size" "size \<le> length s"
      using decode_rune_size [of s] decode_rune_le [of s] Cons by simp_all
    obtain pos' cmp' where n: "split_runes_from fl low (i + int size) (drop size s) = (pos', cmp')" by fastforce
    then have p: "pos = i # pos'" "cmp = cmp_char fl low r # cmp'"
      using "1.prems" d Cons by (simp_all add: split_runes_from_step)
    have "s \<noteq> []" using Cons by simp
    from "1.IH" [OF this] n d have IH: "cmp' = map (cmp_char fl low) (runes (drop size s))"
      "length pos' = Suc (length cmp')" "sorted_wrt (<) pos'" "hd pos' = i + int size"
      "last pos' = i + int size + int (length (drop size s))" by auto
    then have "pos' \<noteq> []" by auto
    then obtain q qs where q: "pos' = q # qs" by (cases pos') auto
    then have "sorted_wrt (<) pos" using IH(3,4) sz p(1) by auto
    moreover have "runes s = r # runes (drop size s)" using \<open>s \<noteq> []\<close> d by (subst runes.simps) simp
    ultimately show ?thesis using IH p sz q by (auto simp: of_nat_diff)
  qed
qed

lemma sorted_wrt_less_nth: "sorted_wrt (<) (xs :: int list) \<Longrightarrow> i \<le> j \<Longrightarrow> j < length xs \<Longrightarrow> xs ! i \<le> xs ! j"
  by (cases "i = j") (auto dest: sorted_wrt_nth_less [of "(<)" xs i j])

text \<open>
  The characters of a line. For every line \<open>split_runes\<close> gives one number per character, its code point
  (of its lower-case form where case is ignored), and one more position than characters; the positions
  are increasing, from the start of the line to its end.
\<close>

theorem split_runes_spec:
  "\<exists>pos. split_runes fl low s = (pos, map (cmp_char fl low) (runes s)) \<and>
     length pos = Suc (length (runes s)) \<and> sorted_wrt (<) pos \<and> pos ! 0 = 0 \<and> pos ! length (runes s) = int (length s)"
proof -
  obtain pos cmp where p: "split_runes_from fl low 0 s = (pos, cmp)" by fastforce
  from split_runes_from_spec [OF p] have *: "cmp = map (cmp_char fl low) (runes s)" "length pos = Suc (length (runes s))"
    "sorted_wrt (<) pos" "hd pos = 0" "last pos = int (length s)" by auto
  then have "pos \<noteq> []" by auto
  then show ?thesis using p by (intro exI [of _ pos]) (use * in \<open>simp add: split_runes_def hd_conv_nth last_conv_nth\<close>)
qed

lemma change_run_Some:
  "j \<le> length cs \<Longrightarrow> \<exists>k. change_run cs c (int j) = Some (int k) \<and> j \<le> k \<and> k \<le> length cs \<and> (\<forall>i. j \<le> i \<and> i < k \<longrightarrow> cs ! i = c)"
proof (induction "length cs - j" arbitrary: j)
  case 0
  then show ?case by (subst change_run.simps) auto
next
  case (Suc m)
  have m: "m = length cs - Suc j" "Suc j \<le> length cs" using Suc.hyps(2) by simp_all
  obtain k where k: "change_run cs c (int (Suc j)) = Some (int k)" "Suc j \<le> k" "k \<le> length cs" "\<forall>i. Suc j \<le> i \<and> i < k \<longrightarrow> cs ! i = c"
    using Suc.hyps(1) [OF m] by blast
  have j: "j < length cs" using Suc.hyps(2) by simp
  show ?case
  proof (cases "cs ! j = c")
    case True
    then have "\<forall>i. j \<le> i \<and> i < k \<longrightarrow> cs ! i = c" using k(4) by (metis Suc_leI le_neq_implies_less)
    then show ?thesis using k j True
      by (subst change_run.simps) (auto simp: idx_nat add.commute intro!: exI [of _ k])
  next
    case False
    then show ?thesis using j by (subst change_run.simps) (auto simp: idx_nat intro!: exI [of _ j])
  qed
qed

definition cuts :: "int list \<Rightarrow> bytes \<Rightarrow> nat \<Rightarrow> bool" where
  "cuts pos line n \<longleftrightarrow> length pos = Suc n \<and> sorted_wrt (<) pos \<and> pos ! 0 = 0 \<and> pos ! n = int (length line)"

text \<open>The characters of a line as byte strings, and where the positions cut it.\<close>

function chars_of :: "bytes \<Rightarrow> bytes list" where
  "chars_of s = (if s = [] then [] else take (snd (decode_rune s)) s # chars_of (drop (snd (decode_rune s)) s))"
  by pat_completeness auto
termination
proof (relation "measure length")
  fix s :: bytes
  assume "s \<noteq> []"
  then have "1 \<le> snd (decode_rune s)" "0 < length s" using decode_rune_size [of s] by auto
  then show "(drop (snd (decode_rune s)) s, s) \<in> measure length" by auto
qed simp

declare chars_of.simps [simp del]

definition piece :: "int list \<Rightarrow> bytes \<Rightarrow> nat \<Rightarrow> bytes" where
  "piece pos s k = take (nat (pos ! Suc k - pos ! k)) (drop (nat (pos ! k)) s)"

lemma concat_chars_of: "concat (chars_of s) = s"
  by (induction s rule: chars_of.induct) (subst chars_of.simps, simp)

lemma split_runes_from_chars:
  "split_runes_from fl low i s = (pos, cmp) \<Longrightarrow> chars_of s = map (piece (map (\<lambda>p. p - i) pos) s) [0..<length cmp]"
proof (induction s arbitrary: i pos cmp rule: chars_of.induct)
  case (1 s)
  show ?case
  proof (cases s)
    case Nil
    then show ?thesis using "1.prems" by (auto simp: chars_of.simps)
  next
    case (Cons b rest)
    obtain r size where d: "decode_rune s = (r, size)" by fastforce
    then have sz: "1 \<le> size" "size \<le> length s"
      using decode_rune_size [of s] decode_rune_le [of s] Cons by simp_all
    obtain pos' cmp' where n: "split_runes_from fl low (i + int size) (drop size s) = (pos', cmp')" by fastforce
    then have p: "pos = i # pos'" "cmp = cmp_char fl low r # cmp'"
      using "1.prems" d Cons by (simp_all add: split_runes_from_step)
    have "s \<noteq> []" using Cons by simp
    from "1.IH" [OF this] n d
    have IH: "chars_of (drop size s) = map (piece (map (\<lambda>p. p - (i + int size)) pos') (drop size s)) [0..<length cmp']" by auto
    from split_runes_from_spec [OF n]
    have s': "length pos' = Suc (length cmp')" "sorted_wrt (<) pos'" "hd pos' = i + int size" by auto
    have h: "pos' ! 0 = i + int size" using s'(1,3) by (cases pos') auto
    have ge: "i + int size \<le> pos' ! k" if "k < length pos'" for k
      using sorted_wrt_less_nth [OF s'(2), of 0 k] that h by simp
    have "piece (map (\<lambda>p. p - i) pos) s (Suc k) = piece (map (\<lambda>p. p - (i + int size)) pos') (drop size s) k" if "k < length cmp'" for k
    proof -
      have "nat (pos' ! k - i) = nat (pos' ! k - (i + int size)) + size" using ge [of k] that s'(1) by simp
      then show ?thesis using that s'(1) by (simp add: piece_def p(1))
    qed
    moreover have "piece (map (\<lambda>p. p - i) pos) s 0 = take size s" using s'(1) h by (simp add: piece_def p(1))
    moreover have "chars_of s = take size s # chars_of (drop size s)" using \<open>s \<noteq> []\<close> d by (subst chars_of.simps) simp
    ultimately show ?thesis using IH p(2) by (simp add: upt_conv_Cons map_Suc_upt [symmetric] del: upt_Suc)
  qed
qed

lemma length_chars_of: "length (chars_of s) = length (runes s)"
  by (induction s rule: chars_of.induct) (subst chars_of.simps, subst runes.simps, simp)

lemma concat_pieces:
  "cuts pos line n \<Longrightarrow> i \<le> j \<Longrightarrow> j \<le> n \<Longrightarrow> concat (map (piece pos line) [i..<j]) = take (nat (pos ! j - pos ! i)) (drop (nat (pos ! i)) line)"
proof (induction "j - i" arbitrary: j)
  case 0
  then show ?case by simp
next
  case (Suc m)
  then obtain k where j: "j = Suc k" "i \<le> k" "m = k - i" by (cases j) auto
  have p: "0 \<le> pos ! i" "pos ! i \<le> pos ! k" "pos ! k \<le> pos ! j"
    using Suc.prems j sorted_wrt_less_nth [of pos 0 i] sorted_wrt_less_nth [of pos i k] sorted_wrt_less_nth [of pos k j]
    by (simp_all add: cuts_def)
  have n: "nat (pos ! j - pos ! i) = nat (pos ! k - pos ! i) + nat (pos ! j - pos ! k)"
    "nat (pos ! k) = nat (pos ! k - pos ! i) + nat (pos ! i)" using p by simp_all
  have "concat (map (piece pos line) [i..<k]) = take (nat (pos ! k - pos ! i)) (drop (nat (pos ! i)) line)"
    using Suc j by simp
  moreover have "[i..<j] = [i..<k] @ [k]" using j(1,2) by simp
  moreover have "piece pos line k = take (nat (pos ! j - pos ! k)) (drop (nat (pos ! k - pos ! i)) (drop (nat (pos ! i)) line))"
    by (simp only: piece_def drop_drop flip: j(1) n(2))
  ultimately show ?case by (simp only: map_append concat_append n(1) take_add) simp
qed

text \<open>The line with its characters where they are shown: within a \<open>chg\<close> span if their flag is set.\<close>

definition style :: "bytes list \<Rightarrow> bool \<Rightarrow> bytes list" where
  "style st f = (if f then in_span ''chg'' # st else st)"

definition marked :: "bytes list \<Rightarrow> bytes list \<Rightarrow> bool list \<Rightarrow> (char \<times> bytes list) list" where
  "marked st chs cs = concat (map2 (\<lambda>ch f. within (style st f) (EscapeString ch)) chs cs)"

lemma marked_append: "length xs = length cs \<Longrightarrow> marked st (xs @ ys) (cs @ ds) = marked st xs cs @ marked st ys ds"
  by (simp add: marked_def)

lemma marked_replicate: "marked st xs (replicate (length xs) f) = within (style st f) (EscapeString (concat xs))"
  by (induction xs) (simp_all add: marked_def)

lemma marked_run:
  assumes "length chs = length cs" and "i \<le> j" and "j \<le> length cs" and "\<forall>k. i \<le> k \<and> k < j \<longrightarrow> cs ! k = c"
  shows "marked st (drop i chs) (drop i cs) =
    within (style st c) (EscapeString (concat (take (j - i) (drop i chs)))) @ marked st (drop j chs) (drop j cs)"
proof -
  have d: "drop i xs = take (j - i) (drop i xs) @ drop j xs" for xs :: "'a list"
    using assms(2) by (metis append_take_drop_id drop_drop le_add_diff_inverse2)
  have "take (j - i) (drop i cs) = replicate (j - i) c"
    using assms(2-4) by (intro nth_equalityI) auto
  moreover have "length (take (j - i) (drop i chs)) = j - i" using assms(1,3) by simp
  ultimately show ?thesis
    using marked_append [of "take (j - i) (drop i chs)" "take (j - i) (drop i cs)" st "drop j chs" "drop j cs"]
      marked_replicate [of st "take (j - i) (drop i chs)" c] d [of cs] d [of chs] assms(1) by simp
qed

lemma map_fst_marked: "length chs = length cs \<Longrightarrow> map fst (marked st chs cs) = EscapeString (concat chs)"
  by (induction chs cs rule: list_induct2) (simp_all add: marked_def)

lemma write_html_line_change_from_Some:
  assumes c: "cuts pos line (length cs)" and chs: "chs = map (piece pos line) [0..<length cs]"
  shows "i \<le> length cs \<Longrightarrow> \<exists>frag. write_html_line_change_from buf line pos cs (int i) f = Some (buf @ frag) \<and>
    reads (style st f) frag (marked st (drop i chs) (drop i cs)) st"
proof (induction "length cs - i" arbitrary: i buf f rule: less_induct)
  case less
  show ?case
  proof (cases "i < length cs")
    case False
    then have "write_html_line_change_from buf line pos cs (int i) f = Some (buf @ (if f then ''</span>'' else []))"
      by (subst write_html_line_change_from.simps) simp
    moreover have "reads (style st f) (if f then ''</span>'' else []) (marked st (drop i chs) (drop i cs)) st"
      using False by (simp add: marked_def style_def reads_end_span reads_Nil)
    ultimately show ?thesis by (rule_tac exI [of _ "if f then ''</span>'' else []"]) (rule conjI)
  next
    case True
    obtain j where j: "change_run cs (cs ! i) (int (Suc i)) = Some (int j)" "Suc i \<le> j" "j \<le> length cs"
      "\<forall>k. Suc i \<le> k \<and> k < j \<longrightarrow> cs ! k = cs ! i"
      using change_run_Some [of "Suc i" cs "cs ! i"] True by auto
    let ?tag = "if cs ! i \<and> \<not> f then ''<span class=\"chg\">'' else if \<not> cs ! i \<and> f then ''</span>'' else []"
    have p: "0 \<le> pos ! i" "pos ! i \<le> pos ! j" "pos ! j \<le> int (length line)"
      using c j True sorted_wrt_less_nth [of pos 0 i] sorted_wrt_less_nth [of pos i j]
        sorted_wrt_less_nth [of pos j "length cs"] by (simp_all add: cuts_def)
    let ?t = "take (nat (pos ! j - pos ! i)) (drop (nat (pos ! i)) line)"
    have t: "concat (take (j - i) (drop i chs)) = ?t"
      using concat_pieces [OF c _ j(3), of i] j(2,3) by (simp add: chs drop_map take_map)
    have "length cs - j < length cs - i" using j True by simp
    from less.hyps [OF this j(3), of "(buf @ ?tag) @ EscapeString ?t" "cs ! i"] obtain frag where b:
      "write_html_line_change_from ((buf @ ?tag) @ EscapeString ?t) line pos cs (int j) (cs ! i) =
         Some (((buf @ ?tag) @ EscapeString ?t) @ frag)"
      "reads (style st (cs ! i)) frag (marked st (drop j chs) (drop j cs)) st" by blast
    have pj: "idx pos (int i) = Some (pos ! i)" "idx pos (int j) = Some (pos ! j)"
      using c j True by (simp_all add: cuts_def idx_nat)
    have "write_html_line_change_from buf line pos cs (int i) f =
        write_html_line_change_from (write_html_bytes (buf @ ?tag) ?t) line pos cs (int j) (cs ! i)"
      using True j(1) pj p by (subst write_html_line_change_from.simps) (simp add: idx_nat slice_Some add.commute)
    then have eq: "write_html_line_change_from buf line pos cs (int i) f = Some (buf @ (?tag @ EscapeString ?t @ frag))"
      using b(1) by simp
    have "reads (style st f) ?tag [] (style st (cs ! i))"
      by (simp add: style_def reads_spans reads_end_span reads_Nil)
    from reads_append [OF this reads_append [OF reads_escaped b(2)]]
    have r: "reads (style st f) (?tag @ EscapeString ?t @ frag) (within (style st (cs ! i)) (EscapeString ?t) @ marked st (drop j chs) (drop j cs)) st"
      by (simp only: append_Nil)
    have "cs ! k = cs ! i" if "i \<le> k" "k < j" for k using j(4) that by (cases "k = i") auto
    then have all: "\<forall>k. i \<le> k \<and> k < j \<longrightarrow> cs ! k = cs ! i" by blast
    have len: "length chs = length cs" by (simp add: chs)
    have ij: "i \<le> j" using j(2) by simp
    have "marked st (drop i chs) (drop i cs) = within (style st (cs ! i)) (EscapeString ?t) @ marked st (drop j chs) (drop j cs)"
      by (rule marked_run [OF len ij j(3) all, of st, unfolded t])
    then have "reads (style st f) (?tag @ EscapeString ?t @ frag) (marked st (drop i chs) (drop i cs)) st"
      using r by (simp only:)
    with eq show ?thesis by blast
  qed
qed

lemma write_html_line_change_Some:
  assumes "split_runes fl low line = (pos, cmp)" and "length cs = length cmp"
  shows "\<exists>frag. write_html_line_change buf line pos cs = Some (buf @ frag) \<and> reads st frag (marked st (chars_of line) cs) st"
proof -
  have *: "length pos = Suc (length cs)" "sorted_wrt (<) pos" "hd pos = 0" "last pos = int (length line)"
    using split_runes_from_spec [of fl low 0 line pos cmp] assms by (simp_all add: split_runes_def)
  then have "pos \<noteq> []" by auto
  then have "cuts pos line (length cs)" using * by (simp add: cuts_def hd_conv_nth last_conv_nth)
  moreover have "chars_of line = map (piece pos line) [0..<length cs]"
    using split_runes_from_chars [of fl low 0 line pos cmp] assms by (simp add: split_runes_def)
  ultimately show ?thesis
    using write_html_line_change_from_Some [of pos line cs "chars_of line" 0 buf False st]
    by (simp add: write_html_line_change_def style_def)
qed

text \<open>
  C29. Marking the changes of a line. For every line and any flags, one for each of its characters, \<open>write_html_line_change\<close> does not panic. Read from any tags
  \<open>st\<close> on, what it appends shows the characters of the line, escaped and in order, those whose flag is set directly within a span of class \<open>chg\<close> and the others
  without it, and ends with \<open>st\<close> again: every span that is opened is closed. Without the tags it is the escaped line.
\<close>

theorem write_html_line_change_shows_line:
  assumes "length cs = length (runes line)"
  shows "\<exists>out. write_html_line_change buf line (fst (split_runes fl low line)) cs = Some (buf @ out) \<and>
    read_html st None out =
      Some (concat (map2 (\<lambda>ch f. within (if f then in_span ''chg'' # st else st) (EscapeString ch)) (chars_of line) cs), st) \<and>
    concat (chars_of line) = line \<and> length (chars_of line) = length cs \<and>
    map fst (concat (map2 (\<lambda>ch f. within (if f then in_span ''chg'' # st else st) (EscapeString ch)) (chars_of line) cs)) = EscapeString line"
proof -
  obtain pos cmp where p: "split_runes fl low line = (pos, cmp)" by fastforce
  then have "length cs = length cmp" using assms split_runes_from_spec [of fl low 0 line pos cmp] by (simp add: split_runes_def)
  from write_html_line_change_Some [OF p this, of buf st] obtain out where
    out: "write_html_line_change buf line pos cs = Some (buf @ out)" "reads st out (marked st (chars_of line) cs) st" by blast
  have "length (chars_of line) = length cs" using assms by (simp add: length_chars_of)
  then show ?thesis
    using out map_fst_marked [of "chars_of line" cs st] p
    by (intro exI [of _ out]) (simp add: reads_def marked_def style_def [abs_def] concat_chars_of)
qed

theorem write_html_line_change_shows_line_witness:
  "\<exists>out. write_html_line_change ''<b>'' ''a<b'' [0, 1, 2, 3] [True, True, False] = Some (''<b>'' @ out) \<and>
    read_html [''b''] None out =
      Some (within [''span class=\"chg\"'', ''b''] ''a&lt;'' @ within [''b''] ''b'', [''b''])"
proof -
  have "length [True, True, False] = length (runes ''a<b'')" by code_simp
  moreover have "fst (split_runes default_flags id ''a<b'') = [0, 1, 2, 3]" by code_simp
  moreover have "chars_of ''a<b'' = [''a'', ''<'', ''b'']" by code_simp
  ultimately show ?thesis
    using write_html_line_change_shows_line [of "[True, True, False]" "''a<b''" "''<b>''" default_flags id "[''b'']"]
    by (auto simp: esc_char_def within_def in_span_def)
qed

end
