(* ===== verification/Xdiff_Sms.thy ===== *)
theory Xdiff_Sms
  imports Go_Base
begin

text \<open>
  The middle-snake search of the diff (\<open>algorithm_sms\<close> in \<open>xdiff.go\<close>): the two-sided
  search of Myers' O(ND) algorithm on one shared work array \<open>v\<close>. A point is a pair
  \<open>(x, y)\<close> of positions in the two lists and its diagonal is \<open>k = x - y\<close>;
  \<open>v[down_off+k]\<close> holds the furthest \<open>x\<close> that the forward search has on diagonal
  \<open>k\<close>, \<open>v[up_off+k]\<close> the one of the backward search.

  The work array keeps whatever earlier calls left in it, and both searches may walk off the
  grid. The lemmas show that nevertheless every array access is in range, the outer loop
  \<open>for d := 1; true; d++\<close> ends, and the two points returned delimit a run of equal elements
  inside the grid that splits the problem into two strictly smaller ones.
\<close>

section \<open>The code\<close>

text \<open>The inner loops \<open>for u = x; ... ; x++ {}\<close> and \<open>for u = x; ... ; x-- {}\<close>.\<close>

function sms_down :: "int list \<Rightarrow> int list \<Rightarrow> int \<Rightarrow> int \<Rightarrow> int option" where
  "sms_down data1 data2 k x =
     (if x < int (length data1) \<and> x - k < int (length data2) then
        do { a \<leftarrow> idx data1 x; b \<leftarrow> idx data2 (x - k);
             if a = b then sms_down data1 data2 k (x + 1) else Some x }
      else Some x)"
  by pat_completeness auto
termination
  by (relation "measure (\<lambda>(data1, data2, k, x). nat (int (length data1) - x))") auto

function sms_up :: "int list \<Rightarrow> int list \<Rightarrow> int \<Rightarrow> int \<Rightarrow> int option" where
  "sms_up data1 data2 k x =
     (if x > 0 \<and> x > k then
        do { a \<leftarrow> idx data1 (x - 1); b \<leftarrow> idx data2 (x - k - 1);
             if a = b then sms_up data1 data2 k (x - 1) else Some x }
      else Some x)"
  by pat_completeness auto
termination
  by (relation "measure (\<lambda>(data1, data2, k, x). nat x)") auto

declare sms_down.simps [simp del] sms_up.simps [simp del]

text \<open>
  The forward sweep over the diagonals \<open>k = -d, -d+2, ..., d\<close>. It returns the four
  coordinates (and the array) when the searches meet, otherwise the array and \<open>z\<close>.
\<close>

type_synonym sms_result = "(int \<times> int \<times> int \<times> int) \<times> int list"

function sms_forward :: "int list \<Rightarrow> int list \<Rightarrow> bool \<Rightarrow> int \<Rightarrow> int \<Rightarrow> int \<Rightarrow> int \<Rightarrow> int \<Rightarrow>
    int list \<Rightarrow> int \<Rightarrow> (sms_result + int list \<times> int) option" where
  "sms_forward data1 data2 odd_k up_k down_off up_off d k v z =
     (if k \<le> d then
        do { x0 \<leftarrow> idx v (down_off + k + 1);
             let (u, z') = (if k > - d \<and> (k = d \<or> z \<ge> x0) then (z + 1, x0) else (x0, x0));
             x \<leftarrow> sms_down data1 data2 k u;
             hit \<leftarrow> (if odd_k \<and> up_k - d < k \<and> k < up_k + d
                     then do { b \<leftarrow> idx v (up_off + k); Some (b \<le> x) } else Some False);
             if hit then Some (Inl ((u, u - k, x, x - k), v))
             else do { v' \<leftarrow> upd v (down_off + k) x;
                       sms_forward data1 data2 odd_k up_k down_off up_off d (k + 2) v' z' } }
      else Some (Inr (v, z)))"
  by pat_completeness auto
termination
  by (relation "measure (\<lambda>(data1, data2, odd_k, up_k, down_off, up_off, d, k, v, z). nat (d + 2 - k))") auto

text \<open>The backward sweep over \<open>k = up_k-d, ..., up_k+d\<close>.\<close>

function sms_backward :: "int list \<Rightarrow> int list \<Rightarrow> bool \<Rightarrow> int \<Rightarrow> int \<Rightarrow> int \<Rightarrow> int \<Rightarrow> int \<Rightarrow>
    int list \<Rightarrow> int \<Rightarrow> (sms_result + int list \<times> int) option" where
  "sms_backward data1 data2 odd_k up_k down_off up_off d k v z =
     (if k \<le> up_k + d then
        do { (u, z') \<leftarrow> (if k < up_k + d
                then do { z1 \<leftarrow> idx v (up_off + k + 1);
                          Some (if k = up_k - d \<or> z1 \<le> z then z1 - 1 else z, z1) }
                else Some (z, z));
             x \<leftarrow> sms_up data1 data2 k u;
             hit \<leftarrow> (if \<not> odd_k \<and> - d \<le> k \<and> k \<le> d
                     then do { b \<leftarrow> idx v (down_off + k); Some (x \<le> b) } else Some False);
             if hit then Some (Inl ((x, x - k, u, u - k), v))
             else do { v' \<leftarrow> upd v (up_off + k) x;
                       sms_backward data1 data2 odd_k up_k down_off up_off d (k + 2) v' z' } }
      else Some (Inr (v, z)))"
  by pat_completeness auto
termination
  by (relation "measure (\<lambda>(data1, data2, odd_k, up_k, down_off, up_off, d, k, v, z). nat (up_k + d + 2 - k))") auto

declare sms_forward.simps [simp del] sms_backward.simps [simp del]

text \<open>The outer loop \<open>for d := 1; true; d++\<close>: \<^term>\<open>None\<close> would be a panic or no end.\<close>

partial_function (option) sms_loop :: "int list \<Rightarrow> int list \<Rightarrow> bool \<Rightarrow> int \<Rightarrow> int \<Rightarrow> int \<Rightarrow> int \<Rightarrow>
    int list \<Rightarrow> int \<Rightarrow> sms_result option" where
  "sms_loop data1 data2 odd_k up_k down_off up_off d v z =
     do { r \<leftarrow> sms_forward data1 data2 odd_k up_k down_off up_off d (- d) v z;
          case r of
            Inl res \<Rightarrow> Some res
          | Inr (v1, z1) \<Rightarrow>
              do { z2 \<leftarrow> idx v1 (up_off + (up_k - d) - 1);
                   r2 \<leftarrow> sms_backward data1 data2 odd_k up_k down_off up_off d (up_k - d) v1 z2;
                   case r2 of
                     Inl res \<Rightarrow> Some res
                   | Inr (v2, z3) \<Rightarrow>
                       sms_loop data1 data2 odd_k up_k down_off up_off (d + 1) v2 z3 } }"

declare sms_loop.simps [code]

definition algorithm_sms :: "int list \<Rightarrow> int list \<Rightarrow> int list \<Rightarrow> sms_result option" where
  "algorithm_sms data1 data2 v =
     (let end1 = int (length data1); end2 = int (length data2);
          mx = end1 + end2 + 1;
          up_k = end1 - end2;
          down_off = mx; up_off = mx - up_k + mx + mx + 2
      in do { v \<leftarrow> upd v (down_off + 1) 0;
              v \<leftarrow> upd v down_off 0;
              v \<leftarrow> upd v (up_off + up_k - 1) end1;
              v \<leftarrow> upd v (up_off + up_k) end1;
              sms_loop data1 data2 (odd up_k) up_k down_off up_off 1 v 0 })"

section \<open>The snake loops\<close>

text \<open>
  \<open>run_eq\<close> is the run of equal elements of diagonal \<open>k\<close> between two positions. A snake loop
  that starts inside the non-negative quadrant never panics, only moves along equal elements,
  and stays on the grid unless it does not move at all.
\<close>

definition run_eq :: "int list \<Rightarrow> int list \<Rightarrow> int \<Rightarrow> int \<Rightarrow> int \<Rightarrow> bool" where
  "run_eq d1 d2 k lo hi \<longleftrightarrow> (\<forall>i. lo \<le> i \<and> i < hi \<longrightarrow> d1 ! nat i = d2 ! nat (i - k))"

lemma sms_down_Some:
  "0 \<le> x \<Longrightarrow> k \<le> x \<Longrightarrow>
    \<exists>x'. sms_down d1 d2 k x = Some x' \<and> x \<le> x' \<and> run_eq d1 d2 k x x' \<and>
      (x' = x \<or> x' \<le> int (length d1) \<and> x' - k \<le> int (length d2))"
proof (induction d1 d2 k x rule: sms_down.induct)
  case (1 d1 d2 k x)
  show ?case
  proof (cases "x < int (length d1) \<and> x - k < int (length d2) \<and> d1 ! nat x = d2 ! nat (x - k)")
    case True
    with "1.prems" have i: "idx d1 x = Some (d1 ! nat x)" "idx d2 (x - k) = Some (d1 ! nat x)"
      by (simp_all add: idx_def)
    then obtain x' where x': "sms_down d1 d2 k (x + 1) = Some x'" "x + 1 \<le> x'"
      "run_eq d1 d2 k (x + 1) x'" "x' = x + 1 \<or> x' \<le> int (length d1) \<and> x' - k \<le> int (length d2)"
      using "1.IH" [OF _ i] True "1.prems" by auto
    have "run_eq d1 d2 k x x'"
      unfolding run_eq_def using x'(3) True by (smt (verit) run_eq_def)
    then show ?thesis using x' True i by (subst sms_down.simps) auto
  next
    case False
    then show ?thesis using "1.prems" by (subst sms_down.simps) (auto simp: idx_def run_eq_def)
  qed
qed

lemma sms_up_Some:
  "x \<le> int (length d1) \<Longrightarrow> x - k \<le> int (length d2) \<Longrightarrow>
    \<exists>x'. sms_up d1 d2 k x = Some x' \<and> x' \<le> x \<and> run_eq d1 d2 k x' x \<and>
      (x' = x \<or> 0 \<le> x' \<and> k \<le> x')"
proof (induction d1 d2 k x rule: sms_up.induct)
  case (1 d1 d2 k x)
  show ?case
  proof (cases "x > 0 \<and> x > k \<and> d1 ! nat (x - 1) = d2 ! nat (x - k - 1)")
    case True
    with "1.prems" have i: "idx d1 (x - 1) = Some (d1 ! nat (x - 1))"
        "idx d2 (x - k - 1) = Some (d1 ! nat (x - 1))"
      by (simp_all add: idx_def)
    then obtain x' where x': "sms_up d1 d2 k (x - 1) = Some x'" "x' \<le> x - 1"
      "run_eq d1 d2 k x' (x - 1)" "x' = x - 1 \<or> 0 \<le> x' \<and> k \<le> x'"
      using "1.IH" [OF _ i] True "1.prems" by auto
    have "x - k - 1 = (x - 1) - k" by simp
    then have "run_eq d1 d2 k x' x"
      unfolding run_eq_def using x'(3) True by (smt (verit) run_eq_def)
    then show ?thesis using x' True i by (subst sms_up.simps) auto
  next
    case False
    then show ?thesis using "1.prems" by (subst sms_up.simps) (auto simp: idx_def run_eq_def)
  qed
qed

section \<open>One sweep, on functions from diagonals to positions\<close>

text \<open>
  The move before the snake: right from diagonal \<open>k-1\<close> or down from \<open>k+1\<close> (left or up in the
  backward search), whichever gets further, and the position after the snake.
\<close>

definition fmove :: "int \<Rightarrow> (int \<Rightarrow> int) \<Rightarrow> int \<Rightarrow> int" where
  "fmove d F k = (if k > - d \<and> (k = d \<or> F (k - 1) \<ge> F (k + 1)) then F (k - 1) + 1 else F (k + 1))"

definition bmove :: "int \<Rightarrow> int \<Rightarrow> (int \<Rightarrow> int) \<Rightarrow> int \<Rightarrow> int" where
  "bmove up_k d B k =
     (if k < up_k + d \<and> (k = up_k - d \<or> B (k + 1) \<le> B (k - 1)) then B (k + 1) - 1 else B (k - 1))"

definition fstep :: "int list \<Rightarrow> int list \<Rightarrow> int \<Rightarrow> (int \<Rightarrow> int) \<Rightarrow> int \<Rightarrow> int" where
  "fstep d1 d2 d F k = the (sms_down d1 d2 k (fmove d F k))"

definition bstep :: "int list \<Rightarrow> int list \<Rightarrow> int \<Rightarrow> (int \<Rightarrow> int) \<Rightarrow> int \<Rightarrow> int" where
  "bstep d1 d2 d B k = the (sms_up d1 d2 k (bmove (int (length d1) - int (length d2)) d B k))"

text \<open>
  What holds of the forward positions after \<open>d\<close> sweeps on a grid of \<open>n\<close> by \<open>m\<close>: they are
  non-negative, every sweep has advanced \<open>x + y\<close>, and a position that has left the grid on one
  side has a neighbour that is at the border already. The backward positions satisfy the same
  of the grid turned around.
\<close>

definition finv :: "int \<Rightarrow> int \<Rightarrow> int \<Rightarrow> (int \<Rightarrow> int) \<Rightarrow> bool" where
  "finv n m d F \<longleftrightarrow> (\<forall>k. - d \<le> k \<and> k \<le> d \<and> even (k + d) \<longrightarrow>
     0 \<le> F k \<and> k \<le> F k \<and> d \<le> 2 * F k - k \<and>
     (F k > n \<longrightarrow> - d \<le> k - 2 \<and> n \<le> F (k - 2)) \<and>
     (F k - k > m \<longrightarrow> k + 2 \<le> d \<and> m \<le> F (k + 2) - (k + 2)))"

definition binv :: "int \<Rightarrow> int \<Rightarrow> int \<Rightarrow> (int \<Rightarrow> int) \<Rightarrow> bool" where
  "binv n m d B \<longleftrightarrow> finv n m d (\<lambda>k. n - B (n - m - k))"

lemma finvD:
  assumes "finv n m d F" and "- d \<le> k" and "k \<le> d" and "even (k + d)"
  shows "0 \<le> F k" and "k \<le> F k" and "d \<le> 2 * F k - k"
    and "F k > n \<Longrightarrow> - d \<le> k - 2 \<and> n \<le> F (k - 2)"
    and "F k - k > m \<Longrightarrow> k + 2 \<le> d \<and> m \<le> F (k + 2) - (k + 2)"
  using assms unfolding finv_def by blast+

lemma binvD:
  assumes "binv n m d B" and "n - m - d \<le> k" and "k \<le> n - m + d" and "even (k + (n - m) + d)"
  shows "B k \<le> n" and "B k - k \<le> m" and "2 * B k - k \<le> n + m - d"
    and "B k < 0 \<Longrightarrow> k + 2 \<le> n - m + d \<and> B (k + 2) \<le> 0"
    and "B k - k < 0 \<Longrightarrow> n - m - d \<le> k - 2 \<and> B (k - 2) - (k - 2) \<le> 0"
proof -
  have e: "even ((n - m - k) + d)" using assms(4) by presburger
  have k: "n - m - (n - m - k) = k" "n - m - (n - m - k - 2) = k + 2" "n - m - (n - m - k + 2) = k - 2"
    by simp_all
  note D = finvD [OF assms(1) [unfolded binv_def] _ _ e, unfolded k]
  show "B k \<le> n" and "B k - k \<le> m" and "2 * B k - k \<le> n + m - d"
    using D(1,2,3) assms(2,3) by auto
  show "B k < 0 \<Longrightarrow> k + 2 \<le> n - m + d \<and> B (k + 2) \<le> 0" using D(4) assms(2,3) by auto
  show "B k - k < 0 \<Longrightarrow> n - m - d \<le> k - 2 \<and> B (k - 2) - (k - 2) \<le> 0"
    using D(5) assms(2,3) by auto
qed

lemma fmove_cases:
  assumes "1 \<le> d" and "- d \<le> k" and "k \<le> d"
  obtains (right) "- d < k" "fmove d F k = F (k - 1) + 1"
    | (down) "k < d" "fmove d F k = F (k + 1)"
  using assms unfolding fmove_def by (smt (verit))

lemma fmove_ge_down: "k < d \<Longrightarrow> F (k + 1) \<le> fmove d F k"
  and fmove_ge_right: "- d < k \<Longrightarrow> F (k - 1) + 1 \<le> fmove d F k"
  by (auto simp: fmove_def)

lemma finv_step:
  assumes inv: "finv n m (d - 1) F" and d: "1 \<le> d"
    and ge: "\<And>k. - d \<le> k \<Longrightarrow> k \<le> d \<Longrightarrow> even (k + d) \<Longrightarrow> fmove d F k \<le> G k"
    and eq: "\<And>k. - d \<le> k \<Longrightarrow> k \<le> d \<Longrightarrow> even (k + d) \<Longrightarrow>
      G k = fmove d F k \<or> G k \<le> n \<and> G k - k \<le> m"
  shows "finv n m d G"
  unfolding finv_def
proof (intro allI impI)
  fix k assume "- d \<le> k \<and> k \<le> d \<and> even (k + d)"
  then have k: "- d \<le> k" "k \<le> d" and e: "even (k + d)" by auto
  have e1: "even ((k - 1) + (d - 1))" "even ((k + 1) + (d - 1))" using e by presburger+
  have step2: "- d < k \<Longrightarrow> - d \<le> k - 2" "k < d \<Longrightarrow> k + 2 \<le> d" using e k by presburger+
  have low: "F (k - 1) \<le> G (k - 2)" if "- d < k"
    using fmove_ge_down [of "k - 2" d F] ge [of "k - 2"] step2 that k e by simp
  have up: "F (k + 1) + 1 \<le> G (k + 2)" if "k < d"
    using fmove_ge_right [of d "k + 2" F] ge [of "k + 2"] step2 that k e by (simp add: add.commute)
  show "0 \<le> G k \<and> k \<le> G k \<and> d \<le> 2 * G k - k \<and> (G k > n \<longrightarrow> - d \<le> k - 2 \<and> n \<le> G (k - 2)) \<and>
    (G k - k > m \<longrightarrow> k + 2 \<le> d \<and> m \<le> G (k + 2) - (k + 2))"
  proof (cases rule: fmove_cases [OF d k, of F, consumes 0, case_names right down])
    case right
    note I = finvD [OF inv, of "k - 1"]
    have "k + 1 \<le> d - 1 \<Longrightarrow> k < d" by simp
    then show ?thesis
      using I e1 k right(1) step2(1) low ge [OF k e] eq [OF k e] right(2) up by (smt (verit))
  next
    case down
    note I = finvD [OF inv, of "k + 1"]
    show ?thesis
      using I e1 k down(1) step2(2) low ge [OF k e] eq [OF k e] down(2) up by (smt (verit))
  qed
qed

section \<open>The meeting point\<close>

text \<open>
  When the searches meet on diagonal \<open>k\<close> in sweep \<open>d\<close>, after no earlier meeting, the positions
  involved are on the grid and are not the corner the search started from: a position off the
  grid would have met the other search before.
\<close>

lemma odd_meet:
  assumes F0: "finv n m (d - 1) F0" and F1: "finv n m d F1" and d: "1 \<le> d"
    and nm: "2 \<le> n" "2 \<le> m" and odd: "odd (n - m)" and base: "d = 1 \<Longrightarrow> F0 0 = 0"
    and po: "\<And>j. 1 - d \<le> j \<Longrightarrow> j \<le> d - 1 \<Longrightarrow> even (j + (d - 1)) \<Longrightarrow>
      n - m - (d - 1) < j \<Longrightarrow> j < n - m + (d - 1) \<Longrightarrow> F0 j < n \<and> F0 j - j < m"
    and k: "- d \<le> k" "k \<le> d" "even (k + d)" "n - m - d < k" "k < n - m + d"
    and no: "- d \<le> k - 2 \<Longrightarrow> n - m - d < k - 2 \<Longrightarrow> F1 (k - 2) < n"
    and x: "fmove d F0 k \<le> F1 k" "F1 k = fmove d F0 k \<or> F1 k \<le> n \<and> F1 k - k \<le> m"
  shows "F1 k \<le> n" and "F1 k - k \<le> m" and "2 * fmove d F0 k - k < n + m"
proof -
  have e1: "even ((k - 1) + (d - 1))" "even ((k + 1) + (d - 1))" using k(3) by presburger+
  have far: "F1 k > n \<Longrightarrow> k = n - m - d + 1"
    using finvD(4) [OF F1 k(1-3)] no k(3,4) odd by presburger
  have nb: "k + 1 \<le> d - 1 \<and> m \<le> F0 (k + 1) - (k + 1)" if "F1 k - k > m"
  proof (cases rule: fmove_cases [OF d k(1,2), of F0, consumes 0, case_names right down])
    case right
    then have "F0 (k - 1) - (k - 1) > m" using that x by auto
    moreover have "- (d - 1) \<le> k - 1" using right(1) k(3) by presburger
    ultimately show ?thesis using finvD(5) [OF F0 _ _ e1(1)] k(2) by (simp add: add.commute)
  next
    case down
    then have "k + 1 \<le> d - 1" using k(3) by presburger
    then show ?thesis using down(2) that x by auto
  qed
  have far2: "k = n - m + d - 1" if "F1 k - k > m"
    using nb [OF that] po [of "k + 1"] e1(2) k odd by presburger
  have "d \<noteq> 1 \<or> \<not> F1 k - k > m" using nb base k nm by (smt (verit))
  then show y: "F1 k - k \<le> m" using far far2 d by (smt (verit))
  show xn: "F1 k \<le> n" using far y k d by (smt (verit))
  show "2 * fmove d F0 k - k < n + m"
  proof (rule ccontr)
    assume "\<not> ?thesis"
    then have u: "fmove d F0 k = n" "k = n - m" using x(1) xn y by auto
    have r: "- d < k \<Longrightarrow> 2 - d \<le> k" "k < d \<Longrightarrow> k \<le> d - 2" using k(3) by presburger+
    have d3: "d = 1 \<or> 3 \<le> d" using d u(2) k(3) odd by presburger
    show False
    proof (cases rule: fmove_cases [OF d k(1,2), of F0, consumes 0, case_names right down])
      case right
      show ?thesis using d3 po [of "k - 1"] right u base k r nm e1 by (smt (verit))
    next
      case down
      show ?thesis using d3 po [of "k + 1"] down u base k r nm e1 by (smt (verit))
    qed
  qed
qed

lemma bmove_cases:
  assumes "1 \<le> d" and "up_k - d \<le> k" and "k \<le> up_k + d"
  obtains (left) "k < up_k + d" "bmove up_k d B k = B (k + 1) - 1"
    | (up) "up_k - d < k" "bmove up_k d B k = B (k - 1)"
  using assms unfolding bmove_def by (smt (verit))

lemma even_meet:
  assumes B0: "binv n m (d - 1) B0" and B1: "binv n m d B1" and d: "1 \<le> d"
    and even: "even (n - m)"
    and pe: "\<And>j. 1 - d \<le> j \<Longrightarrow> j \<le> d - 1 \<Longrightarrow> even (j + (d - 1)) \<Longrightarrow>
      n - m - (d - 1) \<le> j \<Longrightarrow> j \<le> n - m + (d - 1) \<Longrightarrow> 0 < B0 j \<and> 0 < B0 j - j"
    and k: "- d \<le> k" "k \<le> d" "even (k + d)" "n - m - d \<le> k" "k \<le> n - m + d"
    and no: "- d \<le> k - 2 \<Longrightarrow> n - m - d \<le> k - 2 \<Longrightarrow> 0 < B1 (k - 2) - (k - 2)"
    and x: "B1 k \<le> bmove (n - m) d B0 k" "B1 k = bmove (n - m) d B0 k \<or> 0 \<le> B1 k \<and> k \<le> B1 k"
  shows "0 \<le> B1 k" and "k \<le> B1 k" and "0 < 2 * bmove (n - m) d B0 k - k"
proof -
  have e: "even (k + (n - m) + d)" using even k(3) by presburger
  have e1: "even ((k - 1) + (n - m) + (d - 1))" "even ((k + 1) + (n - m) + (d - 1))"
    "even ((k - 1) + (d - 1))" "even ((k + 1) + (d - 1))"
    using e k(3) by presburger+
  have far: "B1 k - k < 0 \<Longrightarrow> k = - d" using binvD(5) [OF B1 k(4,5) e] no k by presburger
  have nb: "k < n - m + d \<and> B0 (k + 1) \<le> 0" if "B1 k < 0"
  proof (cases rule: bmove_cases [OF d k(4,5), of B0, consumes 0, case_names left up])
    case left
    then show ?thesis using that x by auto
  next
    case up
    then have "B0 (k - 1) < 0" using that x by auto
    moreover have "n - m - (d - 1) \<le> k - 1" using up(1) e by presburger
    ultimately show ?thesis using binvD(4) [OF B0 _ _ e1(1)] k(5) by (simp add: add.commute)
  qed
  have far2: "B1 k < 0 \<Longrightarrow> k = d" using nb pe [of "k + 1"] e1(4) k e by presburger
  show y: "k \<le> B1 k" using far far2 d by (smt (verit))
  show x0: "0 \<le> B1 k" using far2 y d by (smt (verit))
  show "0 < 2 * bmove (n - m) d B0 k - k"
  proof (rule ccontr)
    assume "\<not> ?thesis"
    then have u: "bmove (n - m) d B0 k = 0" "k = 0" using x(1) x0 y by auto
    have r: "k < n - m + d \<Longrightarrow> k + 1 \<le> n - m + (d - 1)" "n - m - d < k \<Longrightarrow> n - m - (d - 1) \<le> k - 1"
      using e by presburger+
    have d2: "2 \<le> d" using d u(2) k(3) by presburger
    show False
    proof (cases rule: bmove_cases [OF d k(4,5), of B0, consumes 0, case_names left up])
      case left
      then show ?thesis using pe [of "k + 1"] u k r e1(4) d2 by (smt (verit))
    next
      case up
      then show ?thesis using pe [of "k - 1"] u k r e1(3) d2 by (smt (verit))
    qed
  qed
qed

section \<open>The sweeps on the work array\<close>

definition at :: "int \<Rightarrow> int list \<Rightarrow> int \<Rightarrow> int" where
  "at off v k = v ! nat (off + k)"

text \<open>
  \<open>swept\<close>: the array \<open>v\<close> differs from \<open>v0\<close> in the entries of the diagonals from \<open>lo\<close> up to
  (excluding) \<open>k\<close> in steps of two, which hold the values of \<open>G\<close>.
\<close>

definition swept :: "int \<Rightarrow> int list \<Rightarrow> int \<Rightarrow> (int \<Rightarrow> int) \<Rightarrow> int \<Rightarrow> int list \<Rightarrow> bool" where
  "swept off v0 lo G k v \<longleftrightarrow> length v = length v0 \<and>
     (\<forall>j. lo \<le> j \<and> j < k \<and> even (j - lo) \<longrightarrow> at off v j = G j) \<and>
     (\<forall>i. 0 \<le> i \<and> (\<forall>j. lo \<le> j \<and> j < k \<and> even (j - lo) \<longrightarrow> i \<noteq> off + j) \<longrightarrow> v ! nat i = v0 ! nat i)"

lemma swept_refl: "swept off v lo G lo v"
  by (simp add: swept_def)

lemma swept_old:
  assumes "swept off v0 lo G k v" and "0 \<le> off + j" and "j < lo \<or> k \<le> j \<or> odd (j - lo)"
  shows "at off v j = at off v0 j"
  using assms unfolding swept_def at_def by fastforce

lemma swept_other:
  assumes "swept off v0 lo G k v" and "0 \<le> off' + j" and "off' + j < off + lo \<or> off + k \<le> off' + j"
  shows "at off' v j = at off' v0 j"
  using assms unfolding swept_def at_def by fastforce

lemma swept_upd:
  assumes sw: "swept off v0 lo G k v" and k: "lo \<le> k" "even (k - lo)"
    and r: "0 \<le> off + lo" "off + k < int (length v)"
  shows "swept off v0 lo G (k + 2) (v[nat (off + k) := G k])"
proof -
  have "at off (v[nat (off + k) := G k]) j = G j" if "lo \<le> j" "j < k + 2" "even (j - lo)" for j
  proof (cases "j = k")
    case False
    then have "j < k" using that k by presburger
    moreover have "nat (off + j) \<noteq> nat (off + k)" using \<open>j < k\<close> that(1) r by auto
    ultimately show ?thesis using sw that by (simp add: swept_def at_def)
  qed (use r k in \<open>simp add: at_def\<close>)
  moreover have "v[nat (off + k) := G k] ! nat i = v0 ! nat i"
    if "0 \<le> i" and i: "\<And>j. lo \<le> j \<Longrightarrow> j < k + 2 \<Longrightarrow> even (j - lo) \<Longrightarrow> i \<noteq> off + j" for i
  proof -
    have "nat i \<noteq> nat (off + k)" using i [of k] k r that(1) by auto
    then show ?thesis using sw that unfolding swept_def by auto
  qed
  ultimately show ?thesis using sw unfolding swept_def by simp
qed

text \<open>The array has room for sweep \<open>d\<close>, and the two halves stay apart.\<close>

definition sms_room :: "int \<Rightarrow> int \<Rightarrow> int \<Rightarrow> int \<Rightarrow> int \<Rightarrow> int list \<Rightarrow> bool" where
  "sms_room n m dn up d v \<longleftrightarrow> 0 \<le> dn - d \<and> dn + d + 1 < up + (n - m) - d - 1 \<and>
     up + (n - m) + d + 1 < int (length v)"

text \<open>No meeting on the diagonals of sweep \<open>d\<close> below \<open>t\<close>, in the forward and the backward sweep.\<close>

definition fwd_apart :: "int \<Rightarrow> int \<Rightarrow> bool \<Rightarrow> int \<Rightarrow> (int \<Rightarrow> int) \<Rightarrow> (int \<Rightarrow> int) \<Rightarrow> int \<Rightarrow> bool" where
  "fwd_apart n m odd_k d F B t \<longleftrightarrow> (odd_k \<longrightarrow> (\<forall>j. - d \<le> j \<and> j < t \<and> j \<le> d \<and> even (j + d) \<and>
     n - m - d < j \<and> j < n - m + d \<longrightarrow> F j < B j))"

definition bwd_apart :: "int \<Rightarrow> int \<Rightarrow> bool \<Rightarrow> int \<Rightarrow> (int \<Rightarrow> int) \<Rightarrow> (int \<Rightarrow> int) \<Rightarrow> int \<Rightarrow> bool" where
  "bwd_apart n m odd_k d F B t \<longleftrightarrow> (\<not> odd_k \<longrightarrow> (\<forall>j. n - m - d \<le> j \<and> j < t \<and> j \<le> n - m + d \<and>
     even (j + (n - m) + d) \<and> - d \<le> j \<and> j \<le> d \<longrightarrow> F j < B j))"

lemma fstep_Some:
  assumes inv: "finv n m (d - 1) F" and d: "1 \<le> d" and k: "- d \<le> k" "k \<le> d" "even (k + d)"
    and n: "n = int (length d1)" "m = int (length d2)"
  shows "sms_down d1 d2 k (fmove d F k) = Some (fstep d1 d2 d F k)"
    and "fmove d F k \<le> fstep d1 d2 d F k"
    and "fstep d1 d2 d F k = fmove d F k \<or> fstep d1 d2 d F k \<le> n \<and> fstep d1 d2 d F k - k \<le> m"
    and "run_eq d1 d2 k (fmove d F k) (fstep d1 d2 d F k)"
    and "0 \<le> fmove d F k" and "k \<le> fmove d F k"
proof -
  have e: "even ((k - 1) + (d - 1))" "even ((k + 1) + (d - 1))" using k(3) by presburger+
  have r: "- d < k \<Longrightarrow> - (d - 1) \<le> k - 1" "k < d \<Longrightarrow> k + 1 \<le> d - 1" using k(3) by presburger+
  have "0 \<le> fmove d F k \<and> k \<le> fmove d F k"
  proof (cases rule: fmove_cases [OF d k(1,2), of F, consumes 0, case_names right down])
    case right
    then show ?thesis using finvD(1,2) [OF inv r(1) _ e(1)] k by auto
  next
    case down
    then show ?thesis using finvD(1,2) [OF inv _ r(2) e(2)] k by auto
  qed
  then show "0 \<le> fmove d F k" and "k \<le> fmove d F k" by auto
  then obtain x' where x': "sms_down d1 d2 k (fmove d F k) = Some x'" "fmove d F k \<le> x'"
    "run_eq d1 d2 k (fmove d F k) x'"
    "x' = fmove d F k \<or> x' \<le> int (length d1) \<and> x' - k \<le> int (length d2)"
    using sms_down_Some by blast
  then show "sms_down d1 d2 k (fmove d F k) = Some (fstep d1 d2 d F k)"
    and "fmove d F k \<le> fstep d1 d2 d F k"
    and "fstep d1 d2 d F k = fmove d F k \<or> fstep d1 d2 d F k \<le> n \<and> fstep d1 d2 d F k - k \<le> m"
    and "run_eq d1 d2 k (fmove d F k) (fstep d1 d2 d F k)"
    by (auto simp: fstep_def n)
qed

lemma finv_fstep:
  assumes "finv n m (d - 1) F" and "1 \<le> d" and "n = int (length d1)" "m = int (length d2)"
  shows "finv n m d (fstep d1 d2 d F)"
  using finv_step [OF assms(1,2), of "fstep d1 d2 d F"] fstep_Some [OF assms(1,2) _ _ _ assms(3,4)]
  by blast

text \<open>The backward versions, through the grid turned around.\<close>

lemma bmove_dual: "bmove (n - m) d B k = n - fmove d (\<lambda>j. n - B (n - m - j)) (n - m - k)"
proof -
  have "n - m - (n - m - k - 1) = k + 1" "n - m - (n - m - k + 1) = k - 1" by simp_all
  then show ?thesis unfolding bmove_def fmove_def by auto
qed

lemma bstep_Some:
  assumes inv: "binv n m (d - 1) B" and d: "1 \<le> d"
    and k: "n - m - d \<le> k" "k \<le> n - m + d" "even (k + (n - m) + d)"
    and n: "n = int (length d1)" "m = int (length d2)"
  shows "sms_up d1 d2 k (bmove (n - m) d B k) = Some (bstep d1 d2 d B k)"
    and "bstep d1 d2 d B k \<le> bmove (n - m) d B k"
    and "bstep d1 d2 d B k = bmove (n - m) d B k \<or> 0 \<le> bstep d1 d2 d B k \<and> k \<le> bstep d1 d2 d B k"
    and "run_eq d1 d2 k (bstep d1 d2 d B k) (bmove (n - m) d B k)"
    and "bmove (n - m) d B k \<le> n" and "bmove (n - m) d B k - k \<le> m"
proof -
  have e: "even ((k - 1) + (n - m) + (d - 1))" "even ((k + 1) + (n - m) + (d - 1))"
    using k(3) by presburger+
  have r: "n - m - d < k \<Longrightarrow> n - m - (d - 1) \<le> k - 1" "k < n - m + d \<Longrightarrow> k + 1 \<le> n - m + (d - 1)"
    using k(3) by presburger+
  have b: "bmove (n - m) d B k \<le> n \<and> bmove (n - m) d B k - k \<le> m"
  proof (cases rule: bmove_cases [OF d k(1,2), of B, consumes 0, case_names left up])
    case left
    then show ?thesis using binvD(1,2) [OF inv _ r(2) e(2)] k by auto
  next
    case up
    then show ?thesis using binvD(1,2) [OF inv r(1) _ e(1)] k by auto
  qed
  then show "bmove (n - m) d B k \<le> n" and "bmove (n - m) d B k - k \<le> m" by auto
  obtain x' where x': "sms_up d1 d2 k (bmove (n - m) d B k) = Some x'" "x' \<le> bmove (n - m) d B k"
    "run_eq d1 d2 k x' (bmove (n - m) d B k)" "x' = bmove (n - m) d B k \<or> 0 \<le> x' \<and> k \<le> x'"
    using sms_up_Some [of "bmove (n - m) d B k" d1 k d2] b unfolding n by blast
  then show "sms_up d1 d2 k (bmove (n - m) d B k) = Some (bstep d1 d2 d B k)"
    and "bstep d1 d2 d B k \<le> bmove (n - m) d B k"
    and "bstep d1 d2 d B k = bmove (n - m) d B k \<or> 0 \<le> bstep d1 d2 d B k \<and> k \<le> bstep d1 d2 d B k"
    and "run_eq d1 d2 k (bstep d1 d2 d B k) (bmove (n - m) d B k)"
    by (auto simp: bstep_def n)
qed

lemma binv_bstep:
  assumes inv: "binv n m (d - 1) B" and d: "1 \<le> d" and n: "n = int (length d1)" "m = int (length d2)"
  shows "binv n m d (bstep d1 d2 d B)"
  unfolding binv_def
proof (rule finv_step [OF inv [unfolded binv_def] d])
  fix j assume j: "- d \<le> j" "j \<le> d" "even (j + d)"
  have k: "n - m - d \<le> n - m - j" "n - m - j \<le> n - m + d" "even ((n - m - j) + (n - m) + d)"
    using j by presburger+
  have m: "n - m - (n - m - j) = j" by simp
  note S = bstep_Some(2,3) [OF inv d k n, unfolded bmove_dual m]
  show "fmove d (\<lambda>k. n - B (n - m - k)) j \<le> n - bstep d1 d2 d B (n - m - j)" using S(1) by simp
  show "n - bstep d1 d2 d B (n - m - j) = fmove d (\<lambda>k. n - B (n - m - k)) j \<or>
    n - bstep d1 d2 d B (n - m - j) \<le> n \<and> n - bstep d1 d2 d B (n - m - j) - j \<le> m"
    using S(2) by auto
qed

text \<open>
  The forward sweep on the array: started below diagonal \<open>k\<close>, it either stops at the first
  diagonal where the searches meet or writes the whole sweep.
\<close>

definition fwd_result :: "int list \<Rightarrow> int list \<Rightarrow> bool \<Rightarrow> int \<Rightarrow> int \<Rightarrow> int \<Rightarrow> int list \<Rightarrow>
    sms_result + int list \<times> int \<Rightarrow> bool" where
  "fwd_result d1 d2 odd_k dn up d v0 r =
     (let n = int (length d1); m = int (length d2); F0 = at dn v0; F1 = fstep d1 d2 d F0 in
      case r of
        Inl (p, v) \<Rightarrow> length v = length v0 \<and>
          (\<exists>j. odd_k \<and> - d \<le> j \<and> j \<le> d \<and> even (j + d) \<and> n - m - d < j \<and> j < n - m + d \<and>
             fwd_apart n m odd_k d F1 (at up v0) j \<and>
             p = (fmove d F0 j, fmove d F0 j - j, F1 j, F1 j - j))
      | Inr (v, z) \<Rightarrow> swept dn v0 (- d) F1 (d + 2) v \<and> fwd_apart n m odd_k d F1 (at up v0) (d + 2))"

lemma sms_forward_spec:
  assumes n: "n = int (length d1)" "m = int (length d2)"
    and inv: "finv n m (d - 1) (at dn v0)" and d: "1 \<le> d" and room: "sms_room n m dn up d v0"
  shows "- d \<le> k \<Longrightarrow> k \<le> d + 2 \<Longrightarrow> even (k + d) \<Longrightarrow>
    swept dn v0 (- d) (fstep d1 d2 d (at dn v0)) k v \<Longrightarrow>
    fwd_apart n m odd_k d (fstep d1 d2 d (at dn v0)) (at up v0) k \<Longrightarrow>
    (- d < k \<Longrightarrow> z = at dn v0 (k - 1)) \<Longrightarrow>
    \<exists>r. sms_forward d1 d2 odd_k (n - m) dn up d k v z = Some r \<and> fwd_result d1 d2 odd_k dn up d v0 r"
proof (induction "nat (d + 2 - k)" arbitrary: k v z rule: less_induct)
  case less
  let ?F0 = "at dn v0" and ?F1 = "fstep d1 d2 d (at dn v0)"
  note sw = less.prems(4) and apart = less.prems(5) and z = less.prems(6)
  have len: "length v = length v0" using sw by (simp add: swept_def)
  show ?case
  proof (cases "k \<le> d")
    case False
    then have "k = d + 2" using less.prems(2,3) by presburger
    then show ?thesis using sw apart n by (subst sms_forward.simps) (simp add: fwd_result_def Let_def)
  next
    case True
    note kr = less.prems(1) True less.prems(3)
    have x0: "idx v (dn + k + 1) = Some (?F0 (k + 1))"
    proof -
      have "at dn v (k + 1) = ?F0 (k + 1)"
        by (rule swept_old [OF sw]) (use kr room in \<open>auto simp: sms_room_def\<close>)
      then show ?thesis using kr room len by (simp add: idx_def at_def sms_room_def add.assoc)
    qed
    have u: "(if k > - d \<and> (k = d \<or> z \<ge> ?F0 (k + 1)) then (z + 1, ?F0 (k + 1))
      else (?F0 (k + 1), ?F0 (k + 1))) = (fmove d ?F0 k, ?F0 (k + 1))"
      using z by (auto simp: fmove_def)
    note S = fstep_Some [OF inv d kr n]
    have up_at: "idx v (up + k) = Some (at up v0 k)" if "n - m - d < k" "k < n - m + d"
    proof -
      have "at up v k = at up v0 k"
        by (rule swept_other [OF sw]) (use kr room that in \<open>auto simp: sms_room_def\<close>)
      then show ?thesis using kr room len that by (simp add: idx_def at_def sms_room_def)
    qed
    define hit where "hit = (odd_k \<and> n - m - d < k \<and> k < n - m + d \<and> at up v0 k \<le> ?F1 k)"
    have unf: "sms_forward d1 d2 odd_k (n - m) dn up d k v z =
      (if hit then Some (Inl ((fmove d ?F0 k, fmove d ?F0 k - k, ?F1 k, ?F1 k - k), v))
       else do { v' \<leftarrow> upd v (dn + k) (?F1 k);
                 sms_forward d1 d2 odd_k (n - m) dn up d (k + 2) v' (?F0 (k + 1)) })"
      using True up_at by (subst sms_forward.simps) (auto simp: x0 u S(1) hit_def)
    show ?thesis
    proof (cases hit)
      case True
      then show ?thesis using unf apart kr len
        by (auto simp: fwd_result_def Let_def hit_def n [symmetric])
    next
      case False
      have upd: "upd v (dn + k) (?F1 k) = Some (v[nat (dn + k) := ?F1 k])"
        using kr room len by (simp add: upd_def sms_room_def)
      have "\<exists>r. sms_forward d1 d2 odd_k (n - m) dn up d (k + 2) (v[nat (dn + k) := ?F1 k]) (?F0 (k + 1)) =
        Some r \<and> fwd_result d1 d2 odd_k dn up d v0 r"
      proof (rule less.hyps)
        show "swept dn v0 (- d) ?F1 (k + 2) (v[nat (dn + k) := ?F1 k])"
          by (rule swept_upd [OF sw]) (use kr room len in \<open>auto simp: sms_room_def\<close>)
        show "fwd_apart n m odd_k d ?F1 (at up v0) (k + 2)"
          unfolding fwd_apart_def
        proof (intro impI allI)
          fix j assume o: "odd_k" and j: "- d \<le> j \<and> j < k + 2 \<and> j \<le> d \<and> even (j + d) \<and>
            n - m - d < j \<and> j < n - m + d"
          have "j < k \<or> j = k" using j kr(3) by presburger
          then show "?F1 j < at up v0 j"
            using apart o j False unfolding fwd_apart_def hit_def by auto
        qed
      qed (use kr in \<open>auto simp: add.commute\<close>)
      then show ?thesis using unf upd False by simp
    qed
  qed
qed

text \<open>The backward sweep.\<close>

definition bwd_result :: "int list \<Rightarrow> int list \<Rightarrow> bool \<Rightarrow> int \<Rightarrow> int \<Rightarrow> int \<Rightarrow> int list \<Rightarrow>
    sms_result + int list \<times> int \<Rightarrow> bool" where
  "bwd_result d1 d2 odd_k dn up d v0 r =
     (let n = int (length d1); m = int (length d2); B0 = at up v0; B1 = bstep d1 d2 d B0 in
      case r of
        Inl (p, v) \<Rightarrow> length v = length v0 \<and>
          (\<exists>j. \<not> odd_k \<and> - d \<le> j \<and> j \<le> d \<and> even (j + (n - m) + d) \<and> n - m - d \<le> j \<and> j \<le> n - m + d \<and>
             bwd_apart n m odd_k d (at dn v0) B1 j \<and>
             p = (B1 j, B1 j - j, bmove (n - m) d B0 j, bmove (n - m) d B0 j - j))
      | Inr (v, z) \<Rightarrow> swept up v0 (n - m - d) B1 (n - m + d + 2) v \<and>
          bwd_apart n m odd_k d (at dn v0) B1 (n - m + d + 2))"

lemma sms_backward_spec:
  assumes n: "n = int (length d1)" "m = int (length d2)"
    and inv: "binv n m (d - 1) (at up v0)" and d: "1 \<le> d" and room: "sms_room n m dn up d v0"
  shows "n - m - d \<le> k \<Longrightarrow> k \<le> n - m + d + 2 \<Longrightarrow> even (k + (n - m) + d) \<Longrightarrow>
    swept up v0 (n - m - d) (bstep d1 d2 d (at up v0)) k v \<Longrightarrow>
    bwd_apart n m odd_k d (at dn v0) (bstep d1 d2 d (at up v0)) k \<Longrightarrow>
    z = at up v0 (k - 1) \<Longrightarrow>
    \<exists>r. sms_backward d1 d2 odd_k (n - m) dn up d k v z = Some r \<and> bwd_result d1 d2 odd_k dn up d v0 r"
proof (induction "nat (n - m + d + 2 - k)" arbitrary: k v z rule: less_induct)
  case less
  let ?B0 = "at up v0" and ?B1 = "bstep d1 d2 d (at up v0)"
  note sw = less.prems(4) and apart = less.prems(5) and z = less.prems(6)
  have len: "length v = length v0" using sw by (simp add: swept_def)
  show ?case
  proof (cases "k \<le> n - m + d")
    case False
    then have "k = n - m + d + 2" using less.prems(2,3) by presburger
    then show ?thesis using sw apart n by (subst sms_backward.simps) (simp add: bwd_result_def Let_def)
  next
    case True
    note kr = less.prems(1) True less.prems(3)
    have z1: "idx v (up + k + 1) = Some (?B0 (k + 1))"
    proof -
      have "at up v (k + 1) = ?B0 (k + 1)"
        by (rule swept_old [OF sw]) (use kr room in \<open>auto simp: sms_room_def\<close>)
      then show ?thesis using kr room len by (simp add: idx_def at_def sms_room_def add.assoc)
    qed
    define z' where "z' = (if k < n - m + d then ?B0 (k + 1) else z)"
    have u: "(if k < n - m + d
        then do { z1 \<leftarrow> idx v (up + k + 1);
                  Some (if k = n - m - d \<or> z1 \<le> z then z1 - 1 else z, z1) }
        else Some (z, z)) = Some (bmove (n - m) d ?B0 k, z')"
      using z d by (auto simp: bmove_def z1 z'_def)
    note S = bstep_Some [OF inv d kr n]
    have dn_at: "idx v (dn + k) = Some (at dn v0 k)" if "- d \<le> k" "k \<le> d"
    proof -
      have "at dn v k = at dn v0 k"
        by (rule swept_other [OF sw]) (use kr room that in \<open>auto simp: sms_room_def\<close>)
      then show ?thesis using kr room len that by (simp add: idx_def at_def sms_room_def)
    qed
    define hit where "hit = (\<not> odd_k \<and> - d \<le> k \<and> k \<le> d \<and> ?B1 k \<le> at dn v0 k)"
    have unf: "sms_backward d1 d2 odd_k (n - m) dn up d k v z =
      (if hit then Some (Inl ((?B1 k, ?B1 k - k, bmove (n - m) d ?B0 k, bmove (n - m) d ?B0 k - k), v))
       else do { v' \<leftarrow> upd v (up + k) (?B1 k);
                 sms_backward d1 d2 odd_k (n - m) dn up d (k + 2) v' z' })"
      using True dn_at by (subst sms_backward.simps) (auto simp: u S(1) hit_def)
    show ?thesis
    proof (cases hit)
      case True
      then show ?thesis using unf apart kr len
        by (auto simp: bwd_result_def Let_def hit_def n [symmetric])
    next
      case False
      have upd: "upd v (up + k) (?B1 k) = Some (v[nat (up + k) := ?B1 k])"
        using kr room len by (simp add: upd_def sms_room_def)
      show ?thesis
      proof (cases "k < n - m + d")
        case False': False
        then have k: "k = n - m + d" using kr by simp
        have sw': "swept up v0 (n - m - d) ?B1 (k + 2) (v[nat (up + k) := ?B1 k])"
          by (rule swept_upd [OF sw]) (use kr room len in \<open>auto simp: sms_room_def\<close>)
        have "bwd_apart n m odd_k d (at dn v0) ?B1 (k + 2)"
          using apart False k unfolding bwd_apart_def hit_def by (smt (verit))
        then show ?thesis
          using unf upd False sw' k n by (subst (asm) sms_backward.simps) (simp add: bwd_result_def Let_def)
      next
        case lt: True
        have "\<exists>r. sms_backward d1 d2 odd_k (n - m) dn up d (k + 2) (v[nat (up + k) := ?B1 k]) z' =
          Some r \<and> bwd_result d1 d2 odd_k dn up d v0 r"
        proof (rule less.hyps)
          show "swept up v0 (n - m - d) ?B1 (k + 2) (v[nat (up + k) := ?B1 k])"
            by (rule swept_upd [OF sw]) (use kr room len in \<open>auto simp: sms_room_def\<close>)
          show "bwd_apart n m odd_k d (at dn v0) ?B1 (k + 2)"
            unfolding bwd_apart_def
          proof (intro impI allI)
            fix j assume o: "\<not> odd_k" and j: "n - m - d \<le> j \<and> j < k + 2 \<and> j \<le> n - m + d \<and>
              even (j + (n - m) + d) \<and> - d \<le> j \<and> j \<le> d"
            have "j < k \<or> j = k" using j kr(3) by presburger
            then show "at dn v0 j < ?B1 j"
              using apart o j False unfolding bwd_apart_def hit_def by auto
          qed
        qed (use kr lt in \<open>auto simp: z'_def add.commute\<close>)
        then show ?thesis using unf upd False by simp
      qed
    qed
  qed
qed

section \<open>The outer loop\<close>

text \<open>
  What the loop keeps at the start of sweep \<open>d\<close>: the two invariants, no meeting so far (in the
  form the argument needs it), room in the array, and \<open>2 (d - 1) \<le> n + m\<close>, which bounds the
  number of sweeps.
\<close>

definition fwd_in :: "int \<Rightarrow> int \<Rightarrow> int \<Rightarrow> (int \<Rightarrow> int) \<Rightarrow> bool" where
  "fwd_in n m d F \<longleftrightarrow> (odd (n - m) \<longrightarrow> (\<forall>j. - d \<le> j \<and> j \<le> d \<and> even (j + d) \<and>
     n - m - d < j \<and> j < n - m + d \<longrightarrow> F j < n \<and> F j - j < m))"

definition bwd_in :: "int \<Rightarrow> int \<Rightarrow> int \<Rightarrow> (int \<Rightarrow> int) \<Rightarrow> bool" where
  "bwd_in n m d B \<longleftrightarrow> (even (n - m) \<longrightarrow> (\<forall>j. - d \<le> j \<and> j \<le> d \<and> even (j + d) \<and>
     n - m - d \<le> j \<and> j \<le> n - m + d \<longrightarrow> 0 < B j \<and> 0 < B j - j))"

definition sms_inv :: "int \<Rightarrow> int \<Rightarrow> int \<Rightarrow> int \<Rightarrow> int \<Rightarrow> int list \<Rightarrow> bool" where
  "sms_inv n m dn up d v \<longleftrightarrow> 1 \<le> d \<and> 2 * (d - 1) \<le> n + m \<and>
     finv n m (d - 1) (at dn v) \<and> binv n m (d - 1) (at up v) \<and> (d = 1 \<longrightarrow> at dn v 0 = 0) \<and>
     fwd_in n m (d - 1) (at dn v) \<and> bwd_in n m (d - 1) (at up v)"

text \<open>The result: two points on one diagonal, on the grid, joined by equal elements.\<close>

definition sms_split :: "int list \<Rightarrow> int list \<Rightarrow> int \<times> int \<times> int \<times> int \<Rightarrow> bool" where
  "sms_split d1 d2 p = (case p of (x0, y0, x1, y1) \<Rightarrow>
     0 \<le> x0 \<and> 0 \<le> y0 \<and> x0 \<le> x1 \<and> x1 \<le> int (length d1) \<and> y1 \<le> int (length d2) \<and>
     x1 - x0 = y1 - y0 \<and> (\<forall>i. x0 \<le> i \<and> i < x1 \<longrightarrow> d1 ! nat i = d2 ! nat (i - x0 + y0)) \<and>
     x0 + y0 < int (length d1) + int (length d2) \<and> 0 < x1 + y1)"

lemma sms_splitI:
  assumes "run_eq d1 d2 k x0 x1" and "0 \<le> x0" and "k \<le> x0" and "x0 \<le> x1"
    and "x1 \<le> int (length d1)" and "x1 - k \<le> int (length d2)"
    and "2 * x0 - k < int (length d1) + int (length d2)" and "0 < 2 * x1 - k"
  shows "sms_split d1 d2 (x0, x0 - k, x1, x1 - k)"
  using assms unfolding sms_split_def run_eq_def by simp

lemma fwd_result_Inl:
  assumes "fwd_result d1 d2 odd_k dn up d v0 (Inl (p, v))"
    and "n = int (length d1)" and "m = int (length d2)"
  shows "length v = length v0 \<and> odd_k \<and> (\<exists>j. - d \<le> j \<and> j \<le> d \<and> even (j + d) \<and>
    n - m - d < j \<and> j < n - m + d \<and> fwd_apart n m True d (fstep d1 d2 d (at dn v0)) (at up v0) j \<and>
    p = (fmove d (at dn v0) j, fmove d (at dn v0) j - j,
         fstep d1 d2 d (at dn v0) j, fstep d1 d2 d (at dn v0) j - j))"
  using assms(1) unfolding fwd_result_def Let_def assms(2,3) by (auto simp del: even_add)

lemma bwd_result_Inl:
  assumes "bwd_result d1 d2 odd_k dn up d v0 (Inl (p, v))"
    and "n = int (length d1)" and "m = int (length d2)"
  shows "length v = length v0 \<and> \<not> odd_k \<and> (\<exists>j. - d \<le> j \<and> j \<le> d \<and> even (j + (n - m) + d) \<and>
    n - m - d \<le> j \<and> j \<le> n - m + d \<and> bwd_apart n m False d (at dn v0) (bstep d1 d2 d (at up v0)) j \<and>
    p = (bstep d1 d2 d (at up v0) j, bstep d1 d2 d (at up v0) j - j,
         bmove (n - m) d (at up v0) j, bmove (n - m) d (at up v0) j - j))"
  using assms(1) unfolding bwd_result_def Let_def assms(2,3) by (auto simp del: even_add even_diff)

lemma fwd_hit:
  assumes inv: "sms_inv n m dn up d v" and nm: "2 \<le> n" "2 \<le> m"
    and n: "n = int (length d1)" "m = int (length d2)"
    and res: "fwd_result d1 d2 (odd (n - m)) dn up d v (Inl (p, v'))"
  shows "sms_split d1 d2 p \<and> length v' = length v"
proof -
  let ?F0 = "at dn v" and ?F1 = "fstep d1 d2 d (at dn v)"
  have d: "1 \<le> d" and F0: "finv n m (d - 1) ?F0" and B0: "binv n m (d - 1) (at up v)"
    using inv by (auto simp: sms_inv_def)
  obtain j where o: "odd (n - m)" and j: "- d \<le> j" "j \<le> d" "even (j + d)" "n - m - d < j" "j < n - m + d"
    and ap: "fwd_apart n m True d ?F1 (at up v) j"
    and p: "p = (fmove d ?F0 j, fmove d ?F0 j - j, ?F1 j, ?F1 j - j)" and len: "length v' = length v"
    using fwd_result_Inl [OF res n] by blast
  note S = fstep_Some [OF F0 d j(1-3) n] and F1 = finv_fstep [OF F0 d n]
  have no: "?F1 (j - 2) < n" if "- d \<le> j - 2" "n - m - d < j - 2"
  proof -
    have e: "even (j - 2 + (n - m) + (d - 1))" "even ((j - 2) + d)" using j(3) o by presburger+
    have "?F1 (j - 2) < at up v (j - 2)" using ap that j e(2) unfolding fwd_apart_def by auto
    moreover have "at up v (j - 2) \<le> n" using binvD(1) [OF B0 _ _ e(1)] that j by auto
    ultimately show ?thesis by simp
  qed
  have "?F1 j \<le> n \<and> ?F1 j - j \<le> m \<and> 2 * fmove d ?F0 j - j < n + m"
    using odd_meet [OF F0 F1 d nm o _ _ j no S(2,3)] inv o unfolding sms_inv_def fwd_in_def by simp
  moreover have "0 < 2 * ?F1 j - j" using finvD(3) [OF F1 j(1-3)] d by simp
  ultimately show ?thesis using sms_splitI [OF S(4-6)] S(2) len unfolding p n by simp
qed

lemma bwd_hit:
  assumes d: "1 \<le> d" and B0: "binv n m (d - 1) (at up v1)" and bi: "bwd_in n m (d - 1) (at up v1)"
    and F1: "finv n m d (at dn v1)"
    and n: "n = int (length d1)" "m = int (length d2)"
    and res: "bwd_result d1 d2 (odd (n - m)) dn up d v1 (Inl (p, v'))"
  shows "sms_split d1 d2 p \<and> length v' = length v1"
proof -
  let ?B0 = "at up v1" and ?B1 = "bstep d1 d2 d (at up v1)"
  obtain j where o: "even (n - m)" and j: "- d \<le> j" "j \<le> d" "even (j + (n - m) + d)"
    "n - m - d \<le> j" "j \<le> n - m + d" and ap: "bwd_apart n m False d (at dn v1) ?B1 j"
    and p: "p = (?B1 j, ?B1 j - j, bmove (n - m) d ?B0 j, bmove (n - m) d ?B0 j - j)"
    and len: "length v' = length v1"
    using bwd_result_Inl [OF res n] by blast
  have e: "even (j + d)" using j(3) o by presburger
  note S = bstep_Some [OF B0 d j(4,5,3) n] and B1 = binv_bstep [OF B0 d n]
  have no: "0 < ?B1 (j - 2) - (j - 2)" if "- d \<le> j - 2" "n - m - d \<le> j - 2"
  proof -
    have e2: "even ((j - 2) + d)" "even (j - 2 + (n - m) + d)" using e o by presburger+
    have "at dn v1 (j - 2) < ?B1 (j - 2)" using ap that j e2(2) unfolding bwd_apart_def by auto
    moreover have "j - 2 \<le> at dn v1 (j - 2)" using finvD(2) [OF F1 _ _ e2(1)] that j by auto
    ultimately show ?thesis by simp
  qed
  have "0 \<le> ?B1 j \<and> j \<le> ?B1 j \<and> 0 < 2 * bmove (n - m) d ?B0 j - j"
    using even_meet [OF B0 B1 d o _ j(1,2) e j(4,5) no S(2,3)] bi o unfolding bwd_in_def by simp
  moreover have "2 * ?B1 j - j < n + m" using binvD(3) [OF B1 j(4,5,3)] d by simp
  ultimately show ?thesis using sms_splitI [OF S(4)] S(2,5,6) len unfolding p n by simp
qed

text \<open>Without a meeting the next sweep starts from the invariant, and few sweeps are left.\<close>

lemma finv_cong:
  "(\<And>j. - d \<le> j \<Longrightarrow> j \<le> d \<Longrightarrow> even (j + d) \<Longrightarrow> F j = F' j) \<Longrightarrow> finv n m d F \<Longrightarrow> finv n m d F'"
  unfolding finv_def by (smt (verit) even_add even_diff dvd_refl)

lemma binv_cong:
  assumes eq: "\<And>j. n - m - d \<le> j \<Longrightarrow> j \<le> n - m + d \<Longrightarrow> even (j + (n - m) + d) \<Longrightarrow> B j = B' j"
    and inv: "binv n m d B"
  shows "binv n m d B'"
  unfolding binv_def
proof (rule finv_cong [OF _ inv [unfolded binv_def]])
  fix j assume j: "- d \<le> j" "j \<le> d" "even (j + d)"
  have "even ((n - m - j) + (n - m) + d)" using j(3) by presburger
  then show "n - B (n - m - j) = n - B' (n - m - j)" using eq [of "n - m - j"] j by simp
qed

lemma apart_few:
  assumes F: "finv n m d F" and B0: "binv n m (d - 1) B0" and B1: "binv n m d B1" and d: "1 \<le> d"
    and nm: "2 \<le> n" "2 \<le> m"
    and fa: "fwd_apart n m (odd (n - m)) d F B0 (d + 2)"
    and ba: "bwd_apart n m (odd (n - m)) d F B1 (n - m + d + 2)"
  shows "2 * d \<le> n + m"
proof (rule ccontr)
  assume "\<not> ?thesis"
  then have big: "n + m < 2 * d" by simp
  define k where "k = (if 0 \<le> n - m then d else - d)"
  have k: "- d \<le> k" "k \<le> d" "even (k + d)" using d by (auto simp: k_def)
  have lo: "d \<le> 2 * F k - k" by (rule finvD(3) [OF F k])
  show False
  proof (cases "odd (n - m)")
    case True
    then have r: "n - m - d < k" "k < n - m + d" using big nm unfolding k_def by presburger+
    have e: "even (k + (n - m) + (d - 1))" using True k(3) by presburger
    have "F k < B0 k" using fa True k r unfolding fwd_apart_def by simp
    moreover have "2 * B0 k - k \<le> n + m - (d - 1)" using binvD(3) [OF B0 _ _ e] r by simp
    ultimately show False using lo big by simp
  next
    case False
    then have r: "n - m - d \<le> k" "k \<le> n - m + d" using big nm unfolding k_def by auto
    have e: "even (k + (n - m) + d)" using False k(3) by presburger
    have "F k < B1 k" using ba False k r e unfolding bwd_apart_def by simp
    moreover have "2 * B1 k - k \<le> n + m - d" by (rule binvD(3) [OF B1 r e])
    ultimately show False using lo big by simp
  qed
qed

lemma fwd_in_fstep:
  assumes B0: "binv n m (d - 1) B0" and fa: "fwd_apart n m (odd (n - m)) d F B0 (d + 2)"
  shows "fwd_in n m d F"
  unfolding fwd_in_def
proof (intro impI allI)
  fix j assume o: "odd (n - m)"
    and j: "- d \<le> j \<and> j \<le> d \<and> even (j + d) \<and> n - m - d < j \<and> j < n - m + d"
  have e: "even (j + (n - m) + (d - 1))" using o j by presburger
  have "F j < B0 j" using fa o j unfolding fwd_apart_def by simp
  moreover have "B0 j \<le> n" "B0 j - j \<le> m" using binvD(1,2) [OF B0 _ _ e] j by auto
  ultimately show "F j < n \<and> F j - j < m" by simp
qed

lemma bwd_in_bstep:
  assumes F: "finv n m d F" and ba: "bwd_apart n m (odd (n - m)) d F B (n - m + d + 2)"
  shows "bwd_in n m d B"
  unfolding bwd_in_def
proof (intro impI allI)
  fix j assume o: "even (n - m)"
    and j: "- d \<le> j \<and> j \<le> d \<and> even (j + d) \<and> n - m - d \<le> j \<and> j \<le> n - m + d"
  have "even (j + (n - m) + d)" using o j by presburger
  then have "F j < B j" using ba o j unfolding bwd_apart_def by simp
  moreover have "0 \<le> F j" "j \<le> F j" using finvD(1,2) [OF F] j by auto
  ultimately show "0 < B j \<and> 0 < B j - j" by simp
qed

lemma sms_loop_total:
  assumes n: "n = int (length d1)" "m = int (length d2)" and nm: "2 \<le> n" "2 \<le> m"
    and dn: "dn = n + m + 1" and up: "up = 3 * (n + m + 1) + 2 - (n - m)"
  shows "sms_inv n m dn up d v \<Longrightarrow> 4 * (n + m + 1) + 4 \<le> int (length v) \<Longrightarrow>
    \<exists>p v'. sms_loop d1 d2 (odd (n - m)) (n - m) dn up d v z = Some (p, v') \<and>
      sms_split d1 d2 p \<and> length v' = length v"
proof (induction "nat (n + m + 2 - 2 * d)" arbitrary: d v z rule: less_induct)
  case less
  note inv = less.prems(1)
  have d: "1 \<le> d" "2 * (d - 1) \<le> n + m" and F0: "finv n m (d - 1) (at dn v)"
    and B0: "binv n m (d - 1) (at up v)" and bi0: "bwd_in n m (d - 1) (at up v)"
    using inv by (auto simp: sms_inv_def)
  have room: "sms_room n m dn up d w" if "length w = length v" for w
    using less.prems(2) d nm that unfolding sms_room_def dn up by simp
  let ?F1 = "fstep d1 d2 d (at dn v)"
  have F1: "finv n m d ?F1" by (rule finv_fstep [OF F0 d(1) n])
  obtain r where r: "sms_forward d1 d2 (odd (n - m)) (n - m) dn up d (- d) v z = Some r"
    and fr: "fwd_result d1 d2 (odd (n - m)) dn up d v r"
    using sms_forward_spec [OF n F0 d(1) room [OF refl], of "- d" v "odd (n - m)" z]
      d swept_refl [of dn v "- d" ?F1] by (fastforce simp: fwd_apart_def)
  show ?case
  proof (cases r)
    case (Inl res)
    obtain p v' where res: "res = (p, v')" by (cases res)
    then show ?thesis
      using r fwd_hit [OF inv nm n] fr Inl by (subst sms_loop.simps) auto
  next
    case (Inr vz)
    obtain v1 z1 where vz: "vz = (v1, z1)" by (cases vz)
    have sw: "swept dn v (- d) ?F1 (d + 2) v1" and fa: "fwd_apart n m (odd (n - m)) d ?F1 (at up v) (d + 2)"
      using fr n unfolding Inr vz fwd_result_def Let_def by auto
    have len1: "length v1 = length v" using sw by (simp add: swept_def)
    have F1': "finv n m d (at dn v1)"
      by (rule finv_cong [OF _ F1]) (use sw in \<open>simp add: swept_def\<close>)
    have upeq: "at up v j = at up v1 j" if "n - m - d \<le> j" for j
      by (rule swept_other [OF sw, symmetric]) (use room [OF refl] that d in \<open>auto simp: sms_room_def\<close>)
    have B0': "binv n m (d - 1) (at up v1)" by (rule binv_cong [OF _ B0]) (use upeq in auto)
    have bi: "bwd_in n m (d - 1) (at up v1)"
      using bi0 upeq unfolding bwd_in_def by (smt (verit))
    let ?B1 = "bstep d1 d2 d (at up v1)"
    have B1: "binv n m d ?B1" by (rule binv_bstep [OF B0' d(1) n])
    have z2: "idx v1 (up + (n - m - d) - 1) = Some (at up v1 (n - m - d - 1))"
      using room [OF len1] len1 d unfolding idx_def at_def sms_room_def by (simp add: algebra_simps)
    obtain r2 where r2: "sms_backward d1 d2 (odd (n - m)) (n - m) dn up d (n - m - d) v1
        (at up v1 (n - m - d - 1)) = Some r2" and br: "bwd_result d1 d2 (odd (n - m)) dn up d v1 r2"
      using sms_backward_spec [OF n B0' d(1) room [OF len1], of "n - m - d" v1 "odd (n - m)"]
        d swept_refl [of up v1 "n - m - d" ?B1] by (fastforce simp: bwd_apart_def)
    show ?thesis
    proof (cases r2)
      case Inl2: (Inl res)
      obtain p v' where res: "res = (p, v')" by (cases res)
      then show ?thesis
        using r r2 z2 bwd_hit [OF d(1) B0' bi F1' n] br Inr vz Inl2 len1
        by (subst sms_loop.simps) auto
    next
      case Inr2: (Inr vz2)
      obtain v2 z3 where vz2: "vz2 = (v2, z3)" by (cases vz2)
      have sw2: "swept up v1 (n - m - d) ?B1 (n - m + d + 2) v2"
        and ba: "bwd_apart n m (odd (n - m)) d (at dn v1) ?B1 (n - m + d + 2)"
        using br n unfolding Inr2 vz2 bwd_result_def Let_def by auto
      have len2: "length v2 = length v" using sw2 len1 by (simp add: swept_def)
      have dneq: "at dn v1 j = at dn v2 j" if "- d \<le> j" "j \<le> d" for j
        by (rule swept_other [OF sw2, symmetric]) (use room [OF refl] that in \<open>auto simp: sms_room_def\<close>)
      have dnF: "at dn v1 j = ?F1 j" if "- d \<le> j" "j \<le> d" "even (j + d)" for j
        using sw that by (simp add: swept_def)
      have upB: "at up v2 j = ?B1 j" if "n - m - d \<le> j" "j \<le> n - m + d" "even (j + (n - m) + d)" for j
      proof -
        have "even (j - (n - m - d))" using that(3) by presburger
        then show ?thesis using sw2 that by (simp add: swept_def)
      qed
      have few: "2 * d \<le> n + m"
      proof (rule apart_few [OF F1 B0 B1 d(1) nm fa])
        show "bwd_apart n m (odd (n - m)) d ?F1 ?B1 (n - m + d + 2)"
          unfolding bwd_apart_def
        proof (intro impI allI)
          fix j assume o: "\<not> odd (n - m)" and j: "n - m - d \<le> j \<and> j < n - m + d + 2 \<and>
            j \<le> n - m + d \<and> even (j + (n - m) + d) \<and> - d \<le> j \<and> j \<le> d"
          have "even (j + d)" using o j by presburger
          then show "?F1 j < ?B1 j" using ba o j dnF unfolding bwd_apart_def by (smt (verit))
        qed
      qed
      have "sms_inv n m dn up (d + 1) v2"
      proof -
        have "finv n m d (at dn v2)" by (rule finv_cong [OF _ F1']) (use dneq in auto)
        moreover have "binv n m d (at up v2)" by (rule binv_cong [OF _ B1]) (use upB in auto)
        moreover have "fwd_in n m d (at dn v2)"
          using fwd_in_fstep [OF B0 fa] dneq dnF unfolding fwd_in_def by (smt (verit))
        moreover have "bwd_in n m d (at up v2)"
          unfolding bwd_in_def
        proof (intro impI allI)
          fix j assume o: "even (n - m)" and j: "- d \<le> j \<and> j \<le> d \<and> even (j + d) \<and>
            n - m - d \<le> j \<and> j \<le> n - m + d"
          have "even (j + (n - m) + d)" using o j by presburger
          then show "0 < at up v2 j \<and> 0 < at up v2 j - j"
            using bwd_in_bstep [OF F1' ba] o j upB unfolding bwd_in_def by simp
        qed
        ultimately show ?thesis using d few by (simp add: sms_inv_def)
      qed
      then obtain p v' where "sms_loop d1 d2 (odd (n - m)) (n - m) dn up (d + 1) v2 z3 = Some (p, v') \<and>
        sms_split d1 d2 p \<and> length v' = length v2"
        using less.hyps [of "d + 1" v2 z3] few less.prems(2) len2 by auto
      then show ?thesis
        using r r2 z2 Inr vz Inr2 vz2 len2 by (subst sms_loop.simps) auto
    qed
  qed
qed

lemma algorithm_sms_Some:
  assumes len: "2 \<le> length d1" "2 \<le> length d2"
    and room: "4 * (length d1 + length d2 + 1) + 4 \<le> length v"
  shows "\<exists>p v'. algorithm_sms d1 d2 v = Some (p, v') \<and> sms_split d1 d2 p \<and> length v' = length v"
proof -
  define n m where n: "n = int (length d1)" and m: "m = int (length d2)"
  define dn where dn: "dn = n + m + 1"
  define up where up: "up = 3 * (n + m + 1) + 2 - (n - m)"
  have up': "dn - (n - m) + dn + dn + 2 = up" by (simp add: dn up)
  have nm: "2 \<le> n" "2 \<le> m" using len by (simp_all add: n m)
  have room': "4 * (n + m + 1) + 4 \<le> int (length v)" using of_nat_mono [OF room, where 'a = int] by (simp add: n m)
  define v4 where "v4 = v[nat (dn + 1) := 0, nat dn := 0, nat (up + (n - m) - 1) := n, nat (up + (n - m)) := n]"
  have alg: "algorithm_sms d1 d2 v = sms_loop d1 d2 (odd (n - m)) (n - m) dn up 1 v4 0"
    using room' nm unfolding algorithm_sms_def Let_def n [symmetric] m [symmetric] dn [symmetric] up' v4_def
    by (simp add: upd_Some dn up)
  have len4: "length v4 = length v" by (simp add: v4_def)
  have "at dn v4 0 = 0" and "at up v4 (n - m) = n"
    using room' nm by (auto simp: at_def v4_def dn up nth_list_update nat_eq_iff)
  then have "sms_inv n m dn up 1 v4"
    using nm by (auto simp: sms_inv_def finv_def binv_def fwd_in_def bwd_in_def)
  then show ?thesis
    using sms_loop_total [OF n m nm dn up, of 1 v4 0] room' alg by (auto simp: len4)
qed

text \<open>
  C8. The middle-snake search is total and correct. For two lists of at least two elements and
  a work array of the size \<open>do_diff\<close> allocates, whatever its contents,
  \<open>algorithm_sms\<close> panics nowhere and returns: two points on one diagonal inside the grid, joined
  by equal elements, such that both the part before the first and the part after the second are
  strictly smaller than the problem.
\<close>

theorem algorithm_sms_total:
  assumes "2 \<le> length d1" and "2 \<le> length d2" and "4 * (length d1 + length d2 + 1) + 4 \<le> length v"
  shows "\<exists>p v'. algorithm_sms d1 d2 v = Some (p, v') \<and> sms_split d1 d2 p \<and> length v' = length v"
  using assms by (rule algorithm_sms_Some)

theorem algorithm_sms_total_witness:
  "\<exists>p v'. algorithm_sms [1, 2, 3] [2, 3, 4] (replicate 32 7) = Some (p, v') \<and>
    sms_split [1, 2, 3] [2, 3, 4] p \<and> length v' = 32"
  using algorithm_sms_total [of "[1, 2, 3]" "[2, 3, 4]" "replicate 32 7"] by simp

end
