(* ===== verification/Xdiff_Lcs.thy ===== *)
theory Xdiff_Lcs
  imports Xdiff_Sms
begin

text \<open>
  The diff itself (\<open>find_one_sms\<close>, \<open>algorithm_lcs\<close> and \<open>do_diff\<close> of \<open>xdiff.go\<close>).
  The code writes its result into two flag arrays and passes sub-slices of them, and the work
  array, down the recursion; the model returns the three arrays and puts the sub-slices back
  where they came from.

  Shown: the recursion ends without a panic for every input, and the elements left unmarked in
  the two lists are the same, in the same order, so the marked ones are a valid edit script.
\<close>

section \<open>The code\<close>

fun find_one_sms_from :: "int \<Rightarrow> int \<Rightarrow> int list \<Rightarrow> int \<times> int" where
  "find_one_sms_from i value [] = (1, 0)"
| "find_one_sms_from i value (v # vs) =
     (if v = value then (0, i) else find_one_sms_from (i + 1) value vs)"

definition find_one_sms :: "int \<Rightarrow> int list \<Rightarrow> int \<times> int" where
  "find_one_sms value list = find_one_sms_from 0 value list"

text \<open>The two loops that step over the matches at the start and at the end.\<close>

function lcs_start :: "int list \<Rightarrow> int list \<Rightarrow> nat \<Rightarrow> nat \<Rightarrow> nat \<times> nat" where
  "lcs_start data1 data2 start1 start2 =
     (if start1 < length data1 \<and> start2 < length data2 \<and> data1 ! start1 = data2 ! start2
      then lcs_start data1 data2 (Suc start1) (Suc start2) else (start1, start2))"
  by pat_completeness auto
termination by (relation "measure (\<lambda>(data1, data2, start1, start2). length data1 - start1)") auto

function lcs_end :: "int list \<Rightarrow> int list \<Rightarrow> nat \<Rightarrow> nat \<Rightarrow> nat \<Rightarrow> nat \<Rightarrow> nat \<times> nat" where
  "lcs_end data1 data2 start1 start2 end1 end2 =
     (if start1 < end1 \<and> start2 < end2 \<and> data1 ! (end1 - 1) = data2 ! (end2 - 1)
      then lcs_end data1 data2 start1 start2 (end1 - 1) (end2 - 1) else (end1, end2))"
  by pat_completeness auto
termination by (relation "measure (\<lambda>(data1, data2, start1, start2, end1, end2). end1)") auto

declare lcs_start.simps [simp del] lcs_end.simps [simp del]

text \<open>The slice \<open>xs[lo:hi]\<close>, and the list after a callee has rewritten that slice.\<close>

definition sub :: "'a list \<Rightarrow> nat \<Rightarrow> nat \<Rightarrow> 'a list option" where
  "sub xs lo hi = (if lo \<le> hi \<and> hi \<le> length xs then Some (take (hi - lo) (drop lo xs)) else None)"

definition put_back :: "'a list \<Rightarrow> nat \<Rightarrow> 'a list \<Rightarrow> 'a list" where
  "put_back xs lo ys = take lo xs @ ys @ drop (lo + length ys) xs"

definition lcs_point :: "int list \<Rightarrow> int list \<Rightarrow> int list \<Rightarrow> sms_result option" where
  "lcs_point data1 data2 v =
     (if length data1 = 1 then
        (let (x0, y0) = find_one_sms (data1 ! 0) data2 in Some ((x0, y0, x0, y0), v))
      else if length data2 = 1 then
        (let (y0, x0) = find_one_sms (data2 ! 0) data1 in Some ((x0, y0, x0, y0), v))
      else algorithm_sms data1 data2 v)"

partial_function (option) algorithm_lcs ::
  "int list \<Rightarrow> int list \<Rightarrow> bool list \<Rightarrow> bool list \<Rightarrow> int list \<Rightarrow> (bool list \<times> bool list \<times> int list) option"
where
  "algorithm_lcs data1 data2 change1 change2 v =
     (let (start1, start2) = lcs_start data1 data2 0 0;
          (end1, end2) = lcs_end data1 data2 start1 start2 (length data1) (length data2);
          len1 = end1 - start1; len2 = end2 - start2
      in if len1 = 0 then do { change2 \<leftarrow> mark_from change2 start2 end2; Some (change1, change2, v) }
         else if len2 = 0 then do { change1 \<leftarrow> mark_from change1 start1 end1; Some (change1, change2, v) }
         else if len1 = 1 \<and> len2 = 1 then
           do { change1 \<leftarrow> upd change1 (int start1) True; change2 \<leftarrow> upd change2 (int start2) True;
                Some (change1, change2, v) }
         else do {
           d1 \<leftarrow> sub data1 start1 end1; c1 \<leftarrow> sub change1 start1 end1;
           d2 \<leftarrow> sub data2 start2 end2; c2 \<leftarrow> sub change2 start2 end2;
           ((x0, y0, x1, y1), v) \<leftarrow> lcs_point d1 d2 v;
           a1 \<leftarrow> slice_to d1 x0; a2 \<leftarrow> slice_to d2 y0; ac1 \<leftarrow> slice_to c1 x0; ac2 \<leftarrow> slice_to c2 y0;
           (ac1, ac2, v) \<leftarrow> algorithm_lcs a1 a2 ac1 ac2 v;
           let c1 = put_back c1 0 ac1; let c2 = put_back c2 0 ac2;
           b1 \<leftarrow> slice_from d1 x1; b2 \<leftarrow> slice_from d2 y1; bc1 \<leftarrow> slice_from c1 x1; bc2 \<leftarrow> slice_from c2 y1;
           (bc1, bc2, v) \<leftarrow> algorithm_lcs b1 b2 bc1 bc2 v;
           let c1 = put_back c1 (nat x1) bc1; let c2 = put_back c2 (nat y1) bc2;
           Some (put_back change1 start1 c1, put_back change2 start2 c2, v) })"

declare algorithm_lcs.simps [code]

definition do_diff :: "int list \<Rightarrow> int list \<Rightarrow> (bool list \<times> bool list) option" where
  "do_diff data1 data2 =
     (let len1 = length data1; len2 = length data2;
          change1 = replicate len1 False; change2 = replicate len2 False;
          size = (len1 + len2 + 1) * 2 + 2;
          v = replicate (size * 2) 0
      in do { (change1, change2, v) \<leftarrow> algorithm_lcs data1 data2 change1 change2 v;
              Some (change1, change2) })"

section \<open>The trimmed problem\<close>

lemma lcs_start_spec:
  "s \<le> length d1 \<Longrightarrow> s \<le> length d2 \<Longrightarrow> take s d1 = take s d2 \<Longrightarrow>
   \<exists>t. lcs_start d1 d2 s s = (t, t) \<and> t \<le> length d1 \<and> t \<le> length d2 \<and> take t d1 = take t d2 \<and>
     (t < length d1 \<and> t < length d2 \<longrightarrow> d1 ! t \<noteq> d2 ! t)"
proof (induction "length d1 - s" arbitrary: s)
  case (0 s)
  then show ?case by (subst lcs_start.simps) auto
next
  case (Suc n s)
  show ?case
  proof (cases "s < length d1 \<and> s < length d2 \<and> d1 ! s = d2 ! s")
    case True
    then have "take (Suc s) d1 = take (Suc s) d2" using Suc.prems by (simp add: take_Suc_conv_app_nth)
    then show ?thesis
      using Suc.hyps(1) [of "Suc s"] Suc.hyps(2) True by (subst lcs_start.simps) auto
  next
    case False
    then show ?thesis using Suc.prems by (subst lcs_start.simps) auto
  qed
qed

lemma lcs_end_spec:
  "s \<le> e1 \<Longrightarrow> s \<le> e2 \<Longrightarrow> e1 \<le> length d1 \<Longrightarrow> e2 \<le> length d2 \<Longrightarrow> drop e1 d1 = drop e2 d2 \<Longrightarrow>
   \<exists>f1 f2. lcs_end d1 d2 s s e1 e2 = (f1, f2) \<and> s \<le> f1 \<and> f1 \<le> e1 \<and> s \<le> f2 \<and> f2 \<le> e2 \<and>
     drop f1 d1 = drop f2 d2"
proof (induction e1 arbitrary: e2)
  case 0
  then show ?case by (subst lcs_end.simps) auto
next
  case (Suc e1)
  show ?case
  proof (cases "s < Suc e1 \<and> s < e2 \<and> d1 ! e1 = d2 ! (e2 - 1)")
    case True
    then obtain f2 where f2: "e2 = Suc f2" by (cases e2) auto
    then have "drop e1 d1 = drop f2 d2"
      using Suc.prems True by (simp add: Cons_nth_drop_Suc [symmetric])
    then show ?thesis
      using Suc.IH [of f2] Suc.prems True f2 by (subst lcs_end.simps) auto
  next
    case False
    then show ?thesis using Suc.prems by (subst lcs_end.simps) auto
  qed
qed

lemma lcs_trim:
  obtains p m1 m2 s where "d1 = p @ m1 @ s" and "d2 = p @ m2 @ s"
    and "lcs_start d1 d2 0 0 = (length p, length p)"
    and "lcs_end d1 d2 (length p) (length p) (length d1) (length d2) =
      (length p + length m1, length p + length m2)"
    and "m1 \<noteq> [] \<Longrightarrow> m2 \<noteq> [] \<Longrightarrow> m1 ! 0 \<noteq> m2 ! 0"
proof -
  obtain t where t: "lcs_start d1 d2 0 0 = (t, t)" "t \<le> length d1" "t \<le> length d2"
    "take t d1 = take t d2" "t < length d1 \<and> t < length d2 \<Longrightarrow> d1 ! t \<noteq> d2 ! t"
    using lcs_start_spec [of 0 d1 d2] by auto
  obtain f1 f2 where f: "lcs_end d1 d2 t t (length d1) (length d2) = (f1, f2)" "t \<le> f1" "f1 \<le> length d1"
    "t \<le> f2" "f2 \<le> length d2" "drop f1 d1 = drop f2 d2"
    using lcs_end_spec [of t "length d1" "length d2" d1 d2] t by auto
  have split: "d = take t d @ take (f - t) (drop t d) @ drop f d" if "t \<le> f" "f \<le> length d" for d :: "int list" and f
    using that by (metis add.commute append_take_drop_id drop_drop le_add_diff_inverse)
  show thesis
  proof (rule that [of "take t d1" "take (f1 - t) (drop t d1)" "drop f1 d1" "take (f2 - t) (drop t d2)"])
    show "d1 = take t d1 @ take (f1 - t) (drop t d1) @ drop f1 d1" by (rule split) (use f in auto)
    show "d2 = take t d1 @ take (f2 - t) (drop t d2) @ drop f1 d1"
      unfolding t(4) f(6) by (rule split) (use f in auto)
    show "lcs_start d1 d2 0 0 = (length (take t d1), length (take t d1))" using t by simp
    show "lcs_end d1 d2 (length (take t d1)) (length (take t d1)) (length d1) (length d2) =
      (length (take t d1) + length (take (f1 - t) (drop t d1)),
       length (take t d1) + length (take (f2 - t) (drop t d2)))" using t f by simp
    assume "take (f1 - t) (drop t d1) \<noteq> []" and "take (f2 - t) (drop t d2) \<noteq> []"
    then have "t < f1" "t < length d1" "t < f2" "t < length d2" by auto
    then show "take (f1 - t) (drop t d1) ! 0 \<noteq> take (f2 - t) (drop t d2) ! 0" using t(5) by simp
  qed
qed

section \<open>The splitting point\<close>

lemma find_one_sms_from_spec:
  "find_one_sms_from i a l = (1, 0) \<and> a \<notin> set l \<or>
   (\<exists>j < length l. find_one_sms_from i a l = (0, i + int j) \<and> l ! j = a)"
proof (induction l arbitrary: i)
  case (Cons v l)
  show ?case
  proof (cases "v = a")
    case False
    then show ?thesis using Cons.IH [of "i + 1"]
    proof (elim disjE exE conjE)
      fix j assume "j < length l" "find_one_sms_from (i + 1) a l = (0, i + 1 + int j)" "l ! j = a"
      then show ?thesis using False by (intro disjI2 exI [of _ "Suc j"]) simp
    qed simp
  qed (auto intro!: exI [of _ 0])
qed simp

lemma lcs_point_Some:
  assumes ne: "m1 \<noteq> []" "m2 \<noteq> []" and hd: "m1 ! 0 \<noteq> m2 ! 0"
    and two: "\<not> (length m1 = 1 \<and> length m2 = 1)"
    and room: "4 * (length m1 + length m2 + 1) + 4 \<le> length v"
  shows "\<exists>p v'. lcs_point m1 m2 v = Some (p, v') \<and> sms_split m1 m2 p \<and> length v' = length v"
proof -
  consider (one) "length m1 = 1" | (other) "length m1 \<noteq> 1" "length m2 = 1"
    | (sms) "2 \<le> length m1" "2 \<le> length m2"
  proof -
    have "0 < length m1" "0 < length m2" using ne by auto
    then show thesis using that by linarith
  qed
  then show ?thesis
  proof cases
    case one
    have "2 \<le> length m2" using two one ne by (cases m2) (auto simp: Suc_le_eq)
    then show ?thesis
      using find_one_sms_from_spec [of 0 "m1 ! 0" m2] one hd
      by (fastforce simp: lcs_point_def find_one_sms_def sms_split_def Suc_le_eq intro: gr0I)
  next
    case other
    have "2 \<le> length m1" using other ne by (cases m1) (auto simp: Suc_le_eq)
    then show ?thesis
      using find_one_sms_from_spec [of 0 "m2 ! 0" m1] other hd
      by (fastforce simp: lcs_point_def find_one_sms_def sms_split_def Suc_le_eq intro: gr0I)
  next
    case sms
    then show ?thesis using algorithm_sms_Some [OF sms room] by (simp add: lcs_point_def)
  qed
qed

lemma sms_split_lists:
  assumes "sms_split m1 m2 (x0, y0, x1, y1)"
  obtains a1 a2 w b1 b2 where "m1 = a1 @ w @ b1" and "m2 = a2 @ w @ b2"
    and "x0 = int (length a1)" and "y0 = int (length a2)"
    and "x1 = int (length a1 + length w)" and "y1 = int (length a2 + length w)"
    and "length a1 + length a2 < length m1 + length m2"
    and "length b1 + length b2 < length m1 + length m2"
proof -
  define n where "n = nat (x1 - x0)"
  have S: "0 \<le> x0" "0 \<le> y0" "x1 = x0 + int n" "y1 = y0 + int n" "nat x0 + n \<le> length m1"
    "nat y0 + n \<le> length m2" "\<And>i. x0 \<le> i \<Longrightarrow> i < x1 \<Longrightarrow> m1 ! nat i = m2 ! nat (i - x0 + y0)"
    "x0 + y0 < int (length m1) + int (length m2)" "0 < x1 + y1"
    using assms by (auto simp: sms_split_def n_def)
  define w where "w = take n (drop (nat x0) m1)"
  have "take n (drop (nat y0) m2) = w"
  proof (rule nth_equalityI)
    fix i assume "i < length (take n (drop (nat y0) m2))"
    then have i: "i < n" by simp
    then have "m1 ! nat (x0 + int i) = m2 ! nat (y0 + int i)"
      using S(7) [of "x0 + int i"] S(3) by (simp add: add.commute)
    moreover have "nat (x0 + int i) = nat x0 + i" "nat (y0 + int i) = nat y0 + i" using S(1,2) by auto
    ultimately show "take n (drop (nat y0) m2) ! i = w ! i" using i S(5,6) by (simp add: w_def)
  qed (use S(5,6) in \<open>simp add: w_def\<close>)
  then have m: "m1 = take (nat x0) m1 @ w @ drop (nat x0 + n) m1"
    "m2 = take (nat y0) m2 @ w @ drop (nat y0 + n) m2"
    unfolding w_def by (metis add.commute append_take_drop_id drop_drop)+
  show thesis
    by (rule that [OF m]) (use S in \<open>auto simp: w_def\<close>)
qed


lemma sub_append: "length p = n \<Longrightarrow> hi = n + length m \<Longrightarrow> sub (p @ m @ s) n hi = Some m"
  by (simp add: sub_def)

lemma algorithm_lcs_Some:
  "c1 = replicate (length d1) False \<Longrightarrow> c2 = replicate (length d2) False \<Longrightarrow>
   4 * (length d1 + length d2 + 1) + 4 \<le> length v \<Longrightarrow>
   \<exists>r1 r2 v'. algorithm_lcs d1 d2 c1 c2 v = Some (r1, r2, v') \<and> length r1 = length d1 \<and>
     length r2 = length d2 \<and> length v' = length v \<and> kept d1 r1 = kept d2 r2"
proof (induction "length d1 + length d2" arbitrary: d1 d2 c1 c2 v rule: less_induct)
  case less
  note c = less.prems(1,2)
  obtain p m1 m2 s where d1: "d1 = p @ m1 @ s" and d2: "d2 = p @ m2 @ s"
    and st: "lcs_start d1 d2 0 0 = (length p, length p)"
    and en: "lcs_end d1 d2 (length p) (length p) (length d1) (length d2) =
      (length p + length m1, length p + length m2)"
    and hd: "m1 \<noteq> [] \<Longrightarrow> m2 \<noteq> [] \<Longrightarrow> m1 ! 0 \<noteq> m2 ! 0"
    by (rule lcs_trim [of d1 d2]) blast
  have c1: "c1 = replicate (length p) False @ replicate (length m1) False @ replicate (length s) False"
    and c2: "c2 = replicate (length p) False @ replicate (length m2) False @ replicate (length s) False"
    using c d1 d2 by (simp_all add: replicate_add)
  have k: "kept (p @ m @ s) (replicate (length p) False @ r @ replicate (length s) False) = p @ kept m r @ s"
    if "length r = length m" for m r using that by (simp add: kept_append kept_False)
  show ?case
  proof (cases "m1 = [] \<or> m2 = [] \<or> length m1 = 1 \<and> length m2 = 1")
    case True
    have mark: "mark_from (replicate (length p) False @ replicate n False @ replicate (length s) False)
        (length p) (length p + n) =
      Some (replicate (length p) False @ replicate n True @ replicate (length s) False)" for n
      using mark_range_replicate [of "length p" "length p + n" "length p + n + length s"]
      by (simp add: mark_from_eq replicate_add add.assoc)
    from True consider (a) "m1 = []" | (b) "m1 \<noteq> []" "m2 = []" | (c) "length m1 = 1" "length m2 = 1" by blast
    then show ?thesis
    proof cases
      case a
      then have "algorithm_lcs d1 d2 c1 c2 v =
        Some (c1, replicate (length p) False @ replicate (length m2) True @ replicate (length s) False, v)"
        using mark [of "length m2"] by (subst algorithm_lcs.simps) (simp add: st en c2)
      then show ?thesis using k [of "replicate (length m2) True" m2] a c1 d1 d2
        by (simp add: kept_append kept_False kept_True)
    next
      case b
      then have "algorithm_lcs d1 d2 c1 c2 v =
        Some (replicate (length p) False @ replicate (length m1) True @ replicate (length s) False, c2, v)"
        using mark [of "length m1"] by (subst algorithm_lcs.simps) (simp add: st en c1)
      then show ?thesis using k [of "replicate (length m1) True" m1] b c2 d1 d2
        by (simp add: kept_append kept_False kept_True)
    next
      case c
      then have "algorithm_lcs d1 d2 c1 c2 v =
        Some (replicate (length p) False @ [True] @ replicate (length s) False,
              replicate (length p) False @ [True] @ replicate (length s) False, v)"
        by (subst algorithm_lcs.simps) (simp add: st en c1 c2 upd_def list_update_append)
      moreover have "kept m1 [True] = []" "kept m2 [True] = []" using kept_True [of _ 1] by simp_all
      ultimately show ?thesis using k [of "[True]" m1] k [of "[True]" m2] c d1 d2 by simp
    qed
  next
    case False
    then have len: "length m1 \<noteq> 0" "length m2 \<noteq> 0" "\<not> (length m1 = 1 \<and> length m2 = 1)" by auto
    have room: "4 * (length m1 + length m2 + 1) + 4 \<le> length v" using less.prems(3) d1 d2 by simp
    obtain x0 y0 x1 y1 v1 where pt: "lcs_point m1 m2 v = Some ((x0, y0, x1, y1), v1)"
      and sp: "sms_split m1 m2 (x0, y0, x1, y1)" and v1: "length v1 = length v"
      using lcs_point_Some [OF _ _ hd len(3) room] len by fastforce
    obtain a1 a2 w b1 b2 where m1: "m1 = a1 @ w @ b1" and m2: "m2 = a2 @ w @ b2"
      and xy: "x0 = int (length a1)" "y0 = int (length a2)"
        "x1 = int (length a1 + length w)" "y1 = int (length a2 + length w)"
      and small: "length a1 + length a2 < length m1 + length m2" "length b1 + length b2 < length m1 + length m2"
      by (rule sms_split_lists [OF sp])
    obtain ra1 ra2 v2 where ra: "algorithm_lcs a1 a2 (replicate (length a1) False) (replicate (length a2) False) v1 = Some (ra1, ra2, v2)"
      "length ra1 = length a1" "length ra2 = length a2" "length v2 = length v1" "kept a1 ra1 = kept a2 ra2"
      using less.hyps [of a1 a2 "replicate (length a1) False" "replicate (length a2) False" v1] small room v1 d1 d2 m1 m2 by auto
    obtain rb1 rb2 v3 where rb: "algorithm_lcs b1 b2 (replicate (length b1) False) (replicate (length b2) False) v2 = Some (rb1, rb2, v3)"
      "length rb1 = length b1" "length rb2 = length b2" "length v3 = length v2" "kept b1 rb1 = kept b2 rb2"
      using less.hyps [of b1 b2 "replicate (length b1) False" "replicate (length b2) False" v2] small room v1 ra(4) d1 d2 m1 m2 by auto
    let ?r1 = "ra1 @ replicate (length w) False @ rb1"
    let ?r2 = "ra2 @ replicate (length w) False @ rb2"
    have "algorithm_lcs d1 d2 c1 c2 v =
      Some (replicate (length p) False @ ?r1 @ replicate (length s) False,
            replicate (length p) False @ ?r2 @ replicate (length s) False, v3)"
    proof -
      have cut: "sub d1 (length p) (length p + length m1) = Some m1"
        "sub d2 (length p) (length p + length m2) = Some m2"
        "sub c1 (length p) (length p + length m1) = Some (replicate (length m1) False)"
        "sub c2 (length p) (length p + length m2) = Some (replicate (length m2) False)"
        by (simp_all add: d1 d2 c1 c2 sub_append)
      have left: "slice_to m1 x0 = Some a1" "slice_to m2 y0 = Some a2"
        "slice_to (replicate (length m1) False) x0 = Some (replicate (length a1) False)"
        "slice_to (replicate (length m2) False) y0 = Some (replicate (length a2) False)"
        using m1 m2 xy by (simp_all add: slice_to_def)
      have pb1: "put_back (replicate (length m1) False) 0 ra1 =
          ra1 @ replicate (length w) False @ replicate (length b1) False"
        "put_back (replicate (length m2) False) 0 ra2 =
          ra2 @ replicate (length w) False @ replicate (length b2) False"
        using ra(2,3) m1 m2 by (simp_all add: put_back_def replicate_add)
      have right: "slice_from m1 x1 = Some b1" "slice_from m2 y1 = Some b2"
        "slice_from (ra1 @ replicate (length w) False @ replicate (length b1) False) x1 =
          Some (replicate (length b1) False)"
        "slice_from (ra2 @ replicate (length w) False @ replicate (length b2) False) y1 =
          Some (replicate (length b2) False)"
        using m1 m2 xy ra(2,3) by (simp_all add: slice_from_def nat_add_distrib)
      have pb2: "put_back (ra1 @ replicate (length w) False @ replicate (length b1) False) (nat x1) rb1 = ?r1"
        "put_back (ra2 @ replicate (length w) False @ replicate (length b2) False) (nat y1) rb2 = ?r2"
        using ra(2,3) rb(2,3) xy by (simp_all add: put_back_def nat_add_distrib)
      have pb3: "put_back c1 (length p) ?r1 = replicate (length p) False @ ?r1 @ replicate (length s) False"
        "put_back c2 (length p) ?r2 = replicate (length p) False @ ?r2 @ replicate (length s) False"
        using ra(2,3) rb(2,3) m1 m2 by (simp_all add: put_back_def c1 c2)
      have len': "length p + length m1 - length p = length m1" "length p + length m2 - length p = length m2"
        by simp_all
      show ?thesis
        by (subst algorithm_lcs.simps)
          (simp only: st en len' len cut pt left ra(1) pb1 right rb(1) pb2 pb3 Let_def prod.case
            bind.bind_lunit if_False simp_thms)
    qed
    moreover have "kept m1 ?r1 = kept m2 ?r2"
      using ra rb m1 m2 by (simp add: kept_append kept_False)
    ultimately show ?thesis
      using d1 d2 m1 m2 ra rb v1 k [of ?r1 m1] k [of ?r2 m2] by simp
  qed
qed

section \<open>The diff\<close>

lemma do_diff_room: "4 * (a + b + 1) + 4 \<le> ((a + b + 1) * 2 + 2) * (2 :: nat)" by simp

lemma do_diff_Some:
  "\<exists>c1 c2. do_diff d1 d2 = Some (c1, c2) \<and> length c1 = length d1 \<and> length c2 = length d2 \<and>
    kept d1 c1 = kept d2 c2"
proof -
  obtain c1 c2 v where "algorithm_lcs d1 d2 (replicate (length d1) False) (replicate (length d2) False)
      (replicate (((length d1 + length d2 + 1) * 2 + 2) * 2) 0) = Some (c1, c2, v)"
    "length c1 = length d1" "length c2 = length d2" "kept d1 c1 = kept d2 c2"
    using algorithm_lcs_Some [OF refl refl, of d1 d2 "replicate (((length d1 + length d2 + 1) * 2 + 2) * 2) 0"]
    unfolding length_replicate using do_diff_room by metis
  then show ?thesis by (simp add: do_diff_def Let_def)
qed

text \<open>
  C6. The diff is total and correct. For any two lists \<open>do_diff\<close> ends without a panic and returns
  one flag per element, and the elements whose flag is not set are the same in both lists, in
  the same order: removing the marked elements of the first list and inserting the marked
  elements of the second turns the first into the second.
\<close>

theorem do_diff_correct:
  "\<exists>c1 c2. do_diff d1 d2 = Some (c1, c2) \<and> length c1 = length d1 \<and> length c2 = length d2 \<and>
    kept d1 c1 = kept d2 c2"
  by (rule do_diff_Some)

text \<open>The diff of a list with itself marks nothing.\<close>

theorem do_diff_same: "do_diff d d = Some (replicate (length d) False, replicate (length d) False)"
proof -
  obtain p m1 m2 s where d: "d = p @ m1 @ s" "d = p @ m2 @ s"
    and st: "lcs_start d d 0 0 = (length p, length p)"
    and en: "lcs_end d d (length p) (length p) (length d) (length d) =
      (length p + length m1, length p + length m2)"
    and hd: "m1 \<noteq> [] \<Longrightarrow> m2 \<noteq> [] \<Longrightarrow> m1 ! 0 \<noteq> m2 ! 0"
    by (rule lcs_trim [of d d]) blast
  have "m1 = m2" using d by simp
  with hd have "m1 = []" "m2 = []" by auto
  moreover have "length p \<le> length d" using d(1) by simp
  ultimately have "algorithm_lcs d d c1 c2 v = Some (c1, c2, v)" if "length d \<le> length c2" for c1 c2 v
    using that by (subst algorithm_lcs.simps) (simp add: st en mark_from_eq mark_range_empty)
  then show ?thesis by (simp add: do_diff_def Let_def)
qed

text \<open>The diff of two lists with no common element marks everything.\<close>

theorem do_diff_disjoint:
  assumes "set d1 \<inter> set d2 = {}"
  shows "do_diff d1 d2 = Some (replicate (length d1) True, replicate (length d2) True)"
proof -
  obtain c1 c2 where c: "do_diff d1 d2 = Some (c1, c2)" "length c1 = length d1" "length c2 = length d2"
    "kept d1 c1 = kept d2 c2" using do_diff_Some [of d1 d2] by blast
  have "set (kept d1 c1) \<subseteq> set d1 \<inter> set d2"
    using set_kept [of d1 c1] set_kept [of d2 c2] c(4) by auto
  with assms have "kept d1 c1 = []" "kept d2 c2 = []" using c(4) by auto
  then show ?thesis using c(1-3) kept_eq_Nil by metis
qed

theorem do_diff_disjoint_witness: "do_diff [1, 2] [3, 4, 5] = Some ([True, True], [True, True, True])"
  using do_diff_disjoint [of "[1, 2]" "[3, 4, 5]"] by (simp add: eval_nat_numeral)

end
