(* ===== verification/Xdiff_Equiv.thy ===== *)
theory Xdiff_Equiv
  imports Xdiff_Lines Xdiff_Lcs
begin

text \<open>
  Numbers for lines (\<open>find_equiv_lines\<close>, \<open>compress_equiv_ids\<close> and \<open>expand_change_list\<close> of
  \<open>xdiff.go\<close>). Each line gets the number of its class under the comparison, looked up in a hash
  table of linked lists; the lines that cannot be part of the common text are then taken out or
  merged before the diff runs, and put back afterwards.

  Shown, for every comparison that satisfies the contract \<open>line_compare\<close>: two lines get the same
  number if and only if they compare equal, whatever the collisions; no index is out of range;
  and a diff of the compressed lists expands to a diff of the lines.
\<close>

section \<open>The hash table\<close>

record EquivClass =
  eq_id :: int
  eq_hash :: "32 word"
  eq_line :: bytes

text \<open>A bucket is the chain of its classes: the entry of the array first, then its \<open>next\<close> links.\<close>

type_synonym eqhash = "EquivClass list list"

function bucket_count :: "nat \<Rightarrow> nat \<Rightarrow> nat" where
  "bucket_count n buckets =
     (if buckets < n \<and> buckets \<noteq> 0 then bucket_count n (2 * buckets) else buckets)"
  by pat_completeness auto
termination by (relation "measure (\<lambda>(n, buckets). n - buckets)") auto

declare bucket_count.simps [simp del]

definition bucket_of :: "eqhash \<Rightarrow> 32 word \<Rightarrow> int" where
  "bucket_of eqhash hashcode = and (uint hashcode) (int (length eqhash) - 1)"

definition equiv_line ::
  "(bytes \<Rightarrow> bytes \<Rightarrow> bool) \<Rightarrow> (bytes \<Rightarrow> 32 word) \<Rightarrow> bytes \<Rightarrow> eqhash \<times> int \<Rightarrow> (int \<times> eqhash \<times> int) option"
where
  "equiv_line compare_line compute_hash lptr = (\<lambda>(eqhash, next_id).
     do { let hashcode = compute_hash lptr;
          let ihash = bucket_of eqhash hashcode;
          let new = \<lparr>eq_id = next_id, eq_hash = hashcode, eq_line = lptr\<rparr>;
          chain \<leftarrow> idx eqhash ihash;
          case chain of
            [] \<Rightarrow> do { eqhash \<leftarrow> upd eqhash ihash [new]; Some (next_id, eqhash, next_id + 1) }
          | eq # next \<Rightarrow>
              if eq_hash eq = hashcode \<and> compare_line lptr (eq_line eq) then Some (eq_id eq, eqhash, next_id)
              else case find (\<lambda>n. eq_hash n = hashcode \<and> compare_line lptr (eq_line n)) next of
                Some n \<Rightarrow> Some (eq_id n, eqhash, next_id)
              | None \<Rightarrow> do { eqhash \<leftarrow> upd eqhash ihash (eq # new # next); Some (next_id, eqhash, next_id + 1) } })"

fun equiv_lines ::
  "(bytes \<Rightarrow> bytes \<Rightarrow> bool) \<Rightarrow> (bytes \<Rightarrow> 32 word) \<Rightarrow> bytes list \<Rightarrow> eqhash \<times> int \<Rightarrow>
    (int list \<times> eqhash \<times> int) option"
where
  "equiv_lines compare_line compute_hash [] (eqhash, next_id) = Some ([], eqhash, next_id)"
| "equiv_lines compare_line compute_hash (lptr # lines) (eqhash, next_id) =
     do { (i, eqhash, next_id) \<leftarrow> equiv_line compare_line compute_hash lptr (eqhash, next_id);
          (ids, eqhash, next_id) \<leftarrow> equiv_lines compare_line compute_hash lines (eqhash, next_id);
          Some (i # ids, eqhash, next_id) }"

section \<open>Compression\<close>

fun mark_ids :: "int list \<Rightarrow> bool list \<Rightarrow> bool list option" where
  "mark_ids [] has_ids = Some has_ids"
| "mark_ids (v # ids) has_ids = do { has_ids \<leftarrow> upd has_ids v True; mark_ids ids has_ids }"

text \<open>The test \<open>v > max_id || !has_ids[v]\<close>: the other file does not have the line.\<close>

definition not_in_other :: "int \<Rightarrow> bool list \<Rightarrow> int \<Rightarrow> bool option" where
  "not_in_other max_id has_ids v = (if v > max_id then Some True else map_option Not (idx has_ids v))"

type_synonym other = "int \<times> bool list"

function skip_first ::
  "other \<Rightarrow> other \<Rightarrow> int list \<Rightarrow> int list \<Rightarrow> nat \<Rightarrow> nat \<Rightarrow> bool list \<Rightarrow> bool list \<Rightarrow>
    (nat \<times> nat \<times> bool list \<times> bool list) option"
where
  "skip_first has1 has2 ids1 ids2 i1 i2 change1 change2 =
     (if i1 < length ids1 \<and> i2 < length ids2 then
        do { v1 \<leftarrow> idx ids1 (int i1); v2 \<leftarrow> idx ids2 (int i2);
             x1 \<leftarrow> not_in_other (fst has2) (snd has2) v1;
             if x1 then
               do { change1 \<leftarrow> upd change1 (int i1) True;
                    skip_first has1 has2 ids1 ids2 (Suc i1) i2 change1 change2 }
             else do {
               x2 \<leftarrow> not_in_other (fst has1) (snd has1) v2;
               if x2 then
                 do { change2 \<leftarrow> upd change2 (int i2) True;
                      skip_first has1 has2 ids1 ids2 i1 (Suc i2) change1 change2 }
               else if v1 = v2 then skip_first has1 has2 ids1 ids2 (Suc i1) (Suc i2) change1 change2
               else Some (i1, i2, change1, change2) } }
      else Some (i1, i2, change1, change2))"
  by pat_completeness auto
termination
  by (relation "measure (\<lambda>(has1, has2, ids1, ids2, i1, i2, change1, change2).
        (length ids1 - i1) + (length ids2 - i2))") auto

function skip_last ::
  "other \<Rightarrow> other \<Rightarrow> int list \<Rightarrow> int list \<Rightarrow> nat \<Rightarrow> nat \<Rightarrow> nat \<Rightarrow> nat \<Rightarrow> bool list \<Rightarrow> bool list \<Rightarrow>
    (nat \<times> nat \<times> bool list \<times> bool list) option"
where
  "skip_last has1 has2 ids1 ids2 i1 i2 j1 j2 change1 change2 =
     (if i1 < j1 \<and> i2 < j2 then
        do { v1 \<leftarrow> idx ids1 (int (j1 - 1)); v2 \<leftarrow> idx ids2 (int (j2 - 1));
             x1 \<leftarrow> not_in_other (fst has2) (snd has2) v1;
             if x1 then
               do { change1 \<leftarrow> upd change1 (int (j1 - 1)) True;
                    skip_last has1 has2 ids1 ids2 i1 i2 (j1 - 1) j2 change1 change2 }
             else do {
               x2 \<leftarrow> not_in_other (fst has1) (snd has1) v2;
               if x2 then
                 do { change2 \<leftarrow> upd change2 (int (j2 - 1)) True;
                      skip_last has1 has2 ids1 ids2 i1 i2 j1 (j2 - 1) change1 change2 }
               else if v1 = v2 then skip_last has1 has2 ids1 ids2 i1 i2 (j1 - 1) (j2 - 1) change1 change2
               else Some (j1, j2, change1, change2) } }
      else Some (j1, j2, change1, change2))"
  by pat_completeness auto
termination
  by (relation "measure (\<lambda>(has1, has2, ids1, ids2, i1, i2, j1, j2, change1, change2). j1 + j2)") auto

declare skip_first.simps [simp del] skip_last.simps [simp del]

text \<open>
  The loop that builds \<open>zids\<close> and \<open>zcount\<close>; the model keeps the parts of the two arrays that are in
  use, their first \<open>n\<close> elements.
\<close>

fun compress_ids ::
  "other \<Rightarrow> int list \<Rightarrow> bool \<Rightarrow> int \<Rightarrow> int list \<Rightarrow> nat list \<Rightarrow> (int list \<times> nat list \<times> int) option"
where
  "compress_ids has [] lastexclude next_id zids zcount = Some (zids, zcount, next_id)"
| "compress_ids has (v # ids) lastexclude next_id zids zcount =
     do { exclude \<leftarrow> not_in_other (fst has) (snd has) v;
          let n = int (length zids);
          if exclude \<and> lastexclude then
            do { c \<leftarrow> idx zcount (n - 1); zcount \<leftarrow> upd zcount (n - 1) (c + 1);
                 zids \<leftarrow> upd zids (n - 1) (- next_id);
                 compress_ids has ids exclude (next_id + 1) zids zcount }
          else if exclude then compress_ids has ids exclude next_id (zids @ [- v]) (zcount @ [1])
          else compress_ids has ids exclude next_id (zids @ [v]) (zcount @ [1]) }"

record LinesData =
  ids :: "int list"
  zids :: "int list option"
  zcount :: "nat list"
  change :: "bool list"
  zids_start :: nat
  zids_end :: nat

definition compress_equiv_ids ::
  "LinesData \<Rightarrow> LinesData \<Rightarrow> int \<Rightarrow> int \<Rightarrow> (LinesData \<times> LinesData) option"
where
  "compress_equiv_ids lines1 lines2 max_id1 max_id2 =
     do { let ids1 = ids lines1; let ids2 = ids lines2;
          has_ids1 \<leftarrow> mark_ids ids1 (replicate (nat (max_id1 + 1)) False);
          has_ids2 \<leftarrow> mark_ids ids2 (replicate (nat (max_id2 + 1)) False);
          let has1 = (max_id1, has_ids1); let has2 = (max_id2, has_ids2);
          (i1, i2, change1, change2) \<leftarrow> skip_first has1 has2 ids1 ids2 0 0 (change lines1) (change lines2);
          (j1, j2, change1, change2) \<leftarrow>
            skip_last has1 has2 ids1 ids2 i1 i2 (length ids1) (length ids2) change1 change2;
          if i1 = j1 then
            do { change2 \<leftarrow> mark_from change2 i2 j2;
                 Some (lines1\<lparr>change := change1\<rparr>, lines2\<lparr>change := change2\<rparr>) }
          else if i2 = j2 then
            do { change1 \<leftarrow> mark_from change1 i1 j1;
                 Some (lines1\<lparr>change := change1\<rparr>, lines2\<lparr>change := change2\<rparr>) }
          else do {
            let next_id = max max_id1 max_id2 + 1;
            m1 \<leftarrow> sub ids1 i1 j1;
            (zids1, zcount1, next_id) \<leftarrow> compress_ids has2 m1 False next_id [] [];
            m2 \<leftarrow> sub ids2 i2 j2;
            (zids2, zcount2, next_id) \<leftarrow> compress_ids has1 m2 False next_id [] [];
            Some (lines1\<lparr>change := change1, zids_start := i1, zids_end := j1, zids := Some zids1, zcount := zcount1\<rparr>,
                  lines2\<lparr>change := change2, zids_start := i2, zids_end := j2, zids := Some zids2, zcount := zcount2\<rparr>) } }"

definition new_info :: "int list \<Rightarrow> LinesData" where
  "new_info is = \<lparr>ids = is, zids = None, zcount = [], change = replicate (length is) False,
     zids_start = 0, zids_end = 0\<rparr>"

text \<open>
  \<open>find_equiv_lines\<close> for the comparison and hash that were chosen. With \<open>cmp_ignore_blank_lines\<close> the
  table starts with the class of the empty line, whose number is 0.
\<close>

definition find_equiv_lines ::
  "Flags \<Rightarrow> (bytes \<Rightarrow> bytes \<Rightarrow> bool) \<Rightarrow> (bytes \<Rightarrow> 32 word) \<Rightarrow> bytes list \<Rightarrow> bytes list \<Rightarrow>
    (LinesData \<times> LinesData) option"
where
  "find_equiv_lines fl compare_line compute_hash lines1 lines2 =
     do { let buckets = bucket_count ((length lines1 + length lines2) * 2) 512;
          let eqhash = replicate buckets [];
          eqhash \<leftarrow>
            (if cmp_ignore_blank_lines fl then
               do { let hashcode = compute_hash [];
                    upd eqhash (bucket_of eqhash hashcode) [\<lparr>eq_id = 0, eq_hash = hashcode, eq_line = []\<rparr>] }
             else Some eqhash);
          (ids1, eqhash, next_id) \<leftarrow> equiv_lines compare_line compute_hash lines1 (eqhash, 1);
          let max_id_f1 = next_id - 1;
          (ids2, eqhash, next_id) \<leftarrow> equiv_lines compare_line compute_hash lines2 (eqhash, next_id);
          let max_id_f2 = next_id - 1;
          compress_equiv_ids (new_info ids1) (new_info ids2) max_id_f1 max_id_f2 }"

section \<open>Expansion\<close>

fun expand_from :: "nat list \<Rightarrow> nat \<Rightarrow> bool list \<Rightarrow> bool list \<Rightarrow> nat \<Rightarrow> bool list option" where
  "expand_from [] i zchange flags n = Some flags"
| "expand_from (m # ms) i zchange flags n =
     do { b \<leftarrow> idx zchange (int i);
          flags \<leftarrow> (if b then mark_from flags n (n + m) else Some flags);
          expand_from ms (Suc i) zchange flags (n + m) }"

text \<open>One turn of the loop over the two files; \<open>None\<close> is a \<open>nil\<close> list of changes.\<close>

definition expand_info :: "LinesData \<Rightarrow> bool list option \<Rightarrow> LinesData option" where
  "expand_info info zchange =
     do { rest \<leftarrow> slice_from (change info) (int (zids_start info));
          case zchange of
            None \<Rightarrow> Some info
          | Some zchange \<Rightarrow>
              do { rest \<leftarrow> expand_from (zcount info) 0 zchange rest 0;
                   Some (info\<lparr>change := put_back (change info) (zids_start info) rest\<rparr>) } }"

definition expand_change_list ::
  "LinesData \<Rightarrow> LinesData \<Rightarrow> bool list option \<Rightarrow> bool list option \<Rightarrow> (LinesData \<times> LinesData) option"
where
  "expand_change_list info1 info2 zchange1 zchange2 =
     do { info1 \<leftarrow> expand_info info1 zchange1; info2 \<leftarrow> expand_info info2 zchange2; Some (info1, info2) }"

text \<open>
  The part of \<open>diff_file\<close> that computes the changes of two texts, before the boundaries are shifted.
\<close>

definition diff_zids :: "LinesData \<Rightarrow> LinesData \<Rightarrow> (LinesData \<times> LinesData) option" where
  "diff_zids info1 info2 =
     (case (zids info1, zids info2) of
        (Some zids1, Some zids2) \<Rightarrow>
          do { (zchange1, zchange2) \<leftarrow> do_diff zids1 zids2;
               expand_change_list info1 info2 (Some zchange1) (Some zchange2) }
      | _ \<Rightarrow> Some (info1, info2))"

definition line_changes ::
  "Flags \<Rightarrow> (bytes \<Rightarrow> bytes \<Rightarrow> bool) \<Rightarrow> (bytes \<Rightarrow> 32 word) \<Rightarrow> bytes list \<Rightarrow> bytes list \<Rightarrow>
    (LinesData \<times> LinesData) option"
where
  "line_changes fl compare_line compute_hash lines1 lines2 =
     do { (info1, info2) \<leftarrow> find_equiv_lines fl compare_line compute_hash lines1 lines2;
          diff_zids info1 info2 }"

section \<open>The numbers of the lines\<close>

definition classes :: "eqhash \<Rightarrow> EquivClass set" where
  "classes eqhash = (\<Union>chain \<in> set eqhash. set chain)"

text \<open>
  The invariant of the table: every class is in the bucket of its hash, classes are numbered below
  \<open>next_id\<close>, and two classes have the same number exactly if their lines compare equal.
\<close>

context line_compare
begin

definition table_inv :: "eqhash \<Rightarrow> int \<Rightarrow> bool" where
  "table_inv eqhash next_id \<longleftrightarrow> 0 < length eqhash \<and> 1 \<le> next_id \<and>
     (\<forall>b < length eqhash. \<forall>c \<in> set (eqhash ! b).
        eq_hash c = compute_hash (eq_line c) \<and> bucket_of eqhash (compute_hash (eq_line c)) = int b) \<and>
     (\<forall>c \<in> classes eqhash. 0 \<le> eq_id c \<and> eq_id c < next_id) \<and>
     (\<forall>c \<in> classes eqhash. \<forall>d \<in> classes eqhash. eq_id c = eq_id d \<longleftrightarrow> compare_line (eq_line c) (eq_line d))"

definition numbered :: "eqhash \<Rightarrow> bytes \<Rightarrow> int \<Rightarrow> bool" where
  "numbered eqhash l i \<longleftrightarrow> (\<exists>c \<in> classes eqhash. eq_id c = i \<and> compare_line l (eq_line c))"

lemma numbered_mono: "classes e \<subseteq> classes e' \<Longrightarrow> numbered e l i \<Longrightarrow> numbered e' l i"
  by (auto simp: numbered_def)

lemma numbered_iff:
  assumes "table_inv e n" and "numbered e l i" and "numbered e m j"
  shows "i = j \<longleftrightarrow> compare_line l m"
proof -
  obtain c d where c: "c \<in> classes e" "eq_id c = i" "compare_line l (eq_line c)"
    and d: "d \<in> classes e" "eq_id d = j" "compare_line m (eq_line d)"
    using assms(2,3) by (auto simp: numbered_def)
  have "i = j \<longleftrightarrow> compare_line (eq_line c) (eq_line d)" using assms(1) c d by (auto simp: table_inv_def)
  also have "\<dots> \<longleftrightarrow> compare_line l m" using c(3) d(3) by (meson compare_sym compare_trans)
  finally show ?thesis .
qed

end

lemma bucket_of_range: "0 < length e \<Longrightarrow> 0 \<le> bucket_of e h \<and> bucket_of e h < int (length e)"
  using AND_upper2 [of "int (length e) - 1" "uint h"] by (auto simp: bucket_of_def)

lemma bucket_of_update [simp]: "bucket_of (e[i := ch]) h = bucket_of e h"
  by (simp add: bucket_of_def)

lemma classes_eq: "classes e = (\<Union>i \<in> {0..<length e}. set (e ! i))"
  using nth_image [of "length e" e] by (simp add: classes_def flip: image_image)

lemma find_SomeD: "find P xs = Some x \<Longrightarrow> x \<in> set xs \<and> P x"
  by (metis find_Some_iff nth_mem)

lemma classes_nth: "b < length e \<Longrightarrow> set (e ! b) \<subseteq> classes e"
  unfolding classes_def using nth_mem by blast

lemma classes_update:
  assumes "b < length e" and "set ch = insert new (set (e ! b))"
  shows "classes (e[b := ch]) = insert new (classes e)"
proof -
  show ?thesis
    unfolding classes_eq using assms by (auto simp: nth_list_update split: if_splits)
qed

context line_compare
begin

lemma table_inv_insert:
  assumes inv: "table_inv e n" and b: "b < length e" "bucket_of e (compute_hash l) = int b"
    and new: "new = \<lparr>eq_id = n, eq_hash = compute_hash l, eq_line = l\<rparr>"
    and ch: "set ch = insert new (set (e ! b))" and fresh: "\<forall>c \<in> classes e. \<not> compare_line l (eq_line c)"
  shows "table_inv (e[b := ch]) (n + 1)" and "numbered (e[b := ch]) l n" and "classes e \<subseteq> classes (e[b := ch])"
    and "\<forall>c \<in> classes (e[b := ch]). c \<in> classes e \<or> n \<le> eq_id c"
proof -
  note cl = classes_update [OF b(1) ch]
  have ne: "eq_id c \<noteq> n \<and> \<not> compare_line l (eq_line c) \<and> \<not> compare_line (eq_line c) l" if "c \<in> classes e" for c
    using that inv fresh compare_sym by (force simp: table_inv_def)
  have "\<forall>i < length e. \<forall>c \<in> set (e[b := ch] ! i).
      eq_hash c = compute_hash (eq_line c) \<and> bucket_of e (compute_hash (eq_line c)) = int i"
    using inv b ch new by (auto simp: table_inv_def nth_list_update)
  moreover have "\<forall>c \<in> insert new (classes e). \<forall>d \<in> insert new (classes e).
      eq_id c = eq_id d \<longleftrightarrow> compare_line (eq_line c) (eq_line d)"
    using inv ne new compare_refl by (auto simp: table_inv_def dest: sym)
  moreover have "\<forall>c \<in> insert new (classes e). 0 \<le> eq_id c \<and> eq_id c < n + 1"
    using inv new by (auto simp: table_inv_def)
  ultimately show "table_inv (e[b := ch]) (n + 1)"
    using inv unfolding table_inv_def cl by simp
  show "numbered (e[b := ch]) l n" using cl new compare_refl by (auto simp: numbered_def)
  show "classes e \<subseteq> classes (e[b := ch])" using cl by auto
  show "\<forall>c \<in> classes (e[b := ch]). c \<in> classes e \<or> n \<le> eq_id c" using cl new by auto
qed

lemma equiv_line_Some:
  assumes inv: "table_inv e n"
  obtains i e' n' where "equiv_line compare_line compute_hash l (e, n) = Some (i, e', n')" and "table_inv e' n'"
    and "numbered e' l i" and "classes e \<subseteq> classes e'" and "n \<le> n'"
    and "\<forall>c \<in> classes e'. c \<in> classes e \<or> n \<le> eq_id c"
proof -
  define b where "b = nat (bucket_of e (compute_hash l))"
  have b: "b < length e" "bucket_of e (compute_hash l) = int b"
    using bucket_of_range [of e "compute_hash l"] inv by (auto simp: b_def table_inv_def)
  have idx: "idx e (int b) = Some (e ! b)" "upd e (int b) ch = Some (e[b := ch])" for ch
    using b by (simp_all add: idx_nat upd_def)
  have in_b: "set (e ! b) \<subseteq> classes e" using b(1) by (rule classes_nth)
  have found: "numbered e l (eq_id c)" if "c \<in> set (e ! b)" "compare_line l (eq_line c)" for c
    using that in_b by (auto simp: numbered_def)
  have fresh: "\<forall>c \<in> classes e. \<not> compare_line l (eq_line c)"
    if "\<forall>c \<in> set (e ! b). \<not> (eq_hash c = compute_hash l \<and> compare_line l (eq_line c))"
  proof (intro ballI notI)
    fix c assume c: "c \<in> classes e" "compare_line l (eq_line c)"
    then obtain k where k: "k < length e" "c \<in> set (e ! k)" by (auto simp: classes_eq)
    then have "eq_hash c = compute_hash l" "bucket_of e (compute_hash l) = int k"
      using inv c(2) compare_hash [of l "eq_line c"] by (auto simp: table_inv_def)
    then show False using that b k c(2) by auto
  qed
  let ?new = "\<lparr>eq_id = n, eq_hash = compute_hash l, eq_line = l\<rparr>"
  note ins = table_inv_insert [OF inv b refl]
  show thesis
  proof (cases "e ! b")
    case Nil
    then have "\<forall>c \<in> set (e ! b). \<not> (eq_hash c = compute_hash l \<and> compare_line l (eq_line c))" by simp
    note ins' = ins [of "[?new]", OF _ fresh [OF this]]
    have "equiv_line compare_line compute_hash l (e, n) = Some (n, e[b := [?new]], n + 1)"
      using Nil by (simp add: equiv_line_def b idx)
    then show thesis by (rule that) (use Nil ins' in simp_all)
  next
    case (Cons eq nxt)
    let ?P = "\<lambda>c. eq_hash c = compute_hash l \<and> compare_line l (eq_line c)"
    show thesis
    proof (cases "?P eq")
      case True
      then show thesis using inv found [of eq] Cons
        by (intro that [of "eq_id eq" e n]) (auto simp: equiv_line_def b idx)
    next
      case False
      show thesis
      proof (cases "find ?P nxt")
        case None
        then have "\<forall>c \<in> set (e ! b). \<not> ?P c" using Cons False by (auto simp: find_None_iff)
        note ins' = ins [of "eq # ?new # nxt", OF _ fresh [OF this]]
        have "equiv_line compare_line compute_hash l (e, n) = Some (n, e[b := eq # ?new # nxt], n + 1)"
          using Cons False None by (auto simp: equiv_line_def b idx)
        then show thesis by (rule that) (use Cons ins' in \<open>simp_all add: insert_commute\<close>)
      next
        case (Some c)
        from find_SomeD [OF Some] have "c \<in> set nxt" "?P c" by blast+
        moreover have "equiv_line compare_line compute_hash l (e, n) = Some (eq_id c, e, n)"
          using Cons False Some by (auto simp: equiv_line_def b idx)
        ultimately show thesis using inv found [of c] Cons by (elim that) auto
      qed
    qed
  qed
qed

lemma equiv_lines_Some:
  "table_inv e n \<Longrightarrow>
   \<exists>js e' n'. equiv_lines compare_line compute_hash ls (e, n) = Some (js, e', n') \<and> table_inv e' n' \<and>
     list_all2 (numbered e') ls js \<and> classes e \<subseteq> classes e' \<and> n \<le> n' \<and> (\<forall>j \<in> set js. 0 \<le> j \<and> j < n') \<and>
     (\<forall>c \<in> classes e'. c \<in> classes e \<or> n \<le> eq_id c)"
proof (induction ls arbitrary: e n)
  case (Cons l ls)
  obtain i e1 n1 where 1: "equiv_line compare_line compute_hash l (e, n) = Some (i, e1, n1)" "table_inv e1 n1"
    "numbered e1 l i" "classes e \<subseteq> classes e1" "n \<le> n1"
    "\<forall>c \<in> classes e1. c \<in> classes e \<or> n \<le> eq_id c" by (rule equiv_line_Some [OF Cons.prems])
  obtain js e2 n2 where 2: "equiv_lines compare_line compute_hash ls (e1, n1) = Some (js, e2, n2)" "table_inv e2 n2"
    "list_all2 (numbered e2) ls js" "classes e1 \<subseteq> classes e2" "n1 \<le> n2" "\<forall>j \<in> set js. 0 \<le> j \<and> j < n2"
    "\<forall>c \<in> classes e2. c \<in> classes e1 \<or> n1 \<le> eq_id c"
    using Cons.IH [OF 1(2)] by blast
  have "numbered e2 l i" using 1(3) 2(4) by (rule numbered_mono [rotated])
  moreover have "0 \<le> i \<and> i < n2" using 1 2(5) by (auto simp: numbered_def table_inv_def)
  moreover have "\<forall>c \<in> classes e2. c \<in> classes e \<or> n \<le> eq_id c" using 1(5,6) 2(7) by fastforce
  ultimately show ?case using 1 2 by auto
qed simp

end


section \<open>The compression\<close>

text \<open>The test against the other file, when it works: it is true of the numbers that are not in \<open>S\<close>.\<close>

definition tests :: "other \<Rightarrow> int set \<Rightarrow> bool" where
  "tests has S \<longleftrightarrow> (\<forall>v \<ge> 0. not_in_other (fst has) (snd has) v = Some (v \<notin> S))"

lemma mark_ids_Some:
  "\<forall>v \<in> set vs. 0 \<le> v \<and> v < int (length h) \<Longrightarrow>
   \<exists>h'. mark_ids vs h = Some h' \<and> length h' = length h \<and>
     (\<forall>v. 0 \<le> v \<and> v < int (length h) \<longrightarrow> h' ! nat v = (h ! nat v \<or> v \<in> set vs))"
proof (induction vs arbitrary: h)
  case (Cons v vs)
  then have u: "upd h v True = Some (h[nat v := True])" by (simp add: upd_def)
  obtain h' where h': "mark_ids vs (h[nat v := True]) = Some h'" "length h' = length h"
    "\<forall>w. 0 \<le> w \<and> w < int (length h) \<longrightarrow> h' ! nat w = (h[nat v := True] ! nat w \<or> w \<in> set vs)"
    using Cons.IH [of "h[nat v := True]"] Cons.prems by auto
  have "\<forall>w. 0 \<le> w \<and> w < int (length h) \<longrightarrow> h' ! nat w = (h ! nat w \<or> w \<in> set (v # vs))"
    using h'(3) Cons.prems by (auto simp: nth_list_update eq_nat_nat_iff split: if_splits)
  then show ?case using u h'(1,2) by simp
qed simp

lemma mark_ids_tests:
  assumes "\<forall>v \<in> set vs. 0 \<le> v \<and> v \<le> mx" and "0 \<le> mx"
  obtains h where "mark_ids vs (replicate (nat (mx + 1)) False) = Some h" and "tests (mx, h) (set vs)"
proof -
  obtain h where h: "mark_ids vs (replicate (nat (mx + 1)) False) = Some h" "length h = nat (mx + 1)"
    "\<forall>v. 0 \<le> v \<and> v < mx + 1 \<longrightarrow> h ! nat v = (v \<in> set vs)"
    using mark_ids_Some [of vs "replicate (nat (mx + 1)) False"] assms by auto
  have "tests (mx, h) (set vs)"
    using assms h(2,3) by (force simp: tests_def not_in_other_def idx_def)
  then show thesis using h(1) by (rule that [rotated])
qed

text \<open>
  The state of the two skipping loops: outside the ranges \<open>i1..j1\<close> and \<open>i2..j2\<close> the flags already
  describe a diff, inside nothing is marked yet.
\<close>

definition trimmed ::
  "int list \<Rightarrow> int list \<Rightarrow> nat \<Rightarrow> nat \<Rightarrow> nat \<Rightarrow> nat \<Rightarrow> bool list \<Rightarrow> bool list \<Rightarrow> bool"
where
  "trimmed ids1 ids2 i1 i2 j1 j2 c1 c2 \<longleftrightarrow>
     length c1 = length ids1 \<and> length c2 = length ids2 \<and>
     i1 \<le> j1 \<and> j1 \<le> length ids1 \<and> i2 \<le> j2 \<and> j2 \<le> length ids2 \<and>
     (\<forall>k. i1 \<le> k \<and> k < j1 \<longrightarrow> \<not> c1 ! k) \<and> (\<forall>k. i2 \<le> k \<and> k < j2 \<longrightarrow> \<not> c2 ! k) \<and>
     kept (take i1 ids1) (take i1 c1) = kept (take i2 ids2) (take i2 c2) \<and>
     kept (drop j1 ids1) (drop j1 c1) = kept (drop j2 ids2) (drop j2 c2)"

lemma kept_take_Suc: "i < length d \<Longrightarrow> length c = length d \<Longrightarrow>
    kept (take (Suc i) d) (take (Suc i) c) = kept (take i d) (take i c) @ (if c ! i then [] else [d ! i])"
  by (simp add: take_Suc_conv_app_nth kept_append)

lemma kept_drop_pred: "j < length d \<Longrightarrow> length c = length d \<Longrightarrow>
    kept (drop j d) (drop j c) = (if c ! j then [] else [d ! j]) @ kept (drop (Suc j) d) (drop (Suc j) c)"
  by (simp flip: Cons_nth_drop_Suc)

lemma trimmed_first:
  assumes "trimmed ids1 ids2 i1 i2 j1 j2 c1 c2"
  shows "i1 < j1 \<Longrightarrow> trimmed ids1 ids2 (Suc i1) i2 j1 j2 (c1[i1 := True]) c2"
    and "i2 < j2 \<Longrightarrow> trimmed ids1 ids2 i1 (Suc i2) j1 j2 c1 (c2[i2 := True])"
    and "i1 < j1 \<Longrightarrow> i2 < j2 \<Longrightarrow> ids1 ! i1 = ids2 ! i2 \<Longrightarrow> trimmed ids1 ids2 (Suc i1) (Suc i2) j1 j2 c1 c2"
  using assms by (auto simp: trimmed_def kept_take_Suc nth_list_update)

lemma trimmed_last:
  assumes "trimmed ids1 ids2 i1 i2 j1 j2 c1 c2"
  shows "i1 < j1 \<Longrightarrow> trimmed ids1 ids2 i1 i2 (j1 - 1) j2 (c1[j1 - 1 := True]) c2"
    and "i2 < j2 \<Longrightarrow> trimmed ids1 ids2 i1 i2 j1 (j2 - 1) c1 (c2[j2 - 1 := True])"
    and "i1 < j1 \<Longrightarrow> i2 < j2 \<Longrightarrow> ids1 ! (j1 - 1) = ids2 ! (j2 - 1) \<Longrightarrow>
      trimmed ids1 ids2 i1 i2 (j1 - 1) (j2 - 1) c1 c2"
  using assms kept_drop_pred [of "j1 - 1" ids1 "c1[j1 - 1 := True]"] kept_drop_pred [of "j2 - 1" ids2 "c2[j2 - 1 := True]"]
    kept_drop_pred [of "j1 - 1" ids1 c1] kept_drop_pred [of "j2 - 1" ids2 c2]
  by (auto simp: trimmed_def)

lemma skip_first_Some:
  assumes t: "tests has1 (set ids1)" "tests has2 (set ids2)" and pos: "\<forall>v \<in> set ids1 \<union> set ids2. 0 \<le> v"
  shows "trimmed ids1 ids2 i1 i2 (length ids1) (length ids2) c1 c2 \<Longrightarrow>
    \<exists>k1 k2 d1 d2. skip_first has1 has2 ids1 ids2 i1 i2 c1 c2 = Some (k1, k2, d1, d2) \<and>
      trimmed ids1 ids2 k1 k2 (length ids1) (length ids2) d1 d2"
proof (induction "(length ids1 - i1) + (length ids2 - i2)" arbitrary: i1 i2 c1 c2 rule: less_induct)
  case less
  show ?case
  proof (cases "i1 < length ids1 \<and> i2 < length ids2")
    case False
    then show ?thesis using less.prems by (subst skip_first.simps) auto
  next
    case True
    have x: "not_in_other (fst has2) (snd has2) (ids1 ! i1) = Some (ids1 ! i1 \<notin> set ids2)"
      "not_in_other (fst has1) (snd has1) (ids2 ! i2) = Some (ids2 ! i2 \<notin> set ids1)"
      using t pos True by (auto simp: tests_def)
    have u: "upd c1 (int i1) True = Some (c1[i1 := True])" "upd c2 (int i2) True = Some (c2[i2 := True])"
      using less.prems True by (auto simp: upd_def trimmed_def)
    note T = trimmed_first [OF less.prems]
    have l: "i1 < length ids1" "i2 < length ids2" using True by auto
    consider (a) "ids1 ! i1 \<notin> set ids2" | (b) "ids1 ! i1 \<in> set ids2" "ids2 ! i2 \<notin> set ids1"
      | (c) "ids1 ! i1 \<in> set ids2" "ids2 ! i2 \<in> set ids1" "ids1 ! i1 = ids2 ! i2"
      | (d) "ids1 ! i1 \<in> set ids2" "ids2 ! i2 \<in> set ids1" "ids1 ! i1 \<noteq> ids2 ! i2" by blast
    then show ?thesis
    proof cases
      case a
      then show ?thesis using less.hyps [of "Suc i1" "i2" "c1[i1 := True]" "c2"] T(1) l x u by (subst skip_first.simps) (simp add: idx_nat)
    next
      case b
      then show ?thesis using less.hyps [of "i1" "Suc i2" "c1" "c2[i2 := True]"] T(2) l x u by (subst skip_first.simps) (simp add: idx_nat)
    next
      case c
      then show ?thesis using less.hyps [of "Suc i1" "Suc i2" "c1" "c2"] T(3) l x u by (subst skip_first.simps) (simp add: idx_nat)
    next
      case d
      then show ?thesis using less.prems True x u by (subst skip_first.simps) (simp add: idx_nat)
    qed
  qed
qed

lemma skip_last_Some:
  assumes t: "tests has1 (set ids1)" "tests has2 (set ids2)" and pos: "\<forall>v \<in> set ids1 \<union> set ids2. 0 \<le> v"
  shows "trimmed ids1 ids2 i1 i2 j1 j2 c1 c2 \<Longrightarrow>
    \<exists>k1 k2 d1 d2. skip_last has1 has2 ids1 ids2 i1 i2 j1 j2 c1 c2 = Some (k1, k2, d1, d2) \<and>
      trimmed ids1 ids2 i1 i2 k1 k2 d1 d2"
proof (induction "j1 + j2" arbitrary: j1 j2 c1 c2 rule: less_induct)
  case less
  show ?case
  proof (cases "i1 < j1 \<and> i2 < j2")
    case False
    then show ?thesis using less.prems by (subst skip_last.simps) auto
  next
    case True
    let ?v1 = "ids1 ! (j1 - 1)" and ?v2 = "ids2 ! (j2 - 1)"
    have l: "j1 - 1 < length ids1" "j2 - 1 < length ids2" using less.prems True by (auto simp: trimmed_def)
    have x: "not_in_other (fst has2) (snd has2) ?v1 = Some (?v1 \<notin> set ids2)"
      "not_in_other (fst has1) (snd has1) ?v2 = Some (?v2 \<notin> set ids1)"
      using t pos l by (auto simp: tests_def)
    have u: "upd c1 (int (j1 - 1)) True = Some (c1[j1 - 1 := True])" "upd c2 (int (j2 - 1)) True = Some (c2[j2 - 1 := True])"
      "idx ids1 (int (j1 - 1)) = Some ?v1" "idx ids2 (int (j2 - 1)) = Some ?v2"
      using less.prems l by (simp_all add: upd_def idx_nat trimmed_def del: of_nat_diff)
    note T = trimmed_last [OF less.prems]
    note defs = x u if_True if_False bind.bind_lunit simp_thms
    consider (a) "?v1 \<notin> set ids2" | (b) "?v1 \<in> set ids2" "?v2 \<notin> set ids1"
      | (c) "?v1 \<in> set ids2" "?v2 \<in> set ids1" "?v1 = ?v2"
      | (d) "?v1 \<in> set ids2" "?v2 \<in> set ids1" "?v1 \<noteq> ?v2" by blast
    then show ?thesis
    proof cases
      case a
      have "skip_last has1 has2 ids1 ids2 i1 i2 j1 j2 c1 c2 =
        skip_last has1 has2 ids1 ids2 i1 i2 (j1 - 1) j2 (c1[j1 - 1 := True]) c2"
        by (subst skip_last.simps) (simp only: defs True a)
      then show ?thesis using less.hyps [OF _ T(1)] True by simp
    next
      case b
      have "skip_last has1 has2 ids1 ids2 i1 i2 j1 j2 c1 c2 =
        skip_last has1 has2 ids1 ids2 i1 i2 j1 (j2 - 1) c1 (c2[j2 - 1 := True])"
        by (subst skip_last.simps) (simp only: defs True b)
      then show ?thesis using less.hyps [OF _ T(2)] True by simp
    next
      case c
      have "skip_last has1 has2 ids1 ids2 i1 i2 j1 j2 c1 c2 = skip_last has1 has2 ids1 ids2 i1 i2 (j1 - 1) (j2 - 1) c1 c2"
        by (subst skip_last.simps) (simp only: defs True c(1,2) c(3) [THEN eqTrueI])
      then show ?thesis using less.hyps [OF _ T(3)] True c by simp
    next
      case d
      have "skip_last has1 has2 ids1 ids2 i1 i2 j1 j2 c1 c2 = Some (j1, j2, c1, c2)"
        by (subst skip_last.simps) (simp only: defs True d)
      then show ?thesis using less.prems by simp
    qed
  qed
qed


text \<open>
  The entries of a compressed list, each with the lines it stands for: a line that the other file has
  stands for itself; lines that it does not have are given a number below 1 of their own, the negated
  number of the line or a negated fresh one.
\<close>

definition zgroup :: "int set \<Rightarrow> int \<Rightarrow> int \<Rightarrow> int list \<times> int \<Rightarrow> bool" where
  "zgroup S lo hi = (\<lambda>(g, z). z \<in> S \<and> g = [z] \<or>
     g \<noteq> [] \<and> set g \<inter> S = {} \<and> ((\<exists>v. g = [v] \<and> z = - v) \<or> (\<exists>m. lo \<le> m \<and> m < hi \<and> z = - m)))"

lemma zgroup_mono: "zgroup S lo hi p \<Longrightarrow> hi \<le> hi' \<Longrightarrow> zgroup S lo hi' p"
  unfolding zgroup_def by (cases p) fastforce

lemma compress_ids_groups:
  "tests has S \<Longrightarrow> \<forall>v \<in> set vs. 0 \<le> v \<Longrightarrow> \<forall>p \<in> set gs. zgroup S lo n p \<Longrightarrow> lo \<le> n \<Longrightarrow>
   le \<longrightarrow> gs \<noteq> [] \<and> set (fst (last gs)) \<inter> S = {} \<Longrightarrow>
   \<exists>gs' n'. compress_ids has vs le n (map snd gs) (map (\<lambda>p. length (fst p)) gs) =
       Some (map snd gs', map (\<lambda>p. length (fst p)) gs', n') \<and> n \<le> n' \<and>
     concat (map fst gs') = concat (map fst gs) @ vs \<and> (\<forall>p \<in> set gs'. zgroup S lo n' p)"
proof (induction vs arbitrary: gs n le)
  case Nil
  then show ?case by auto
next
  case (Cons v vs)
  have x: "not_in_other (fst has) (snd has) v = Some (v \<notin> S)" using Cons.prems(1,2) by (simp add: tests_def)
  consider (merge) "v \<notin> S" le | (single) "v \<notin> S" "\<not> le" | (keep) "v \<in> S" by blast
  then show ?case
  proof cases
    case merge
    then obtain gs0 g z where gs: "gs = gs0 @ [(g, z)]" and g: "set g \<inter> S = {}"
      using Cons.prems(5) by (metis append_butlast_last_id prod.collapse)
    let ?gs = "gs0 @ [(g @ [v], - n)]"
    have zg: "\<forall>p \<in> set ?gs. zgroup S lo (n + 1) p"
      using Cons.prems(3,4) g merge(1) unfolding gs by (auto simp: zgroup_def intro: zgroup_mono)
    obtain gs' n' where IH: "compress_ids has vs True (n + 1) (map snd ?gs) (map (\<lambda>p. length (fst p)) ?gs) =
        Some (map snd gs', map (\<lambda>p. length (fst p)) gs', n')" "n + 1 \<le> n'"
      "concat (map fst gs') = concat (map fst ?gs) @ vs" "\<forall>p \<in> set gs'. zgroup S lo n' p"
      using Cons.IH [of ?gs "n + 1" True] Cons.prems(1,2,4) zg g merge(1) by auto
    have "compress_ids has (v # vs) le n (map snd gs) (map (\<lambda>p. length (fst p)) gs) =
        compress_ids has vs True (n + 1) (map snd ?gs) (map (\<lambda>p. length (fst p)) ?gs)"
      using merge by (simp add: x gs idx_def upd_def nth_append list_update_append)
    then show ?thesis using IH gs by (intro exI [of _ gs'] exI [of _ n']) auto
  next
    case single
    let ?gs = "gs @ [([v], - v)]"
    have zg: "\<forall>p \<in> set ?gs. zgroup S lo n p" using Cons.prems(3) single(1) by (auto simp: zgroup_def)
    obtain gs' n' where IH: "compress_ids has vs True n (map snd ?gs) (map (\<lambda>p. length (fst p)) ?gs) =
        Some (map snd gs', map (\<lambda>p. length (fst p)) gs', n')" "n \<le> n'"
      "concat (map fst gs') = concat (map fst ?gs) @ vs" "\<forall>p \<in> set gs'. zgroup S lo n' p"
      using Cons.IH [of ?gs n True] Cons.prems(1,2,4) zg single(1) by auto
    then show ?thesis using single x by (intro exI [of _ gs'] exI [of _ n']) auto
  next
    case keep
    let ?gs = "gs @ [([v], v)]"
    have zg: "\<forall>p \<in> set ?gs. zgroup S lo n p" using Cons.prems(3) keep by (auto simp: zgroup_def)
    obtain gs' n' where IH: "compress_ids has vs False n (map snd ?gs) (map (\<lambda>p. length (fst p)) ?gs) =
        Some (map snd gs', map (\<lambda>p. length (fst p)) gs', n')" "n \<le> n'"
      "concat (map fst gs') = concat (map fst ?gs) @ vs" "\<forall>p \<in> set gs'. zgroup S lo n' p"
      using Cons.IH [of ?gs n False] Cons.prems(1,2,4) zg by auto
    then show ?thesis using keep x by (intro exI [of _ gs'] exI [of _ n']) auto
  qed
qed

lemma compress_ids_Some:
  assumes "tests has S" and "\<forall>v \<in> set vs. 0 \<le> v"
  obtains gs n' where "compress_ids has vs False n [] [] = Some (map snd gs, map (\<lambda>p. length (fst p)) gs, n')"
    and "n \<le> n'" and "concat (map fst gs) = vs" and "\<forall>p \<in> set gs. zgroup S n n' p"
  using compress_ids_groups [OF assms, of "[]" n n False] by auto

text \<open>An entry of one list that equals an entry of the other stands for itself.\<close>

lemma zgroup_common:
  assumes "zgroup S2 n n1 (g1, z)" and "zgroup S1 n1 n2 (g2, z)"
    and "set g1 \<subseteq> S1" and "set g2 \<subseteq> S2" and bound: "\<forall>v \<in> S1 \<union> S2. 0 \<le> v \<and> v < n" and "n \<le> n1" and "0 < n"
  shows "g1 = [z]" and "g2 = [z]"
proof -
  have z: "0 \<le> z" if "z \<in> S1" using that bound by auto
  consider (i1) "z \<in> S1" "z \<in> S2" "g1 = [z]" | (v1) v where "v \<in> S1" "v \<notin> S2" "z = - v" "0 \<le> v" "v < n"
    | (m1) m where "n \<le> m" "m < n1" "z = - m"
    using assms(1,3) bound by (auto simp: zgroup_def)
  note one = this
  consider (i2) "z \<in> S1" "z \<in> S2" "g2 = [z]" | (v2) v where "v \<in> S2" "v \<notin> S1" "z = - v" "0 \<le> v" "v < n"
    | (m2) m where "n1 \<le> m" "m < n2" "z = - m"
    using assms(2,4) bound by (auto simp: zgroup_def)
  note two = this
  from one have "g1 = [z] \<and> g2 = [z]"
  proof cases
    case i1
    from two show ?thesis
    proof cases
      case v2
      then have "v = z" using z i1 by simp
      then show ?thesis using v2 i1 by simp
    qed (use i1 z assms(6,7) in auto)
  next
    case v1
    from two show ?thesis
    proof cases
      case i2
      then have "v = z" using z v1 by simp
      then show ?thesis using v1 i2 by simp
    next
      case (v2 w)
      then have "v = w" using v1 by simp
      then show ?thesis using v1 v2 by simp
    qed (use v1 assms(6) in auto)
  next
    case m1
    from two show ?thesis by cases (use m1 z assms(7) in auto)
  qed
  then show "g1 = [z]" "g2 = [z]" by auto
qed

section \<open>The expansion\<close>

definition expanded :: "(int list \<times> int) list \<Rightarrow> bool list \<Rightarrow> bool list" where
  "expanded gs zc = concat (map2 (\<lambda>p b. replicate (length (fst p)) b) gs zc)"

lemma length_expanded: "length zc = length gs \<Longrightarrow> length (expanded gs zc) = length (concat (map fst gs))"
  by (induction gs zc rule: list_induct2') (auto simp: expanded_def)

lemma kept_expanded:
  "length zc = length gs \<Longrightarrow> \<forall>p \<in> set (kept gs zc). fst p = [snd p] \<Longrightarrow>
   kept (concat (map fst gs)) (expanded gs zc) = kept (map snd gs) zc"
proof (induction gs zc rule: list_induct2')
  case (4 p gs b zc)
  then show ?case by (cases b) (simp_all add: expanded_def kept_append kept_True)
qed (auto simp: expanded_def)

lemma mark_range_split:
  "i \<le> j \<Longrightarrow> j \<le> length c \<Longrightarrow> mark_range c i j = take i c @ replicate (j - i) True @ drop j c"
  by (rule nth_equalityI) (auto simp: nth_mark_range nth_append)

lemma expand_from_Some:
  "length zc = i + length gs \<Longrightarrow> length pre = n \<Longrightarrow>
   expand_from (map (\<lambda>p. length (fst p)) gs) i zc
     (pre @ replicate (length (concat (map fst gs))) False @ rest) n =
   Some (pre @ expanded gs (drop i zc) @ rest)"
proof (induction gs arbitrary: i pre n)
  case (Cons p gs)
  let ?m = "length (fst p)" and ?r = "replicate (length (concat (map fst gs))) False @ rest"
  have i: "idx zc (int i) = Some (zc ! i)" "drop i zc = zc ! i # drop (Suc i) zc"
    using Cons.prems(1) by (simp_all add: idx_nat Cons_nth_drop_Suc)
  have "mark_from (pre @ replicate ?m False @ ?r) n (n + ?m) = Some (pre @ replicate ?m True @ ?r)"
    using Cons.prems(2) by (simp add: mark_from_eq mark_range_split)
  then show ?case
    using Cons.IH [of "Suc i" "pre @ replicate ?m (zc ! i)" "n + ?m"] Cons.prems
    by (cases "zc ! i") (simp_all add: i expanded_def replicate_add)
qed (simp add: expanded_def)

lemma trimmed_kept:
  assumes t: "trimmed ids1 ids2 i1 i2 j1 j2 c1 c2"
    and r: "length r1 = j1 - i1" "length r2 = j2 - i2"
      "kept (take (j1 - i1) (drop i1 ids1)) r1 = kept (take (j2 - i2) (drop i2 ids2)) r2"
  shows "kept ids1 (take i1 c1 @ r1 @ drop j1 c1) = kept ids2 (take i2 c2 @ r2 @ drop j2 c2)"
proof -
  have split: "xs = take i xs @ take (j - i) (drop i xs) @ drop j xs" if "i \<le> j" for i j and xs :: "'c list"
    using that by (metis append_take_drop_id drop_drop le_add_diff_inverse2)
  have k: "kept xs (take i c @ r @ drop j c) =
      kept (take i xs) (take i c) @ kept (take (j - i) (drop i xs)) r @ kept (drop j xs) (drop j c)"
    if "i \<le> j" "j \<le> length xs" "length c = length xs" "length r = j - i" for i j r c and xs :: "int list"
    using that by (subst split [OF that(1), of xs]) (simp add: kept_append)
  show ?thesis using t r by (simp add: k trimmed_def)
qed

lemma unmarked_split:
  assumes "i \<le> j" and "j \<le> length c" and "\<forall>k. i \<le> k \<and> k < j \<longrightarrow> \<not> c ! k"
  shows "c = take i c @ replicate (j - i) False @ drop j c"
proof -
  have "take (j - i) (drop i c) = replicate (j - i) False"
    by (rule nth_equalityI) (use assms in auto)
  then show ?thesis using assms(1) by (metis append_take_drop_id drop_drop le_add_diff_inverse2)
qed

lemma trimmed_parts:
  assumes "trimmed ids1 ids2 i1 i2 j1 j2 c1 c2"
  shows "c1 = take i1 c1 @ replicate (j1 - i1) False @ drop j1 c1"
    and "c2 = take i2 c2 @ replicate (j2 - i2) False @ drop j2 c2"
  using assms by (auto simp: trimmed_def intro!: unmarked_split)

lemma expand_info_Some:
  assumes c: "change info = take i c @ replicate (j - i) False @ drop j c" and len: "i \<le> j" "j \<le> length c"
    and z: "zids_start info = i" "zcount info = map (\<lambda>p. length (fst p)) gs" "length (concat (map fst gs)) = j - i"
    and zc: "length zc = length gs"
  shows "expand_info info (Some zc) = Some (info\<lparr>change := take i c @ expanded gs zc @ drop j c\<rparr>)"
proof -
  have "slice_from (change info) (int i) = Some (replicate (j - i) False @ drop j c)"
    using len by (simp add: c slice_from_def)
  moreover have "expand_from (zcount info) 0 zc (replicate (j - i) False @ drop j c) 0 =
      Some (expanded gs zc @ drop j c)"
    using expand_from_Some [of zc 0 gs "[]" 0 "drop j c"] zc z by simp
  moreover have "length (expanded gs zc @ drop j c) = length (change info) - i"
    using length_expanded [OF zc] z(3) len by (simp add: c)
  then have "put_back (change info) i (expanded gs zc @ drop j c) = take i c @ expanded gs zc @ drop j c"
    using len by (simp add: put_back_def c)
  ultimately show ?thesis by (simp add: expand_info_def z(1))
qed

lemma compressed_diff:
  assumes b1: "\<forall>v \<in> set is1. 0 \<le> v \<and> v \<le> m1" and b2: "\<forall>v \<in> set is2. 0 \<le> v \<and> v \<le> m2" and m: "0 \<le> m1" "0 \<le> m2"
  shows "\<exists>r1 r2. do { (info1, info2) \<leftarrow> compress_equiv_ids (new_info is1) (new_info is2) m1 m2; diff_zids info1 info2 } =
      Some (r1, r2) \<and> ids r1 = is1 \<and> ids r2 = is2 \<and> length (change r1) = length is1 \<and>
    length (change r2) = length is2 \<and> kept is1 (change r1) = kept is2 (change r2)"
proof -
  obtain h1 where h1: "mark_ids is1 (replicate (nat (m1 + 1)) False) = Some h1" "tests (m1, h1) (set is1)"
    by (rule mark_ids_tests [OF b1 m(1)])
  obtain h2 where h2: "mark_ids is2 (replicate (nat (m2 + 1)) False) = Some h2" "tests (m2, h2) (set is2)"
    by (rule mark_ids_tests [OF b2 m(2)])
  have pos: "\<forall>v \<in> set is1 \<union> set is2. 0 \<le> v" using b1 b2 by auto
  have "trimmed is1 is2 0 0 (length is1) (length is2) (replicate (length is1) False) (replicate (length is2) False)"
    by (simp add: trimmed_def)
  from skip_first_Some [OF h1(2) h2(2) pos this] obtain i1 i2 c1 c2 where
    f: "skip_first (m1, h1) (m2, h2) is1 is2 0 0 (replicate (length is1) False) (replicate (length is2) False) = Some (i1, i2, c1, c2)"
      "trimmed is1 is2 i1 i2 (length is1) (length is2) c1 c2" by blast
  from skip_last_Some [OF h1(2) h2(2) pos f(2)] obtain j1 j2 d1 d2 where
    l: "skip_last (m1, h1) (m2, h2) is1 is2 i1 i2 (length is1) (length is2) c1 c2 = Some (j1, j2, d1, d2)"
      "trimmed is1 is2 i1 i2 j1 j2 d1 d2" by blast
  note start = h1(1) h2(1) f(1) l(1)
  have len: "i1 \<le> j1" "j1 \<le> length d1" "i2 \<le> j2" "j2 \<le> length d2" "length d1 = length is1" "length d2 = length is2"
    using l(2) by (auto simp: trimmed_def)
  note p = trimmed_parts [OF l(2)]
  let ?n1 = "j1 - i1" and ?n2 = "j2 - i2"
  have k0: "kept xs (replicate n True) = kept ys (replicate k True)" for xs ys :: "int list" and n k
    by (simp add: kept_True)
  show ?thesis
  proof (cases "i1 = j1 \<or> i2 = j2")
    case True
    then consider (a) "i1 = j1" | (b) "i1 \<noteq> j1" "i2 = j2" by blast
    then show ?thesis
    proof cases
      case a
      have "mark_from d2 i2 j2 = Some (take i2 d2 @ replicate ?n2 True @ drop j2 d2)"
        using len by (simp add: mark_from_eq mark_range_split)
      moreover have "kept is1 (take i1 d1 @ replicate ?n1 False @ drop j1 d1) =
          kept is2 (take i2 d2 @ replicate ?n2 True @ drop j2 d2)"
        by (rule trimmed_kept [OF l(2)]) (simp_all add: a kept_True)
      ultimately show ?thesis
        using start a len p(1) by (simp add: compress_equiv_ids_def new_info_def diff_zids_def)
    next
      case b
      have "mark_from d1 i1 j1 = Some (take i1 d1 @ replicate ?n1 True @ drop j1 d1)"
        using len by (simp add: mark_from_eq mark_range_split)
      moreover have "kept is1 (take i1 d1 @ replicate ?n1 True @ drop j1 d1) =
          kept is2 (take i2 d2 @ replicate ?n2 False @ drop j2 d2)"
        by (rule trimmed_kept [OF l(2)]) (simp_all add: b kept_True)
      ultimately show ?thesis
        using start b len p(2) by (simp add: compress_equiv_ids_def new_info_def diff_zids_def)
    qed
  next
    case False
    define s1 s2 where "s1 = take ?n1 (drop i1 is1)" and "s2 = take ?n2 (drop i2 is2)"
    have sub: "sub is1 i1 j1 = Some s1" "sub is2 i2 j2 = Some s2" using len by (simp_all add: sub_def s1_def s2_def)
    have in_s: "set s1 \<subseteq> set is1" "set s2 \<subseteq> set is2"
      unfolding s1_def s2_def by (meson set_take_subset set_drop_subset subset_trans)+
    let ?N = "max m1 m2 + 1"
    obtain gs1 n1 where g1: "compress_ids (m2, h2) s1 False ?N [] [] = Some (map snd gs1, map (\<lambda>p. length (fst p)) gs1, n1)"
      "?N \<le> n1" "concat (map fst gs1) = s1" "\<forall>p \<in> set gs1. zgroup (set is2) ?N n1 p"
      using compress_ids_Some [OF h2(2), of s1 ?N] in_s pos by blast
    obtain gs2 n2 where g2: "compress_ids (m1, h1) s2 False n1 [] [] = Some (map snd gs2, map (\<lambda>p. length (fst p)) gs2, n2)"
      "n1 \<le> n2" "concat (map fst gs2) = s2" "\<forall>p \<in> set gs2. zgroup (set is1) n1 n2 p"
      using compress_ids_Some [OF h1(2), of s2 n1] in_s pos by blast
    obtain zc1 zc2 where zc: "do_diff (map snd gs1) (map snd gs2) = Some (zc1, zc2)" "length zc1 = length gs1"
      "length zc2 = length gs2" "kept (map snd gs1) zc1 = kept (map snd gs2) zc2"
      using do_diff_Some [of "map snd gs1" "map snd gs2"] by auto
    have common: "g = [z] \<and> g' = [z]" if "(g, z) \<in> set gs1" "(g', z) \<in> set gs2" for g g' z
    proof -
      have "set g \<subseteq> set is1" "set g' \<subseteq> set is2" using that g1(3) g2(3) in_s by force+
      moreover have "zgroup (set is2) ?N n1 (g, z)" "zgroup (set is1) n1 n2 (g', z)" using that g1(4) g2(4) by auto
      moreover have "\<forall>v \<in> set is1 \<union> set is2. 0 \<le> v \<and> v < ?N" using b1 b2 by auto
      ultimately show ?thesis using zgroup_common [of "set is2" ?N n1 g z "set is1" n2 g'] g1(2) m by auto
    qed
    have "fst p = [snd p]" if "p \<in> set (kept gs1 zc1)" for p
    proof -
      have "snd p \<in> set (kept (map snd gs2) zc2)"
        unfolding zc(4) [symmetric] unfolding kept_map using that by simp
      then obtain g where "(g, snd p) \<in> set gs2" using set_kept [of "map snd gs2" zc2] by fastforce
      moreover have "(fst p, snd p) \<in> set gs1" using that set_kept [of gs1 zc1] by auto
      ultimately show ?thesis using common by blast
    qed
    then have k1: "kept s1 (expanded gs1 zc1) = kept (map snd gs1) zc1"
      using kept_expanded [OF zc(2)] g1(3) by simp
    have "fst p = [snd p]" if "p \<in> set (kept gs2 zc2)" for p
    proof -
      have "snd p \<in> set (kept (map snd gs1) zc1)"
        unfolding zc(4) unfolding kept_map using that by simp
      then obtain g where "(g, snd p) \<in> set gs1" using set_kept [of "map snd gs1" zc1] by fastforce
      moreover have "(fst p, snd p) \<in> set gs2" using that set_kept [of gs2 zc2] by auto
      ultimately show ?thesis using common by blast
    qed
    then have k2: "kept s2 (expanded gs2 zc2) = kept (map snd gs2) zc2"
      using kept_expanded [OF zc(3)] g2(3) by simp
    have ls: "length (concat (map fst gs1)) = ?n1" "length (concat (map fst gs2)) = ?n2"
      unfolding g1(3) g2(3) using len by (simp_all add: s1_def s2_def)
    let ?i1 = "new_info is1\<lparr>change := d1, zids_start := i1, zids_end := j1, zids := Some (map snd gs1), zcount := map (\<lambda>p. length (fst p)) gs1\<rparr>"
    let ?i2 = "new_info is2\<lparr>change := d2, zids_start := i2, zids_end := j2, zids := Some (map snd gs2), zcount := map (\<lambda>p. length (fst p)) gs2\<rparr>"
    have e1: "expand_info ?i1 (Some zc1) = Some (?i1\<lparr>change := take i1 d1 @ expanded gs1 zc1 @ drop j1 d1\<rparr>)"
      by (rule expand_info_Some [OF _ len(1,2) _ _ ls(1) zc(2)]) (use p in simp_all)
    have e2: "expand_info ?i2 (Some zc2) = Some (?i2\<lparr>change := take i2 d2 @ expanded gs2 zc2 @ drop j2 d2\<rparr>)"
      by (rule expand_info_Some [OF _ len(3,4) _ _ ls(2) zc(3)]) (use p in simp_all)
    have le: "length (expanded gs1 zc1) = ?n1" "length (expanded gs2 zc2) = ?n2"
      using length_expanded zc(2,3) ls by simp_all
    have "kept is1 (take i1 d1 @ expanded gs1 zc1 @ drop j1 d1) = kept is2 (take i2 d2 @ expanded gs2 zc2 @ drop j2 d2)"
      by (rule trimmed_kept [OF l(2) le]) (use k1 k2 zc(4) in \<open>simp add: s1_def s2_def\<close>)
    moreover have "compress_equiv_ids (new_info is1) (new_info is2) m1 m2 = Some (?i1, ?i2)"
      using start False sub g1(1) g2(1) by (simp add: compress_equiv_ids_def new_info_def)
    moreover have "diff_zids ?i1 ?i2 = Some (?i1\<lparr>change := take i1 d1 @ expanded gs1 zc1 @ drop j1 d1\<rparr>,
        ?i2\<lparr>change := take i2 d2 @ expanded gs2 zc2 @ drop j2 d2\<rparr>)"
      using e1 e2 zc(1) by (simp add: diff_zids_def expand_change_list_def)
    ultimately show ?thesis using len le by (simp add: new_info_def)
  qed
qed


text \<open>Nothing is marked where both lists are the same.\<close>

lemma skip_first_same:
  assumes "tests h1 (set is)" and "tests h2 (set is)" and "\<forall>v \<in> set is. 0 \<le> v"
  shows "k \<le> length is \<Longrightarrow> skip_first h1 h2 is is k k c1 c2 = Some (length is, length is, c1, c2)"
proof (induction "length is - k" arbitrary: k)
  case 0
  then show ?case by (subst skip_first.simps) simp
next
  case (Suc m)
  then have k: "k < length is" by simp
  then have "not_in_other (fst h1) (snd h1) (is ! k) = Some False" "not_in_other (fst h2) (snd h2) (is ! k) = Some False"
    using assms by (simp_all add: tests_def)
  then show ?case using Suc.hyps(1) [of "Suc k"] Suc.hyps(2) k by (subst skip_first.simps) (simp add: idx_nat)
qed

lemma compressed_same:
  assumes b: "\<forall>v \<in> set is. 0 \<le> v \<and> v \<le> m1" "\<forall>v \<in> set is. 0 \<le> v \<and> v \<le> m2" and m: "0 \<le> m1" "0 \<le> m2"
  shows "do { (info1, info2) \<leftarrow> compress_equiv_ids (new_info is) (new_info is) m1 m2; diff_zids info1 info2 } =
    Some (new_info is, new_info is)"
proof -
  obtain h1 where h1: "mark_ids is (replicate (nat (m1 + 1)) False) = Some h1" "tests (m1, h1) (set is)"
    using mark_ids_tests [OF b(1) m(1)] .
  obtain h2 where h2: "mark_ids is (replicate (nat (m2 + 1)) False) = Some h2" "tests (m2, h2) (set is)"
    using mark_ids_tests [OF b(2) m(2)] .
  let ?c = "replicate (length is) False"
  have "skip_first (m1, h1) (m2, h2) is is 0 0 ?c ?c = Some (length is, length is, ?c, ?c)"
    using skip_first_same [OF h1(2) h2(2)] b(1) by simp
  moreover have "skip_last (m1, h1) (m2, h2) is is (length is) (length is) (length is) (length is) ?c ?c =
      Some (length is, length is, ?c, ?c)" by (subst skip_last.simps) simp
  ultimately have "compress_equiv_ids (new_info is) (new_info is) m1 m2 = Some (new_info is, new_info is)"
    using h1(1) h2(1) by (simp add: compress_equiv_ids_def new_info_def Let_def mark_from_eq mark_range_empty)
  then show ?thesis by (simp add: diff_zids_def new_info_def)
qed

section \<open>The changes of two texts\<close>

lemma bucket_count_pos: "0 < b \<Longrightarrow> 0 < bucket_count n b"
proof (induction n b rule: bucket_count.induct)
  case (1 n b)
  then show ?case by (subst bucket_count.simps) auto
qed

definition first_table :: "Flags \<Rightarrow> (bytes \<Rightarrow> 32 word) \<Rightarrow> nat \<Rightarrow> eqhash option" where
  "first_table fl compute_hash buckets =
     (let eqhash = replicate buckets [] in
      if cmp_ignore_blank_lines fl then
        upd eqhash (bucket_of eqhash (compute_hash []))
          [\<lparr>eq_id = 0, eq_hash = compute_hash [], eq_line = []\<rparr>]
      else Some eqhash)"

lemma find_equiv_lines_eq: "find_equiv_lines fl cmp hash lines1 lines2 =
    do { eqhash \<leftarrow> first_table fl hash (bucket_count ((length lines1 + length lines2) * 2) 512);
         (ids1, eqhash, next_id) \<leftarrow> equiv_lines cmp hash lines1 (eqhash, 1);
         (ids2, eqhash, next_id') \<leftarrow> equiv_lines cmp hash lines2 (eqhash, next_id);
         compress_equiv_ids (new_info ids1) (new_info ids2) (next_id - 1) (next_id' - 1) }"
  by (simp add: find_equiv_lines_def first_table_def Let_def)

context line_compare
begin

lemma first_table_Some:
  assumes "0 < b"
  obtains e where "first_table fl compute_hash b = Some e" and "table_inv e 1"
    and "cmp_ignore_blank_lines fl \<Longrightarrow> numbered e [] 0"
    and "\<not> cmp_ignore_blank_lines fl \<Longrightarrow> classes e = {}"
proof -
  have no: "classes (replicate b []) = {}" by (auto simp: classes_def)
  show thesis
  proof (cases "cmp_ignore_blank_lines fl")
    case False
    have "table_inv (replicate b []) 1" using assms no by (simp add: table_inv_def)
    then show thesis using False no
      by (intro that [of "replicate b []"]) (simp_all add: first_table_def)
  next
    case True
    define k where "k = nat (bucket_of (replicate b []) (compute_hash []))"
    have k: "k < length (replicate b ([] :: EquivClass list))" "bucket_of (replicate b []) (compute_hash []) = int k"
      using bucket_of_range [of "replicate b []" "compute_hash []"] assms by (auto simp: k_def)
    let ?c = "\<lparr>eq_id = 0, eq_hash = compute_hash [], eq_line = []\<rparr>"
    let ?e = "(replicate b [])[k := [?c]]"
    have cl: "classes ?e = {?c}" using classes_update [OF k(1), of "[?c]" ?c] k(1) no by simp
    have "\<forall>i < length ?e. \<forall>c \<in> set (?e ! i).
        eq_hash c = compute_hash (eq_line c) \<and> bucket_of ?e (compute_hash (eq_line c)) = int i"
      using k by (simp add: nth_list_update)
    then have "table_inv ?e 1" unfolding table_inv_def cl using assms compare_refl by simp
    moreover have "numbered ?e [] 0" using cl compare_refl by (auto simp: numbered_def)
    moreover have "first_table fl compute_hash b = Some ?e"
      using True k by (simp add: first_table_def upd_def)
    ultimately show thesis using True by (intro that) auto
  qed
qed

lemma line_changes_Some:
  "\<exists>i1 i2 num. line_changes fl compare_line compute_hash ls1 ls2 = Some (i1, i2) \<and>
     ids i1 = map num ls1 \<and> ids i2 = map num ls2 \<and>
     length (change i1) = length ls1 \<and> length (change i2) = length ls2 \<and>
     kept (ids i1) (change i1) = kept (ids i2) (change i2) \<and>
     (\<forall>a \<in> set ls1 \<union> set ls2. \<forall>b \<in> set ls1 \<union> set ls2. num a = num b \<longleftrightarrow> compare_line a b) \<and>
     (\<forall>a \<in> set ls1 \<union> set ls2. num a = 0 \<longleftrightarrow> cmp_ignore_blank_lines fl \<and> compare_line a []) \<and>
     (map num ls1 = map num ls2 \<longrightarrow> True \<notin> set (change i1) \<union> set (change i2))"
proof -
  have "0 < bucket_count ((length ls1 + length ls2) * 2) 512" by (simp add: bucket_count_pos)
  then obtain e where e: "first_table fl compute_hash (bucket_count ((length ls1 + length ls2) * 2) 512) = Some e"
    "table_inv e 1" "cmp_ignore_blank_lines fl \<Longrightarrow> numbered e [] 0"
    "\<not> cmp_ignore_blank_lines fl \<Longrightarrow> classes e = {}" by (rule first_table_Some [of _ fl]) blast
  obtain js1 e1 n1 where 1: "equiv_lines compare_line compute_hash ls1 (e, 1) = Some (js1, e1, n1)" "table_inv e1 n1"
    "list_all2 (numbered e1) ls1 js1" "classes e \<subseteq> classes e1" "1 \<le> n1" "\<forall>j \<in> set js1. 0 \<le> j \<and> j < n1"
    "\<forall>c \<in> classes e1. c \<in> classes e \<or> 1 \<le> eq_id c" using equiv_lines_Some [OF e(2)] by blast
  obtain js2 e2 n2 where 2: "equiv_lines compare_line compute_hash ls2 (e1, n1) = Some (js2, e2, n2)" "table_inv e2 n2"
    "list_all2 (numbered e2) ls2 js2" "classes e1 \<subseteq> classes e2" "n1 \<le> n2" "\<forall>j \<in> set js2. 0 \<le> j \<and> j < n2"
    "\<forall>c \<in> classes e2. c \<in> classes e1 \<or> n1 \<le> eq_id c" using equiv_lines_Some [OF 1(2)] by blast
  define num where "num l = (THE i. numbered e2 l i)" for l
  have num: "num l = i" if "numbered e2 l i" for l i
    unfolding num_def using that numbered_iff [OF 2(2)] compare_refl by (metis the_equality)
  have all1: "list_all2 (numbered e2) ls1 js1"
    using 1(3) by (rule list_all2_mono) (rule numbered_mono [OF 2(4)])
  have js: "js1 = map num ls1" "js2 = map num ls2"
    using all1 2(3) by (auto simp: list_all2_conv_all_nth num intro!: nth_equalityI)
  have ex: "numbered e2 l (num l)" if "l \<in> set ls1 \<union> set ls2" for l
    using that all1 2(3) num by (auto simp: list_all2_conv_all_nth in_set_conv_nth)
  have b: "\<forall>j \<in> set js1. 0 \<le> j \<and> j \<le> n1 - 1" "\<forall>j \<in> set js2. 0 \<le> j \<and> j \<le> n2 - 1" using 1(6) 2(6) by auto
  from compressed_diff [OF b] obtain r1 r2 where r: "do { (info1, info2) \<leftarrow>
      compress_equiv_ids (new_info js1) (new_info js2) (n1 - 1) (n2 - 1); diff_zids info1 info2 } = Some (r1, r2)"
    "ids r1 = js1" "ids r2 = js2" "length (change r1) = length js1" "length (change r2) = length js2"
    "kept js1 (change r1) = kept js2 (change r2)" using 1(5) 2(5) by auto
  have "num a = 0 \<longleftrightarrow> cmp_ignore_blank_lines fl \<and> compare_line a []" if a: "a \<in> set ls1 \<union> set ls2" for a
  proof (cases "cmp_ignore_blank_lines fl")
    case True
    then have "numbered e2 [] 0" using e(3) numbered_mono 1(4) 2(4) by blast
    then show ?thesis using numbered_iff [OF 2(2) ex [OF a]] True by simp
  next
    case False
    then have "1 \<le> eq_id c" if "c \<in> classes e2" for c
      using that 1(5,7) 2(7) e(4) by fastforce
    then show ?thesis using ex [OF a] False by (fastforce simp: numbered_def)
  qed
  moreover have "\<forall>a \<in> set ls1 \<union> set ls2. \<forall>b \<in> set ls1 \<union> set ls2. num a = num b \<longleftrightarrow> compare_line a b"
    using numbered_iff [OF 2(2) ex ex] by blast
  moreover have "line_changes fl compare_line compute_hash ls1 ls2 = Some (r1, r2)"
    using e(1) 1(1) 2(1) r(1) by (simp add: line_changes_def find_equiv_lines_eq)
  moreover have "js1 = js2 \<longrightarrow> True \<notin> set (change r1) \<union> set (change r2)"
  proof
    assume eq: "js1 = js2"
    have "r1 = new_info js1 \<and> r2 = new_info js1"
      using compressed_same [of js1 "n1 - 1" "n2 - 1"] b 1(5) 2(5) r(1) unfolding eq by simp
    then show "True \<notin> set (change r1) \<union> set (change r2)" by (simp add: new_info_def)
  qed
  ultimately show ?thesis using r(2-6) js by (intro exI [of _ r1] exI [of _ r2] exI [of _ num]) simp
qed

end

text \<open>
  C10. The numbers stand for the lines. For every setting of the flags, every lower-case function and
  any two texts, the changes are computed without a panic, and two lines of the texts, of the same
  or of different ones, have the same number if and only if they compare equal; the number is 0,
  whose changes are not reported, exactly for blank lines when these are to be ignored.
\<close>

theorem line_ids_correct:
  "\<exists>i1 i2 num. line_changes fl (choose_compare_line fl low) (choose_compute_hash fl low) ls1 ls2 = Some (i1, i2) \<and>
     ids i1 = map num ls1 \<and> ids i2 = map num ls2 \<and>
     (\<forall>a \<in> set ls1 \<union> set ls2. \<forall>b \<in> set ls1 \<union> set ls2. num a = num b \<longleftrightarrow> choose_compare_line fl low a b) \<and>
     (\<forall>a \<in> set ls1 \<union> set ls2. num a = 0 \<longleftrightarrow> cmp_ignore_blank_lines fl \<and> choose_compare_line fl low a [])"
  using choice.line_changes_Some [of fl fl low ls1 ls2] by blast

theorem line_ids_correct_witness:
  "\<exists>i1 i2 num. line_changes default_flags (choose_compare_line default_flags id) (choose_compute_hash default_flags id)
       [''a'', ''b''] [''b'', ''''] = Some (i1, i2) \<and>
     ids i1 = [num ''a'', num ''b''] \<and> ids i2 = [num ''b'', num ''''] \<and> num ''a'' \<noteq> num ''b'' \<and> num '''' \<noteq> 0"
proof -
  obtain i1 i2 num where *: "line_changes default_flags (choose_compare_line default_flags id)
      (choose_compute_hash default_flags id) [''a'', ''b''] [''b'', ''''] = Some (i1, i2)"
    "ids i1 = map num [''a'', ''b'']" "ids i2 = map num [''b'', '''']"
    "\<forall>a \<in> set [''a'', ''b''] \<union> set [''b'', '''']. \<forall>b \<in> set [''a'', ''b''] \<union> set [''b'', ''''].
       num a = num b \<longleftrightarrow> choose_compare_line default_flags id a b"
    "\<forall>a \<in> set [''a'', ''b''] \<union> set [''b'', '''']. num a = 0 \<longleftrightarrow>
       cmp_ignore_blank_lines default_flags \<and> choose_compare_line default_flags id a []"
    using line_ids_correct [of default_flags id "[''a'', ''b'']" "[''b'', '''']"] by blast
  have "num ''a'' \<noteq> num ''b''" "num '''' \<noteq> 0"
    using *(4,5) by (simp_all add: choose_compare_line_def default_flags_def)
  then show ?thesis using *(1-3) by auto
qed

text \<open>
  C9. The diff of two texts is correct. For every setting of the flags and any two texts, hashing,
  compression, diff and expansion together return one flag per line, and the lines left unmarked are
  pairwise equal under the comparison in use, in the same order.
\<close>

theorem line_changes_correct:
  "\<exists>i1 i2. line_changes fl (choose_compare_line fl low) (choose_compute_hash fl low) ls1 ls2 = Some (i1, i2) \<and>
     length (change i1) = length ls1 \<and> length (change i2) = length ls2 \<and>
     list_all2 (choose_compare_line fl low) (kept ls1 (change i1)) (kept ls2 (change i2))"
proof -
  obtain i1 i2 num where *: "line_changes fl (choose_compare_line fl low) (choose_compute_hash fl low) ls1 ls2 = Some (i1, i2)"
    "ids i1 = map num ls1" "ids i2 = map num ls2" "length (change i1) = length ls1" "length (change i2) = length ls2"
    "kept (ids i1) (change i1) = kept (ids i2) (change i2)"
    "\<forall>a \<in> set ls1 \<union> set ls2. \<forall>b \<in> set ls1 \<union> set ls2. num a = num b \<longleftrightarrow> choose_compare_line fl low a b"
    using choice.line_changes_Some [of fl fl low ls1 ls2] by blast
  let ?k1 = "kept ls1 (change i1)" and ?k2 = "kept ls2 (change i2)"
  have m: "map num ?k1 = map num ?k2" using *(2,3,6) by (simp flip: kept_map)
  have sub: "set ?k1 \<subseteq> set ls1" "set ?k2 \<subseteq> set ls2" by (rule set_kept)+
  have len: "length ?k1 = length ?k2" using m by (rule map_eq_imp_length_eq)
  have "choose_compare_line fl low (?k1 ! k) (?k2 ! k)" if k: "k < length ?k1" for k
  proof -
    have "num (?k1 ! k) = num (?k2 ! k)" using m k len by (metis nth_map)
    moreover have "?k1 ! k \<in> set ls1" "?k2 ! k \<in> set ls2" using sub k len by (auto dest: nth_mem)
    ultimately show ?thesis using *(7) by blast
  qed
  then have "list_all2 (choose_compare_line fl low) ?k1 ?k2" using len by (simp add: list_all2_conv_all_nth)
  then show ?thesis using *(1,4,5) by blast
qed

end
