(* ===== verification/Xdiff_Report.thy ===== *)
theory Xdiff_Report
  imports Xdiff_Equiv
begin

text \<open>
  Reporting the changes (\<open>next_change_segment\<close>, \<open>add_change_segment\<close> and \<open>report_diff\<close> of
  \<open>xdiff.go\<close>). The flags of the two texts are turned into operations (lines removed, inserted, modified,
  the same), which are passed in groups to \<open>diff_lines\<close> of a \<open>DiffChanger\<close>.

  \<open>diff_changer\<close> is that interface: what an implementation of \<open>diff_lines\<close> has to promise, and what it
  may rely on. In it: \<open>report_diff\<close> never panics, nor gets to its branch "should not reach here"; all
  operations are in range and in order; every changed line that is not blank is reported, and nothing else is
  reported as changed; and the reported operations turn the first text into the second.
\<close>

section \<open>The code\<close>

definition DIFF_OP_SAME :: int where "DIFF_OP_SAME = 1"
definition DIFF_OP_MODIFY :: int where "DIFF_OP_MODIFY = 2"
definition DIFF_OP_INSERT :: int where "DIFF_OP_INSERT = 3"
definition DIFF_OP_REMOVE :: int where "DIFF_OP_REMOVE = 4"

lemmas op_defs = DIFF_OP_SAME_def DIFF_OP_MODIFY_def DIFF_OP_INSERT_def DIFF_OP_REMOVE_def

datatype DiffOp = DiffOp (op: int) (start1: int) (end1: int) (start2: int) (end2: int)

text \<open>The three loops of \<open>next_change_segment\<close>: the end of the segment, and its blank lines at both ends.\<close>

function segment_end :: "bool list \<Rightarrow> int \<Rightarrow> int option" where
  "segment_end flags e =
     (if e < int (length flags) then
        do { b \<leftarrow> idx flags e; if b then segment_end flags (e + 1) else Some e }
      else Some e)"
  by pat_completeness auto
termination by (relation "measure (\<lambda>(flags, e). nat (int (length flags) - e))") auto

function skip_blank_up :: "int list \<Rightarrow> int \<Rightarrow> int \<Rightarrow> int option" where
  "skip_blank_up data i e =
     (if i < e then do { v \<leftarrow> idx data i; if v = 0 then skip_blank_up data (i + 1) e else Some i } else Some i)"
  by pat_completeness auto
termination by (relation "measure (\<lambda>(data, i, e). nat (e - i))") auto

function skip_blank_down :: "int list \<Rightarrow> int \<Rightarrow> int \<Rightarrow> int option" where
  "skip_blank_down data i j =
     (if j > i then do { v \<leftarrow> idx data (j - 1); if v = 0 then skip_blank_down data i (j - 1) else Some j } else Some j)"
  by pat_completeness auto
termination by (relation "measure (\<lambda>(data, i, j). nat (j - i))") auto

declare segment_end.simps [simp del] skip_blank_up.simps [simp del] skip_blank_down.simps [simp del]

definition next_change_segment :: "int \<Rightarrow> bool list \<Rightarrow> int list \<Rightarrow> (int \<times> int \<times> int) option" where
  "next_change_segment start flags data =
     do { e \<leftarrow> segment_end flags (start + 1);
          i \<leftarrow> skip_blank_up data start e;
          j \<leftarrow> skip_blank_down data i e;
          Some (e, i, j) }"

text \<open>
  \<open>diff_lines\<close> is the method of the \<open>DiffChanger\<close>; it acts on a state \<open>st\<close>, which holds the output.
  \<open>ctx\<close> is \<open>flag_context_lines\<close>.
\<close>

definition append_same :: "DiffOp list \<Rightarrow> int \<Rightarrow> int \<Rightarrow> int \<Rightarrow> int \<Rightarrow> DiffOp list" where
  "append_same ops s1 e1 s2 e2 = (if s1 < e1 \<or> s2 < e2 then ops @ [DiffOp DIFF_OP_SAME s1 e1 s2 e2] else ops)"

definition add_change_segment ::
  "int \<Rightarrow> (DiffOp list \<Rightarrow> 's \<Rightarrow> 's option) \<Rightarrow> DiffOp list \<Rightarrow> DiffOp \<Rightarrow> 's \<Rightarrow> (DiffOp list \<times> 's) option"
where
  "add_change_segment ctx diff_lines ops v st =
     do { let (last1, last2) = (if ops \<noteq> [] then (end1 (last ops), end2 (last ops)) else (0, 0));
          let gap1 = start1 v - last1; let gap2 = start2 v - last2;
          (ops, st) \<leftarrow>
            (if ops \<noteq> [] \<and> (op v = 0 \<or> gap1 > ctx * 2 \<and> gap2 > ctx * 2) then
               do { let e1 = min (start1 v) (last1 + ctx);
                    let e2 = min (start2 v) (last2 + ctx);
                    let ops = append_same ops last1 e1 last2 e2;
                    st \<leftarrow> diff_lines ops st;
                    Some ([], st) }
             else Some (ops, st));
          let c1 = max last1 (start1 v - ctx); let c2 = max last2 (start2 v - ctx);
          let ops = append_same ops c1 (start1 v) c2 (start2 v);
          Some (if op v \<noteq> 0 then ops @ [v] else ops, st) }"

text \<open>
  One turn of the loop of \<open>report_diff\<close>, on its local variables; \<^term>\<open>Inl\<close> is the
  \<open>return true\<close> of the branch "should not reach here".
\<close>

type_synonym 's report_state = "int \<times> int \<times> DiffOp list \<times> bool \<times> 's"

definition report_step ::
  "int \<Rightarrow> (DiffOp list \<Rightarrow> 's \<Rightarrow> 's option) \<Rightarrow> int list \<Rightarrow> int list \<Rightarrow> bool list \<Rightarrow> bool list \<Rightarrow>
    's report_state \<Rightarrow> (bool \<times> 's + 's report_state) option"
where
  "report_step ctx diff_lines data1 data2 change1 change2 = (\<lambda>(i1, i2, ops, changed, st).
     do { x1 \<leftarrow> (if i1 < int (length change1) then map_option Some (idx change1 i1) else Some None);
          x2 \<leftarrow> (if i2 < int (length change2) then map_option Some (idx change2 i2) else Some None);
          if x1 = Some False \<and> x2 = Some False then Some (Inr (i1 + 1, i2 + 1, ops, changed, st))
          else if x1 = Some True \<and> x2 = Some True then
            do { (i1, m1start, m1end) \<leftarrow> next_change_segment i1 change1 data1;
                 (i2, m2start, m2end) \<leftarrow> next_change_segment i2 change2 data2;
                 let op_mode = (if m1start < m1end \<and> m2start < m2end then DIFF_OP_MODIFY
                                else if m1start < m1end then DIFF_OP_REMOVE
                                else if m2start < m2end then DIFF_OP_INSERT else 0);
                 if op_mode \<noteq> 0 then
                   do { (ops, st) \<leftarrow> add_change_segment ctx diff_lines ops
                          (DiffOp op_mode m1start m1end m2start m2end) st;
                        Some (Inr (i1, i2, ops, True, st)) }
                 else Some (Inr (i1, i2, ops, changed, st)) }
          else if x1 = Some True then
            do { (i1, m1start, m1end) \<leftarrow> next_change_segment i1 change1 data1;
                 if m1start < m1end then
                   do { (ops, st) \<leftarrow> add_change_segment ctx diff_lines ops
                          (DiffOp DIFF_OP_REMOVE m1start m1end i2 i2) st;
                        Some (Inr (i1, i2, ops, True, st)) }
                 else Some (Inr (i1, i2, ops, changed, st)) }
          else if x2 = Some True then
            do { (i2, m2start, m2end) \<leftarrow> next_change_segment i2 change2 data2;
                 if m2start < m2end then
                   do { (ops, st) \<leftarrow> add_change_segment ctx diff_lines ops
                          (DiffOp DIFF_OP_INSERT i1 i1 m2start m2end) st;
                        Some (Inr (i1, i2, ops, True, st)) }
                 else Some (Inr (i1, i2, ops, changed, st)) }
          else Some (Inl (True, st)) })"

partial_function (option) report_loop ::
  "int \<Rightarrow> (DiffOp list \<Rightarrow> 's \<Rightarrow> 's option) \<Rightarrow> int list \<Rightarrow> int list \<Rightarrow> bool list \<Rightarrow> bool list \<Rightarrow>
    's report_state \<Rightarrow> (bool \<times> 's + 's report_state) option"
where
  "report_loop ctx diff_lines data1 data2 change1 change2 s =
     (if fst s < int (length change1) \<or> fst (snd s) < int (length change2) then
        do { r \<leftarrow> report_step ctx diff_lines data1 data2 change1 change2 s;
             case r of
               Inl x \<Rightarrow> Some (Inl x)
             | Inr s \<Rightarrow> report_loop ctx diff_lines data1 data2 change1 change2 s }
      else Some (Inr s))"

declare report_loop.simps [code]

definition report_diff ::
  "int \<Rightarrow> (DiffOp list \<Rightarrow> 's \<Rightarrow> 's option) \<Rightarrow> int list \<Rightarrow> int list \<Rightarrow> bool list \<Rightarrow> bool list \<Rightarrow> 's \<Rightarrow>
    (bool \<times> 's) option"
where
  "report_diff ctx diff_lines data1 data2 change1 change2 st =
     do { r \<leftarrow> report_loop ctx diff_lines data1 data2 change1 change2 (0, 0, [], False, st);
          case r of
            Inl (changed, st) \<Rightarrow> Some (changed, st)
          | Inr (i1, i2, ops, changed, st) \<Rightarrow>
              if ops \<noteq> [] then
                do { let len1 = int (length change1); let len2 = int (length change2);
                     (ops, st) \<leftarrow> add_change_segment ctx diff_lines ops (DiffOp 0 len1 len1 len2 len2) st;
                     Some (changed, st) }
              else Some (changed, st) }"



section \<open>Segments\<close>

lemma segment_end_spec:
  "e \<le> length c \<Longrightarrow> \<exists>f. segment_end c (int e) = Some (int f) \<and> e \<le> f \<and> f \<le> length c \<and>
     (\<forall>i. e \<le> i \<and> i < f \<longrightarrow> c ! i)"
proof (induction "length c - e" arbitrary: e)
  case 0
  then show ?case by (subst segment_end.simps) (auto intro!: exI [of _ e])
next
  case (Suc m)
  then have e: "e < length c" and m: "m = length c - Suc e" by simp_all
  show ?case
  proof (cases "c ! e")
    case True
    obtain f where f: "segment_end c (int (Suc e)) = Some (int f)" "Suc e \<le> f" "f \<le> length c"
      "\<forall>i. Suc e \<le> i \<and> i < f \<longrightarrow> c ! i" using Suc.hyps(1) [OF m] e by auto
    have "c ! i" if "e \<le> i" "i < f" for i using that f(4) True by (cases "i = e") auto
    then show ?thesis using f e True
      by (subst segment_end.simps) (auto simp: idx_nat add.commute intro!: exI [of _ f])
  next
    case False
    then show ?thesis using e by (subst segment_end.simps) (auto simp: idx_nat intro!: exI [of _ e])
  qed
qed

lemma skip_blank_up_spec:
  "i \<le> e \<Longrightarrow> e \<le> length d \<Longrightarrow> \<exists>j. skip_blank_up d (int i) (int e) = Some (int j) \<and> i \<le> j \<and> j \<le> e \<and>
     (\<forall>k. i \<le> k \<and> k < j \<longrightarrow> d ! k = 0)"
proof (induction "e - i" arbitrary: i)
  case 0
  then show ?case by (subst skip_blank_up.simps) (auto intro!: exI [of _ i])
next
  case (Suc m)
  then have i: "i < e" and m: "m = e - Suc i" by simp_all
  show ?case
  proof (cases "d ! i = 0")
    case True
    obtain j where j: "skip_blank_up d (int (Suc i)) (int e) = Some (int j)" "Suc i \<le> j" "j \<le> e"
      "\<forall>k. Suc i \<le> k \<and> k < j \<longrightarrow> d ! k = 0" using Suc.hyps(1) [OF m] i Suc.prems by auto
    have "d ! k = 0" if "i \<le> k" "k < j" for k using that j(4) True by (cases "k = i") auto
    then show ?thesis using j i True Suc.prems
      by (subst skip_blank_up.simps) (auto simp: idx_nat add.commute intro!: exI [of _ j])
  next
    case False
    then show ?thesis using i Suc.prems
      by (subst skip_blank_up.simps) (auto simp: idx_nat intro!: exI [of _ i])
  qed
qed

lemma skip_blank_down_spec:
  "i \<le> j \<Longrightarrow> j \<le> length d \<Longrightarrow> \<exists>k. skip_blank_down d (int i) (int j) = Some (int k) \<and> i \<le> k \<and> k \<le> j \<and>
     (\<forall>l. k \<le> l \<and> l < j \<longrightarrow> d ! l = 0)"
proof (induction j)
  case 0
  then show ?case by (subst skip_blank_down.simps) auto
next
  case (Suc j)
  show ?case
  proof (cases "i \<le> j \<and> d ! j = 0")
    case True
    obtain k where k: "skip_blank_down d (int i) (int j) = Some (int k)" "i \<le> k" "k \<le> j"
      "\<forall>l. k \<le> l \<and> l < j \<longrightarrow> d ! l = 0" using Suc True by auto
    then have "\<forall>l. k \<le> l \<and> l < Suc j \<longrightarrow> d ! l = 0" using True by (auto simp: less_Suc_eq)
    then show ?thesis using k True Suc.prems
      by (subst skip_blank_down.simps) (auto simp: idx_nat intro!: exI [of _ k])
  next
    case False
    then show ?thesis using Suc.prems
      by (subst skip_blank_down.simps) (auto simp: idx_nat intro!: exI [of _ "Suc j"])
  qed
qed

lemma next_change_segment_Some:
  assumes "s < length c" and "c ! s" and "length d = length c"
  obtains e i j where "next_change_segment (int s) c d = Some (int e, int i, int j)"
    and "s < e" and "e \<le> length c" and "\<forall>k. s \<le> k \<and> k < e \<longrightarrow> c ! k" and "s \<le> i" and "i \<le> j" and "j \<le> e"
    and "\<forall>k. s \<le> k \<and> k < e \<longrightarrow> d ! k = 0 \<or> i \<le> k \<and> k < j"
proof -
  obtain e where e: "segment_end c (int (Suc s)) = Some (int e)" "Suc s \<le> e" "e \<le> length c"
    "\<forall>k. Suc s \<le> k \<and> k < e \<longrightarrow> c ! k" using segment_end_spec [of "Suc s" c] assms by auto
  obtain i where i: "skip_blank_up d (int s) (int e) = Some (int i)" "s \<le> i" "i \<le> e"
    "\<forall>k. s \<le> k \<and> k < i \<longrightarrow> d ! k = 0" using skip_blank_up_spec [of s e d] e assms(3) by auto
  obtain j where j: "skip_blank_down d (int i) (int e) = Some (int j)" "i \<le> j" "j \<le> e"
    "\<forall>k. j \<le> k \<and> k < e \<longrightarrow> d ! k = 0" using skip_blank_down_spec [of i e d] e i assms(3) by auto
  have "c ! k" if "s \<le> k" "k < e" for k using that e(4) assms(2) by (cases "k = s") auto
  moreover have "d ! k = 0 \<or> i \<le> k \<and> k < j" if "s \<le> k" "k < e" for k
    using that i(4) j(4) by (meson not_le)
  ultimately show thesis
    using e(2,3) i(2) j(2,3) by (intro that [of e i j])
      (auto simp: next_change_segment_def e(1) [simplified] i(1) j(1) add.commute)
qed

section \<open>Operations in order\<close>

text \<open>The operations stay between the given positions and follow one another.\<close>

fun ops_ok :: "int \<Rightarrow> int \<Rightarrow> int \<Rightarrow> int \<Rightarrow> DiffOp list \<Rightarrow> bool" where
  "ops_ok a1 a2 n1 n2 [] \<longleftrightarrow> a1 \<le> n1 \<and> a2 \<le> n2"
| "ops_ok a1 a2 n1 n2 (v # vs) \<longleftrightarrow>
     a1 \<le> start1 v \<and> start1 v \<le> end1 v \<and> a2 \<le> start2 v \<and> start2 v \<le> end2 v \<and> ops_ok (end1 v) (end2 v) n1 n2 vs"

lemma ops_ok_append: "ops_ok a1 a2 n1 n2 (vs @ ws) \<longleftrightarrow>
    (if vs = [] then ops_ok a1 a2 n1 n2 ws
     else ops_ok a1 a2 (end1 (last vs)) (end2 (last vs)) vs \<and> ops_ok (end1 (last vs)) (end2 (last vs)) n1 n2 ws)"
  by (induction vs arbitrary: a1 a2) auto

lemma ops_ok_le: "ops_ok a1 a2 n1 n2 vs \<Longrightarrow> a1 \<le> n1 \<and> a2 \<le> n2"
  by (induction vs arbitrary: a1 a2) fastforce+

lemma ops_ok_mono: "ops_ok a1 a2 n1 n2 vs \<Longrightarrow> n1 \<le> m1 \<Longrightarrow> n2 \<le> m2 \<Longrightarrow> ops_ok a1 a2 m1 m2 vs"
  by (induction vs arbitrary: a1 a2) auto

lemma ops_ok_start: "ops_ok a1 a2 n1 n2 vs \<Longrightarrow> b1 \<le> a1 \<Longrightarrow> b2 \<le> a2 \<Longrightarrow> ops_ok b1 b2 n1 n2 vs"
  by (cases vs) auto

lemma ops_ok_suffix: "ops_ok a1 a2 n1 n2 (vs @ ws) \<Longrightarrow> ops_ok a1 a2 n1 n2 ws"
  by (induction vs arbitrary: a1 a2) (auto intro: ops_ok_start)

lemma ops_ok_prefix: "ops_ok a1 a2 n1 n2 (vs @ ws) \<Longrightarrow> ops_ok a1 a2 n1 n2 vs"
  by (induction vs arbitrary: a1 a2) (auto dest: ops_ok_le)

lemma ops_ok_bounds: "ops_ok a1 a2 n1 n2 vs \<Longrightarrow> v \<in> set vs \<Longrightarrow>
    a1 \<le> start1 v \<and> start1 v \<le> end1 v \<and> end1 v \<le> n1 \<and> a2 \<le> start2 v \<and> start2 v \<le> end2 v \<and> end2 v \<le> n2"
  by (induction vs arbitrary: a1 a2) (fastforce dest: ops_ok_le)+

lemma ops_ok_snoc: "ops_ok a1 a2 n1 n2 (vs @ [v]) \<longleftrightarrow>
    ops_ok a1 a2 (start1 v) (start2 v) vs \<and> start1 v \<le> end1 v \<and> start2 v \<le> end2 v \<and> end1 v \<le> n1 \<and> end2 v \<le> n2"
  by (induction vs arbitrary: a1 a2) auto

definition changes :: "DiffOp list \<Rightarrow> DiffOp list" where
  "changes vs = filter (\<lambda>v. op v \<noteq> DIFF_OP_SAME) vs"

lemma changes_simps [simp]:
  "changes [] = []" "changes (vs @ ws) = changes vs @ changes ws"
  "changes (v # vs) = (if op v \<noteq> DIFF_OP_SAME then v # changes vs else changes vs)"
  by (simp_all add: changes_def)

lemma ops_ok_changes: "ops_ok a1 a2 n1 n2 vs \<Longrightarrow> ops_ok a1 a2 n1 n2 (changes vs)"
  by (induction vs arbitrary: a1 a2) (auto intro: ops_ok_start)

text \<open>An insertion takes nothing from the first text, a removal nothing from the second.\<close>

definition op_kind :: "DiffOp \<Rightarrow> bool" where
  "op_kind v \<longleftrightarrow> op v = DIFF_OP_SAME \<or> op v = DIFF_OP_MODIFY \<or>
     op v = DIFF_OP_INSERT \<and> start1 v = end1 v \<or> op v = DIFF_OP_REMOVE \<and> start2 v = end2 v"

definition op_kinds :: "DiffOp list \<Rightarrow> bool" where
  "op_kinds vs \<longleftrightarrow> (\<forall>v \<in> set vs. op_kind v)"

text \<open>The first text with the operations applied, up to position \<open>i\<close> of it.\<close>

definition sl :: "'a list \<Rightarrow> int \<Rightarrow> int \<Rightarrow> 'a list" where
  "sl xs a b = take (nat (b - a)) (drop (nat a) xs)"

fun patch_upto :: "'a list \<Rightarrow> 'a list \<Rightarrow> int \<Rightarrow> int \<Rightarrow> DiffOp list \<Rightarrow> 'a list" where
  "patch_upto l1 l2 i p [] = sl l1 p i"
| "patch_upto l1 l2 i p (v # vs) = sl l1 p (start1 v) @ sl l2 (start2 v) (end2 v) @ patch_upto l1 l2 i (end1 v) vs"

definition patch :: "DiffOp list \<Rightarrow> 'a list \<Rightarrow> 'a list \<Rightarrow> 'a list" where
  "patch vs l1 l2 = patch_upto l1 l2 (int (length l1)) 0 vs"

lemma patch_upto_snoc: "patch_upto l1 l2 i p (vs @ [v]) =
    patch_upto l1 l2 (start1 v) p vs @ sl l2 (start2 v) (end2 v) @ sl l1 (end1 v) i"
  by (induction vs arbitrary: p) auto

lemma sl_Suc: "0 \<le> a \<Longrightarrow> a \<le> int k \<Longrightarrow> k < length xs \<Longrightarrow> sl xs a (int (Suc k)) = sl xs a (int k) @ [xs ! k]"
proof -
  assume a: "0 \<le> a" "a \<le> int k" "k < length xs"
  have n: "nat (int (Suc k) - a) = Suc (nat (int k - a))" "nat a + nat (int k - a) = k" using a by auto
  then show ?thesis using a by (simp add: sl_def take_Suc_conv_app_nth del: of_nat_Suc)
qed

lemma sl_same: "sl xs a a = []"
  by (simp add: sl_def)

lemma patch_upto_Suc:
  "0 \<le> p \<Longrightarrow> ops_ok p q (int k) m vs \<Longrightarrow> k < length l1 \<Longrightarrow>
   patch_upto l1 l2 (int (Suc k)) p vs = patch_upto l1 l2 (int k) p vs @ [l1 ! k]"
proof (induction vs arbitrary: p q)
  case Nil
  then show ?case by (simp add: sl_Suc del: of_nat_Suc)
next
  case (Cons v vs)
  then have "0 \<le> end1 v" "ops_ok (end1 v) (end2 v) (int k) m vs" by simp_all
  from Cons.IH [OF this Cons.prems(3)] show ?case by (simp del: of_nat_Suc)
qed

section \<open>The interface DiffChanger\<close>

text \<open>
  \<open>shown st gs\<close> says that the state \<open>st\<close> is the one after the groups \<open>gs\<close> have been shown.
  An implementation must show every group that is not empty, in order and within the two texts of
  \<open>n1\<close> and \<open>n2\<close> lines.
\<close>

locale diff_changer =
  fixes diff_lines :: "DiffOp list \<Rightarrow> 's \<Rightarrow> 's option"
    and shown :: "'s \<Rightarrow> DiffOp list list \<Rightarrow> bool"
    and n1 n2 :: nat
  assumes diff_lines_shown: "shown st gs \<Longrightarrow> ops \<noteq> [] \<Longrightarrow> ops_ok 0 0 (int n1) (int n2) ops \<Longrightarrow>
    op_kinds ops \<Longrightarrow> \<exists>st'. diff_lines ops st = Some st' \<and> shown st' (gs @ [ops])"

text \<open>What holds of the operations \<open>vs\<close> reported for the parts before \<open>k1\<close> and \<open>k2\<close>.\<close>

definition marked_between :: "bool list \<Rightarrow> int \<Rightarrow> int \<Rightarrow> bool" where
  "marked_between c a b \<longleftrightarrow> (\<forall>k. a \<le> int k \<and> int k < b \<longrightarrow> c ! k)"

definition op_marked :: "bool list \<Rightarrow> bool list \<Rightarrow> DiffOp \<Rightarrow> bool" where
  "op_marked c1 c2 v \<longleftrightarrow> marked_between c1 (start1 v) (end1 v) \<and> marked_between c2 (start2 v) (end2 v) \<and>
     (op v = DIFF_OP_MODIFY \<and> start1 v < end1 v \<and> start2 v < end2 v \<or>
      op v = DIFF_OP_REMOVE \<and> start1 v < end1 v \<and> start2 v = end2 v \<or>
      op v = DIFF_OP_INSERT \<and> start1 v = end1 v \<and> start2 v < end2 v)"

definition covered1 :: "DiffOp list \<Rightarrow> nat \<Rightarrow> bool" where
  "covered1 vs k \<longleftrightarrow> (\<exists>v \<in> set vs. start1 v \<le> int k \<and> int k < end1 v)"

definition covered2 :: "DiffOp list \<Rightarrow> nat \<Rightarrow> bool" where
  "covered2 vs k \<longleftrightarrow> (\<exists>v \<in> set vs. start2 v \<le> int k \<and> int k < end2 v)"

definition reported_upto ::
  "int list \<Rightarrow> int list \<Rightarrow> bool list \<Rightarrow> bool list \<Rightarrow> nat \<Rightarrow> nat \<Rightarrow> DiffOp list \<Rightarrow> bool"
where
  "reported_upto d1 d2 c1 c2 k1 k2 vs \<longleftrightarrow>
     ops_ok 0 0 (int k1) (int k2) vs \<and> op_kinds vs \<and> (\<forall>v \<in> set (changes vs). op_marked c1 c2 v) \<and>
     (\<forall>k < k1. c1 ! k \<and> d1 ! k \<noteq> 0 \<longrightarrow> covered1 (changes vs) k) \<and>
     (\<forall>k < k2. c2 ! k \<and> d2 ! k \<noteq> 0 \<longrightarrow> covered2 (changes vs) k) \<and>
     (0 \<notin> set d1 \<union> set d2 \<longrightarrow> patch_upto d1 d2 (int k1) 0 (changes vs) = take k2 d2)"

lemma reported_upto_unmarked:
  assumes r: "reported_upto d1 d2 c1 c2 k1 k2 vs" and k: "k1 < length d1" "k2 < length d2"
    and u: "\<not> c1 ! k1" "\<not> c2 ! k2" and eq: "d1 ! k1 = d2 ! k2"
  shows "reported_upto d1 d2 c1 c2 (Suc k1) (Suc k2) vs"
proof -
  have ok: "ops_ok 0 0 (int k1) (int k2) vs" using r by (simp add: reported_upto_def)
  have "patch_upto d1 d2 (int (Suc k1)) 0 (changes vs) = patch_upto d1 d2 (int k1) 0 (changes vs) @ [d1 ! k1]"
    by (rule patch_upto_Suc [OF _ ops_ok_changes [OF ok] k(1)]) simp
  moreover have "ops_ok 0 0 (int (Suc k1)) (int (Suc k2)) vs" using ok by (rule ops_ok_mono) simp_all
  ultimately show ?thesis
    using r k u eq by (simp add: reported_upto_def take_Suc_conv_app_nth less_Suc_eq all_conj_distrib del: of_nat_Suc)
qed

text \<open>A segment of which only the lines \<open>i..j-1\<close> are not blank.\<close>

lemma reported_upto_skip:
  assumes r: "reported_upto d1 d2 c1 c2 k1 k2 vs" and e: "k1 \<le> e1" "k2 \<le> e2" "e1 \<le> length d1" "e2 \<le> length d2"
    and b1: "\<forall>k. k1 \<le> k \<and> k < e1 \<longrightarrow> d1 ! k = 0" and b2: "\<forall>k. k2 \<le> k \<and> k < e2 \<longrightarrow> d2 ! k = 0"
  shows "reported_upto d1 d2 c1 c2 e1 e2 vs"
proof -
  have ok: "ops_ok 0 0 (int e1) (int e2) vs"
    using r e by (auto simp: reported_upto_def intro: ops_ok_mono)
  have "e1 = k1" if "0 \<notin> set d1" using that b1 e by (metis le_neq_implies_less nth_mem order_less_le_trans le_refl)
  moreover have "e2 = k2" if "0 \<notin> set d2" using that b2 e by (metis le_neq_implies_less nth_mem order_less_le_trans le_refl)
  moreover have "k < e1 \<Longrightarrow> d1 ! k \<noteq> 0 \<Longrightarrow> k < k1" "l < e2 \<Longrightarrow> d2 ! l \<noteq> 0 \<Longrightarrow> l < k2" for k l
    using b1 b2 by (meson not_le)+
  ultimately show ?thesis using r ok by (auto simp: reported_upto_def)
qed

lemma covered_append:
  "covered1 (vs @ ws) k \<longleftrightarrow> covered1 vs k \<or> covered1 ws k"
  "covered2 (vs @ ws) k \<longleftrightarrow> covered2 vs k \<or> covered2 ws k"
  by (auto simp: covered1_def covered2_def)

lemma take_sl: "0 \<le> a \<Longrightarrow> a \<le> b \<Longrightarrow> take (nat a) xs @ sl xs a b = take (nat b) xs"
  by (simp add: sl_def flip: take_add) (simp add: nat_add_distrib [symmetric])

lemma reported_upto_op:
  assumes r: "reported_upto d1 d2 c1 c2 k1 k2 vs" and e: "e1 \<le> length d1" "e2 \<le> length d2"
    and seg: "int k1 \<le> start1 v" "start1 v \<le> end1 v" "end1 v \<le> int e1" "int k2 \<le> start2 v" "start2 v \<le> end2 v" "end2 v \<le> int e2"
    and b1: "\<forall>k. k1 \<le> k \<and> k < e1 \<longrightarrow> d1 ! k = 0 \<or> start1 v \<le> int k \<and> int k < end1 v"
    and b2: "\<forall>k. k2 \<le> k \<and> k < e2 \<longrightarrow> d2 ! k = 0 \<or> start2 v \<le> int k \<and> int k < end2 v"
    and m: "op_marked c1 c2 v" and ws: "changes ws = changes vs @ [v]" "ops_ok 0 0 (end1 v) (end2 v) ws" "op_kinds ws"
  shows "reported_upto d1 d2 c1 c2 e1 e2 ws"
proof -
  have ok: "ops_ok 0 0 (int e1) (int e2) ws" using ws(2) seg by (auto intro: ops_ok_mono)
  have nb1: "start1 v = int k1 \<and> end1 v = int e1" if z: "0 \<notin> set d1"
  proof -
    have nz: "k1 \<le> k \<Longrightarrow> k < e1 \<Longrightarrow> start1 v \<le> int k \<and> int k < end1 v" for k
      using z b1 e(1) by (metis nth_mem order_less_le_trans)
    show ?thesis
    proof (cases "k1 < e1")
      case True
      then have "start1 v \<le> int k1" "int (e1 - 1) < end1 v"
        using nz [of k1] nz [of "e1 - 1"] by linarith+
      then show ?thesis using seg True by auto
    qed (use seg in auto)
  qed
  have nb2: "start2 v = int k2 \<and> end2 v = int e2" if z: "0 \<notin> set d2"
  proof -
    have nz: "k2 \<le> k \<Longrightarrow> k < e2 \<Longrightarrow> start2 v \<le> int k \<and> int k < end2 v" for k
      using z b2 e(2) by (metis nth_mem order_less_le_trans)
    show ?thesis
    proof (cases "k2 < e2")
      case True
      then have "start2 v \<le> int k2" "int (e2 - 1) < end2 v"
        using nz [of k2] nz [of "e2 - 1"] by linarith+
      then show ?thesis using seg True by auto
    qed (use seg in auto)
  qed
  have "patch_upto d1 d2 (int e1) 0 (changes ws) = take e2 d2" if z: "0 \<notin> set d1 \<union> set d2"
  proof -
    have "patch_upto d1 d2 (int k1) 0 (changes vs) = take k2 d2" using r z by (simp add: reported_upto_def)
    moreover have "take k2 d2 @ sl d2 (int k2) (int e2) = take e2 d2"
      using take_sl [of "int k2" "int e2" d2] seg by simp
    ultimately show ?thesis using nb1 nb2 z by (simp add: ws(1) patch_upto_snoc sl_same)
  qed
  moreover have "covered1 (changes ws) k" if "k < e1" "c1 ! k" "d1 ! k \<noteq> 0" for k
  proof (cases "k < k1")
    case True
    then show ?thesis using that r by (simp add: reported_upto_def ws(1) covered_append)
  next
    case False
    then have "start1 v \<le> int k \<and> int k < end1 v" using that b1 by (meson not_le)
    then show ?thesis by (simp add: ws(1) covered1_def)
  qed
  moreover have "covered2 (changes ws) k" if "k < e2" "c2 ! k" "d2 ! k \<noteq> 0" for k
  proof (cases "k < k2")
    case True
    then show ?thesis using that r by (simp add: reported_upto_def ws(1) covered_append)
  next
    case False
    then have "start2 v \<le> int k \<and> int k < end2 v" using that b2 by (meson not_le)
    then show ?thesis by (simp add: ws(1) covered2_def)
  qed
  ultimately show ?thesis using r ok m ws by (auto simp: reported_upto_def)
qed


context diff_changer
begin

text \<open>The groups \<open>gs\<close> have been shown and \<open>ops\<close> is the group that is being collected.\<close>

definition collected :: "'s \<Rightarrow> DiffOp list list \<Rightarrow> DiffOp list \<Rightarrow> bool" where
  "collected st gs ops \<longleftrightarrow> shown st gs \<and> [] \<notin> set gs \<and> (ops = [] \<longrightarrow> gs = [])"

lemma append_same:
  "changes (append_same W s1 e1 s2 e2) = changes W" "op_kinds (append_same W s1 e1 s2 e2) \<longleftrightarrow> op_kinds W"
  "V @ append_same W s1 e1 s2 e2 = append_same (V @ W) s1 e1 s2 e2"
  "W \<noteq> [] \<Longrightarrow> append_same W s1 e1 s2 e2 \<noteq> []"
  by (auto simp: append_same_def op_kinds_def op_kind_def)

lemma ops_ok_append_same:
  assumes "ops_ok 0 0 b1 b2 W" and "b1 \<le> c1" and "c1 \<le> s1" and "b2 \<le> c2" and "c2 \<le> s2"
  shows "ops_ok 0 0 s1 s2 (append_same W c1 s1 c2 s2)"
  using assms by (auto simp: append_same_def ops_ok_snoc intro: ops_ok_mono)

lemma last_ends:
  assumes c: "collected st gs ops" and ok: "ops_ok 0 0 s1 s2 (concat gs @ ops)"
    and l: "(l1, l2) = (if ops \<noteq> [] then (end1 (last ops), end2 (last ops)) else (0, 0))"
  shows "ops_ok 0 0 l1 l2 (concat gs @ ops)" and "0 \<le> l1" and "0 \<le> l2" and "l1 \<le> s1" and "l2 \<le> s2"
proof -
  have "ops_ok 0 0 l1 l2 (concat gs @ ops) \<and> l1 \<le> s1 \<and> l2 \<le> s2"
  proof (cases "ops = []")
    case True
    then show ?thesis using c l ok by (simp add: collected_def)
  next
    case False
    then have "ops_ok 0 0 l1 l2 (concat gs @ ops)" and "ops_ok l1 l2 s1 s2 []"
      using ok l by (auto simp: ops_ok_append [of 0 0 s1 s2 "concat gs @ ops" "[]", simplified] split: if_splits)
    then show ?thesis by simp
  qed
  then show "ops_ok 0 0 l1 l2 (concat gs @ ops)" "l1 \<le> s1" "l2 \<le> s2" "0 \<le> l1" "0 \<le> l2"
    using ops_ok_le by auto
qed

lemma flush_Some:
  assumes c: "collected st gs ops" and ne: "ops \<noteq> []" and ok: "ops_ok 0 0 l1 l2 (concat gs @ ops)"
    and e: "l1 \<le> e1" "e1 \<le> int n1" "l2 \<le> e2" "e2 \<le> int n2" and k: "op_kinds (concat gs @ ops)"
    and ops1: "ops1 = append_same ops l1 e1 l2 e2"
  obtains st' where "diff_lines ops1 st = Some st'" and "shown st' (gs @ [ops1])" and "ops1 \<noteq> []"
    and "ops_ok 0 0 e1 e2 (concat (gs @ [ops1]))" and "changes ops1 = changes ops" and "op_kinds (concat (gs @ [ops1]))"
proof -
  have ok1: "ops_ok 0 0 e1 e2 (concat (gs @ [ops1]))"
    using ops_ok_append_same [OF ok order.refl e(1) order.refl e(3)] by (simp add: ops1 append_same)
  then have "ops_ok 0 0 (int n1) (int n2) (concat (gs @ [ops1]))" by (rule ops_ok_mono) (use e in auto)
  then have "ops_ok 0 0 (int n1) (int n2) ops1" using ops_ok_suffix [of 0 0 _ _ "concat gs" ops1] by simp
  moreover have "op_kinds ops1" using k by (simp add: op_kinds_def ops1 append_same_def op_kind_def)
  moreover have "op_kinds (concat (gs @ [ops1]))" using k by (simp add: ops1 append_same)
  moreover have "ops1 \<noteq> []" "changes ops1 = changes ops" using ne by (simp_all add: ops1 append_same)
  ultimately show thesis using diff_lines_shown [of st gs ops1] c ok1 by (auto simp: collected_def intro: that)
qed

lemma add_change_segment_Some:
  assumes c: "collected st gs ops" and ok: "ops_ok 0 0 (start1 v) (start2 v) (concat gs @ ops)"
    and k: "op_kinds (concat gs @ ops)" and ctx: "0 \<le> ctx"
    and v: "start1 v \<le> end1 v" "end1 v \<le> int n1" "start2 v \<le> end2 v" "end2 v \<le> int n2"
      "op_kind v \<and> op v \<noteq> DIFF_OP_SAME"
  obtains ops' st' gs' where "add_change_segment ctx diff_lines ops v st = Some (ops', st')"
    and "collected st' gs' ops'" and "ops' \<noteq> []" and "op_kinds (concat gs' @ ops')"
    and "changes (concat gs' @ ops') = changes (concat gs @ ops) @ [v]" and "ops_ok 0 0 (end1 v) (end2 v) (concat gs' @ ops')"
proof -
  obtain l1 l2 where l: "(l1, l2) = (if ops \<noteq> [] then (end1 (last ops), end2 (last ops)) else (0, 0))" by (metis surj_pair)
  note L = last_ends [OF c ok l]
  have v0: "op v \<noteq> 0" "op v \<noteq> DIFF_OP_SAME" using v(5) by (auto simp: op_kind_def op_defs)
  let ?c1 = "max l1 (start1 v - ctx)" and ?c2 = "max l2 (start2 v - ctx)"
  let ?same = "\<lambda>W. append_same W ?c1 (start1 v) ?c2 (start2 v)"
  have fin: "ops_ok 0 0 (end1 v) (end2 v) (?same W @ [v])" if "ops_ok 0 0 b1 b2 W" "b1 \<le> ?c1" "b2 \<le> ?c2" for W b1 b2
    using ops_ok_append_same [OF that(1,2) _ that(3), of "start1 v" "start2 v"] L v ctx
    by (simp add: ops_ok_snoc)
  have kinds: "op_kinds (?same W @ [v])" if "op_kinds W" for W
    using that v(5) by (auto simp: op_kinds_def append_same_def op_kind_def)
  have same: "V @ ?same W @ [v] = ?same (V @ W) @ [v]" for V W by (simp flip: append_same(3))
  show thesis
  proof (cases "ops \<noteq> [] \<and> start1 v - l1 > ctx * 2 \<and> start2 v - l2 > ctx * 2")
    case False
    have "add_change_segment ctx diff_lines ops v st = Some (?same ops @ [v], st)"
      unfolding add_change_segment_def l [symmetric] using False v0(1) by (auto simp: Let_def)
    moreover have "ops_ok 0 0 (end1 v) (end2 v) (concat gs @ ?same ops @ [v])"
      unfolding same by (rule fin [OF L(1)]) auto
    moreover have "op_kinds (concat gs @ ?same ops @ [v])" unfolding same by (rule kinds [OF k])
    moreover have "collected st gs (?same ops @ [v])" using c by (simp add: collected_def)
    ultimately show thesis using v0(2) by (elim that) (simp_all add: append_same)
  next
    case True
    let ?e1 = "min (start1 v) (l1 + ctx)" and ?e2 = "min (start2 v) (l2 + ctx)"
    obtain ops1 where ops1: "ops1 = append_same ops l1 ?e1 l2 ?e2" by blast
    obtain st' where st': "diff_lines ops1 st = Some st'" "shown st' (gs @ [ops1])" "ops1 \<noteq> []"
      "ops_ok 0 0 ?e1 ?e2 (concat (gs @ [ops1]))" "changes ops1 = changes ops" "op_kinds (concat (gs @ [ops1]))"
      by (rule flush_Some [OF c _ L(1) _ _ _ _ k ops1]) (use True L v ctx in auto)
    have eq: "add_change_segment ctx diff_lines ops v st = Some (?same [] @ [v], st')"
      unfolding add_change_segment_def l [symmetric] using True v0(1) st'(1) by (simp add: Let_def flip: ops1)
    have ok': "ops_ok 0 0 (end1 v) (end2 v) (concat (gs @ [ops1]) @ ?same [] @ [v])"
      unfolding same using fin [OF st'(4)] True ctx by simp
    have k': "op_kinds (concat (gs @ [ops1]) @ ?same [] @ [v])"
      unfolding same using kinds [OF st'(6)] by simp
    have ch: "changes (concat (gs @ [ops1]) @ ?same [] @ [v]) = changes (concat gs @ ops) @ [v]"
      using st'(5) v0(2) by (simp add: append_same)
    have col: "collected st' (gs @ [ops1]) (?same [] @ [v])"
      using st'(2,3) c by (auto simp: collected_def)
    show thesis by (rule that [OF eq col _ k' ch ok']) simp
  qed
qed

lemma add_change_segment_last:
  assumes c: "collected st gs ops" and ne: "ops \<noteq> []" and ok: "ops_ok 0 0 (int n1) (int n2) (concat gs @ ops)"
    and k: "op_kinds (concat gs @ ops)" and ctx: "0 \<le> ctx"
  obtains ops' st' gs' where
    "add_change_segment ctx diff_lines ops (DiffOp 0 (int n1) (int n1) (int n2) (int n2)) st = Some (ops', st')"
    and "shown st' gs'" and "[] \<notin> set gs'" and "op_kinds (concat gs')"
    and "changes (concat gs') = changes (concat gs @ ops)" and "ops_ok 0 0 (int n1) (int n2) (concat gs')"
proof -
  obtain l1 l2 where l: "(l1, l2) = (if ops \<noteq> [] then (end1 (last ops), end2 (last ops)) else (0, 0))" by (metis surj_pair)
  note L = last_ends [OF c ok l]
  let ?e1 = "min (int n1) (l1 + ctx)" and ?e2 = "min (int n2) (l2 + ctx)"
  obtain ops1 where ops1: "ops1 = append_same ops l1 ?e1 l2 ?e2" by blast
  obtain st' where st': "diff_lines ops1 st = Some st'" "shown st' (gs @ [ops1])" "ops1 \<noteq> []"
    "ops_ok 0 0 ?e1 ?e2 (concat (gs @ [ops1]))" "changes ops1 = changes ops" "op_kinds (concat (gs @ [ops1]))"
    by (rule flush_Some [OF c ne L(1) _ _ _ _ k ops1]) (use L ctx in auto)
  obtain ops' where "add_change_segment ctx diff_lines ops (DiffOp 0 (int n1) (int n1) (int n2) (int n2)) st = Some (ops', st')"
    unfolding add_change_segment_def l [symmetric] using ne st'(1) by (simp add: Let_def flip: ops1)
  moreover have "ops_ok 0 0 (int n1) (int n2) (concat (gs @ [ops1]))" using st'(4) by (rule ops_ok_mono) auto
  moreover have "changes (concat (gs @ [ops1])) = changes (concat gs @ ops)" using st'(5) by simp
  moreover have "[] \<notin> set (gs @ [ops1])" using st'(3) c by (auto simp: collected_def)
  ultimately show thesis using st'(2,6) by (elim that) 
qed

end


section \<open>The loop\<close>

lemma kept_drop_marked:
  "s \<le> e \<Longrightarrow> e \<le> length c \<Longrightarrow> length d = length c \<Longrightarrow> \<forall>k. s \<le> k \<and> k < e \<longrightarrow> c ! k \<Longrightarrow>
   kept (drop s d) (drop s c) = kept (drop e d) (drop e c)"
proof (induction "e - s" arbitrary: s)
  case (Suc m)
  then have "kept (drop (Suc s) d) (drop (Suc s) c) = kept (drop e d) (drop e c)" by simp
  moreover have "c ! s" "s < length d" "length c = length d" using Suc by auto
  ultimately show ?case by (simp add: kept_drop_pred)
qed simp

lemma kept_drop_unmarked:
  "k < length d \<Longrightarrow> length c = length d \<Longrightarrow> \<not> c ! k \<Longrightarrow>
   kept (drop k d) (drop k c) = d ! k # kept (drop (Suc k) d) (drop (Suc k) c)"
  by (simp add: kept_drop_pred)

context diff_changer
begin

definition report_inv ::
  "int list \<Rightarrow> int list \<Rightarrow> bool list \<Rightarrow> bool list \<Rightarrow> nat \<Rightarrow> nat \<Rightarrow> DiffOp list \<Rightarrow> bool \<Rightarrow> 's \<Rightarrow> DiffOp list list \<Rightarrow> bool"
where
  "report_inv d1 d2 c1 c2 k1 k2 ops changed st gs \<longleftrightarrow>
     k1 \<le> n1 \<and> k2 \<le> n2 \<and> collected st gs ops \<and> reported_upto d1 d2 c1 c2 k1 k2 (concat gs @ ops) \<and>
     kept (drop k1 d1) (drop k1 c1) = kept (drop k2 d2) (drop k2 c2) \<and>
     (changed \<longleftrightarrow> ops \<noteq> []) \<and> (ops \<noteq> [] \<longleftrightarrow> changes (concat gs @ ops) \<noteq> [])"

lemma report_inv_skip:
  assumes inv: "report_inv d1 d2 c1 c2 k1 k2 ops changed st gs"
    and len: "length d1 = n1" "length d2 = n2" "length c1 = n1" "length c2 = n2"
    and e: "k1 \<le> e1" "e1 \<le> n1" "k2 \<le> e2" "e2 \<le> n2"
    and m: "\<forall>k. k1 \<le> k \<and> k < e1 \<longrightarrow> c1 ! k \<and> d1 ! k = 0" "\<forall>k. k2 \<le> k \<and> k < e2 \<longrightarrow> c2 ! k \<and> d2 ! k = 0"
  shows "report_inv d1 d2 c1 c2 e1 e2 ops changed st gs"
proof -
  have "reported_upto d1 d2 c1 c2 e1 e2 (concat gs @ ops)"
  proof (rule reported_upto_skip [OF _ e(1,3)])
    show "reported_upto d1 d2 c1 c2 k1 k2 (concat gs @ ops)" using inv by (simp add: report_inv_def)
  qed (use e len m in simp_all)
  moreover have "kept (drop e1 d1) (drop e1 c1) = kept (drop e2 d2) (drop e2 c2)"
    using inv kept_drop_marked [of k1 e1 c1 d1] kept_drop_marked [of k2 e2 c2 d2] e len m by (simp add: report_inv_def)
  ultimately show ?thesis using inv e by (simp add: report_inv_def)
qed

lemma report_inv_op:
  assumes inv: "report_inv d1 d2 c1 c2 k1 k2 ops changed st gs"
    and len: "length d1 = n1" "length d2 = n2" "length c1 = n1" "length c2 = n2" and ctx: "0 \<le> ctx"
    and e: "k1 \<le> e1" "e1 \<le> n1" "k2 \<le> e2" "e2 \<le> n2"
    and m: "\<forall>k. k1 \<le> k \<and> k < e1 \<longrightarrow> c1 ! k" "\<forall>k. k2 \<le> k \<and> k < e2 \<longrightarrow> c2 ! k"
    and seg: "int k1 \<le> start1 v" "start1 v \<le> end1 v" "end1 v \<le> int e1" "int k2 \<le> start2 v" "start2 v \<le> end2 v" "end2 v \<le> int e2"
    and b1: "\<forall>k. k1 \<le> k \<and> k < e1 \<longrightarrow> d1 ! k = 0 \<or> start1 v \<le> int k \<and> int k < end1 v"
    and b2: "\<forall>k. k2 \<le> k \<and> k < e2 \<longrightarrow> d2 ! k = 0 \<or> start2 v \<le> int k \<and> int k < end2 v"
    and mv: "op_marked c1 c2 v"
  obtains ops' st' gs' where "add_change_segment ctx diff_lines ops v st = Some (ops', st')"
    and "report_inv d1 d2 c1 c2 e1 e2 ops' True st' gs'"
proof -
  have r: "reported_upto d1 d2 c1 c2 k1 k2 (concat gs @ ops)" and col: "collected st gs ops"
    using inv by (simp_all add: report_inv_def)
  have ok: "ops_ok 0 0 (start1 v) (start2 v) (concat gs @ ops)" "op_kinds (concat gs @ ops)"
    using r seg by (auto simp: reported_upto_def intro: ops_ok_mono)
  have v: "op_kind v \<and> op v \<noteq> DIFF_OP_SAME" using mv by (auto simp: op_marked_def op_kind_def op_defs)
  obtain ops' st' gs' where *: "add_change_segment ctx diff_lines ops v st = Some (ops', st')" "collected st' gs' ops'"
    "ops' \<noteq> []" "op_kinds (concat gs' @ ops')" "changes (concat gs' @ ops') = changes (concat gs @ ops) @ [v]"
    "ops_ok 0 0 (end1 v) (end2 v) (concat gs' @ ops')"
    by (rule add_change_segment_Some [OF col ok ctx seg(2) _ seg(5) _ v]) (use seg e in auto)
  have "reported_upto d1 d2 c1 c2 e1 e2 (concat gs' @ ops')"
    by (rule reported_upto_op [OF r _ _ seg b1 b2 mv *(5,6,4)]) (use e len in auto)
  moreover have "kept (drop e1 d1) (drop e1 c1) = kept (drop e2 d2) (drop e2 c2)"
    using inv kept_drop_marked [of k1 e1 c1 d1] kept_drop_marked [of k2 e2 c2 d2] e len m by (simp add: report_inv_def)
  ultimately have "report_inv d1 d2 c1 c2 e1 e2 ops' True st' gs'"
    unfolding report_inv_def using * e by (simp del: changes_simps)
  with *(1) show thesis by (rule that)
qed

lemma report_step_Some:
  assumes inv: "report_inv d1 d2 c1 c2 k1 k2 ops changed st gs"
    and len: "length d1 = n1" "length d2 = n2" "length c1 = n1" "length c2 = n2" and ctx: "0 \<le> ctx"
    and more: "k1 < n1 \<or> k2 < n2"
  obtains e1 e2 ops' changed' st' gs' where
    "report_step ctx diff_lines d1 d2 c1 c2 (int k1, int k2, ops, changed, st) =
      Some (Inr (int e1, int e2, ops', changed', st'))"
    and "report_inv d1 d2 c1 c2 e1 e2 ops' changed' st' gs'" and "k1 + k2 < e1 + e2"
proof -
  have k: "k1 \<le> n1" "k2 \<le> n2" and keq: "kept (drop k1 d1) (drop k1 c1) = kept (drop k2 d2) (drop k2 c2)"
    using inv by (simp_all add: report_inv_def)
  define x1 where "x1 = (if k1 < n1 then Some (c1 ! k1) else None)"
  define x2 where "x2 = (if k2 < n2 then Some (c2 ! k2) else None)"
  have x: "(if int k1 < int (length c1) then map_option Some (idx c1 (int k1)) else Some None) = Some x1"
    "(if int k2 < int (length c2) then map_option Some (idx c2 (int k2)) else Some None) = Some x2"
    using len by (simp_all add: x1_def x2_def idx_nat)
  note step = report_step_def prod.case x bind.bind_lunit Let_def
  have nxt1: thesis if "x1 = Some True" and P: "\<And>e i j. next_change_segment (int k1) c1 d1 = Some (int e, int i, int j) \<Longrightarrow>
      k1 < e \<Longrightarrow> e \<le> n1 \<Longrightarrow> \<forall>k. k1 \<le> k \<and> k < e \<longrightarrow> c1 ! k \<Longrightarrow> k1 \<le> i \<Longrightarrow> i \<le> j \<Longrightarrow> j \<le> e \<Longrightarrow>
      \<forall>k. k1 \<le> k \<and> k < e \<longrightarrow> d1 ! k = 0 \<or> i \<le> k \<and> k < j \<Longrightarrow> thesis" for thesis
  proof -
    have "k1 < length c1" "c1 ! k1" "length d1 = length c1" using that(1) len by (auto simp: x1_def split: if_splits)
    from next_change_segment_Some [OF this] show thesis using P len by metis
  qed
  have nxt2: thesis if "x2 = Some True" and P: "\<And>e i j. next_change_segment (int k2) c2 d2 = Some (int e, int i, int j) \<Longrightarrow>
      k2 < e \<Longrightarrow> e \<le> n2 \<Longrightarrow> \<forall>k. k2 \<le> k \<and> k < e \<longrightarrow> c2 ! k \<Longrightarrow> k2 \<le> i \<Longrightarrow> i \<le> j \<Longrightarrow> j \<le> e \<Longrightarrow>
      \<forall>k. k2 \<le> k \<and> k < e \<longrightarrow> d2 ! k = 0 \<or> i \<le> k \<and> k < j \<Longrightarrow> thesis" for thesis
  proof -
    have "k2 < length c2" "c2 ! k2" "length d2 = length c2" using that(1) len by (auto simp: x2_def split: if_splits)
    from next_change_segment_Some [OF this] show thesis using P len by metis
  qed
  consider (same) "x1 = Some False" "x2 = Some False" | (both) "x1 = Some True" "x2 = Some True"
    | (one) "x1 = Some True" "x2 \<noteq> Some True" | (two) "x1 \<noteq> Some True" "x2 = Some True"
    | (none) "x1 \<noteq> Some True" "x2 \<noteq> Some True" "x1 \<noteq> Some False \<or> x2 \<noteq> Some False" by blast
  then show thesis
  proof cases
    case same
    then have u: "k1 < n1" "\<not> c1 ! k1" "k2 < n2" "\<not> c2 ! k2" by (auto simp: x1_def x2_def split: if_splits)
    then have h: "d1 ! k1 = d2 ! k2" "kept (drop (Suc k1) d1) (drop (Suc k1) c1) = kept (drop (Suc k2) d2) (drop (Suc k2) c2)"
      using keq len by (simp_all add: kept_drop_unmarked)
    have i: "report_inv d1 d2 c1 c2 (Suc k1) (Suc k2) ops changed st gs"
      using inv reported_upto_unmarked [of d1 d2 c1 c2 k1 k2 "concat gs @ ops"] u h len by (simp add: report_inv_def)
    have s: "report_step ctx diff_lines d1 d2 c1 c2 (int k1, int k2, ops, changed, st) =
        Some (Inr (int (Suc k1), int (Suc k2), ops, changed, st))"
      unfolding step using same by (simp add: add.commute)
    show thesis by (rule that [OF s i]) simp
  next
    case both
    obtain e1 i1 j1 where s1: "next_change_segment (int k1) c1 d1 = Some (int e1, int i1, int j1)" "k1 < e1" "e1 \<le> n1"
      "\<forall>k. k1 \<le> k \<and> k < e1 \<longrightarrow> c1 ! k" "k1 \<le> i1" "i1 \<le> j1" "j1 \<le> e1"
      "\<forall>k. k1 \<le> k \<and> k < e1 \<longrightarrow> d1 ! k = 0 \<or> i1 \<le> k \<and> k < j1" using nxt1 [OF both(1)] by blast
    obtain e2 i2 j2 where s2: "next_change_segment (int k2) c2 d2 = Some (int e2, int i2, int j2)" "k2 < e2" "e2 \<le> n2"
      "\<forall>k. k2 \<le> k \<and> k < e2 \<longrightarrow> c2 ! k" "k2 \<le> i2" "i2 \<le> j2" "j2 \<le> e2"
      "\<forall>k. k2 \<le> k \<and> k < e2 \<longrightarrow> d2 ! k = 0 \<or> i2 \<le> k \<and> k < j2" using nxt2 [OF both(2)] by blast
    let ?m = "if i1 < j1 \<and> i2 < j2 then DIFF_OP_MODIFY else if i1 < j1 then DIFF_OP_REMOVE
      else if i2 < j2 then DIFF_OP_INSERT else 0"
    let ?v = "DiffOp ?m (int i1) (int j1) (int i2) (int j2)"
    show thesis
    proof (cases "i1 < j1 \<or> i2 < j2")
      case False
      then have "report_inv d1 d2 c1 c2 e1 e2 ops changed st gs"
        by (intro report_inv_skip [OF inv len]) (use s1 s2 in auto)
      moreover have "report_step ctx diff_lines d1 d2 c1 c2 (int k1, int k2, ops, changed, st) =
          Some (Inr (int e1, int e2, ops, changed, st))"
        unfolding step using both False by (simp add: s1(1) s2(1))
      ultimately show thesis using s1(2) s2(2) by (intro that [of e1 e2 ops changed st gs]) simp_all
    next
      case True
      have mv: "op_marked c1 c2 ?v"
        using s1 s2 True by (auto simp: op_marked_def marked_between_def op_defs)
      obtain ops' st' gs' where a: "add_change_segment ctx diff_lines ops ?v st = Some (ops', st')"
        "report_inv d1 d2 c1 c2 e1 e2 ops' True st' gs'"
        by (rule report_inv_op [OF inv len ctx, of e1 e2 ?v, OF _ _ _ _ _ _ _ _ _ _ _ _ _ _ mv]) (use s1 s2 in auto)
      moreover have "?m \<noteq> 0" using True by (auto simp: op_defs)
      ultimately have "report_step ctx diff_lines d1 d2 c1 c2 (int k1, int k2, ops, changed, st) =
          Some (Inr (int e1, int e2, ops', True, st'))"
        unfolding step using both by (simp add: s1(1) s2(1) cong: if_cong split del: if_split)
      then show thesis using a(2) s1(2) s2(2) by (intro that [of e1 e2 ops' True st' gs']) simp_all
    qed
  next
    case one
    obtain e1 i1 j1 where s1: "next_change_segment (int k1) c1 d1 = Some (int e1, int i1, int j1)" "k1 < e1" "e1 \<le> n1"
      "\<forall>k. k1 \<le> k \<and> k < e1 \<longrightarrow> c1 ! k" "k1 \<le> i1" "i1 \<le> j1" "j1 \<le> e1"
      "\<forall>k. k1 \<le> k \<and> k < e1 \<longrightarrow> d1 ! k = 0 \<or> i1 \<le> k \<and> k < j1" using nxt1 [OF one(1)] by blast
    let ?v = "DiffOp DIFF_OP_REMOVE (int i1) (int j1) (int k2) (int k2)"
    show thesis
    proof (cases "i1 < j1")
      case False
      then have "report_inv d1 d2 c1 c2 e1 k2 ops changed st gs"
        by (intro report_inv_skip [OF inv len]) (use s1 k in auto)
      moreover have "report_step ctx diff_lines d1 d2 c1 c2 (int k1, int k2, ops, changed, st) =
          Some (Inr (int e1, int k2, ops, changed, st))"
        unfolding step using one False by (simp add: s1(1))
      ultimately show thesis using s1(2) by (intro that [of e1 k2 ops changed st gs]) simp_all
    next
      case True
      have mv: "op_marked c1 c2 ?v"
        using s1 True by (auto simp: op_marked_def marked_between_def op_defs)
      obtain ops' st' gs' where a: "add_change_segment ctx diff_lines ops ?v st = Some (ops', st')"
        "report_inv d1 d2 c1 c2 e1 k2 ops' True st' gs'"
        by (rule report_inv_op [OF inv len ctx, of e1 k2 ?v, OF _ _ _ _ _ _ _ _ _ _ _ _ _ _ mv]) (use s1 k in auto)
      then have "report_step ctx diff_lines d1 d2 c1 c2 (int k1, int k2, ops, changed, st) =
          Some (Inr (int e1, int k2, ops', True, st'))"
        unfolding step using one True by (simp add: s1(1))
      then show thesis using a(2) s1(2) by (intro that [of e1 k2 ops' True st' gs']) simp_all
    qed
  next
    case two
    obtain e2 i2 j2 where s2: "next_change_segment (int k2) c2 d2 = Some (int e2, int i2, int j2)" "k2 < e2" "e2 \<le> n2"
      "\<forall>k. k2 \<le> k \<and> k < e2 \<longrightarrow> c2 ! k" "k2 \<le> i2" "i2 \<le> j2" "j2 \<le> e2"
      "\<forall>k. k2 \<le> k \<and> k < e2 \<longrightarrow> d2 ! k = 0 \<or> i2 \<le> k \<and> k < j2" using nxt2 [OF two(2)] by blast
    let ?v = "DiffOp DIFF_OP_INSERT (int k1) (int k1) (int i2) (int j2)"
    show thesis
    proof (cases "i2 < j2")
      case False
      then have "report_inv d1 d2 c1 c2 k1 e2 ops changed st gs"
        by (intro report_inv_skip [OF inv len]) (use s2 k in auto)
      moreover have "report_step ctx diff_lines d1 d2 c1 c2 (int k1, int k2, ops, changed, st) =
          Some (Inr (int k1, int e2, ops, changed, st))"
        unfolding step using two False by (simp add: s2(1))
      ultimately show thesis using s2(2) by (intro that [of k1 e2 ops changed st gs]) simp_all
    next
      case True
      have mv: "op_marked c1 c2 ?v"
        using s2 True by (auto simp: op_marked_def marked_between_def op_defs)
      obtain ops' st' gs' where a: "add_change_segment ctx diff_lines ops ?v st = Some (ops', st')"
        "report_inv d1 d2 c1 c2 k1 e2 ops' True st' gs'"
        by (rule report_inv_op [OF inv len ctx, of k1 e2 ?v, OF _ _ _ _ _ _ _ _ _ _ _ _ _ _ mv]) (use s2 k in auto)
      then have "report_step ctx diff_lines d1 d2 c1 c2 (int k1, int k2, ops, changed, st) =
          Some (Inr (int k1, int e2, ops', True, st'))"
        unfolding step using two True by (simp add: s2(1))
      then show thesis using a(2) s2(2) by (intro that [of k1 e2 ops' True st' gs']) simp_all
    qed
  next
    case none
    have False
    proof (cases "k1 < n1")
      case True
      then have "\<not> c1 ! k1" "k2 \<ge> n2" using none by (auto simp: x1_def x2_def split: if_splits)
      then show False using keq True len by (simp add: kept_drop_unmarked)
    next
      case False
      then have "k2 < n2" "\<not> c2 ! k2" using none more by (auto simp: x1_def x2_def split: if_splits)
      then show False using keq False len by (simp add: kept_drop_unmarked)
    qed
    then show thesis ..
  qed
qed

lemma report_loop_Some:
  assumes len: "length d1 = n1" "length d2 = n2" "length c1 = n1" "length c2 = n2" and ctx: "0 \<le> ctx"
  shows "report_inv d1 d2 c1 c2 k1 k2 ops changed st gs \<Longrightarrow>
    \<exists>ops' changed' st' gs'. report_loop ctx diff_lines d1 d2 c1 c2 (int k1, int k2, ops, changed, st) =
      Some (Inr (int n1, int n2, ops', changed', st')) \<and> report_inv d1 d2 c1 c2 n1 n2 ops' changed' st' gs'"
proof (induction "(n1 - k1) + (n2 - k2)" arbitrary: k1 k2 ops changed st gs rule: less_induct)
  case less
  have k: "k1 \<le> n1" "k2 \<le> n2" using less.prems by (simp_all add: report_inv_def)
  show ?case
  proof (cases "k1 < n1 \<or> k2 < n2")
    case False
    then have "k1 = n1" "k2 = n2" using k by auto
    then show ?thesis using less.prems len by (subst report_loop.simps) auto
  next
    case True
    obtain e1 e2 ops' changed' st' gs' where
      s: "report_step ctx diff_lines d1 d2 c1 c2 (int k1, int k2, ops, changed, st) =
        Some (Inr (int e1, int e2, ops', changed', st'))"
      and i: "report_inv d1 d2 c1 c2 e1 e2 ops' changed' st' gs'" and e: "k1 + k2 < e1 + e2"
      by (rule report_step_Some [OF less.prems len ctx True])
    have "e1 \<le> n1" "e2 \<le> n2" using i by (simp_all add: report_inv_def)
    then have "(n1 - e1) + (n2 - e2) < (n1 - k1) + (n2 - k2)" using e k by auto
    from less.hyps [OF this i] show ?thesis using True len s by (subst report_loop.simps) auto
  qed
qed

text \<open>What is reported: the operations of all groups in one list.\<close>

lemma report_diff_Some:
  assumes len: "length d1 = n1" "length d2 = n2" "length c1 = n1" "length c2 = n2" and ctx: "0 \<le> ctx"
    and keq: "kept d1 c1 = kept d2 c2" and st: "shown st []"
  obtains changed st' gs where "report_diff ctx diff_lines d1 d2 c1 c2 st = Some (changed, st')"
    and "shown st' gs" and "[] \<notin> set gs" and "reported_upto d1 d2 c1 c2 n1 n2 (concat gs)"
    and "changed \<longleftrightarrow> changes (concat gs) \<noteq> []" and "changed \<longleftrightarrow> gs \<noteq> []"
proof -
  have "report_inv d1 d2 c1 c2 0 0 [] False st []"
    using keq st by (simp add: report_inv_def collected_def reported_upto_def op_kinds_def sl_same)
  from report_loop_Some [OF len ctx this] obtain ops changed st' gs where
    l: "report_loop ctx diff_lines d1 d2 c1 c2 (0, 0, [], False, st) = Some (Inr (int n1, int n2, ops, changed, st'))"
    and inv: "report_inv d1 d2 c1 c2 n1 n2 ops changed st' gs" by auto
  show thesis
  proof (cases "ops = []")
    case True
    then have "gs = []" using inv by (simp add: report_inv_def collected_def)
    then show thesis using True inv l
      by (intro that [of changed st' "[]"]) (auto simp: report_diff_def report_inv_def collected_def)
  next
    case False
    have "collected st' gs ops" "ops_ok 0 0 (int n1) (int n2) (concat gs @ ops)" "op_kinds (concat gs @ ops)"
      using inv by (simp_all add: report_inv_def reported_upto_def)
    then obtain ops' st'' gs' where
      a: "add_change_segment ctx diff_lines ops (DiffOp 0 (int n1) (int n1) (int n2) (int n2)) st' = Some (ops', st'')"
      "shown st'' gs'" "[] \<notin> set gs'" "op_kinds (concat gs')" "changes (concat gs') = changes (concat gs @ ops)"
      "ops_ok 0 0 (int n1) (int n2) (concat gs')"
      using add_change_segment_last [OF _ False _ _ ctx] by blast
    have "reported_upto d1 d2 c1 c2 n1 n2 (concat gs')"
      using inv a(4-6) unfolding report_inv_def reported_upto_def by (simp del: changes_simps)
    moreover have c: "changed \<longleftrightarrow> changes (concat gs') \<noteq> []" using inv a(5) by (simp add: report_inv_def)
    moreover have "changed \<longleftrightarrow> gs' \<noteq> []" using c inv False by (auto simp: report_inv_def)
    moreover have "report_diff ctx diff_lines d1 d2 c1 c2 st = Some (changed, st'')"
      using l a(1) False len by (simp add: report_diff_def Let_def)
    ultimately show thesis using a(2,3) by (intro that) auto
  qed
qed

end


section \<open>Lines between two changes\<close>

text \<open>
  Where the lines between two changes are more than the context but not more than twice the context, both
  changes are shown in one group, but the context of the second change begins only \<open>ctx\<close> lines before it,
  and the lines between the two contexts are left out: here the six lines from 2 to 7, of which 2 to 4 are
  missing. The head of the unified output still counts them.
\<close>

lemma context_gap_omits_lines:
  "report_diff 3 (\<lambda>ops gs. Some (gs @ [ops])) [1, 2, 3, 4, 5, 6, 7, 8, 9] [1, 10, 3, 4, 5, 6, 7, 8, 11]
     [False, True, False, False, False, False, False, False, True]
     [False, True, False, False, False, False, False, False, True] [] =
   Some (True, [[DiffOp 1 0 1 0 1, DiffOp 2 1 2 1 2, DiffOp 1 5 8 5 8, DiffOp 2 8 9 8 9]])"
  by code_simp

end
