(* ===== verification/Xdiff_Text.thy ===== *)
theory Xdiff_Text
  imports Xdiff_Output Xdiff_Report
begin

text \<open>
  The two text formats (\<open>diff_lines\<close> of \<open>DiffChangerUnifiedText\<close> and \<open>DiffChangerText\<close> in
  \<open>xdiff.go\<close>), on the state that a changer and \<open>out\<close> make up.

  \<open>group_printer\<close> is the contract of all the formats: the first group prints a header and each group is
  printed by itself. It gives the contract \<open>diff_changer\<close>, and so all that is shown of \<open>report_diff\<close> holds of
  what it prints. The text formats fulfil it.
\<close>

section \<open>The code\<close>

fun write_lines :: "bytes \<Rightarrow> bytes list \<Rightarrow> trace \<Rightarrow> trace" where
  "write_lines mark [] tr = tr"
| "write_lines mark (line # rest) tr = write_lines mark rest (tr @ [Write mark, Write line, Write nl])"

type_synonym changer_state = "DiffChangerData \<times> trace"

definition text_header :: "Flags \<Rightarrow> bytes \<Rightarrow> bytes \<Rightarrow> changer_state \<Rightarrow> changer_state" where
  "text_header fl mark1 mark2 = (\<lambda>(chg, tr).
     if \<not> header_printed chg then
       (chg\<lparr>header_printed := True\<rparr>,
        out_acquire_lock fl tr @ [Write (mark1 @ name1 chg @ nl), Write (mark2 @ name2 chg @ nl)])
     else (chg, tr))"

definition unified_text_op :: "DiffChangerData \<Rightarrow> DiffOp \<Rightarrow> trace \<Rightarrow> trace option" where
  "unified_text_op chg v tr =
     (if op v = DIFF_OP_INSERT \<or> op v = DIFF_OP_REMOVE \<or> op v = DIFF_OP_MODIFY then
        do { ls \<leftarrow> slice (file1 chg) (start1 v) (end1 v);
             let tr = write_lines ''- '' ls tr;
             ls \<leftarrow> slice (file2 chg) (start2 v) (end2 v);
             Some (write_lines ''+ '' ls tr) }
      else
        do { ls \<leftarrow> slice (file1 chg) (start1 v) (end1 v);
             Some (write_lines ''  '' ls tr) })"

fun fold_ops :: "('a \<Rightarrow> 's \<Rightarrow> 's option) \<Rightarrow> 'a list \<Rightarrow> 's \<Rightarrow> 's option" where
  "fold_ops f [] s = Some s"
| "fold_ops f (v # ops) s = do { s \<leftarrow> f v s; fold_ops f ops s }"

definition diff_lines_UnifiedText :: "Flags \<Rightarrow> DiffOp list \<Rightarrow> changer_state \<Rightarrow> changer_state option" where
  "diff_lines_UnifiedText fl ops st =
     do { let (chg, tr) = text_header fl ''--- '' ''+++ '' st;
          first \<leftarrow> idx ops 0;
          lastop \<leftarrow> idx ops (int (length ops) - 1);
          let tr = tr @ [Write (''@@ -'' @ itoa (start1 first + 1) @ '','' @ itoa (end1 lastop - start1 first) @
                                '' +'' @ itoa (start2 first + 1) @ '','' @ itoa (end2 lastop - start2 first) @ '' @@'' @ nl)];
          tr \<leftarrow> fold_ops (unified_text_op chg) ops tr;
          Some (chg, tr) }"

definition print_line_numbers :: "bytes \<Rightarrow> int \<Rightarrow> int \<Rightarrow> int \<Rightarrow> int \<Rightarrow> trace \<Rightarrow> trace" where
  "print_line_numbers mode s1 e1 s2 e2 tr =
     (let tr = (if e1 < 0 \<or> e1 - s1 = 1 then tr @ [Write (itoa (s1 + 1) @ mode)]
                else tr @ [Write (itoa (s1 + 1) @ '','' @ itoa e1 @ mode)])
      in if e2 < 0 \<or> e2 - s2 = 1 then tr @ [Write (itoa (s2 + 1) @ nl)]
         else tr @ [Write (itoa (s2 + 1) @ '','' @ itoa e2 @ nl)])"

definition text_op :: "DiffChangerData \<Rightarrow> DiffOp \<Rightarrow> trace \<Rightarrow> trace option" where
  "text_op chg v tr =
     (if op v = DIFF_OP_SAME then Some tr
      else do {
        let tr = (if op v = DIFF_OP_INSERT then print_line_numbers ''a'' (start1 v - 1) (-1) (start2 v) (end2 v) tr
                  else if op v = DIFF_OP_REMOVE then print_line_numbers ''d'' (start1 v) (end1 v) (start2 v - 1) (-1) tr
                  else if op v = DIFF_OP_MODIFY then print_line_numbers ''c'' (start1 v) (end1 v) (start2 v) (end2 v) tr
                  else tr);
        ls \<leftarrow> slice (file1 chg) (start1 v) (end1 v);
        let tr = write_lines ''< '' ls tr;
        let tr = (if end1 v > start1 v \<and> end2 v > start2 v then tr @ [Write (''---'' @ nl)] else tr);
        ls \<leftarrow> slice (file2 chg) (start2 v) (end2 v);
        Some (write_lines ''> '' ls tr) })"

definition diff_lines_Text :: "Flags \<Rightarrow> DiffOp list \<Rightarrow> changer_state \<Rightarrow> changer_state option" where
  "diff_lines_Text fl ops st =
     do { let (chg, tr) = text_header fl ''<<< '' ''>>> '' st;
          tr \<leftarrow> fold_ops (text_op chg) ops tr;
          Some (chg, tr) }"

section \<open>The contract of the formats\<close>

text \<open>
  \<open>printed\<close> says that the groups \<open>gs\<close> have been printed: the trace has grown by the header, once, and by
  what each group prints; in the changer only the buffers and \<open>header_printed\<close> may have changed.
\<close>

definition with_bufs :: "DiffChangerData \<Rightarrow> bytes \<Rightarrow> bytes \<Rightarrow> bool \<Rightarrow> DiffChangerData" where
  "with_bufs chg b1 b2 h = chg\<lparr>buf1 := b1, buf2 := b2, header_printed := h\<rparr>"

definition printed ::
  "trace \<Rightarrow> (DiffOp list \<Rightarrow> trace) \<Rightarrow> DiffChangerData \<Rightarrow> trace \<Rightarrow> changer_state \<Rightarrow> DiffOp list list \<Rightarrow> bool"
where
  "printed hdr grp chg0 tr0 st gs \<longleftrightarrow>
     (\<exists>b1 b2. st = (with_bufs chg0 b1 b2 (gs \<noteq> []),
       tr0 @ (if gs = [] then [] else hdr) @ concat (map grp gs)))"

abbreviation in_range :: "DiffChangerData \<Rightarrow> DiffOp list \<Rightarrow> bool" where
  "in_range chg ops \<equiv> ops_ok 0 0 (int (length (file1 chg))) (int (length (file2 chg))) ops"

locale group_printer =
  fixes diff_lines :: "DiffOp list \<Rightarrow> changer_state \<Rightarrow> changer_state option"
    and hdr :: trace and grp :: "DiffOp list \<Rightarrow> trace"
    and chg0 :: DiffChangerData and tr0 :: trace
  assumes prints: "ops \<noteq> [] \<Longrightarrow> in_range chg0 ops \<Longrightarrow> op_kinds ops \<Longrightarrow>
    \<exists>b1' b2'. diff_lines ops (with_bufs chg0 b1 b2 h, tr) =
      Some (with_bufs chg0 b1' b2' True, tr @ (if h then [] else hdr) @ grp ops)"

sublocale group_printer \<subseteq> diff_changer diff_lines "printed hdr grp chg0 tr0" "length (file1 chg0)" "length (file2 chg0)"
proof unfold_locales
  fix st gs ops
  assume p: "printed hdr grp chg0 tr0 st gs" and ops: "ops \<noteq> []" "in_range chg0 ops" "op_kinds ops"
  obtain b1 b2 where st: "st = (with_bufs chg0 b1 b2 (gs \<noteq> []), tr0 @ (if gs = [] then [] else hdr) @ concat (map grp gs))"
    using p by (auto simp: printed_def)
  from prints [OF ops, of b1 b2 "gs \<noteq> []"] show "\<exists>st'. diff_lines ops st = Some st' \<and> printed hdr grp chg0 tr0 st' (gs @ [ops])"
    unfolding st by (cases "gs = []") (fastforce simp: printed_def)+
qed

context group_printer
begin

text \<open>All that \<open>report_diff\<close> prints.\<close>

lemma report_diff_prints:
  assumes len: "length d1 = length (file1 chg0)" "length d2 = length (file2 chg0)" "length c1 = length d1" "length c2 = length d2"
    and ctx: "0 \<le> ctx" and keq: "kept d1 c1 = kept d2 c2" and h: "\<not> header_printed chg0"
  obtains gs b1 b2 where
    "report_diff ctx diff_lines d1 d2 c1 c2 (chg0, tr0) =
      Some (gs \<noteq> [], with_bufs chg0 b1 b2 (gs \<noteq> []), tr0 @ (if gs = [] then [] else hdr) @ concat (map grp gs))"
    and "[] \<notin> set gs" and "reported_upto d1 d2 c1 c2 (length d1) (length d2) (concat gs)"
    and "gs \<noteq> [] \<longleftrightarrow> changes (concat gs) \<noteq> []"
proof -
  have "with_bufs chg0 (buf1 chg0) (buf2 chg0) False = chg0" using h by (simp add: with_bufs_def)
  then have "printed hdr grp chg0 tr0 (chg0, tr0) []"
    unfolding printed_def by (intro exI [of _ "buf1 chg0"] exI [of _ "buf2 chg0"]) simp
  then obtain changed st' gs where *: "report_diff ctx diff_lines d1 d2 c1 c2 (chg0, tr0) = Some (changed, st')"
    "printed hdr grp chg0 tr0 st' gs" "[] \<notin> set gs"
    "reported_upto d1 d2 c1 c2 (length (file1 chg0)) (length (file2 chg0)) (concat gs)"
    "changed \<longleftrightarrow> changes (concat gs) \<noteq> []" "changed \<longleftrightarrow> gs \<noteq> []"
    using report_diff_Some [OF len(1,2) _ _ ctx keq] len by metis
  obtain b1 b2 where st': "st' = (with_bufs chg0 b1 b2 (gs \<noteq> []), tr0 @ (if gs = [] then [] else hdr) @ concat (map grp gs))"
    using *(2) by (auto simp: printed_def)
  show thesis using *(1,3,4,5,6) len unfolding st' by (intro that [of gs b1 b2]) simp_all
qed

end


section \<open>What the text formats print\<close>

fun line_actions :: "bytes \<Rightarrow> bytes list \<Rightarrow> trace" where
  "line_actions mark [] = []"
| "line_actions mark (line # rest) = [Write mark, Write line, Write nl] @ line_actions mark rest"

lemma write_lines_eq: "write_lines mark ls tr = tr @ line_actions mark ls"
  by (induction ls arbitrary: tr) auto

abbreviation part1 :: "DiffChangerData \<Rightarrow> DiffOp \<Rightarrow> bytes list" where
  "part1 chg v \<equiv> sl (file1 chg) (start1 v) (end1 v)"

abbreviation part2 :: "DiffChangerData \<Rightarrow> DiffOp \<Rightarrow> bytes list" where
  "part2 chg v \<equiv> sl (file2 chg) (start2 v) (end2 v)"

definition header_actions :: "Flags \<Rightarrow> bytes \<Rightarrow> bytes \<Rightarrow> DiffChangerData \<Rightarrow> trace" where
  "header_actions fl mark1 mark2 chg =
     out_acquire_lock fl [] @ [Write (mark1 @ name1 chg @ nl), Write (mark2 @ name2 chg @ nl)]"

definition unified_op_actions :: "DiffChangerData \<Rightarrow> DiffOp \<Rightarrow> trace" where
  "unified_op_actions chg v =
     (if op v = DIFF_OP_SAME then line_actions ''  '' (part1 chg v)
      else line_actions ''- '' (part1 chg v) @ line_actions ''+ '' (part2 chg v))"

definition unified_group :: "DiffChangerData \<Rightarrow> DiffOp list \<Rightarrow> trace" where
  "unified_group chg ops =
     Write (''@@ -'' @ itoa (start1 (hd ops) + 1) @ '','' @ itoa (end1 (last ops) - start1 (hd ops)) @
            '' +'' @ itoa (start2 (hd ops) + 1) @ '','' @ itoa (end2 (last ops) - start2 (hd ops)) @ '' @@'' @ nl)
     # concat (map (unified_op_actions chg) ops)"

text \<open>The commands of the normal format: \<open>a-th to b-th line\<close>, or one line alone.\<close>

definition line_range :: "int \<Rightarrow> int \<Rightarrow> bytes" where
  "line_range a b = (if a = b then itoa b else itoa a @ '','' @ itoa b)"

definition normal_op_actions :: "DiffChangerData \<Rightarrow> DiffOp \<Rightarrow> trace" where
  "normal_op_actions chg v =
     (let r1 = line_range (start1 v + 1) (end1 v); r2 = line_range (start2 v + 1) (end2 v) in
      if op v = DIFF_OP_SAME then []
      else (if op v = DIFF_OP_INSERT then [Write (itoa (start1 v) @ ''a''), Write (r2 @ nl)]
            else if op v = DIFF_OP_REMOVE then [Write (r1 @ ''d''), Write (itoa (start2 v) @ nl)]
            else [Write (r1 @ ''c''), Write (r2 @ nl)]) @
        line_actions ''< '' (part1 chg v) @
        (if part1 chg v \<noteq> [] \<and> part2 chg v \<noteq> [] then [Write (''---'' @ nl)] else []) @
        line_actions ''> '' (part2 chg v))"

lemma fold_ops_Some:
  "(\<And>v tr. v \<in> set ops \<Longrightarrow> f v tr = Some (tr @ g v)) \<Longrightarrow> fold_ops f ops tr = Some (tr @ concat (map g ops))"
proof (induction ops arbitrary: tr)
  case (Cons v ops)
  have "f v tr = Some (tr @ g v)" by (rule Cons.prems) simp
  moreover have "fold_ops f ops (tr @ g v) = Some ((tr @ g v) @ concat (map g ops))"
    by (rule Cons.IH) (simp add: Cons.prems)
  ultimately show ?case by simp
qed simp

lemma slices_in_range:
  assumes "in_range chg ops" and "v \<in> set ops"
  shows "slice (file1 chg) (start1 v) (end1 v) = Some (part1 chg v)"
    and "slice (file2 chg) (start2 v) (end2 v) = Some (part2 chg v)"
  using ops_ok_bounds [OF assms] by (auto simp: slice_def sl_def)

lemma length_sl: "0 \<le> a \<Longrightarrow> a \<le> b \<Longrightarrow> b \<le> int (length xs) \<Longrightarrow> int (length (sl xs a b)) = b - a"
  by (simp add: sl_def)

lemma sl_ne: "0 \<le> a \<Longrightarrow> b \<le> int (length xs) \<Longrightarrow> sl xs a b \<noteq> [] \<longleftrightarrow> a < b"
  by (auto simp: sl_def)

lemma with_bufs_simps [simp]:
  "file1 (with_bufs chg b1 b2 h) = file1 chg" "file2 (with_bufs chg b1 b2 h) = file2 chg"
  "name1 (with_bufs chg b1 b2 h) = name1 chg" "name2 (with_bufs chg b1 b2 h) = name2 chg"
  "fileinfo1 (with_bufs chg b1 b2 h) = fileinfo1 chg" "fileinfo2 (with_bufs chg b1 b2 h) = fileinfo2 chg"
  "buf1 (with_bufs chg b1 b2 h) = b1" "buf2 (with_bufs chg b1 b2 h) = b2"
  "header_printed (with_bufs chg b1 b2 h) = h" "lineno_width (with_bufs chg b1 b2 h) = lineno_width chg"
  "with_bufs chg b1 b2 h\<lparr>header_printed := h'\<rparr> = with_bufs chg b1 b2 h'"
  "with_bufs chg b1 b2 h\<lparr>buf1 := b1'\<rparr> = with_bufs chg b1' b2 h"
  "with_bufs chg b1 b2 h\<lparr>buf2 := b2'\<rparr> = with_bufs chg b1 b2' h"
  by (simp_all add: with_bufs_def)

lemma text_header_eq: "text_header fl m1 m2 (with_bufs chg b1 b2 h, tr) =
    (with_bufs chg b1 b2 True, tr @ (if h then [] else header_actions fl m1 m2 chg))"
  by (cases h) (simp_all add: text_header_def header_actions_def out_acquire_lock_def)

interpretation unified_text: group_printer "diff_lines_UnifiedText fl" "header_actions fl ''--- '' ''+++ '' chg"
  "unified_group chg" chg tr0 for fl chg tr0
proof
  fix ops b1 b2 h tr
  assume ops: "ops \<noteq> []" "in_range chg ops" "op_kinds ops"
  have u: "unified_text_op (with_bufs chg b1 b2 True) v tr = Some (tr @ unified_op_actions chg v)" if "v \<in> set ops" for v tr
    using that ops(3) slices_in_range [OF ops(2) that]
    by (auto simp: unified_text_op_def unified_op_actions_def write_lines_eq op_kinds_def op_kind_def op_defs)
  have n: "idx ops 0 = Some (hd ops)" "idx ops (int (length ops) - 1) = Some (last ops)"
    using ops(1) by (simp_all add: idx_def hd_conv_nth last_conv_nth nat_minus_as_int of_nat_diff Suc_le_eq)
  show "\<exists>b1' b2'. diff_lines_UnifiedText fl ops (with_bufs chg b1 b2 h, tr) = Some (with_bufs chg b1' b2' True,
      tr @ (if h then [] else header_actions fl ''--- '' ''+++ '' chg) @ unified_group chg ops)"
    using ops(1) by (simp add: diff_lines_UnifiedText_def text_header_eq n Let_def fold_ops_Some [OF u] unified_group_def)
      (intro exI, rule refl)
qed

interpretation normal_text: group_printer "diff_lines_Text fl" "header_actions fl ''<<< '' ''>>> '' chg"
  "\<lambda>ops. concat (map (normal_op_actions chg) ops)" chg tr0 for fl chg tr0
proof
  fix ops b1 b2 h tr
  assume ops: "ops \<noteq> []" "in_range chg ops" "op_kinds ops"
  have u: "text_op (with_bufs chg b1 b2 True) v tr = Some (tr @ normal_op_actions chg v)" if v: "v \<in> set ops" for v tr
  proof -
    have b: "0 \<le> start1 v" "start1 v \<le> end1 v" "end1 v \<le> int (length (file1 chg))"
      "0 \<le> start2 v" "start2 v \<le> end2 v" "end2 v \<le> int (length (file2 chg))"
      using ops_ok_bounds [OF ops(2) v] by auto
    then have "part1 chg v \<noteq> [] \<longleftrightarrow> start1 v < end1 v" "part2 chg v \<noteq> [] \<longleftrightarrow> start2 v < end2 v"
      by (simp_all add: sl_ne)
    moreover have "op v \<in> {DIFF_OP_SAME, DIFF_OP_MODIFY, DIFF_OP_INSERT, DIFF_OP_REMOVE}"
      using ops(3) v by (auto simp: op_kinds_def op_kind_def)
    moreover have "(end1 v - start1 v = 1) = (start1 v + 1 = end1 v)" "(end2 v - start2 v = 1) = (start2 v + 1 = end2 v)" by auto
    ultimately show ?thesis using b slices_in_range [OF ops(2) v]
      by (auto simp: text_op_def normal_op_actions_def write_lines_eq print_line_numbers_def line_range_def op_defs Let_def)
  qed
  show "\<exists>b1' b2'. diff_lines_Text fl ops (with_bufs chg b1 b2 h, tr) = Some (with_bufs chg b1' b2' True,
      tr @ (if h then [] else header_actions fl ''<<< '' ''>>> '' chg) @ concat (map (normal_op_actions chg) ops))"
    by (simp add: diff_lines_Text_def text_header_eq fold_ops_Some [OF u]) (intro exI, rule refl)
qed

end
