(* ===== verification/Xdiff_Shift.thy ===== *)
theory Xdiff_Shift
  imports Go_Base
begin

text \<open>
  Moving the chunks of changes to where they read better (\<open>do_shift_boundary\<close>,
  \<open>find_shift_boundary\<close>, the scores and \<open>shift_boundaries\<close> of \<open>xdiff.go\<close>).

  A chunk of changes may slide over neighbours that are equal to what it leaves at its other
  end. Shown: for every list, every list of flags and every score function the loop ends, no
  index is out of range, and the unmarked elements stay the same.

  The loop goes backwards when a chunk merges with the one before it, and restarts from the
  middle of the chunk when that one starts at 0, so its end needs an argument: the number of
  chunks that begin after position 0 (the current position counted as a beginning) never grows,
  and where it stays the same the position advances.
\<close>

section \<open>The code\<close>

function do_shift_boundary :: "int \<Rightarrow> int \<Rightarrow> int \<Rightarrow> bool list \<Rightarrow> bool list option" where
  "do_shift_boundary start end offset change =
     (if offset < 0 then
        do { change \<leftarrow> upd change (start - 1) True; change \<leftarrow> upd change (end - 1) False;
             do_shift_boundary (start - 1) (end - 1) (offset + 1) change }
      else if offset \<noteq> 0 then
        do { change \<leftarrow> upd change start False; change \<leftarrow> upd change end True;
             do_shift_boundary (start + 1) (end + 1) (offset - 1) change }
      else Some change)"
  by pat_completeness auto
termination by (relation "measure (\<lambda>(start, end, offset, change). nat \<bar>offset\<bar>)") auto

text \<open>The three loops of \<open>find_shift_boundary\<close>.\<close>

function chunk_end :: "bool list \<Rightarrow> int \<Rightarrow> int \<Rightarrow> int option" where
  "chunk_end change dlen end =
     (if end < dlen then do { b \<leftarrow> idx change end; if b then chunk_end change dlen (end + 1) else Some end }
      else Some end)"
  by pat_completeness auto
termination by (relation "measure (\<lambda>(change, dlen, end). nat (dlen - end))") auto

function shift_up_max :: "int list \<Rightarrow> bool list \<Rightarrow> int \<Rightarrow> int \<Rightarrow> int \<Rightarrow> int option" where
  "shift_up_max data change start end up =
     (if start - up - 1 \<ge> 0 then
        do { b \<leftarrow> idx change (start - up - 1);
             if b then Some up
             else do { x \<leftarrow> idx data (start - up - 1); y \<leftarrow> idx data (end - up - 1);
                       if x = y then shift_up_max data change start end (up + 1) else Some up } }
      else Some up)"
  by pat_completeness auto
termination by (relation "measure (\<lambda>(data, change, start, end, up). nat (start - up))") auto

function shift_down_max :: "int list \<Rightarrow> bool list \<Rightarrow> int \<Rightarrow> int \<Rightarrow> int \<Rightarrow> int option" where
  "shift_down_max data change start end down =
     (if end + down < int (length data) then
        do { b \<leftarrow> idx change (end + down);
             if b then Some down
             else do { x \<leftarrow> idx data (end + down); y \<leftarrow> idx data (start + down);
                       if x = y then shift_down_max data change start end (down + 1) else Some down } }
      else Some down)"
  by pat_completeness auto
termination
  by (relation "measure (\<lambda>(data, change, start, end, down). nat (int (length data) - end - down))") auto

declare do_shift_boundary.simps [simp del] chunk_end.simps [simp del]
  shift_up_max.simps [simp del] shift_down_max.simps [simp del]

definition find_shift_boundary ::
  "int \<Rightarrow> int list \<Rightarrow> bool list \<Rightarrow> (int \<times> int \<times> int \<times> bool \<times> bool) option"
where
  "find_shift_boundary start data change =
     do { let dlen = int (length data);
          end \<leftarrow> chunk_end change dlen (start + 1);
          up \<leftarrow> shift_up_max data change start end 0;
          down \<leftarrow> shift_down_max data change start end 0;
          up_merge \<leftarrow> (if start - up = 0 then Some True else idx change (start - up - 1));
          down_merge \<leftarrow> (if end + down = dlen then Some True else idx change (end + down));
          Some (end, up, down, up_merge, down_merge) }"

text \<open>The scores; the characters are given by their code points.\<close>

definition rune_edge_score :: "int \<Rightarrow> int" where
  "rune_edge_score r =
     (if r \<in> {32, 9, 11, 12} then 100
      else if r \<in> {60, 62, 40, 41, 91, 93, 39, 34} then 40 else 0)"

definition rune_bouundary_score :: "int \<Rightarrow> int \<Rightarrow> int" where
  "rune_bouundary_score r1 r2 = rune_edge_score r1 + rune_edge_score r2"

text \<open>The loops of \<open>shift_boundaries\<close>: the next chunk, the start of a merged chunk, the best offset.\<close>

function next_chunk :: "bool list \<Rightarrow> int \<Rightarrow> int option" where
  "next_chunk change start =
     (if start < int (length change) then
        do { b \<leftarrow> idx change start; if b then Some start else next_chunk change (start + 1) }
      else Some start)"
  by pat_completeness auto
termination by (relation "measure (\<lambda>(change, start). nat (int (length change) - start))") auto

function merged_start :: "bool list \<Rightarrow> int \<Rightarrow> int option" where
  "merged_start change nstart =
     (if nstart - 1 \<ge> 0 then
        do { b \<leftarrow> idx change (nstart - 1); if b then merged_start change (nstart - 1) else Some nstart }
      else Some nstart)"
  by pat_completeness auto
termination by (relation "measure (\<lambda>(change, nstart). nat nstart)") auto

function best_offset :: "int list \<Rightarrow> (int \<Rightarrow> int \<Rightarrow> int) \<Rightarrow> int \<Rightarrow> int \<Rightarrow> int \<Rightarrow> int \<Rightarrow> int \<Rightarrow> int \<Rightarrow> int option"
where
  "best_offset data boundary_score start end i down offset best_score =
     (if i \<le> down then
        if i \<noteq> 0 then
          do { x \<leftarrow> idx data (start + i); y \<leftarrow> idx data (end + i - 1);
               let score = boundary_score x y;
               if score > best_score
               then best_offset data boundary_score start end (i + 1) down i score
               else best_offset data boundary_score start end (i + 1) down offset best_score }
        else best_offset data boundary_score start end (i + 1) down offset best_score
      else Some offset)"
  by pat_completeness auto
termination
  by (relation "measure (\<lambda>(data, boundary_score, start, end, i, down, offset, best_score). nat (down + 1 - i))") auto

declare next_chunk.simps [simp del] merged_start.simps [simp del] best_offset.simps [simp del]

text \<open>The body of the main loop for a chunk that starts at \<open>start\<close>: the new flags and position.\<close>

definition shift_chunk ::
  "int list \<Rightarrow> bool list \<Rightarrow> (int \<Rightarrow> int \<Rightarrow> int) option \<Rightarrow> int \<Rightarrow> (bool list \<times> int) option"
where
  "shift_chunk data change boundary_score start =
     do { (end, up, down, up_merge, down_merge) \<leftarrow> find_shift_boundary start data change;
          let (up, down) = (if start = 0 then (0, 0) else (up, down));
          if up > 0 \<and> up_merge then
            do { change \<leftarrow> do_shift_boundary start end (- up) change;
                 nstart \<leftarrow> merged_start change (start - up);
                 Some (change, if nstart > 0 then nstart else start) }
          else if down > 0 \<and> down_merge then
            do { change \<leftarrow> do_shift_boundary start end down change; Some (change, start + down) }
          else case boundary_score of
            Some score \<Rightarrow>
              if up > 0 \<or> down > 0 then
                do { x \<leftarrow> idx data start; y \<leftarrow> idx data (end - 1);
                     offset \<leftarrow> best_offset data score start end (- up) down 0 (score x y);
                     change \<leftarrow> (if offset \<noteq> 0 then do_shift_boundary start end offset change else Some change);
                     Some (change, if offset > 0 then end + offset else end) }
              else Some (change, end)
          | None \<Rightarrow> Some (change, end) }"

partial_function (option) shift_loop ::
  "int list \<Rightarrow> (int \<Rightarrow> int \<Rightarrow> int) option \<Rightarrow> bool list \<Rightarrow> int \<Rightarrow> bool list option"
where
  "shift_loop data boundary_score change start =
     (if start < int (length change) then
        do { start \<leftarrow> next_chunk change start;
             if start \<ge> int (length change) then Some change
             else do { (change, start) \<leftarrow> shift_chunk data change boundary_score start;
                       shift_loop data boundary_score change start } }
      else Some change)"

declare shift_loop.simps [code]

definition shift_boundaries :: "int list \<Rightarrow> bool list \<Rightarrow> (int \<Rightarrow> int \<Rightarrow> int) option \<Rightarrow> bool list option" where
  "shift_boundaries data change boundary_score = shift_loop data boundary_score change 0"


section \<open>Sliding a chunk\<close>

text \<open>The flags after the chunk \<open>s..e-1\<close> has moved so that it starts at \<open>t\<close>.\<close>

definition moved :: "bool list \<Rightarrow> nat \<Rightarrow> nat \<Rightarrow> nat \<Rightarrow> bool list" where
  "moved c s e t = map (\<lambda>i. if t \<le> i \<and> i < t + (e - s) then True
     else if min s t \<le> i \<and> i < max e (t + (e - s)) then False else c ! i) [0..<length c]"

definition is_chunk :: "bool list \<Rightarrow> nat \<Rightarrow> nat \<Rightarrow> bool" where
  "is_chunk c s e \<longleftrightarrow> s < e \<and> e \<le> length c \<and> (\<forall>i. s \<le> i \<and> i < e \<longrightarrow> c ! i)"

lemma length_moved [simp]: "length (moved c s e t) = length c"
  by (simp add: moved_def)

lemma nth_moved: "i < length c \<Longrightarrow> moved c s e t ! i =
    (if t \<le> i \<and> i < t + (e - s) then True
     else if min s t \<le> i \<and> i < max e (t + (e - s)) then False else c ! i)"
  by (simp add: moved_def)

lemma moved_same: "is_chunk c s e \<Longrightarrow> moved c s e s = c"
  by (rule nth_equalityI) (auto simp: nth_moved is_chunk_def)

lemma split_at_two:
  assumes "s < e" and "e < length xs"
  shows "xs = take s xs @ xs ! s # take (e - Suc s) (drop (Suc s) xs) @ xs ! e # drop (Suc e) xs"
proof -
  have "drop (Suc s) xs = take (e - Suc s) (drop (Suc s) xs) @ xs ! e # drop (Suc e) xs"
    using assms by (metis Suc_leI append_take_drop_id drop_drop Cons_nth_drop_Suc le_add_diff_inverse2)
  then show ?thesis using assms
    by (metis Cons_nth_drop_Suc append_take_drop_id order.strict_trans)
qed

lemma kept_swap:
  assumes "is_chunk c s e" and "e < length c" and "\<not> c ! e" and "length d = length c" and "d ! e = d ! s"
  shows "kept d (c[s := False, e := True]) = kept d c"
proof -
  have s: "s < e" "c ! s" using assms by (auto simp: is_chunk_def)
  define P Q where "P = take s c" and "Q = drop (Suc e) c"
  have "take (e - Suc s) (drop (Suc s) c) = replicate (e - Suc s) True"
    by (rule nth_equalityI) (use assms in \<open>auto simp: is_chunk_def\<close>)
  then have c: "c = P @ True # replicate (e - Suc s) True @ False # Q"
    using split_at_two [of s e c] assms s by (simp add: P_def Q_def)
  note d = split_at_two [of s e d]
  have lP: "length P = s" using s assms by (auto simp: P_def)
  have c': "c[s := False, e := True] = P @ False # replicate (e - Suc s) True @ True # Q"
    using s lP by (subst c) (auto simp: list_update_append split: nat.split)
  have k: "kept d (P @ a # replicate (e - Suc s) True @ b # Q) =
      kept (take s d) P @ (if a then [] else [d ! s]) @ (if b then [] else [d ! e]) @ kept (drop (Suc e) d) Q" for a b
    using assms s lP by (subst d) (auto simp: kept_append kept_True)
  show ?thesis unfolding c' by (subst c) (simp add: k assms(5))
qed

lemma kept_moved_down:
  assumes "is_chunk c s e" and "e < length c" and "\<not> c ! e" and "length d = length c" and "d ! e = d ! s"
  shows "moved c s e (Suc s) = c[s := False, e := True]" and "is_chunk (moved c s e (Suc s)) (Suc s) (Suc e)"
    and "kept d (moved c s e (Suc s)) = kept d c"
proof -
  show eq: "moved c s e (Suc s) = c[s := False, e := True]"
    by (rule nth_equalityI) (use assms in \<open>auto simp: nth_moved nth_list_update is_chunk_def\<close>)
  show "is_chunk (moved c s e (Suc s)) (Suc s) (Suc e)"
    using assms by (auto simp: is_chunk_def nth_moved)
  show "kept d (moved c s e (Suc s)) = kept d c" unfolding eq by (rule kept_swap) (use assms in auto)
qed

lemma kept_moved_up:
  assumes "is_chunk c (Suc s) (Suc e)" and "\<not> c ! s" and "length d = length c" and "d ! e = d ! s"
  shows "moved c (Suc s) (Suc e) s = c[s := True, e := False]" and "is_chunk (moved c (Suc s) (Suc e) s) s e"
    and "kept d (moved c (Suc s) (Suc e) s) = kept d c"
proof -
  show eq: "moved c (Suc s) (Suc e) s = c[s := True, e := False]"
    by (rule nth_equalityI) (use assms in \<open>auto simp: nth_moved nth_list_update is_chunk_def\<close>)
  show ch: "is_chunk (moved c (Suc s) (Suc e) s) s e"
    using assms by (auto simp: is_chunk_def nth_moved)
  have "c[s := True, e := False, s := False, e := True] = c"
    by (rule nth_equalityI) (use assms in \<open>auto simp: nth_list_update is_chunk_def\<close>)
  then show "kept d (moved c (Suc s) (Suc e) s) = kept d c"
    using kept_swap [OF ch, of d] assms by (auto simp: eq is_chunk_def nth_list_update)
qed

text \<open>A chunk can move down (up) by \<open>k\<close> where the elements it passes equal the ones it frees.\<close>

definition can_down :: "int list \<Rightarrow> bool list \<Rightarrow> nat \<Rightarrow> nat \<Rightarrow> nat \<Rightarrow> bool" where
  "can_down d c s e k \<longleftrightarrow> e + k \<le> length c \<and> (\<forall>j < k. \<not> c ! (e + j) \<and> d ! (e + j) = d ! (s + j))"

definition can_up :: "int list \<Rightarrow> bool list \<Rightarrow> nat \<Rightarrow> nat \<Rightarrow> nat \<Rightarrow> bool" where
  "can_up d c s e k \<longleftrightarrow> k \<le> s \<and> (\<forall>j < k. \<not> c ! (s - Suc j) \<and> d ! (e - Suc j) = d ! (s - Suc j))"

lemma do_shift_down:
  "is_chunk c s e \<Longrightarrow> can_down d c s e k \<Longrightarrow> length d = length c \<Longrightarrow>
   do_shift_boundary (int s) (int e) (int k) c = Some (moved c s e (s + k)) \<and>
   kept d (moved c s e (s + k)) = kept d c"
proof (induction k arbitrary: c s e)
  case 0
  then show ?case by (subst do_shift_boundary.simps) (simp add: moved_same)
next
  case (Suc k)
  have e: "e < length c" "\<not> c ! e" "d ! e = d ! s" "s < e"
    using Suc.prems by (fastforce simp: can_down_def is_chunk_def)+
  note m = kept_moved_down [OF Suc.prems(1) e(1,2) Suc.prems(3) e(3)]
  let ?c = "moved c s e (Suc s)"
  have "can_down d ?c (Suc s) (Suc e) k"
    unfolding can_down_def
  proof (intro conjI allI impI)
    show "Suc e + k \<le> length ?c" using Suc.prems(2) by (simp add: can_down_def)
    fix j assume j: "j < k"
    then have J: "\<not> c ! (e + Suc j) \<and> d ! (e + Suc j) = d ! (s + Suc j)" "e + Suc j < length c"
      using Suc.prems(2) unfolding can_down_def by (blast, simp)
    then show "\<not> ?c ! (Suc e + j)" using e by (simp add: nth_moved)
    show "d ! (Suc e + j) = d ! (Suc s + j)" using J by simp
  qed
  then have IH: "do_shift_boundary (int (Suc s)) (int (Suc e)) (int k) ?c = Some (moved ?c (Suc s) (Suc e) (Suc s + k)) \<and>
      kept d (moved ?c (Suc s) (Suc e) (Suc s + k)) = kept d ?c"
    by (rule Suc.IH [OF m(2)]) (simp_all add: Suc.prems(3))
  have mm: "moved ?c (Suc s) (Suc e) (Suc s + k) = moved c s e (s + Suc k)"
    by (rule nth_equalityI) (use Suc.prems e in \<open>auto simp: nth_moved is_chunk_def\<close>)
  have "upd c (int s) False = Some (c[s := False])" "upd (c[s := False]) (int e) True = Some ?c"
    using e by (simp_all add: upd_def m(1))
  then show ?case using IH m(3) mm
    by (subst do_shift_boundary.simps) (simp add: add.commute)
qed

lemma do_shift_up:
  "is_chunk c s e \<Longrightarrow> can_up d c s e k \<Longrightarrow> length d = length c \<Longrightarrow>
   do_shift_boundary (int s) (int e) (- int k) c = Some (moved c s e (s - k)) \<and>
   kept d (moved c s e (s - k)) = kept d c"
proof (induction k arbitrary: c s e)
  case 0
  then show ?case by (subst do_shift_boundary.simps) (simp add: moved_same)
next
  case (Suc k)
  obtain t f where s: "s = Suc t" and f: "e = Suc f"
    using Suc.prems by (cases s; cases e) (auto simp: can_up_def is_chunk_def)
  have e: "\<not> c ! t" "d ! f = d ! t" "t < f" "f < length c"
    using Suc.prems s f by (fastforce simp: can_up_def is_chunk_def)+
  note m = kept_moved_up [OF Suc.prems(1) [unfolded s f] e(1) Suc.prems(3) e(2), folded s f]
  let ?c = "moved c s e t"
  have "can_up d ?c t f k"
    unfolding can_up_def
  proof (intro conjI allI impI)
    show "k \<le> t" using Suc.prems(2) by (simp add: can_up_def s)
    fix j assume j: "j < k"
    then have J: "\<not> c ! (s - Suc (Suc j)) \<and> d ! (e - Suc (Suc j)) = d ! (s - Suc (Suc j))"
      using Suc.prems(2) unfolding can_up_def by blast
    then show "\<not> ?c ! (t - Suc j)" using e j \<open>k \<le> t\<close> s f by (simp add: nth_moved)
    show "d ! (f - Suc j) = d ! (t - Suc j)" using J s f by simp
  qed
  then have IH: "do_shift_boundary (int t) (int f) (- int k) ?c = Some (moved ?c t f (t - k)) \<and>
      kept d (moved ?c t f (t - k)) = kept d ?c"
    by (rule Suc.IH [OF m(2)]) (simp_all add: Suc.prems(3))
  have k: "k \<le> t" using Suc.prems(2) by (simp add: can_up_def s)
  have mm: "moved ?c t f (t - k) = moved c s e (s - Suc k)"
    by (rule nth_equalityI) (use Suc.prems e k s f in \<open>auto simp: nth_moved is_chunk_def\<close>)
  have p: "int s - 1 = int t" "int e - 1 = int f" using s f by simp_all
  have "upd c (int s - 1) True = Some (c[t := True])" "upd (c[t := True]) (int e - 1) False = Some ?c"
    using e unfolding p m(1) by (simp_all add: upd_def)
  then show ?case using IH m(3) mm
    by (subst do_shift_boundary.simps) (simp add: p)
qed

section \<open>The limits of a move\<close>

lemma chunk_end_spec:
  "n = length c \<Longrightarrow> e \<le> n \<Longrightarrow>
   \<exists>f. chunk_end c (int n) (int e) = Some (int f) \<and> e \<le> f \<and> f \<le> n \<and>
     (\<forall>i. e \<le> i \<and> i < f \<longrightarrow> c ! i) \<and> (f < n \<longrightarrow> \<not> c ! f)"
proof (induction "n - e" arbitrary: e)
  case 0
  then show ?case by (subst chunk_end.simps) (auto intro!: exI [of _ e])
next
  case (Suc m)
  then have e: "e < n" and m: "m = n - Suc e" by simp_all
  show ?case
  proof (cases "c ! e")
    case True
    obtain f where f: "chunk_end c (int n) (int (Suc e)) = Some (int f)" "Suc e \<le> f" "f \<le> n"
      "\<forall>i. Suc e \<le> i \<and> i < f \<longrightarrow> c ! i" "f < n \<longrightarrow> \<not> c ! f"
      using Suc.hyps(1) [OF m] Suc.prems e by auto
    have "\<forall>i. e \<le> i \<and> i < f \<longrightarrow> c ! i" using f(4) True by (metis Suc_leI le_neq_implies_less)
    then show ?thesis using f e True Suc.prems
      by (subst chunk_end.simps) (auto simp: idx_nat add.commute intro!: exI [of _ f])
  next
    case False
    then show ?thesis using e Suc.prems
      by (subst chunk_end.simps) (auto simp: idx_nat intro!: exI [of _ e])
  qed
qed

lemma shift_up_max_spec:
  "can_up d c s e u \<Longrightarrow> s < e \<Longrightarrow> e \<le> length c \<Longrightarrow> length d = length c \<Longrightarrow>
   \<exists>k. shift_up_max d c (int s) (int e) (int u) = Some (int k) \<and> can_up d c s e k"
proof (induction "s - u" arbitrary: u)
  case 0
  then show ?case by (subst shift_up_max.simps) (auto simp: can_up_def)
next
  case (Suc m)
  have m: "m = s - Suc u" using Suc.hyps(2) by simp
  have i: "int s - int u - 1 = int (s - Suc u)" "int e - int u - 1 = int (e - Suc u)"
    "int u + 1 = int (Suc u)"
    using Suc.hyps(2) Suc.prems(2) by auto
  have l: "s - Suc u < length c" "e - Suc u < length c" "Suc u \<le> s" using Suc.hyps(2) Suc.prems by auto
  show ?case
  proof (cases "\<not> c ! (s - Suc u) \<and> d ! (s - Suc u) = d ! (e - Suc u)")
    case True
    then have "can_up d c s e (Suc u)"
      using Suc.prems(1) l by (auto simp: can_up_def less_Suc_eq)
    then obtain k where "shift_up_max d c (int s) (int e) (int (Suc u)) = Some (int k)" "can_up d c s e k"
      using Suc.hyps(1) [OF m] Suc.prems by auto
    then show ?thesis using True l Suc.prems
      by (subst shift_up_max.simps, unfold i) (auto simp: idx_nat simp del: of_nat_Suc of_nat_diff)
  next
    case False
    then show ?thesis using l Suc.prems by (subst shift_up_max.simps, unfold i) (auto simp: idx_nat simp del: of_nat_diff)
  qed
qed

lemma shift_down_max_spec:
  "can_down d c s e u \<Longrightarrow> s < e \<Longrightarrow> length d = length c \<Longrightarrow>
   \<exists>k. shift_down_max d c (int s) (int e) (int u) = Some (int k) \<and> can_down d c s e k"
proof (induction "length c - (e + u)" arbitrary: u)
  case 0
  then show ?case by (subst shift_down_max.simps) (auto simp: can_down_def)
next
  case (Suc m)
  have m: "m = length c - (e + Suc u)" using Suc.hyps(2) by simp
  have i: "int e + int u = int (e + u)" "int s + int u = int (s + u)" by simp_all
  have l: "e + u < length c" "s + u < length c" using Suc.hyps(2) Suc.prems by auto
  show ?case
  proof (cases "\<not> c ! (e + u) \<and> d ! (e + u) = d ! (s + u)")
    case True
    then have "can_down d c s e (Suc u)"
      using Suc.prems(1) l by (auto simp: can_down_def less_Suc_eq)
    then obtain k where "shift_down_max d c (int s) (int e) (int (Suc u)) = Some (int k)" "can_down d c s e k"
      using Suc.hyps(1) [OF m] Suc.prems by auto
    then show ?thesis using True l Suc.prems
      by (subst shift_down_max.simps) (auto simp: i idx_nat add.commute simp del: of_nat_add)
  next
    case False
    then show ?thesis using l Suc.prems
      by (subst shift_down_max.simps) (auto simp: i idx_nat simp del: of_nat_add)
  qed
qed

lemma can_up_mono: "can_up d c s e k \<Longrightarrow> j \<le> k \<Longrightarrow> can_up d c s e j"
  and can_down_mono: "can_down d c s e k \<Longrightarrow> j \<le> k \<Longrightarrow> can_down d c s e j"
  by (auto simp: can_up_def can_down_def)

lemma find_shift_boundary_Some:
  assumes "s < length c" and "c ! s" and "length d = length c"
  obtains e up down where
    "find_shift_boundary (int s) d c =
      Some (int e, int up, int down, up = s \<or> c ! (s - up - 1), e + down = length c \<or> c ! (e + down))"
    and "is_chunk c s e" and "e < length c \<Longrightarrow> \<not> c ! e" and "can_up d c s e up" and "can_down d c s e down"
proof -
  obtain e where e: "chunk_end c (int (length c)) (int (Suc s)) = Some (int e)" "Suc s \<le> e" "e \<le> length c"
    "\<forall>i. Suc s \<le> i \<and> i < e \<longrightarrow> c ! i" "e < length c \<longrightarrow> \<not> c ! e"
    using chunk_end_spec [of "length c" c "Suc s"] assms by auto
  have "c ! i" if "s \<le> i" "i < e" for i using that e(4) assms(2) by (cases "i = s") auto
  then have ch: "is_chunk c s e" using e by (auto simp: is_chunk_def)
  obtain up where up: "shift_up_max d c (int s) (int e) 0 = Some (int up)" "can_up d c s e up"
    using shift_up_max_spec [of d c s e 0] e assms(3) by (auto simp: can_up_def)
  obtain down where down: "shift_down_max d c (int s) (int e) 0 = Some (int down)" "can_down d c s e down"
    using shift_down_max_spec [of d c s e 0] e assms(3) by (auto simp: can_down_def)
  have "idx c (int s - int up - 1) = Some (c ! (s - up - 1))" if "up \<noteq> s"
  proof -
    have "int s - int up - 1 = int (s - up - 1)" using that up(2) by (auto simp: can_up_def)
    moreover have "s - up - 1 < length c" using assms(1) by simp
    ultimately show ?thesis by (simp only: idx_nat)
  qed
  moreover have "idx c (int e + int down) = Some (c ! (e + down))" if "e + down \<noteq> length c"
    using idx_nat [of "e + down" c] that down(2) by (simp add: can_down_def)
  ultimately have "find_shift_boundary (int s) d c =
      Some (int e, int up, int down, up = s \<or> c ! (s - up - 1), e + down = length c \<or> c ! (e + down))"
    using e(1) up(1) down(1) assms(3) up(2)
    by (auto simp: find_shift_boundary_def add.commute [of 1] simp flip: of_nat_add)
  then show thesis by (rule that [OF _ ch _ up(2) down(2)]) (simp add: e(5))
qed


lemma merged_start_spec:
  "t \<le> length c \<Longrightarrow> \<exists>r. merged_start c (int t) = Some (int r) \<and> r \<le> t \<and>
     (\<forall>i. r \<le> i \<and> i < t \<longrightarrow> c ! i) \<and> (r = 0 \<or> \<not> c ! (r - 1))"
proof (induction t)
  case 0
  then show ?case by (subst merged_start.simps) auto
next
  case (Suc t)
  show ?case
  proof (cases "c ! t")
    case True
    obtain r where r: "merged_start c (int t) = Some (int r)" "r \<le> t"
      "\<forall>i. r \<le> i \<and> i < t \<longrightarrow> c ! i" "r = 0 \<or> \<not> c ! (r - 1)" using Suc by auto
    then have "\<forall>i. r \<le> i \<and> i < Suc t \<longrightarrow> c ! i" using True by (auto simp: less_Suc_eq)
    then show ?thesis using r True Suc.prems
      by (subst merged_start.simps) (auto simp: idx_nat intro!: exI [of _ r])
  next
    case False
    then show ?thesis using Suc.prems
      by (subst merged_start.simps) (auto simp: idx_nat intro!: exI [of _ "Suc t"])
  qed
qed

lemma next_chunk_spec:
  "s \<le> length c \<Longrightarrow> \<exists>f. next_chunk c (int s) = Some (int f) \<and> s \<le> f \<and> f \<le> length c \<and>
     (\<forall>i. s \<le> i \<and> i < f \<longrightarrow> \<not> c ! i) \<and> (f < length c \<longrightarrow> c ! f)"
proof (induction "length c - s" arbitrary: s)
  case 0
  then show ?case by (subst next_chunk.simps) auto
next
  case (Suc m)
  then have s: "s < length c" and m: "m = length c - Suc s" by simp_all
  show ?case
  proof (cases "c ! s")
    case False
    obtain f where f: "next_chunk c (int (Suc s)) = Some (int f)" "Suc s \<le> f" "f \<le> length c"
      "\<forall>i. Suc s \<le> i \<and> i < f \<longrightarrow> \<not> c ! i" "f < length c \<longrightarrow> c ! f"
      using Suc.hyps(1) [OF m] s by auto
    have "\<not> c ! i" if "s \<le> i" "i < f" for i using that f(4) False by (cases "i = s") auto
    then show ?thesis using f s False
      by (subst next_chunk.simps) (auto simp: idx_nat add.commute intro!: exI [of _ f])
  next
    case True
    then show ?thesis using s by (subst next_chunk.simps) (auto simp: idx_nat intro!: exI [of _ s])
  qed
qed

lemma best_offset_spec:
  "0 \<le> s + i \<Longrightarrow> s < e \<Longrightarrow> e + k \<le> int (length d) \<Longrightarrow>
   \<exists>r. best_offset d f s e i k off best = Some r \<and> (r = off \<or> i \<le> r \<and> r \<le> k)"
proof (induction "nat (k + 1 - i)" arbitrary: i off best)
  case 0
  then show ?case by (subst best_offset.simps) simp
next
  case (Suc m)
  have i: "i \<le> k" and m: "m = nat (k + 1 - (i + 1))" using Suc.hyps(2) by auto
  have x: "idx d (s + i) = Some (d ! nat (s + i))" "idx d (e + i - 1) = Some (d ! nat (e + i - 1))"
    using i Suc.prems by (simp_all add: idx_def)
  have IH: "\<exists>r. best_offset d f s e (i + 1) k o' b' = Some r \<and> (r = o' \<or> i + 1 \<le> r \<and> r \<le> k)" for o' b'
    using Suc.hyps(1) [OF m, of o' b'] Suc.prems by auto
  let ?b = "f (d ! nat (s + i)) (d ! nat (e + i - 1))"
  show ?case using IH [of off best] IH [of i ?b] i
    by (subst best_offset.simps) (auto simp: x Let_def; force)
qed

section \<open>Progress\<close>

text \<open>
  The chunks that begin after position 0; the current position \<open>s\<close> counts as a beginning when
  it is marked.
\<close>

definition begins :: "bool list \<Rightarrow> nat \<Rightarrow> nat set" where
  "begins c s = {i. 0 < i \<and> i < length c \<and> c ! i \<and> (c ! (i - 1) \<longrightarrow> i = s)}"

lemma finite_begins [simp]: "finite (begins c s)"
  by (rule finite_subset [of _ "{..<length c}"]) (auto simp: begins_def)

lemma begins_moved:
  assumes ch: "is_chunk c s e" and e: "e < length c \<Longrightarrow> \<not> c ! e"
    and s': "s' = t \<or> s' \<ge> length c \<or> \<not> moved c s e t ! s'"
  shows "begins (moved c s e t) s' \<subseteq> insert t (begins c s - {s})"
proof
  fix i assume "i \<in> begins (moved c s e t) s'"
  then have i: "0 < i" "i < length c" "moved c s e t ! i" "moved c s e t ! (i - 1) \<longrightarrow> i = s'"
    by (auto simp: begins_def)
  have se: "s < e" "e \<le> length c" using ch by (auto simp: is_chunk_def)
  let ?m = "max e (t + (e - s))"
  show "i \<in> insert t (begins c s - {s})"
  proof (cases "i = t")
    case False
    then have prev: "\<not> moved c s e t ! (i - 1)" using i s' by auto
    have m: "moved c s e t ! j = (if t \<le> j \<and> j < t + (e - s) then True
        else if min s t \<le> j \<and> j < ?m then False else c ! j)" if "j \<le> i" for j
      using that i(2) by (simp add: nth_moved)
    have frame: "moved c s e t ! j = c ! j" if "j < min s t \<or> ?m \<le> j" "j \<le> i" for j
      using that m [of j] se by auto
    consider "i < min s t" | "?m < i" | "i = ?m" | "min s t \<le> i" "i < ?m" by linarith
    then show ?thesis
    proof cases
      case 1
      then have "i < s" "moved c s e t ! i = c ! i" "moved c s e t ! (i - 1) = c ! (i - 1)"
        by (auto intro!: frame)
      then show ?thesis using i prev by (simp add: begins_def)
    next
      case 2
      then have "s < i" "moved c s e t ! i = c ! i" "moved c s e t ! (i - 1) = c ! (i - 1)"
        using se by (auto intro!: frame)
      then show ?thesis using i prev by (simp add: begins_def)
    next
      case 3
      then have "moved c s e t ! (i - 1) \<or> \<not> c ! i"
        using i(1,2) m [of "i - 1"] se e by (cases "t + (e - s) < e") (auto simp: max_def split: if_splits)
      then show ?thesis using prev i(3) m [of i] 3 by (auto split: if_splits)
    next
      case 4
      then have "t \<le> i - 1 \<and> i - 1 < t + (e - s)" using i(3) m [of i] False by (auto split: if_splits)
      then show ?thesis using prev m [of "i - 1"] by simp
    qed
  qed simp
qed

lemma card_begins_moved:
  assumes "is_chunk c s e" and "e < length c \<Longrightarrow> \<not> c ! e"
    and "s' = t \<or> s' \<ge> length c \<or> \<not> moved c s e t ! s'" and "s = 0 \<Longrightarrow> t = 0"
  shows "card (begins (moved c s e t) s') \<le> card (begins c s)"
proof (cases "s = 0")
  case True
  then have "begins (moved c s e t) s' \<subseteq> begins c s"
    using begins_moved [OF assms(1-3)] assms(4) by (auto simp: begins_def)
  then show ?thesis by (intro card_mono) simp_all
next
  case False
  then have "s \<in> begins c s" using assms(1) by (auto simp: begins_def is_chunk_def)
  then have "card (insert t (begins c s - {s})) \<le> card (begins c s)"
    by (metis card.remove card_insert_le_m1 finite_Diff finite_begins diff_Suc_1 zero_less_Suc le_refl)
  then show ?thesis
    using card_mono [OF _ begins_moved [OF assms(1-3)]] by (meson finite_begins finite_Diff finite_insert le_trans)
qed


text \<open>
  One turn of the loop, at a chunk that starts (or whose rest starts) at \<open>s\<close>: the flags stay
  valid, and either the number of beginnings drops, or it does not grow and the position
  advances, or the position stays and is now inside a chunk.
\<close>

definition inside :: "bool list \<Rightarrow> nat \<Rightarrow> bool" where
  "inside c s \<longleftrightarrow> 0 < s \<and> s < length c \<and> c ! s \<and> c ! (s - 1)"

definition advances :: "bool list \<Rightarrow> nat \<Rightarrow> bool list \<Rightarrow> nat \<Rightarrow> bool" where
  "advances c s c' s' \<longleftrightarrow> card (begins c' s') < card (begins c s) \<or>
     card (begins c' s') \<le> card (begins c s) \<and> (s < s' \<or> s' = s \<and> \<not> inside c s \<and> inside c' s)"

lemma merge_advances:
  assumes ch: "is_chunk c s e" and e: "e < length c \<Longrightarrow> \<not> c ! e" and t: "t < s"
    and free: "\<not> c ! (s - 1)" and merge: "t = 0 \<or> c ! (t - 1)"
    and r: "r \<le> t" "r = 0 \<or> \<not> moved c s e t ! (r - 1)"
    and s': "s' = (if 0 < r then r else s)"
  shows "advances c s (moved c s e t) s'"
proof -
  let ?c = "moved c s e t"
  have se: "s < e" "e \<le> length c" "c ! s" using ch by (auto simp: is_chunk_def)
  have prev: "t = 0 \<or> ?c ! (t - 1)" using merge t se by (auto simp: nth_moved)
  have "begins ?c (length c) \<subseteq> insert t (begins c s - {s})" by (rule begins_moved [OF ch e]) auto
  moreover have "t \<notin> begins ?c (length c)" using prev t se by (auto simp: begins_def)
  ultimately have sub: "begins ?c (length c) \<subseteq> begins c s - {s}" by auto
  have s_in: "s \<in> begins c s" using se t by (auto simp: begins_def)
  show ?thesis
  proof (cases "s' \<in> begins ?c s' \<and> inside ?c s'")
    case False
    then have "begins ?c s' \<subseteq> begins ?c (length c)" by (auto simp: begins_def inside_def)
    then have "begins ?c s' \<subset> begins c s" using sub s_in by auto
    then show ?thesis unfolding advances_def by (simp add: psubset_card_mono)
  next
    case True
    then have "r = 0" using r s' by (auto simp: inside_def split: if_splits)
    then have s: "s' = s" using s' by simp
    have "begins ?c s \<subseteq> insert s (begins ?c (length c))" by (auto simp: begins_def)
    then have "card (begins ?c s) \<le> card (begins c s)" using sub s_in by (intro card_mono) auto
    then show ?thesis using True free unfolding advances_def s by (auto simp: inside_def)
  qed
qed

lemma shift_chunk_Some:
  assumes s: "s < length c" "c ! s" and d: "length d = length c"
  obtains c' s' where "shift_chunk d c score (int s) = Some (c', int s')" and "length c' = length c"
    and "s' \<le> length c" and "kept d c' = kept d c" and "advances c s c' s'"
proof -
  obtain e up0 down0 where f: "find_shift_boundary (int s) d c =
      Some (int e, int up0, int down0, up0 = s \<or> c ! (s - up0 - 1), e + down0 = length c \<or> c ! (e + down0))"
    and ch: "is_chunk c s e" and e: "e < length c \<Longrightarrow> \<not> c ! e"
    and up0: "can_up d c s e up0" and down0: "can_down d c s e down0"
    using find_shift_boundary_Some [OF s d] by blast
  define up down where "up = (if s = 0 then 0 else up0)" and "down = (if s = 0 then 0 else down0)"
  have up: "can_up d c s e up" and down: "can_down d c s e down"
    using up0 down0 by (auto simp: up_def down_def can_up_def can_down_def)
  have se: "s < e" "e \<le> length c" using ch by (auto simp: is_chunk_def)
  have u: "up \<le> s" "e + down \<le> length c" using up down by (auto simp: can_up_def can_down_def)
  let ?um = "up0 = s \<or> c ! (s - up0 - 1)" and ?dm = "e + down0 = length c \<or> c ! (e + down0)"
  have stay: "advances c s (moved c s e t) s'" if "s < s'" "s' = t \<or> s' \<ge> length c \<or> \<not> moved c s e t ! s'" "s = 0 \<Longrightarrow> t = 0" for t s'
    using card_begins_moved [OF ch e that(2,3)] that(1) by (simp add: advances_def)
  have "e \<ge> length c \<or> \<not> c ! e" using e by fastforce
  then have same: "advances c s c e" using stay [of e s] se moved_same [OF ch] by simp
  have sc: "shift_chunk d c score (int s) =
     (if 0 < up \<and> ?um then
        do { change \<leftarrow> do_shift_boundary (int s) (int e) (- int up) c;
             nstart \<leftarrow> merged_start change (int s - int up);
             Some (change, if nstart > 0 then nstart else int s) }
      else if 0 < down \<and> ?dm then
        do { change \<leftarrow> do_shift_boundary (int s) (int e) (int down) c; Some (change, int s + int down) }
      else case score of
        Some score \<Rightarrow>
          if 0 < up \<or> 0 < down then
            do { x \<leftarrow> idx d (int s); y \<leftarrow> idx d (int e - 1);
                 offset \<leftarrow> best_offset d score (int s) (int e) (- int up) (int down) 0 (score x y);
                 change \<leftarrow> (if offset \<noteq> 0 then do_shift_boundary (int s) (int e) offset c else Some c);
                 Some (change, if offset > 0 then int e + offset else int e) }
          else Some (c, int e)
      | None \<Rightarrow> Some (c, int e))"
  proof -
    have pair: "(if int s = 0 then (0, 0) else (int up0, int down0)) = (int up, int down)"
      by (simp add: up_def down_def)
    show ?thesis
      by (simp only: shift_chunk_def f bind.bind_lunit prod.case Let_def pair of_nat_0_less_iff)
  qed
  consider (up) "0 < up" ?um | (down) "\<not> (0 < up \<and> ?um)" "0 < down" ?dm
    | (score) sf where "\<not> (0 < up \<and> ?um)" "\<not> (0 < down \<and> ?dm)" "score = Some sf" "0 < up \<or> 0 < down"
    | (none) "\<not> (0 < up \<and> ?um)" "\<not> (0 < down \<and> ?dm)" "score = None \<or> \<not> (0 < up \<or> 0 < down)"
    by (cases score) blast+
  then show thesis
  proof cases
    case up
    note m = do_shift_up [OF ch \<open>can_up d c s e up\<close> d]
    let ?c = "moved c s e (s - up)"
    obtain r where r: "merged_start ?c (int (s - up)) = Some (int r)" "r \<le> s - up" "r = 0 \<or> \<not> ?c ! (r - 1)"
      using merged_start_spec [of "s - up" ?c] s(1) by (auto simp: le_diff_conv)
    have i: "int s - int up = int (s - up)" using u by simp
    have "\<not> c ! (s - Suc 0)" using up \<open>can_up d c s e up\<close> by (simp add: can_up_def)
    then have "advances c s ?c (if 0 < r then r else s)"
      using up u r by (intro merge_advances [OF ch e, of _ r]) (auto simp: up_def split: if_splits)
    moreover have "shift_chunk d c score (int s) = Some (?c, int (if 0 < r then r else s))"
      unfolding sc using up m r(1) by (simp add: i)
    ultimately show thesis using m r(2) s(1) by (intro that) auto
  next
    case down
    note m = do_shift_down [OF ch \<open>can_down d c s e down\<close> d]
    have "shift_chunk d c score (int s) = Some (moved c s e (s + down), int (s + down))"
      unfolding sc using down m by auto
    then show thesis using m u se down by (elim that) (auto simp: down_def intro!: stay)
  next
    case score
    obtain off where off: "best_offset d sf (int s) (int e) (- int up) (int down) 0 (sf (d ! s) (d ! (e - 1))) = Some off"
      "- int up \<le> off" "off \<le> int down"
      using best_offset_spec [of "int s" "- int up" "int e" "int down" d sf 0 "sf (d ! s) (d ! (e - 1))"] u se d
      by auto
    have x: "idx d (int s) = Some (d ! s)" "idx d (int e - 1) = Some (d ! (e - 1))"
      using se d by (simp_all add: idx_def nat_diff_distrib)
    have s0: "s \<noteq> 0" using score(4) by (auto simp: up_def down_def split: if_splits)
    consider "off = 0" | k where "off = - int k" "0 < k" "k \<le> up" | k where "off = int k" "0 < k" "k \<le> down"
    proof (cases "off < 0")
      case True
      then show ?thesis using off that(2) [of "nat (- off)"] by auto
    next
      case False
      then show ?thesis using off that(1) that(3) [of "nat off"] by (cases "off = 0") auto
    qed
    then show thesis
    proof cases
      case 1
      then have "shift_chunk d c score (int s) = Some (c, int e)"
        unfolding sc using score x off(1) by auto
      then show thesis using se same by (elim that) auto
    next
      case 2
      note m = do_shift_up [OF ch can_up_mono [OF up 2(3)] d]
      have "shift_chunk d c score (int s) = Some (moved c s e (s - k), int e)"
        unfolding sc using score x off(1) m 2 by auto
      moreover have "e \<ge> length c \<or> \<not> moved c s e (s - k) ! e" using e se by (auto simp: nth_moved split: if_splits)
      then have "advances c s (moved c s e (s - k)) e" using se s0 by (intro stay) simp_all
      ultimately show thesis using m se by (elim that) simp_all
    next
      case 3
      note m = do_shift_down [OF ch can_down_mono [OF down 3(3)] d]
      have "shift_chunk d c score (int s) = Some (moved c s e (s + k), int (e + k))"
        unfolding sc using score x off(1) m 3 by auto
      moreover have "e + k \<ge> length c \<or> \<not> moved c s e (s + k) ! (e + k)"
      proof (cases "k = down")
        case True
        then show ?thesis using score(2) 3 se s0 by (auto simp: nth_moved down_def)
      next
        case False
        then have "\<not> c ! (e + k)" using down 3 by (simp add: can_down_def)
        then show ?thesis using se by (auto simp: nth_moved)
      qed
      then have "advances c s (moved c s e (s + k)) (e + k)" using se s0 by (intro stay) simp_all
      ultimately show thesis using m u 3 by (elim that) simp_all
    qed
  next
    case none
    then have "shift_chunk d c score (int s) = Some (c, int e)" unfolding sc by (auto split: option.split)
    then show thesis using se same by (elim that) auto
  qed
qed

lemma advances_skip:
  assumes "\<forall>i. s \<le> i \<and> i < f \<longrightarrow> \<not> c ! i" and "s < f" and "f < length c"
  shows "begins c s = begins c f" and "\<not> inside c f"
proof -
  have "\<not> c ! s" "\<not> c ! (f - 1)" using assms by auto
  then show "begins c s = begins c f" "\<not> inside c f" by (auto simp: begins_def inside_def)
qed

lemma shift_loop_Some:
  "length d = length c \<Longrightarrow> s \<le> length c \<Longrightarrow>
   \<exists>c'. shift_loop d score c (int s) = Some c' \<and> length c' = length c \<and> kept d c' = kept d c"
proof (induction "(c, s)" arbitrary: c s rule: wf_induct_rule [OF wf_measures
    [of "[\<lambda>(c, s). card (begins c s), \<lambda>(c, s). length c - s, \<lambda>(c, s). if inside c s then 0 else 1]"]])
  case (1 c s)
  obtain f where f: "next_chunk c (int s) = Some (int f)" "s \<le> f" "f \<le> length c"
    "\<forall>i. s \<le> i \<and> i < f \<longrightarrow> \<not> c ! i" "f < length c \<longrightarrow> c ! f" using next_chunk_spec "1.prems" by blast
  show ?case
  proof (cases "f < length c")
    case False
    then show ?thesis using f by (subst shift_loop.simps) auto
  next
    case True
    then obtain c' s' where sc: "shift_chunk d c score (int f) = Some (c', int s')" "length c' = length c"
      "s' \<le> length c" "kept d c' = kept d c" and adv: "advances c f c' s'"
      using shift_chunk_Some [of f c d score] f(5) "1.prems"(1) by blast
    have "((c', s'), (c, s)) \<in> measures [\<lambda>(c, s). card (begins c s), \<lambda>(c, s). length c - s,
        \<lambda>(c, s). if inside c s then 0 else 1]"
    proof (cases "s = f")
      case True
      then show ?thesis using adv sc(2,3) \<open>f < length c\<close> by (auto simp: advances_def)
    next
      case False
      then have "s < f" using f(2) by simp
      then show ?thesis using advances_skip [OF f(4) \<open>s < f\<close> True] adv sc(2,3) True by (auto simp: advances_def)
    qed
    from "1.hyps" [OF this] sc "1.prems" obtain c'' where
      "shift_loop d score c' (int s') = Some c''" "length c'' = length c" "kept d c'' = kept d c" by auto
    then show ?thesis using sc f True by (subst shift_loop.simps) auto
  qed
qed

lemma shift_boundaries_Some:
  "length c = length d \<Longrightarrow>
   \<exists>c'. shift_boundaries d c score = Some c' \<and> length c' = length c \<and> kept d c' = kept d c"
  using shift_loop_Some [of d c 0 score] by (simp add: shift_boundaries_def)

text \<open>
  C7. Shifting the boundaries is total and keeps the diff valid. For any data, flags of the same
  length and score function (or none), \<open>shift_boundaries\<close> ends without an index out of range,
  and the unmarked elements are the ones that were unmarked before, in the same order.
\<close>

theorem shift_boundaries_correct:
  assumes "length change = length data"
  shows "\<exists>change'. shift_boundaries data change score = Some change' \<and>
    length change' = length change \<and> kept data change' = kept data change"
  by (rule shift_boundaries_Some [OF assms])

theorem shift_boundaries_correct_witness:
  "\<exists>change'. shift_boundaries [1, 2, 1, 2] [False, False, True, True] (Some rune_bouundary_score) = Some change' \<and>
    length change' = 4 \<and> kept [1, 2, 1, 2 :: int] change' = [1, 2]"
  using shift_boundaries_correct [of "[False, False, True, True]" "[1, 2, 1, 2]" "Some rune_bouundary_score"]
  by (simp add: eval_nat_numeral)

end
