(* ===== verification/Xdiff_Html.thy ===== *)
theory Xdiff_Html
  imports Xdiff_Text Xdiff_Shift
begin

text \<open>
  The two HTML formats (\<open>diff_lines\<close> of \<open>DiffChangerUnifiedHtml\<close> and \<open>DiffChangerHtml\<close> in
  \<open>xdiff.go\<close>). Both fulfil the contract \<open>group_printer\<close>.

  Shown of the side-by-side format, for every group in range: nothing panics, all tags are closed, the left
  column shows the numbered lines of the first file, the right one those of the second, and both columns have the
  same number of rows for each operation. Lines that are modified are shown whole, however their
  changes are marked.
\<close>

section \<open>The code\<close>

definition unified_html_op :: "DiffChangerData \<Rightarrow> DiffOp \<Rightarrow> bytes \<Rightarrow> bytes option" where
  "unified_html_op chg v buf =
     (let w = lineno_width chg in
      if op v = DIFF_OP_INSERT then
        do { ls \<leftarrow> slice (file2 chg) (start2 v) (end2 v);
             Some (write_html_lines_unified buf ''add'' ''+'' ls (-1) (start2 v) w) }
      else if op v = DIFF_OP_REMOVE then
        do { ls \<leftarrow> slice (file1 chg) (start1 v) (end1 v);
             Some (write_html_lines_unified buf ''del'' ''-'' ls (start1 v) (-1) w) }
      else if op v = DIFF_OP_MODIFY then
        do { ls \<leftarrow> slice (file1 chg) (start1 v) (end1 v);
             let buf = write_html_lines_unified buf ''del'' ''-'' ls (start1 v) (-1) w;
             ls \<leftarrow> slice (file2 chg) (start2 v) (end2 v);
             Some (write_html_lines_unified buf ''add'' ''+'' ls (-1) (start2 v) w) }
      else
        do { ls \<leftarrow> slice (file1 chg) (start1 v) (end1 v);
             Some (write_html_lines_unified buf ''nop'' '' '' ls (start1 v) (start2 v) w) })"

definition diff_lines_UnifiedHtml :: "Flags \<Rightarrow> DiffOp list \<Rightarrow> changer_state \<Rightarrow> changer_state option" where
  "diff_lines_UnifiedHtml fl ops = (\<lambda>(chg, tr).
     do { let (chg, tr) = html_file_table_unified fl chg tr;
          let chg = chg\<lparr>buf1 := []\<rparr>;
          b \<leftarrow> fold_ops (unified_html_op chg) ops (buf1 chg);
          let chg = chg\<lparr>buf1 := b\<rparr>;
          Some (chg, tr @ [Write ''<tr><td class=\"ttd\">'', Write (buf1 chg), Write (''</td></tr>'' @ nl)]) })"

text \<open>The changes within a line; \<open>low\<close> is \<open>unicode.ToLower\<close>. \<open>do_diff\<close> never returns \<open>nil\<close>.\<close>

definition html_line_changes ::
  "Flags \<Rightarrow> (nat \<Rightarrow> nat) \<Rightarrow> bytes \<Rightarrow> bytes \<Rightarrow> bytes \<times> bytes \<Rightarrow> (bytes \<times> bytes) option"
where
  "html_line_changes fl low line1 line2 = (\<lambda>(b1, b2).
     do { let (pos1, cmp1) = split_runes fl low line1;
          let (pos2, cmp2) = split_runes fl low line2;
          (change1, change2) \<leftarrow> do_diff cmp1 cmp2;
          change1 \<leftarrow> shift_boundaries cmp1 change1 (Some rune_bouundary_score);
          change2 \<leftarrow> shift_boundaries cmp2 change2 (Some rune_bouundary_score);
          b1 \<leftarrow> write_html_line_change b1 line1 pos1 change1;
          b2 \<leftarrow> write_html_line_change b2 line2 pos2 change2;
          Some (b1, b2) })"

function html_modified ::
  "Flags \<Rightarrow> (nat \<Rightarrow> nat) \<Rightarrow> DiffChangerData \<Rightarrow> DiffOp \<Rightarrow> int \<Rightarrow> int \<Rightarrow> bytes \<times> bytes \<Rightarrow>
    (int \<times> int \<times> bytes \<times> bytes) option"
where
  "html_modified fl low chg v s1 s2 (b1, b2) =
     (if s1 < end1 v \<and> s2 < end2 v then
        do { let b1 = write_html_lineno b1 (s1 + 1) (lineno_width chg);
             let b2 = write_html_lineno b2 (s2 + 1) (lineno_width chg);
             line1 \<leftarrow> idx (file1 chg) s1;
             line2 \<leftarrow> idx (file2 chg) s2;
             (b1, b2) \<leftarrow>
               (if suppress_line_changes fl then Some (write_html_bytes b1 line1, write_html_bytes b2 line2)
                else html_line_changes fl low line1 line2 (b1, b2));
             html_modified fl low chg v (s1 + 1) (s2 + 1) (b1 @ nl, b2 @ nl) }
      else Some (s1, s2, b1, b2))"
  by pat_completeness auto
termination by (relation "measure (\<lambda>(fl, low, chg, v, s1, s2, b). nat (end1 v - s1))") auto

declare html_modified.simps [simp del]

definition html_op ::
  "Flags \<Rightarrow> (nat \<Rightarrow> nat) \<Rightarrow> DiffChangerData \<Rightarrow> DiffOp \<Rightarrow> bytes \<times> bytes \<Rightarrow> (bytes \<times> bytes) option"
where
  "html_op fl low chg v = (\<lambda>(b1, b2).
     let w = lineno_width chg in
     if op v = DIFF_OP_INSERT then
       do { let b1 = write_html_blanks b1 (end2 v - start2 v);
            ls \<leftarrow> slice (file2 chg) (start2 v) (end2 v);
            Some (b1, write_html_lines b2 ''add'' ls (start2 v) w) }
     else if op v = DIFF_OP_REMOVE then
       do { ls \<leftarrow> slice (file1 chg) (start1 v) (end1 v);
            let b1 = write_html_lines b1 ''del'' ls (start1 v) w;
            Some (b1, write_html_blanks b2 (end1 v - start1 v)) }
     else if op v = DIFF_OP_MODIFY then
       do { let b1 = b1 @ ''<span class=\"upd\">''; let b2 = b2 @ ''<span class=\"upd\">'';
            (s1, s2, b1, b2) \<leftarrow> html_modified fl low chg v (start1 v) (start2 v) (b1, b2);
            let b1 = b1 @ ''</span>''; let b2 = b2 @ ''</span>'';
            (b1, b2) \<leftarrow>
              (if s1 < end1 v then
                 do { ls \<leftarrow> slice (file1 chg) s1 (end1 v);
                      Some (write_html_lines b1 ''del'' ls s1 w, write_html_blanks b2 (end1 v - s1)) }
               else Some (b1, b2));
            if s2 < end2 v then
              do { let b1 = write_html_blanks b1 (end2 v - s2);
                   ls \<leftarrow> slice (file2 chg) s2 (end2 v);
                   Some (b1, write_html_lines b2 ''add'' ls s2 w) }
            else Some (b1, b2) }
     else
       do { let n1 = end1 v - start1 v; let n2 = end2 v - start2 v; let maxn = max n1 n2;
            b1 \<leftarrow> (if n1 > 0 then
                    do { ls \<leftarrow> slice (file1 chg) (start1 v) (end1 v);
                         Some (write_html_lines b1 ''nop'' ls (start1 v) w) }
                  else Some b1);
            let b1 = (if n1 < maxn then write_html_blanks b1 (maxn - n1) else b1);
            b2 \<leftarrow> (if n2 > 0 then
                    do { ls \<leftarrow> slice (file2 chg) (start2 v) (end2 v);
                         Some (write_html_lines b2 ''nop'' ls (start2 v) w) }
                  else Some b2);
            let b2 = (if n2 < maxn then write_html_blanks b2 (maxn - n2) else b2);
            Some (b1, b2) })"

definition diff_lines_Html :: "Flags \<Rightarrow> (nat \<Rightarrow> nat) \<Rightarrow> DiffOp list \<Rightarrow> changer_state \<Rightarrow> changer_state option" where
  "diff_lines_Html fl low ops = (\<lambda>(chg, tr).
     do { let (chg, tr) = html_file_table fl chg tr;
          let chg = chg\<lparr>buf1 := [], buf2 := []\<rparr>;
          (b1, b2) \<leftarrow> fold_ops (html_op fl low chg) ops (buf1 chg, buf2 chg);
          let chg = chg\<lparr>buf1 := b1, buf2 := b2\<rparr>;
          Some (chg, tr @ [Write ''<tr><td class=\"ttd\">'', Write (buf1 chg), Write ''</td><td class=\"ttd\">'',
                           Write (buf2 chg), Write (''</td></tr>'' @ nl)]) })"

section \<open>What is visible\<close>

lemma digit_chars: "\<forall>k \<in> set [0..<10]. char_of (48 + k :: nat) \<in> set ''0123456789''"
  by code_simp

lemma set_digits: "set (digits n) \<subseteq> set ''0123456789''"
proof (induction n rule: digits.induct)
  case (1 n)
  have d: "char_of (48 + k) \<in> set ''0123456789''" if "k < 10" for k :: nat
    using that digit_chars by (simp only: set_upt atLeastLessThan_iff) simp
  show ?case
  proof (cases "n < 10")
    case True
    then show ?thesis using d [of n] by (subst digits.simps) simp
  next
    case False
    then show ?thesis using 1 d [of "n mod 10"] by (subst digits.simps) simp
  qed
qed

lemma plain_itoa: "CHR ''<'' \<notin> set (itoa k)"
  using set_digits by (auto simp: itoa_def)

lemma plain_pad: "CHR ''<'' \<notin> set s \<Longrightarrow> CHR ''<'' \<notin> set (pad w s)"
  by (simp add: pad_def)

definition row :: "int \<Rightarrow> int \<Rightarrow> bytes \<Rightarrow> bytes" where
  "row w k line = pad w (itoa k) @ '' '' @ EscapeString line @ nl"

fun rows :: "int \<Rightarrow> int \<Rightarrow> bytes list \<Rightarrow> bytes" where
  "rows w k [] = []"
| "rows w k (line # rest) = row w (k + 1) line @ rows w (k + 1) rest"

definition blank_rows :: "int \<Rightarrow> bytes" where
  "blank_rows n = concat (replicate (nat n) ('' '' @ nl))"

lemma rows_append: "rows w k (xs @ ys) = rows w k xs @ rows w (k + int (length xs)) ys"
  by (induction xs arbitrary: k) (simp_all add: algebra_simps)

lemma shows_lineno:
  assumes "shows_html st buf t" and "0 < k"
  shows "shows_html st (write_html_lineno buf k w) (t @ pad w (itoa k) @ '' '')"
proof -
  have "shows_html (in_span ''lno'' # st) (((buf @ ''<span class=\"lno\">'') @ pad w (itoa k)) @ '' '') ((t @ pad w (itoa k)) @ '' '')"
    by (intro shows_html_str plain_pad plain_itoa shows_html_tag [OF assms(1)] reads_spans) simp
  from shows_html_tag [OF this reads_end_span] show ?thesis using assms(2) by (simp add: write_html_lineno_def)
qed

lemma shows_row:
  assumes "shows_html st buf t" and "0 < k"
  shows "shows_html st (write_html_bytes (write_html_lineno buf k w) line @ nl) (t @ row w k line)"
proof -
  have "shows_html st ((write_html_lineno buf k w @ EscapeString line) @ nl) (((t @ pad w (itoa k) @ '' '') @ EscapeString line) @ nl)"
    by (intro shows_html_str shows_html_escaped shows_lineno assms) (simp add: nl_def)
  then show ?thesis by (simp add: row_def)
qed

lemma shows_rows:
  "shows_html st buf t \<Longrightarrow> 0 \<le> k \<Longrightarrow> shows_html st (write_html_lines_from buf ls k w) (t @ rows w k ls)"
proof (induction ls arbitrary: buf t k)
  case (Cons line ls)
  have "shows_html st (write_html_bytes (write_html_lineno buf (k + 1) w) line @ nl) (t @ row w (k + 1) line)"
    using Cons.prems by (intro shows_row) simp_all
  from Cons.IH [OF this] Cons.prems show ?case by simp
qed simp


definition html_class :: "bytes \<Rightarrow> bool" where
  "html_class cls \<longleftrightarrow> cls \<in> {''add'', ''del'', ''nop''}"

lemma shows_open: "shows_html st buf t \<Longrightarrow> html_class cls \<Longrightarrow> shows_html (in_span cls # st) (buf @ ''<span class=\"'' @ cls @ ''\">'') t"
  by (rule shows_html_tag) (auto simp: html_class_def reads_spans)

lemma shows_close: "shows_html (in_span cls # st) buf t \<Longrightarrow> shows_html st (buf @ ''</span>'') t"
  by (rule shows_html_tag [OF _ reads_end_span])

lemma shows_html_lines:
  assumes "shows_html st buf t" and "0 \<le> k" and "html_class cls"
  shows "shows_html st (write_html_lines buf cls ls k w) (t @ rows w k ls)"
  unfolding write_html_lines_def append_assoc [symmetric, of _ _ "''</span>''"]
  by (rule shows_close [of cls]) (intro shows_rows shows_open assms)

lemma shows_blank_rows:
  "shows_html st buf t \<Longrightarrow>
   shows_html st (buf @ concat (replicate m (''<span class=\"lno\"> </span>'' @ nl))) (t @ concat (replicate m ('' '' @ nl)))"
proof (induction m arbitrary: buf t)
  case (Suc m)
  have "reads st (''<span class=\"lno\"> </span>'' @ nl) [(CHR '' '', in_span ''lno'' # st), (CHR 0x0A, st)] st"
    by (simp add: reads_def tag_step_def in_span_def nl_def)
  from Suc.IH [OF shows_html_reads [OF Suc.prems this]] show ?case by (simp add: nl_def)
qed simp

lemma shows_blanks:
  assumes "shows_html st buf t"
  shows "shows_html st (write_html_blanks buf n) (t @ blank_rows n)"
proof -
  have "shows_html (in_span ''nop'' # st) ((buf @ ''<span class=\"nop\">'') @ concat (replicate (nat n) (''<span class=\"lno\"> </span>'' @ nl)))
      (t @ blank_rows n)"
    unfolding blank_rows_def by (intro shows_blank_rows shows_html_tag [OF assms] reads_spans)
  from shows_close [OF this] show ?thesis by (simp add: write_html_blanks_def)
qed

lemma sl_Cons: "0 \<le> a \<Longrightarrow> a < b \<Longrightarrow> b \<le> int (length xs) \<Longrightarrow> sl xs a b = xs ! nat a # sl xs (a + 1) b"
proof -
  assume a: "0 \<le> a" "a < b" "b \<le> int (length xs)"
  then have "nat (b - a) = Suc (nat (b - (a + 1)))" "nat (a + 1) = Suc (nat a)" "nat a < length xs" by auto
  then show ?thesis by (simp add: sl_def Cons_nth_drop_Suc [symmetric] del: Cons_nth_drop_Suc)
qed

lemma sl_join: "0 \<le> a \<Longrightarrow> a \<le> b \<Longrightarrow> b \<le> c \<Longrightarrow> sl xs a b @ sl xs b c = sl xs a c"
proof -
  assume a: "0 \<le> a" "a \<le> b" "b \<le> c"
  then have n: "nat (c - a) = nat (b - a) + nat (c - b)" "nat b = nat (b - a) + nat a" by auto
  show ?thesis unfolding sl_def n take_add by (simp add: add.commute)
qed

lemma shows_marked:
  "shows_html st buf t \<Longrightarrow> reads st frag (marked st (chars_of line) cs) st \<Longrightarrow> length (chars_of line) = length cs \<Longrightarrow>
   shows_html st (buf @ frag) (t @ EscapeString line)"
  using shows_html_reads [of st buf t frag "marked st (chars_of line) cs" st] map_fst_marked [of "chars_of line" cs st]
  by (simp add: concat_chars_of)

lemma split_runes_chars: "split_runes fl low line = (pos, cmp) \<Longrightarrow> length (chars_of line) = length cmp"
  using split_runes_from_spec [of fl low 0 line pos cmp] by (simp add: split_runes_def length_chars_of)

lemma html_line_changes_Some:
  assumes "shows_html st b1 t1" and "shows_html st b2 t2"
  obtains b1' b2' where "html_line_changes fl low line1 line2 (b1, b2) = Some (b1', b2')"
    and "shows_html st b1' (t1 @ EscapeString line1)" and "shows_html st b2' (t2 @ EscapeString line2)"
proof -
  obtain pos1 cmp1 pos2 cmp2 where s: "split_runes fl low line1 = (pos1, cmp1)" "split_runes fl low line2 = (pos2, cmp2)"
    by fastforce
  obtain c1 c2 where d: "do_diff cmp1 cmp2 = Some (c1, c2)" "length c1 = length cmp1" "length c2 = length cmp2"
    using do_diff_Some by blast
  obtain c1' where c1: "shift_boundaries cmp1 c1 (Some rune_bouundary_score) = Some c1'" "length c1' = length cmp1"
    using shift_boundaries_Some [of c1 cmp1] d(2) by fastforce
  obtain c2' where c2: "shift_boundaries cmp2 c2 (Some rune_bouundary_score) = Some c2'" "length c2' = length cmp2"
    using shift_boundaries_Some [of c2 cmp2] d(3) by fastforce
  obtain b1' where b1: "write_html_line_change b1 line1 pos1 c1' = Some b1'" "shows_html st b1' (t1 @ EscapeString line1)"
    using write_html_line_change_Some [OF s(1) c1(2), of b1 st] shows_marked [OF assms(1)] split_runes_chars [OF s(1)] c1(2) by metis
  obtain b2' where b2: "write_html_line_change b2 line2 pos2 c2' = Some b2'" "shows_html st b2' (t2 @ EscapeString line2)"
    using write_html_line_change_Some [OF s(2) c2(2), of b2 st] shows_marked [OF assms(2)] split_runes_chars [OF s(2)] c2(2) by metis
  show thesis by (rule that [OF _ b1(2) b2(2)]) (simp add: html_line_changes_def s d(1) c1(1) c2(1) b1(1) b2(1))
qed

lemma html_modified_Some:
  assumes len: "end1 v \<le> int (length (file1 chg))" "end2 v \<le> int (length (file2 chg))"
  shows "0 \<le> s1 \<Longrightarrow> 0 \<le> s2 \<Longrightarrow> s1 \<le> end1 v \<Longrightarrow> s2 \<le> end2 v \<Longrightarrow> shows_html st b1 t1 \<Longrightarrow> shows_html st b2 t2 \<Longrightarrow>
    \<exists>k b1' b2'. html_modified fl low chg v s1 s2 (b1, b2) = Some (s1 + k, s2 + k, b1', b2') \<and>
      k = min (end1 v - s1) (end2 v - s2) \<and>
      shows_html st b1' (t1 @ rows (lineno_width chg) s1 (sl (file1 chg) s1 (s1 + k))) \<and>
      shows_html st b2' (t2 @ rows (lineno_width chg) s2 (sl (file2 chg) s2 (s2 + k)))"
proof (induction "nat (end1 v - s1)" arbitrary: s1 s2 b1 b2 t1 t2 rule: less_induct)
  case less
  show ?case
  proof (cases "s1 < end1 v \<and> s2 < end2 v")
    case False
    then show ?thesis using less.prems by (subst html_modified.simps) (auto simp: sl_same intro!: exI [of _ 0])
  next
    case True
    let ?w = "lineno_width chg"
    let ?l1 = "file1 chg ! nat s1" and ?l2 = "file2 chg ! nat s2"
    let ?b1 = "write_html_lineno b1 (s1 + 1) ?w" and ?b2 = "write_html_lineno b2 (s2 + 1) ?w"
    have i: "idx (file1 chg) s1 = Some ?l1" "idx (file2 chg) s2 = Some ?l2"
      using True less.prems len by (simp_all add: idx_def)
    have n: "shows_html st ?b1 (t1 @ pad ?w (itoa (s1 + 1)) @ '' '')" "shows_html st ?b2 (t2 @ pad ?w (itoa (s2 + 1)) @ '' '')"
      using less.prems by (simp_all add: shows_lineno)
    obtain d1 d2 where d: "(if suppress_line_changes fl then Some (write_html_bytes ?b1 ?l1, write_html_bytes ?b2 ?l2)
        else html_line_changes fl low ?l1 ?l2 (?b1, ?b2)) = Some (d1, d2)"
      "shows_html st d1 ((t1 @ pad ?w (itoa (s1 + 1)) @ '' '') @ EscapeString ?l1)"
      "shows_html st d2 ((t2 @ pad ?w (itoa (s2 + 1)) @ '' '') @ EscapeString ?l2)"
    proof (cases "suppress_line_changes fl")
      case True
      show thesis by (rule that [of "?b1 @ EscapeString ?l1" "?b2 @ EscapeString ?l2"])
        (simp add: True, (rule shows_html_escaped, rule n)+)
    next
      case False
      obtain d1 d2 where "html_line_changes fl low ?l1 ?l2 (?b1, ?b2) = Some (d1, d2)"
        "shows_html st d1 ((t1 @ pad ?w (itoa (s1 + 1)) @ '' '') @ EscapeString ?l1)"
        "shows_html st d2 ((t2 @ pad ?w (itoa (s2 + 1)) @ '' '') @ EscapeString ?l2)"
        by (rule html_line_changes_Some [OF n])
      then show thesis using False by (intro that) simp_all
    qed
    have nlt: "CHR ''<'' \<notin> set nl" by (simp add: nl_def)
    have r: "shows_html st (d1 @ nl) (t1 @ row ?w (s1 + 1) ?l1)" "shows_html st (d2 @ nl) (t2 @ row ?w (s2 + 1) ?l2)"
      using shows_html_str [OF d(2) nlt] shows_html_str [OF d(3) nlt] by (simp_all add: row_def)
    have lt: "nat (end1 v - (s1 + 1)) < nat (end1 v - s1)" using True by simp
    have nx: "0 \<le> s1 + 1" "0 \<le> s2 + 1" "s1 + 1 \<le> end1 v" "s2 + 1 \<le> end2 v" using True less.prems by auto
    from less.hyps [OF lt nx r] obtain k b1' b2' where IH:
      "html_modified fl low chg v (s1 + 1) (s2 + 1) (d1 @ nl, d2 @ nl) = Some (s1 + 1 + k, s2 + 1 + k, b1', b2')"
      "k = min (end1 v - (s1 + 1)) (end2 v - (s2 + 1))"
      "shows_html st b1' ((t1 @ row ?w (s1 + 1) ?l1) @ rows ?w (s1 + 1) (sl (file1 chg) (s1 + 1) (s1 + 1 + k)))"
      "shows_html st b2' ((t2 @ row ?w (s2 + 1) ?l2) @ rows ?w (s2 + 1) (sl (file2 chg) (s2 + 1) (s2 + 1 + k)))"
      by blast
    have k: "0 \<le> k" "s1 + 1 + k \<le> end1 v" "s2 + 1 + k \<le> end2 v" using IH(2) True by auto
    have "sl (file1 chg) s1 (s1 + (1 + k)) = ?l1 # sl (file1 chg) (s1 + 1) (s1 + 1 + k)"
      "sl (file2 chg) s2 (s2 + (1 + k)) = ?l2 # sl (file2 chg) (s2 + 1) (s2 + 1 + k)"
      using sl_Cons [of s1 "s1 + (1 + k)" "file1 chg"] sl_Cons [of s2 "s2 + (1 + k)" "file2 chg"] k less.prems len
      by (simp_all add: add.assoc)
    moreover have "html_modified fl low chg v s1 s2 (b1, b2) = Some (s1 + (1 + k), s2 + (1 + k), b1', b2')"
      using True i d(1) IH(1) by (subst html_modified.simps) (simp add: Let_def add.assoc)
    ultimately show ?thesis using IH(2-4) by (intro exI [of _ "1 + k"] exI [of _ b1'] exI [of _ b2']) auto
  qed
qed


section \<open>The columns\<close>

text \<open>
  The rows that an operation takes in each column: the numbered lines of its part, and blank rows up to
  the length of the longer part.
\<close>

abbreviation n1_of :: "DiffOp \<Rightarrow> int" where "n1_of v \<equiv> end1 v - start1 v"
abbreviation n2_of :: "DiffOp \<Rightarrow> int" where "n2_of v \<equiv> end2 v - start2 v"

definition left_rows :: "DiffChangerData \<Rightarrow> DiffOp \<Rightarrow> bytes" where
  "left_rows chg v = rows (lineno_width chg) (start1 v) (part1 chg v) @ blank_rows (n2_of v - n1_of v)"

definition right_rows :: "DiffChangerData \<Rightarrow> DiffOp \<Rightarrow> bytes" where
  "right_rows chg v = rows (lineno_width chg) (start2 v) (part2 chg v) @ blank_rows (n1_of v - n2_of v)"

lemma blank_rows_0 [simp]: "n \<le> 0 \<Longrightarrow> blank_rows n = []"
  by (simp add: blank_rows_def)

definition op_in_range :: "DiffChangerData \<Rightarrow> DiffOp \<Rightarrow> bool" where
  "op_in_range chg v \<longleftrightarrow> 0 \<le> start1 v \<and> start1 v \<le> end1 v \<and> end1 v \<le> int (length (file1 chg)) \<and>
     0 \<le> start2 v \<and> start2 v \<le> end2 v \<and> end2 v \<le> int (length (file2 chg))"

lemma op_in_rangeI: "in_range chg ops \<Longrightarrow> v \<in> set ops \<Longrightarrow> op_in_range chg v"
  using ops_ok_bounds by (fastforce simp: op_in_range_def)

lemma slices_of_op:
  assumes "op_in_range chg v"
  shows "slice (file1 chg) (start1 v) (end1 v) = Some (part1 chg v)"
    and "slice (file2 chg) (start2 v) (end2 v) = Some (part2 chg v)"
  using assms by (auto simp: op_in_range_def slice_def sl_def)

lemma html_modify_op:
  assumes v: "op_in_range chg v" "op v = DIFF_OP_MODIFY" and s: "shows_html st b1 t1" "shows_html st b2 t2"
  shows "\<exists>b1' b2'. html_op fl low chg v (b1, b2) = Some (b1', b2') \<and>
    shows_html st b1' (t1 @ left_rows chg v) \<and> shows_html st b2' (t2 @ right_rows chg v)"
proof -
  let ?w = "lineno_width chg"
  obtain k s1 s2 where kd: "k = min (n1_of v) (n2_of v)" "s1 = start1 v + k" "s2 = start2 v + k" by blast
  have b: "0 \<le> start1 v" "start1 v \<le> end1 v" "end1 v \<le> int (length (file1 chg))"
    "0 \<le> start2 v" "start2 v \<le> end2 v" "end2 v \<le> int (length (file2 chg))"
    using v(1) by (simp_all add: op_in_range_def)
  have k: "start1 v \<le> s1" "s1 \<le> end1 v" "s2 \<le> end2 v" "0 \<le> s1" "0 \<le> s2" "start2 v \<le> s2" using b kd by auto
  have o: "shows_html (in_span ''upd'' # st) (b1 @ ''<span class=\"upd\">'') t1" "shows_html (in_span ''upd'' # st) (b2 @ ''<span class=\"upd\">'') t2"
    using s by (auto intro: shows_html_tag reads_spans)
  obtain m1 m2 where m: "html_modified fl low chg v (start1 v) (start2 v) (b1 @ ''<span class=\"upd\">'', b2 @ ''<span class=\"upd\">'') =
      Some (s1, s2, m1, m2)"
    "shows_html (in_span ''upd'' # st) m1 (t1 @ rows ?w (start1 v) (sl (file1 chg) (start1 v) s1))"
    "shows_html (in_span ''upd'' # st) m2 (t2 @ rows ?w (start2 v) (sl (file2 chg) (start2 v) s2))"
    using html_modified_Some [OF b(3,6,1,4,2,5) o, of fl low] unfolding kd by blast
  note c = shows_close [OF m(2)] shows_close [OF m(3)]
  have sub: "slice (file1 chg) s1 (end1 v) = Some (sl (file1 chg) s1 (end1 v))"
    "slice (file2 chg) s2 (end2 v) = Some (sl (file2 chg) s2 (end2 v))"
    using k b by (simp_all add: slice_def sl_def)
  have j: "sl (file1 chg) (start1 v) s1 @ sl (file1 chg) s1 (end1 v) = part1 chg v"
    "sl (file2 chg) (start2 v) s2 @ sl (file2 chg) s2 (end2 v) = part2 chg v"
    using k b by (simp_all only: sl_join)
  have len: "int (length (sl (file1 chg) (start1 v) s1)) = k" "int (length (sl (file2 chg) (start2 v) s2)) = k"
    using k b kd(2,3) by (simp_all add: length_sl)
  have r: "rows ?w (start1 v) (part1 chg v) = rows ?w (start1 v) (sl (file1 chg) (start1 v) s1) @ rows ?w s1 (sl (file1 chg) s1 (end1 v))"
    "rows ?w (start2 v) (part2 chg v) = rows ?w (start2 v) (sl (file2 chg) (start2 v) s2) @ rows ?w s2 (sl (file2 chg) s2 (end2 v))"
    unfolding j [symmetric] rows_append len by (simp_all add: kd(2,3))
  have cls: "html_class ''del''" "html_class ''add''" by (simp_all add: html_class_def)
  have nop: "op v \<noteq> DIFF_OP_INSERT" "op v \<noteq> DIFF_OP_REMOVE" using v(2) by (simp_all add: op_defs)
  consider (eq) "s1 = end1 v" "s2 = end2 v" | (more1) "s1 < end1 v" "s2 = end2 v" | (more2) "s1 = end1 v" "s2 < end2 v"
    using k kd by linarith
  then show ?thesis
  proof cases
    case eq
    have "n2_of v - n1_of v \<le> 0" "n1_of v - n2_of v \<le> 0" using eq kd(2,3) by linarith+
    then have "blank_rows (n2_of v - n1_of v) = []" "blank_rows (n1_of v - n2_of v) = []" by (simp_all only: blank_rows_0)
    moreover have "html_op fl low chg v (b1, b2) = Some (m1 @ ''</span>'', m2 @ ''</span>'')"
      using v(2) nop m(1) eq by (simp add: html_op_def Let_def)
    ultimately show ?thesis using c by (simp add: left_rows_def right_rows_def eq)
  next
    case more1
    have "html_op fl low chg v (b1, b2) =
        Some (write_html_lines (m1 @ ''</span>'') ''del'' (sl (file1 chg) s1 (end1 v)) s1 ?w,
              write_html_blanks (m2 @ ''</span>'') (end1 v - s1))"
      using v(2) nop m(1) more1 sub(1) by (simp add: html_op_def Let_def)
    moreover have "end1 v - s1 = n1_of v - n2_of v" "n2_of v - n1_of v \<le> 0" using more1 kd(2,3) by linarith+
    ultimately show ?thesis
      using shows_html_lines [OF c(1) k(4) cls(1), of "sl (file1 chg) s1 (end1 v)" ?w] shows_blanks [OF c(2), of "end1 v - s1"]
      by (simp only: left_rows_def right_rows_def r(1) blank_rows_0 more1(2) append_Nil2 append_assoc) auto
  next
    case more2
    have "html_op fl low chg v (b1, b2) =
        Some (write_html_blanks (m1 @ ''</span>'') (end2 v - s2),
              write_html_lines (m2 @ ''</span>'') ''add'' (sl (file2 chg) s2 (end2 v)) s2 ?w)"
      using v(2) nop m(1) more2 sub(2) by (simp add: html_op_def Let_def)
    moreover have "end2 v - s2 = n2_of v - n1_of v" "n1_of v - n2_of v \<le> 0" using more2 kd(2,3) by linarith+
    ultimately show ?thesis
      using shows_html_lines [OF c(2) k(5) cls(2), of "sl (file2 chg) s2 (end2 v)" ?w] shows_blanks [OF c(1), of "end2 v - s2"]
      by (simp only: left_rows_def right_rows_def r(2) blank_rows_0 more2(1) append_Nil2 append_assoc) auto
  qed
qed


lemma sl_empty: "b \<le> a \<Longrightarrow> sl xs a b = []"
  by (simp add: sl_def)

lemma html_op_Some:
  assumes v: "op_in_range chg v" "op_kind v" and s: "shows_html st b1 t1" "shows_html st b2 t2"
  shows "\<exists>b1' b2'. html_op fl low chg v (b1, b2) = Some (b1', b2') \<and>
    shows_html st b1' (t1 @ left_rows chg v) \<and> shows_html st b2' (t2 @ right_rows chg v)"
proof -
  have k: "0 \<le> start1 v" "start1 v \<le> end1 v" "0 \<le> start2 v" "start2 v \<le> end2 v" using v(1) by (simp_all add: op_in_range_def)
  note sl = slices_of_op [OF v(1)]
  have cls: "html_class ''del''" "html_class ''add''" "html_class ''nop''" by (simp_all add: html_class_def)
  consider "op v = DIFF_OP_MODIFY" | (ins) "op v = DIFF_OP_INSERT" "start1 v = end1 v"
    | (rem) "op v = DIFF_OP_REMOVE" "start2 v = end2 v" | (same) "op v = DIFF_OP_SAME"
    using v(2) by (auto simp: op_kind_def)
  then show ?thesis
  proof cases
    case 1
    then show ?thesis by (rule html_modify_op [OF v(1) _ s])
  next
    case ins
    then show ?thesis
      using shows_html_lines [OF s(2) k(3) cls(2), of "part2 chg v" "lineno_width chg"] shows_blanks [OF s(1), of "n2_of v"] k
      by (simp add: html_op_def Let_def sl left_rows_def right_rows_def sl_same op_defs)
  next
    case rem
    then show ?thesis
      using shows_html_lines [OF s(1) k(1) cls(1), of "part1 chg v" "lineno_width chg"] shows_blanks [OF s(2), of "n1_of v"] k
      by (simp add: html_op_def Let_def sl left_rows_def right_rows_def sl_same op_defs)
  next
    case same
    define c1 where "c1 = (if n1_of v > 0 then write_html_lines b1 ''nop'' (part1 chg v) (start1 v) (lineno_width chg) else b1)"
    define c2 where "c2 = (if n2_of v > 0 then write_html_lines b2 ''nop'' (part2 chg v) (start2 v) (lineno_width chg) else b2)"
    have c: "shows_html st c1 (t1 @ rows (lineno_width chg) (start1 v) (part1 chg v))"
      "shows_html st c2 (t2 @ rows (lineno_width chg) (start2 v) (part2 chg v))"
      using s k cls(3) by (auto simp: c1_def c2_def sl_empty intro: shows_html_lines)
    define m where "m = max (n1_of v) (n2_of v)"
    have "html_op fl low chg v (b1, b2) = Some (if n1_of v < m then write_html_blanks c1 (m - n1_of v) else c1,
        if n2_of v < m then write_html_blanks c2 (m - n2_of v) else c2)"
      using same by (simp add: html_op_def Let_def sl op_defs c1_def c2_def m_def)
    moreover have "shows_html st (if n1_of v < m then write_html_blanks c1 (m - n1_of v) else c1) (t1 @ left_rows chg v)"
    proof (cases "n1_of v < m")
      case True
      then have "m - n1_of v = n2_of v - n1_of v" by (auto simp: m_def)
      then show ?thesis using True shows_blanks [OF c(1), of "m - n1_of v"] by (simp add: left_rows_def)
    qed (use c(1) in \<open>auto simp: m_def left_rows_def\<close>)
    moreover have "shows_html st (if n2_of v < m then write_html_blanks c2 (m - n2_of v) else c2) (t2 @ right_rows chg v)"
    proof (cases "n2_of v < m")
      case True
      then have "m - n2_of v = n1_of v - n2_of v" by (auto simp: m_def)
      then show ?thesis using True shows_blanks [OF c(2), of "m - n2_of v"] by (simp add: right_rows_def)
    qed (use c(2) in \<open>auto simp: m_def right_rows_def\<close>)
    ultimately show ?thesis by blast
  qed
qed

lemma html_ops_Some:
  "\<forall>v \<in> set ops. op_in_range chg v \<and> op_kind v \<Longrightarrow> shows_html st b1 t1 \<Longrightarrow> shows_html st b2 t2 \<Longrightarrow>
   \<exists>b1' b2'. fold_ops (html_op fl low chg) ops (b1, b2) = Some (b1', b2') \<and>
     shows_html st b1' (t1 @ concat (map (left_rows chg) ops)) \<and> shows_html st b2' (t2 @ concat (map (right_rows chg) ops))"
proof (induction ops arbitrary: b1 b2 t1 t2)
  case (Cons v ops)
  then obtain c1 c2 where c: "html_op fl low chg v (b1, b2) = Some (c1, c2)"
    "shows_html st c1 (t1 @ left_rows chg v)" "shows_html st c2 (t2 @ right_rows chg v)"
    using html_op_Some [of chg v st b1 t1 b2 t2 fl low] by auto
  from Cons.IH [OF _ c(2,3)] Cons.prems(1) c(1) show ?case by simp
qed simp

section \<open>The unified format\<close>

definition unified_row :: "int \<Rightarrow> bytes \<Rightarrow> int \<Rightarrow> int \<Rightarrow> bytes \<Rightarrow> bytes" where
  "unified_row w mode k1 k2 line =
     pad w (if 0 < k1 then itoa k1 else []) @ '' '' @ pad w (if 0 < k2 then itoa k2 else []) @ '' '' @
     mode @ '' '' @ EscapeString line @ nl"

definition next_no :: "int \<Rightarrow> int" where "next_no k = (if k \<ge> 0 then k + 1 else k)"

fun unified_rows :: "int \<Rightarrow> bytes \<Rightarrow> int \<Rightarrow> int \<Rightarrow> bytes list \<Rightarrow> bytes" where
  "unified_rows w mode k1 k2 [] = []"
| "unified_rows w mode k1 k2 (line # rest) =
     unified_row w mode (next_no k1) (next_no k2) line @ unified_rows w mode (next_no k1) (next_no k2) rest"

definition unified_op_rows :: "DiffChangerData \<Rightarrow> DiffOp \<Rightarrow> bytes" where
  "unified_op_rows chg v =
     (let w = lineno_width chg in
      if op v = DIFF_OP_SAME then unified_rows w '' '' (start1 v) (start2 v) (part1 chg v)
      else unified_rows w ''-'' (start1 v) (-1) (part1 chg v) @ unified_rows w ''+'' (-1) (start2 v) (part2 chg v))"

lemma shows_unified_row:
  assumes "shows_html st buf t" and "CHR ''<'' \<notin> set mode"
  shows "shows_html st (write_html_bytes (write_html_lineno_unified buf mode k1 k2 w) line @ nl) (t @ unified_row w mode k1 k2 line)"
proof -
  let ?p = "\<lambda>k. pad w (if 0 < k then itoa k else [])"
  have p: "CHR ''<'' \<notin> set (?p k)" for k by (simp add: plain_pad plain_itoa)
  have "shows_html (in_span ''lno'' # st) (buf @ ''<span class=\"lno\">'') t" by (rule shows_html_tag [OF assms(1)]) (rule reads_spans)
  then have "shows_html (in_span ''lno'' # st) ((((((buf @ ''<span class=\"lno\">'') @ ?p k1) @ '' '') @ ?p k2) @ '' '') @ mode)
      (((((t @ ?p k1) @ '' '') @ ?p k2) @ '' '') @ mode)"
    by (intro shows_html_str p assms(2)) simp_all
  from shows_close [OF shows_html_str [OF this, of "'' ''"]]
  have "shows_html st ((((((((buf @ ''<span class=\"lno\">'') @ ?p k1) @ '' '') @ ?p k2) @ '' '') @ mode) @ '' '') @ ''</span>'')
      ((((((t @ ?p k1) @ '' '') @ ?p k2) @ '' '') @ mode) @ '' '')" by simp
  from shows_html_str [OF shows_html_escaped [OF this, of line], of nl]
  show ?thesis
    by (cases "0 < k1"; cases "0 < k2") (simp_all add: write_html_lineno_unified_def unified_row_def nl_def)
qed

lemma shows_unified_rows:
  "shows_html st buf t \<Longrightarrow> CHR ''<'' \<notin> set mode \<Longrightarrow>
   shows_html st (write_html_lines_unified_from buf mode ls k1 k2 w) (t @ unified_rows w mode k1 k2 ls)"
proof (induction ls arbitrary: buf t k1 k2)
  case (Cons line ls)
  from Cons.IH [OF shows_unified_row [OF Cons.prems, of "next_no k1" "next_no k2" w line] Cons.prems(2), of "next_no k1" "next_no k2"]
  show ?case by (simp add: next_no_def Let_def cong: if_cong split del: if_split)
qed simp

lemma shows_lines_unified:
  assumes "shows_html st buf t" and "html_class cls" and "CHR ''<'' \<notin> set mode"
  shows "shows_html st (write_html_lines_unified buf cls mode ls k1 k2 w) (t @ unified_rows w mode k1 k2 ls)"
  unfolding write_html_lines_unified_def append_assoc [symmetric, of _ _ "''</span>''"]
  by (rule shows_close [of cls]) (intro shows_unified_rows shows_open assms)

lemma unified_html_op_Some:
  assumes v: "op_in_range chg v" "op_kind v" and s: "shows_html st b t"
  shows "\<exists>b'. unified_html_op chg v b = Some b' \<and> shows_html st b' (t @ unified_op_rows chg v)"
proof -
  have u: "shows_html st (write_html_lines_unified b ''del'' ''-'' ls k1 k2 w) (t @ unified_rows w ''-'' k1 k2 ls)"
    "shows_html st (write_html_lines_unified b ''add'' ''+'' ls k1 k2 w) (t @ unified_rows w ''+'' k1 k2 ls)"
    "shows_html st (write_html_lines_unified b ''nop'' '' '' ls k1 k2 w) (t @ unified_rows w '' '' k1 k2 ls)" if "shows_html st b t"
    for b t ls k1 k2 w using that by (auto intro!: shows_lines_unified simp: html_class_def)
  show ?thesis
    using v(2) u [OF s] u(2) [OF u(1) [OF s]]
    by (auto simp: op_kind_def unified_html_op_def unified_op_rows_def slices_of_op [OF v(1)] Let_def sl_same op_defs)
qed

lemma unified_html_ops_Some:
  "\<forall>v \<in> set ops. op_in_range chg v \<and> op_kind v \<Longrightarrow> shows_html st b t \<Longrightarrow>
   \<exists>b'. fold_ops (unified_html_op chg) ops b = Some b' \<and> shows_html st b' (t @ concat (map (unified_op_rows chg) ops))"
proof (induction ops arbitrary: b t)
  case (Cons v ops)
  then obtain c where c: "unified_html_op chg v b = Some c" "shows_html st c (t @ unified_op_rows chg v)"
    using unified_html_op_Some [of chg v st b t] by auto
  from Cons.IH [OF _ c(2)] Cons.prems(1) c(1) show ?case by simp
qed simp


section \<open>The contract\<close>

lemma html_modified_bufs: "html_modified fl low (with_bufs chg c1 c2 h) v s1 s2 b = html_modified fl low chg v s1 s2 b"
proof (induction "nat (end1 v - s1)" arbitrary: s1 s2 b rule: less_induct)
  case less
  have "s1 < end1 v \<Longrightarrow> html_modified fl low (with_bufs chg c1 c2 h) v (s1 + 1) (s2 + 1) d =
      html_modified fl low chg v (s1 + 1) (s2 + 1) d" for d by (rule less) simp
  then show ?case
    by (cases b) (simp add: html_modified.simps [of fl low _ v s1 s2] Let_def case_prod_beta cong: if_cong)
qed

lemma html_op_bufs: "html_op fl low (with_bufs chg c1 c2 h) = html_op fl low chg"
  unfolding html_op_def fun_eq_iff html_modified_bufs with_bufs_simps by simp

lemma unified_html_op_bufs: "unified_html_op (with_bufs chg c1 c2 h) = unified_html_op chg"
  unfolding unified_html_op_def fun_eq_iff with_bufs_simps by simp

lemma out_acquire_lock_append: "out_acquire_lock fl tr = tr @ out_acquire_lock fl []"
  by (simp add: out_acquire_lock_def)

definition table_actions :: "Flags \<Rightarrow> DiffChangerData \<Rightarrow> trace" where
  "table_actions fl chg = snd (html_file_table fl (chg\<lparr>header_printed := False\<rparr>) [])"

definition unified_table_actions :: "Flags \<Rightarrow> DiffChangerData \<Rightarrow> trace" where
  "unified_table_actions fl chg = snd (html_file_table_unified fl (chg\<lparr>header_printed := False\<rparr>) [])"

lemma html_file_table_eq: "html_file_table fl (with_bufs chg b1 b2 h) tr =
    (with_bufs chg b1 b2 True, tr @ (if h then [] else table_actions fl chg))"
  by (cases h) (simp_all add: html_file_table_def table_actions_def Let_def out_acquire_lock_append [of fl tr])

lemma html_file_table_unified_eq: "html_file_table_unified fl (with_bufs chg b1 b2 h) tr =
    (with_bufs chg b1 b2 True, tr @ (if h then [] else unified_table_actions fl chg))"
  by (cases h) (simp_all add: html_file_table_unified_def unified_table_actions_def Let_def out_acquire_lock_append [of fl tr])

text \<open>The row of the table that a group is shown in.\<close>

definition side_group :: "Flags \<Rightarrow> (nat \<Rightarrow> nat) \<Rightarrow> DiffChangerData \<Rightarrow> DiffOp list \<Rightarrow> trace" where
  "side_group fl low chg ops =
     (case fold_ops (html_op fl low chg) ops ([], []) of
        None \<Rightarrow> []
      | Some (b1, b2) \<Rightarrow> [Write ''<tr><td class=\"ttd\">'', Write b1, Write ''</td><td class=\"ttd\">'', Write b2,
          Write (''</td></tr>'' @ nl)])"

definition unified_html_group :: "DiffChangerData \<Rightarrow> DiffOp list \<Rightarrow> trace" where
  "unified_html_group chg ops =
     (case fold_ops (unified_html_op chg) ops [] of
        None \<Rightarrow> []
      | Some b \<Rightarrow> [Write ''<tr><td class=\"ttd\">'', Write b, Write (''</td></tr>'' @ nl)])"

lemma group_ops: "in_range chg ops \<Longrightarrow> op_kinds ops \<Longrightarrow> \<forall>v \<in> set ops. op_in_range chg v \<and> op_kind v"
  by (simp add: op_kinds_def op_in_rangeI)

interpretation side_html: group_printer "diff_lines_Html fl low" "table_actions fl chg" "side_group fl low chg" chg tr0
  for fl low chg tr0
proof
  fix ops b1 b2 h tr
  assume ops: "in_range chg ops" "op_kinds ops"
  obtain c1 c2 where c: "fold_ops (html_op fl low chg) ops ([], []) = Some (c1, c2)"
    using html_ops_Some [OF group_ops [OF ops], of "[]" "[]" "[]" "[]" "[]" fl low] by auto
  then show "\<exists>b1' b2'. diff_lines_Html fl low ops (with_bufs chg b1 b2 h, tr) = Some (with_bufs chg b1' b2' True,
      tr @ (if h then [] else table_actions fl chg) @ side_group fl low chg ops)"
    by - (rule exI [of _ c1], rule exI [of _ c2],
      simp add: diff_lines_Html_def html_file_table_eq html_op_bufs side_group_def Let_def)
qed

interpretation unified_html: group_printer "diff_lines_UnifiedHtml fl" "unified_table_actions fl chg" "unified_html_group chg" chg tr0
  for fl chg tr0
proof
  fix ops b1 b2 h tr
  assume ops: "in_range chg ops" "op_kinds ops"
  obtain c where c: "fold_ops (unified_html_op chg) ops [] = Some c"
    using unified_html_ops_Some [OF group_ops [OF ops], of "[]" "[]" "[]"] by auto
  then show "\<exists>b1' b2'. diff_lines_UnifiedHtml fl ops (with_bufs chg b1 b2 h, tr) = Some (with_bufs chg b1' b2' True,
      tr @ (if h then [] else unified_table_actions fl chg) @ unified_html_group chg ops)"
    by - (rule exI [of _ c], rule exI [of _ b2],
      simp add: diff_lines_UnifiedHtml_def html_file_table_unified_eq unified_html_op_bufs unified_html_group_def Let_def)
qed

text \<open>
  C27. The side-by-side format shows both texts. For every group of operations in range, whatever the flags and
  the lines, the two cells of the table row are written without a panic; in each cell every tag is closed by a closing tag of its own name and in the right order;
  and, read without the tags, the left cell shows, for each operation, the numbered lines of its part of the first file and then blank rows, the right cell the
  same for the second file, so that both take as many rows as the longer part has lines.
\<close>

theorem side_by_side_shows_both:
  assumes "in_range chg ops" and "op_kinds ops"
  shows "\<exists>b1 b2. diff_lines_Html fl low ops (with_bufs chg c1 c2 True, tr) = Some (with_bufs chg b1 b2 True,
      tr @ [Write ''<tr><td class=\"ttd\">'', Write b1, Write ''</td><td class=\"ttd\">'', Write b2, Write (''</td></tr>'' @ nl)]) \<and>
    shows_html [] b1 (concat (map (\<lambda>v. rows (lineno_width chg) (start1 v) (sl (file1 chg) (start1 v) (end1 v)) @
      blank_rows ((end2 v - start2 v) - (end1 v - start1 v))) ops)) \<and>
    shows_html [] b2 (concat (map (\<lambda>v. rows (lineno_width chg) (start2 v) (sl (file2 chg) (start2 v) (end2 v)) @
      blank_rows ((end1 v - start1 v) - (end2 v - start2 v))) ops))"
proof -
  have *: "left_rows chg = (\<lambda>v. rows (lineno_width chg) (start1 v) (part1 chg v) @ blank_rows (n2_of v - n1_of v))"
    "right_rows chg = (\<lambda>v. rows (lineno_width chg) (start2 v) (part2 chg v) @ blank_rows (n1_of v - n2_of v))"
    by (simp_all add: fun_eq_iff left_rows_def right_rows_def)
  obtain b1 b2 where b: "fold_ops (html_op fl low chg) ops ([], []) = Some (b1, b2)"
    "shows_html [] b1 (concat (map (left_rows chg) ops))" "shows_html [] b2 (concat (map (right_rows chg) ops))"
    using html_ops_Some [OF group_ops [OF assms], of "[]" "[]" "[]" "[]" "[]" fl low] by auto
  then show ?thesis unfolding *
    by - (rule exI [of _ b1], rule exI [of _ b2],
      simp add: diff_lines_Html_def html_file_table_eq html_op_bufs Let_def)
qed

definition example_pair :: DiffChangerData where
  "example_pair = \<lparr>buf1 = [], buf2 = [], name1 = ''f'', name2 = ''g'', fileinfo1 = None, fileinfo2 = None,
     header_printed = False, lineno_width = 1, file1 = [''ab'', ''c''], file2 = [''a<'']\<rparr>"

theorem side_by_side_shows_both_witness:
  "\<exists>b1 b2. diff_lines_Html default_flags id [DiffOp DIFF_OP_MODIFY 0 2 0 1] (with_bufs example_pair [] [] True, []) =
     Some (with_bufs example_pair b1 b2 True, [Write ''<tr><td class=\"ttd\">'', Write b1,
       Write ''</td><td class=\"ttd\">'', Write b2, Write (''</td></tr>'' @ nl)]) \<and>
     shows_html [] b1 (''1 ab'' @ nl @ ''2 c'' @ nl) \<and> shows_html [] b2 (''1 a&lt;'' @ nl @ '' '' @ nl)"
proof -
  have r: "in_range example_pair [DiffOp DIFF_OP_MODIFY 0 2 0 1]" "op_kinds [DiffOp DIFF_OP_MODIFY 0 2 0 1]"
    by (simp_all add: example_pair_def op_kinds_def op_kind_def)
  have "rows 1 0 (sl [''ab'', ''c''] 0 2) @ blank_rows (1 - 2) = ''1 ab'' @ nl @ ''2 c'' @ nl"
    "rows 1 0 (sl [''a<''] 0 1) @ blank_rows (2 - 1) = ''1 a&lt;'' @ nl @ '' '' @ nl" by code_simp+
  then show ?thesis using side_by_side_shows_both [OF r, of default_flags id "[]" "[]" "[]"]
    by (simp add: example_pair_def del: with_bufs_simps)
qed

end
