(* ===== verification/Xdiff_File.thy ===== *)
theory Xdiff_File
  imports Xdiff_Html
begin

text \<open>
  Comparing two files (\<open>open_file\<close>, \<open>close_file\<close>, \<open>check_binary\<close>, the messages and
  \<open>diff_file\<close> of \<open>xdiff.go\<close>): everything from the names of two files to the actions on the output.

  The operating system and the decompressors are a parameter, the record \<open>Os\<close> of what the calls that
  are used answer: an error message, or the data. Opening, closing, mapping and unmapping a file are actions of
  the trace.

  Shown: \<open>diff_file\<close> never panics, closes every file it opens and unmaps every file it maps; all it writes
  is one block under the output lock; and what it reports of two text files is a patch from the first to the second.
\<close>

section \<open>Files\<close>

record Os =
  os_Open :: "bytes \<Rightarrow> bytes + unit"
  os_Read :: "bytes \<Rightarrow> int \<Rightarrow> bytes + bytes"
  gzip_ReadAll :: "bytes \<Rightarrow> bytes + bytes"
  bzip2_ReadAll :: "bytes \<Rightarrow> bytes + bytes"
  os_Mmap :: "bytes \<Rightarrow> int \<Rightarrow> bytes + bytes"

record Filedata =
  fd_name :: bytes
  fd_info :: FileInfo
  fd_osfile :: bool
  fd_errormsg :: bytes
  fd_is_binary :: bool
  fd_is_mapped :: bool
  fd_data :: "bytes option"

definition MSG_FILE_SIZE_ZERO :: bytes where "MSG_FILE_SIZE_ZERO = ''File has size 0''"
definition MSG_FILE_NOT_EXISTS :: bytes where "MSG_FILE_NOT_EXISTS = ''File does not exist''"
definition MSG_DIR_NOT_EXISTS :: bytes where "MSG_DIR_NOT_EXISTS = ''Directory does not exist''"
definition MSG_FILE_IS_BINARY :: bytes where "MSG_FILE_IS_BINARY = ''This is a binary file''"
definition MSG_FILE_DIFFERS :: bytes where "MSG_FILE_DIFFERS = ''File differs''"
definition MSG_BIN_FILE_DIFFERS :: bytes where "MSG_BIN_FILE_DIFFERS = ''File differs. This is a binary file''"
definition MSG_FILE_IDENTICAL :: bytes where "MSG_FILE_IDENTICAL = ''Files are the same''"
definition MSG_FILE_TOO_BIG :: bytes where "MSG_FILE_TOO_BIG = ''File too big''"
definition MSG_THIS_IS_DIR :: bytes where "MSG_THIS_IS_DIR = ''This is a directory''"
definition MSG_THIS_IS_FILE :: bytes where "MSG_THIS_IS_FILE = ''This is a file''"

lemmas msg_defs = MSG_FILE_SIZE_ZERO_def MSG_FILE_NOT_EXISTS_def MSG_DIR_NOT_EXISTS_def MSG_FILE_IS_BINARY_def
  MSG_FILE_DIFFERS_def MSG_BIN_FILE_DIFFERS_def MSG_FILE_IDENTICAL_def MSG_FILE_TOO_BIG_def
  MSG_THIS_IS_DIR_def MSG_THIS_IS_FILE_def

definition MMAP_THRESHOLD :: int where "MMAP_THRESHOLD = 8 * 1024"
definition has_mmap :: bool where "has_mmap = True"

text \<open>Reading and closing after a decompressor or a plain read; an error leaves the file open.\<close>

definition read_and_close :: "bytes + bytes \<Rightarrow> Filedata \<Rightarrow> trace \<Rightarrow> Filedata \<times> trace" where
  "read_and_close r file tr =
     (case r of
        Inl err \<Rightarrow> (file\<lparr>fd_errormsg := err\<rparr>, tr)
      | Inr fdata \<Rightarrow> (file\<lparr>fd_data := Some fdata, fd_osfile := False\<rparr>, tr @ [CloseFile (fd_name file)]))"

definition open_file :: "Os \<Rightarrow> bytes \<Rightarrow> FileInfo \<Rightarrow> trace \<Rightarrow> Filedata \<times> trace" where
  "open_file os fname finfo tr =
     (let file = \<lparr>fd_name = fname, fd_info = finfo, fd_osfile = False, fd_errormsg = [], fd_is_binary = False,
                  fd_is_mapped = False, fd_data = None\<rparr>;
          fsize = fi_Size (fd_info file)
      in if fsize \<ge> 100000000 then (file\<lparr>fd_errormsg := MSG_FILE_TOO_BIG\<rparr>, tr)
         else if fsize \<le> 0 then (file, tr)
         else case os_Open os (fd_name file) of
           Inl err \<Rightarrow> (file\<lparr>fd_errormsg := err\<rparr>, tr)
         | Inr _ \<Rightarrow>
             (let file = file\<lparr>fd_osfile := True\<rparr>; tr = tr @ [OpenFile fname] in
              if HasSuffix fname ''.gz'' then read_and_close (gzip_ReadAll os fname) file tr
              else if HasSuffix fname ''.bz2'' then read_and_close (bzip2_ReadAll os fname) file tr
              else if has_mmap \<and> fsize > MMAP_THRESHOLD then
                (case os_Mmap os fname fsize of
                   Inl err \<Rightarrow> (file\<lparr>fd_osfile := False, fd_errormsg := err\<rparr>, tr @ [CloseFile fname])
                 | Inr fdata \<Rightarrow> (file\<lparr>fd_data := Some fdata, fd_is_mapped := True\<rparr>, tr @ [MapFile fname]))
              else read_and_close (os_Read os fname fsize) file tr))"

definition close_file :: "Filedata \<Rightarrow> trace \<Rightarrow> Filedata \<times> trace" where
  "close_file file tr =
     (let (file, tr) =
        (if fd_osfile file then
           (let tr = (if fd_is_mapped file \<and> fd_data file \<noteq> None then tr @ [UnmapFile (fd_name file)] else tr)
            in (file\<lparr>fd_osfile := False\<rparr>, tr @ [CloseFile (fd_name file)]))
         else (file, tr))
      in (file\<lparr>fd_data := None\<rparr>, tr))"

definition check_binary :: "Filedata \<Rightarrow> Filedata" where
  "check_binary file =
     (case fd_data file of
        None \<Rightarrow> file
      | Some d \<Rightarrow>
          if d = [] then file\<lparr>fd_data := None, fd_errormsg := MSG_FILE_SIZE_ZERO\<rparr>
          else if CHR 0x00 \<in> set (take (min (length d) BINARY_CHECK_SIZE) d)
          then file\<lparr>fd_data := None, fd_errormsg := MSG_FILE_IS_BINARY\<rparr>
          else file)"

text \<open>The bytes of a file: a \<open>nil\<close> slice counts as the empty one.\<close>

definition data_of :: "Filedata \<Rightarrow> bytes" where
  "data_of file = (case fd_data file of None \<Rightarrow> [] | Some d \<Rightarrow> d)"

definition Filedata_split_lines :: "Filedata \<Rightarrow> Filedata \<times> bytes list" where
  "Filedata_split_lines file =
     (case split_lines (data_of file) of
        None \<Rightarrow> (file\<lparr>fd_is_binary := True, fd_errormsg := MSG_FILE_IS_BINARY\<rparr>, [])
      | Some ls \<Rightarrow> (file, ls))"

section \<open>Messages\<close>

definition new_format :: "bytes \<Rightarrow> bytes \<Rightarrow> FileInfo option \<Rightarrow> FileInfo option \<Rightarrow> int \<Rightarrow> bytes list \<Rightarrow> bytes list \<Rightarrow> DiffChangerData" where
  "new_format filename1 filename2 info1 info2 width lines1 lines2 =
     \<lparr>buf1 = [], buf2 = [], name1 = filename1, name2 = filename2, fileinfo1 = info1, fileinfo2 = info2,
      header_printed = False, lineno_width = width, file1 = lines1, file2 = lines2\<rparr>"

definition message_cell :: "bytes \<Rightarrow> bytes \<Rightarrow> bytes list \<Rightarrow> bytes" where
  "message_cell span msg data =
     (if msg \<noteq> [] then write_html_bytes span msg @ ''</span><br>''
      else if data \<noteq> [] then html_preview_file [] data else [])"

definition output_diff_message_content ::
  "Flags \<Rightarrow> bytes \<Rightarrow> bytes \<Rightarrow> FileInfo option \<Rightarrow> FileInfo option \<Rightarrow> bytes \<Rightarrow> bytes \<Rightarrow> bytes list \<Rightarrow> bytes list \<Rightarrow>
    bool \<Rightarrow> trace \<Rightarrow> trace"
where
  "output_diff_message_content fl filename1 filename2 info1 info2 msg1 msg2 data1 data2 is_error tr =
     (if output_as_text fl then
        (let tr = out_acquire_lock fl tr;
             tr = (if unified_context fl then
                     tr @ [Write (''<<< '' @ filename1 @ '': '' @ msg1 @ nl), Write (''>>> '' @ filename2 @ '': '' @ msg2 @ nl @ nl)]
                   else
                     tr @ [Write (''--- '' @ filename1 @ '': '' @ msg1 @ nl), Write (''+++ '' @ filename2 @ '': '' @ msg2 @ nl @ nl)])
         in out_release_lock fl tr)
      else
        (let outfmt = new_format filename1 filename2 info1 info2 0 [] [];
             span = (if is_error then ''<span class=\"err\">'' else ''<span class=\"msg\">'');
             outfmt = outfmt\<lparr>buf1 := message_cell span msg1 data1, buf2 := message_cell span msg2 data2\<rparr>;
             (outfmt, tr) = html_file_table fl outfmt tr;
             tr = tr @ [Write ''<tr><td class=\"ttd\">'', Write (buf1 outfmt)];
             tr = tr @ [Write ''</td><td class=\"ttd\">'', Write (buf2 outfmt)];
             tr = tr @ [Write (''</td></tr>'' @ nl), Write (''</table><br>'' @ nl)]
         in out_release_lock fl tr))"

definition output_diff_message ::
  "Flags \<Rightarrow> bytes \<Rightarrow> bytes \<Rightarrow> FileInfo option \<Rightarrow> FileInfo option \<Rightarrow> bytes \<Rightarrow> bytes \<Rightarrow> bool \<Rightarrow> trace \<Rightarrow> trace"
where
  "output_diff_message fl filename1 filename2 info1 info2 msg1 msg2 is_error tr =
     output_diff_message_content fl filename1 filename2 info1 info2 msg1 msg2 [] [] is_error tr"

section \<open>Two files\<close>

text \<open>The choice of the output format.\<close>

definition choose_diff_lines ::
  "Flags \<Rightarrow> (nat \<Rightarrow> nat) \<Rightarrow> DiffOp list \<Rightarrow> changer_state \<Rightarrow> changer_state option"
where
  "choose_diff_lines fl low =
     (if output_as_text fl then if unified_context fl then diff_lines_UnifiedText fl else diff_lines_Text fl
      else if unified_context fl then diff_lines_UnifiedHtml fl else diff_lines_Html fl low)"

text \<open>The last branch of \<open>diff_file\<close>: the lines of two text files.\<close>

definition diff_text_files ::
  "Flags \<Rightarrow> (nat \<Rightarrow> nat) \<Rightarrow> bytes \<Rightarrow> bytes \<Rightarrow> FileInfo \<Rightarrow> FileInfo \<Rightarrow> bytes list \<Rightarrow> bytes list \<Rightarrow> trace \<Rightarrow> trace option"
where
  "diff_text_files fl low filename1 filename2 finfo1 finfo2 lines1 lines2 tr =
     do { (info1, info2) \<leftarrow> line_changes fl (choose_compare_line fl low) (choose_compute_hash fl low) lines1 lines2;
          change1 \<leftarrow> shift_boundaries (ids info1) (change info1) None;
          change2 \<leftarrow> shift_boundaries (ids info2) (change info2) None;
          let chg = new_format filename1 filename2 (Some finfo1) (Some finfo2)
                      (int (length (itoa (max (int (length lines1)) (int (length lines2)))))) lines1 lines2;
          (changed, chg, tr) \<leftarrow>
            report_diff (context_lines fl) (choose_diff_lines fl low) (ids info1) (ids info2) change1 change2 (chg, tr);
          let tr = (if header_printed chg then
                      out_release_lock fl (if \<not> output_as_text fl then tr @ [Write (''</table><br>'' @ nl)] else tr)
                    else tr);
          Some (if \<not> changed \<and> show_identical_files fl
                then output_diff_message fl filename1 filename2 (Some finfo1) (Some finfo2)
                       MSG_FILE_IDENTICAL MSG_FILE_IDENTICAL False tr
                else tr) }"

text \<open>\<open>diff_file\<close> between the opening of the files and the deferred closes; the files are returned for those.\<close>

definition diff_opened ::
  "Flags \<Rightarrow> (nat \<Rightarrow> nat) \<Rightarrow> bytes \<Rightarrow> bytes \<Rightarrow> FileInfo \<Rightarrow> FileInfo \<Rightarrow> Filedata \<Rightarrow> Filedata \<Rightarrow> trace \<Rightarrow>
    (Filedata \<times> Filedata \<times> trace) option"
where
  "diff_opened fl low filename1 filename2 finfo1 finfo2 f1 f2 tr =
     (let message = output_diff_message fl filename1 filename2 (Some finfo1) (Some finfo2) in
      if fd_errormsg f1 \<noteq> [] \<or> fd_errormsg f2 \<noteq> [] then
        Some (f1, f2, message (fd_errormsg f1) (fd_errormsg f2) True tr)
      else if data_of f1 = data_of f2 then
        Some (f1, f2, if show_identical_files fl then message MSG_FILE_IDENTICAL MSG_FILE_IDENTICAL False tr else tr)
      else
        do { let (f1, lines1) = Filedata_split_lines f1;
             let (f2, lines2) = Filedata_split_lines f2;
             if fd_is_binary f1 \<or> fd_is_binary f2 then
               do { let msg1 = (if fd_is_binary f1 then MSG_BIN_FILE_DIFFERS else MSG_FILE_DIFFERS);
                    let msg2 = (if fd_is_binary f2 then MSG_BIN_FILE_DIFFERS else MSG_FILE_DIFFERS);
                    Some (f1, f2, if msg1 \<noteq> [] \<or> msg2 \<noteq> [] then message msg1 msg2 True tr else tr) }
             else
               do { tr \<leftarrow> diff_text_files fl low filename1 filename2 finfo1 finfo2 lines1 lines2 tr;
                    Some (f1, f2, tr) } })"

definition diff_file ::
  "Flags \<Rightarrow> (nat \<Rightarrow> nat) \<Rightarrow> Os \<Rightarrow> bytes \<Rightarrow> bytes \<Rightarrow> FileInfo \<Rightarrow> FileInfo \<Rightarrow> trace \<Rightarrow> trace option"
where
  "diff_file fl low os filename1 filename2 finfo1 finfo2 tr =
     do { let (f1, tr) = open_file os filename1 finfo1 tr;
          let (f2, tr) = open_file os filename2 finfo2 tr;
          (f1, f2, tr) \<leftarrow> diff_opened fl low filename1 filename2 finfo1 finfo2 f1 f2 tr;
          let (f2, tr) = close_file f2 tr;
          let (f1, tr) = close_file f1 tr;
          Some tr }"


section \<open>Files are closed\<close>

definition balanced :: "trace \<Rightarrow> bool" where
  "balanced tr \<longleftrightarrow> (\<forall>n. count_list tr (OpenFile n) = count_list tr (CloseFile n) \<and>
     count_list tr (MapFile n) = count_list tr (UnmapFile n))"

fun is_output :: "OutAction \<Rightarrow> bool" where
  "is_output Lock = True" | "is_output Unlock = True" | "is_output (Write s) = True" | "is_output _ = False"

definition output_of :: "trace \<Rightarrow> trace" where
  "output_of tr = filter is_output tr"

lemma output_of_append [simp]: "output_of (xs @ ys) = output_of xs @ output_of ys" "output_of [] = []"
  by (simp_all add: output_of_def)

text \<open>One block of output, under the lock where there are several goroutines.\<close>

definition block :: "Flags \<Rightarrow> bytes list \<Rightarrow> trace" where
  "block fl ws = (if max_goroutines fl > 1 then Lock # map Write ws @ [Unlock] else map Write ws)"

definition only_output :: "trace \<Rightarrow> bool" where "only_output tr \<longleftrightarrow> (\<forall>a \<in> set tr. is_output a)"

lemma only_output_block: "only_output (block fl ws)"
  by (auto simp: only_output_def block_def)

lemma only_output_eq: "only_output tr \<Longrightarrow> output_of tr = tr"
  by (simp add: only_output_def output_of_def)

lemma count_only_output:
  "only_output tr \<Longrightarrow> count_list tr (OpenFile n) = 0 \<and> count_list tr (CloseFile n) = 0 \<and>
   count_list tr (MapFile n) = 0 \<and> count_list tr (UnmapFile n) = 0"
  by (auto simp: count_list_0_iff only_output_def)

lemma balanced_nest:
  assumes "balanced (xs @ ys)" and "balanced (us @ vs)" and "only_output bl"
  shows "balanced (xs @ us @ bl @ vs @ ys)"
  unfolding balanced_def
proof
  fix n
  show "count_list (xs @ us @ bl @ vs @ ys) (OpenFile n) = count_list (xs @ us @ bl @ vs @ ys) (CloseFile n) \<and>
      count_list (xs @ us @ bl @ vs @ ys) (MapFile n) = count_list (xs @ us @ bl @ vs @ ys) (UnmapFile n)"
    using assms(1,2) [unfolded balanced_def, rule_format, of n] count_only_output [OF assms(3), of n] by simp
qed

text \<open>What the opening of a file did, and what is left to do for its close.\<close>

definition open_actions :: "Filedata \<Rightarrow> trace \<Rightarrow> bool" where
  "open_actions f xs \<longleftrightarrow>
     (if fd_osfile f then
        if fd_is_mapped f \<and> fd_data f \<noteq> None then xs = [OpenFile (fd_name f), MapFile (fd_name f)]
        else xs = [OpenFile (fd_name f)]
      else xs = [] \<or> xs = [OpenFile (fd_name f), CloseFile (fd_name f)])"

definition close_actions :: "Filedata \<Rightarrow> trace" where
  "close_actions f =
     (if fd_osfile f then (if fd_is_mapped f \<and> fd_data f \<noteq> None then [UnmapFile (fd_name f)] else []) @ [CloseFile (fd_name f)]
      else [])"

definition same_file :: "Filedata \<Rightarrow> Filedata \<Rightarrow> bool" where
  "same_file f g \<longleftrightarrow> fd_name g = fd_name f \<and> fd_osfile g = fd_osfile f \<and> fd_is_mapped g = fd_is_mapped f \<and>
     fd_data g = fd_data f"

lemma open_file_actions: "\<exists>xs. snd (open_file os n fi tr) = tr @ xs \<and> open_actions (fst (open_file os n fi tr)) xs"
  by (simp add: open_file_def Let_def read_and_close_def open_actions_def split: sum.split)

lemma close_file_actions: "snd (close_file f tr) = tr @ close_actions f"
  by (auto simp: close_file_def close_actions_def Let_def)

lemma same_file_actions: "same_file f g \<Longrightarrow> open_actions g xs = open_actions f xs"
  by (auto simp: same_file_def open_actions_def)

lemma open_close_balanced: "open_actions f xs \<Longrightarrow> balanced (xs @ close_actions f)"
  by (auto simp: open_actions_def close_actions_def balanced_def split: if_splits)

fun is_file_action :: "OutAction \<Rightarrow> bool" where
  "is_file_action (OpenFile n) = True" | "is_file_action (CloseFile n) = True"
| "is_file_action (MapFile n) = True" | "is_file_action (UnmapFile n) = True" | "is_file_action _ = False"

definition only_files :: "trace \<Rightarrow> bool" where "only_files tr \<longleftrightarrow> (\<forall>a \<in> set tr. is_file_action a)"

lemma only_files_simps [simp]: "only_files []" "only_files (xs @ ys) \<longleftrightarrow> only_files xs \<and> only_files ys"
  by (auto simp: only_files_def)

lemma only_files_actions: "open_actions f xs \<Longrightarrow> only_files xs" "only_files (close_actions f)"
  by (auto simp: open_actions_def close_actions_def only_files_def split: if_splits)

lemma only_files_output: "only_files tr \<Longrightarrow> output_of tr = []"
proof (induction tr)
  case (Cons a tr)
  then show ?case by (cases a) (simp_all add: only_files_def output_of_def)
qed simp

section \<open>Messages are one block\<close>

lemma release_eq: "out_release_lock fl tr = tr @ (if max_goroutines fl > 1 then [Unlock] else [])"
  by (simp add: out_release_lock_def)

lemma acquire_eq: "out_acquire_lock fl tr = tr @ (if max_goroutines fl > 1 then [Lock] else [])"
  by (simp add: out_acquire_lock_def)

definition file_info_bytes :: "bytes \<Rightarrow> FileInfo option \<Rightarrow> bytes list" where
  "file_info_bytes before info = (case info of None \<Rightarrow> []
     | Some fi \<Rightarrow> [before @ ''<span class=\"inf\">'' @ itoa (fi_Size fi) @ '' '' @ fi_ModTime fi @ ''</span>''])"

lemma file_info_text_eq: "file_info_text before info = map Write (file_info_bytes before info)"
  by (simp add: file_info_text_def file_info_bytes_def split: option.split)

lemma table_writes:
  "\<exists>ws. table_actions fl chg = (if max_goroutines fl > 1 then [Lock] else []) @ map Write ws"
  "\<exists>ws. unified_table_actions fl chg = (if max_goroutines fl > 1 then [Lock] else []) @ map Write ws"
proof -
  let ?t = "\<lambda>a b. [''<table class=\"tab\"><tr><td class=\"tth\"><span class=\"hdr\">'', EscapeString (name1 chg), ''</span>''] @
    file_info_bytes b (fileinfo1 chg) @ [a, EscapeString (name2 chg), ''</span>''] @ file_info_bytes b (fileinfo2 chg) @ [''</td></tr>'']"
  have "table_actions fl chg = (if max_goroutines fl > 1 then [Lock] else []) @
      map Write (?t ''</td><td class=\"tth\"><span class=\"hdr\">'' ''<br>'')"
    by (simp add: table_actions_def html_file_table_def Let_def acquire_eq file_info_text_eq)
  then show "\<exists>ws. table_actions fl chg = (if max_goroutines fl > 1 then [Lock] else []) @ map Write ws" by blast
  have "unified_table_actions fl chg = (if max_goroutines fl > 1 then [Lock] else []) @
      map Write (?t ''<br><span class=\"hdr\">'' '' '')"
    by (simp add: unified_table_actions_def html_file_table_unified_def Let_def acquire_eq file_info_text_eq)
  then show "\<exists>ws. unified_table_actions fl chg = (if max_goroutines fl > 1 then [Lock] else []) @ map Write ws" by blast
qed

lemma block_parts: "(if max_goroutines fl > 1 then [Lock] else []) @ map Write ws @ map Write ws' @
    (if max_goroutines fl > 1 then [Unlock] else []) = block fl (ws @ ws')"
  by (simp add: block_def)

lemma message_block: "\<exists>ws. output_diff_message_content fl n1 n2 i1 i2 m1 m2 d1 d2 e tr = tr @ block fl ws"
proof (cases "output_as_text fl")
  case True
  then show ?thesis
    by (auto simp: output_diff_message_content_def Let_def acquire_eq release_eq block_def
        intro: exI [of _ "[a, b]" for a b])
next
  case False
  define chg where "chg = new_format n1 n2 i1 i2 0 [] []"
  let ?s = "if e then ''<span class=\"err\">'' else ''<span class=\"msg\">''"
  let ?b1 = "message_cell ?s m1 d1" and ?b2 = "message_cell ?s m2 d2"
  have "chg\<lparr>buf1 := ?b1, buf2 := ?b2\<rparr> = with_bufs chg ?b1 ?b2 False" by (simp add: chg_def new_format_def with_bufs_def)
  then have t: "html_file_table fl (chg\<lparr>buf1 := ?b1, buf2 := ?b2\<rparr>) tr = (with_bufs chg ?b1 ?b2 True, tr @ table_actions fl chg)"
    by (simp add: html_file_table_eq)
  obtain ws where ws: "table_actions fl chg = (if max_goroutines fl > 1 then [Lock] else []) @ map Write ws"
    using table_writes(1) by blast
  have "output_diff_message_content fl n1 n2 i1 i2 m1 m2 d1 d2 e tr = tr @ block fl (ws @
      [''<tr><td class=\"ttd\">'', ?b1, ''</td><td class=\"ttd\">'', ?b2, ''</td></tr>'' @ nl, ''</table><br>'' @ nl])"
    using False t ws unfolding chg_def [symmetric]
    by (simp add: output_diff_message_content_def Let_def release_eq flip: chg_def) (simp add: block_def)
  then show ?thesis by blast
qed


section \<open>The report of two text files\<close>

definition format_header :: "Flags \<Rightarrow> DiffChangerData \<Rightarrow> trace" where
  "format_header fl chg =
     (if output_as_text fl then if unified_context fl then header_actions fl ''--- '' ''+++ '' chg else header_actions fl ''<<< '' ''>>> '' chg
      else if unified_context fl then unified_table_actions fl chg else table_actions fl chg)"

definition format_group :: "Flags \<Rightarrow> (nat \<Rightarrow> nat) \<Rightarrow> DiffChangerData \<Rightarrow> DiffOp list \<Rightarrow> trace" where
  "format_group fl low chg =
     (if output_as_text fl then if unified_context fl then unified_group chg else (\<lambda>ops. concat (map (normal_op_actions chg) ops))
      else if unified_context fl then unified_html_group chg else side_group fl low chg)"

interpretation chosen: group_printer "choose_diff_lines fl low" "format_header fl chg" "format_group fl low chg" chg tr0
  for fl low chg tr0
proof
  fix ops b1 b2 h tr
  assume ops: "ops \<noteq> []" "in_range chg ops" "op_kinds ops"
  show "\<exists>b1' b2'. choose_diff_lines fl low ops (with_bufs chg b1 b2 h, tr) = Some (with_bufs chg b1' b2' True,
      tr @ (if h then [] else format_header fl chg) @ format_group fl low chg ops)"
    unfolding choose_diff_lines_def format_header_def format_group_def
    by (cases "output_as_text fl"; cases "unified_context fl")
      (simp_all only: if_True if_False unified_text.prints [OF ops] normal_text.prints [OF ops]
        unified_html.prints [OF ops] side_html.prints [OF ops])
qed

lemma format_header_writes: "\<exists>ws. format_header fl chg = (if max_goroutines fl > 1 then [Lock] else []) @ map Write ws"
  using table_writes [of fl chg]
  by (auto simp: format_header_def header_actions_def acquire_eq intro: exI [of _ "[a, b]" for a b])

lemma line_actions_writes: "\<exists>ws. line_actions m ls = map Write ws"
proof (induction ls)
  case (Cons l ls)
  then obtain ws where "line_actions m ls = map Write ws" by blast
  then have "line_actions m (l # ls) = map Write ([m, l, nl] @ ws)" by simp
  then show ?case by blast
qed simp

definition writes :: "trace \<Rightarrow> bool" where "writes tr \<longleftrightarrow> (\<exists>ws. tr = map Write ws)"

lemma writes_simps [simp]:
  "writes []" "writes (a # tr) \<longleftrightarrow> (\<exists>s. a = Write s) \<and> writes tr" "writes (xs @ ys) \<longleftrightarrow> writes xs \<and> writes ys"
  "writes (line_actions m ls)"
proof -
  show "writes (a # tr) \<longleftrightarrow> (\<exists>s. a = Write s) \<and> writes tr" by (auto simp: writes_def Cons_eq_map_conv intro: exI [of _ "_ # _"])
  show "writes (xs @ ys) \<longleftrightarrow> writes xs \<and> writes ys"
    by (auto simp: writes_def append_eq_map_conv)
qed (simp_all add: writes_def line_actions_writes)

lemma writes_concat: "\<forall>v \<in> set vs. writes (g v) \<Longrightarrow> writes (concat (map g vs))"
  by (induction vs) auto

lemma format_group_writes: "writes (format_group fl low chg ops)"
proof -
  have "writes (normal_op_actions chg v)" "writes (unified_op_actions chg v)" for v
    by (simp_all add: normal_op_actions_def unified_op_actions_def Let_def)
  then show ?thesis
    by (simp add: format_group_def unified_group_def unified_html_group_def side_group_def writes_concat split: option.split)
qed

text \<open>Everything that is written about two text files whose groups of operations are \<open>gs\<close>.\<close>

definition report_trace ::
  "Flags \<Rightarrow> (nat \<Rightarrow> nat) \<Rightarrow> DiffChangerData \<Rightarrow> DiffOp list list \<Rightarrow> trace"
where
  "report_trace fl low chg gs =
     (if gs = [] then
        if show_identical_files fl
        then output_diff_message fl (name1 chg) (name2 chg) (fileinfo1 chg) (fileinfo2 chg) MSG_FILE_IDENTICAL MSG_FILE_IDENTICAL False []
        else []
      else format_header fl chg @ concat (map (format_group fl low chg) gs) @
        (if output_as_text fl then [] else [Write (''</table><br>'' @ nl)]) @ out_release_lock fl [])"

lemma report_trace_block: "\<exists>ws. report_trace fl low chg gs = [] \<or> report_trace fl low chg gs = block fl ws"
proof (cases "gs = []")
  case True
  then show ?thesis using message_block [of fl "name1 chg" "name2 chg" _ _ _ _ "[]" "[]" False "[]"]
    by (auto simp: report_trace_def output_diff_message_def)
next
  case False
  obtain hs where h: "format_header fl chg = (if max_goroutines fl > 1 then [Lock] else []) @ map Write hs"
    using format_header_writes by blast
  have "writes (concat (map (format_group fl low chg) gs) @ (if output_as_text fl then [] else [Write (''</table><br>'' @ nl)]))"
    by (simp add: writes_concat format_group_writes)
  then obtain ws where w: "concat (map (format_group fl low chg) gs) @
      (if output_as_text fl then [] else [Write (''</table><br>'' @ nl)]) = map Write ws" by (auto simp: writes_def)
  have "report_trace fl low chg gs = format_header fl chg @ (concat (map (format_group fl low chg) gs) @
      (if output_as_text fl then [] else [Write (''</table><br>'' @ nl)])) @ (if max_goroutines fl > 1 then [Unlock] else [])"
    using False by (simp add: report_trace_def release_eq)
  also have "\<dots> = block fl (hs @ ws)" unfolding h w by (simp add: block_def)
  finally show ?thesis by blast
qed

lemma message_append: "output_diff_message fl n1 n2 i1 i2 m1 m2 e tr = tr @ output_diff_message fl n1 n2 i1 i2 m1 m2 e []"
proof -
  have "html_file_table fl (chg\<lparr>buf1 := b1, buf2 := b2\<rparr>) tr =
      (let r = html_file_table fl (chg\<lparr>buf1 := b1, buf2 := b2\<rparr>) [] in (fst r, tr @ snd r))" for chg :: DiffChangerData and b1 b2
    by (simp add: html_file_table_def Let_def out_acquire_lock_append [of fl tr])
  then show ?thesis
    by (simp add: output_diff_message_def output_diff_message_content_def Let_def release_eq acquire_eq case_prod_beta)
qed

definition text_files_format :: "bytes \<Rightarrow> bytes \<Rightarrow> FileInfo \<Rightarrow> FileInfo \<Rightarrow> bytes list \<Rightarrow> bytes list \<Rightarrow> DiffChangerData" where
  "text_files_format n1 n2 fi1 fi2 ls1 ls2 = new_format n1 n2 (Some fi1) (Some fi2)
     (int (length (itoa (max (int (length ls1)) (int (length ls2)))))) ls1 ls2"

lemma text_files_format_simps [simp]:
  "name1 (text_files_format n1 n2 fi1 fi2 ls1 ls2) = n1" "name2 (text_files_format n1 n2 fi1 fi2 ls1 ls2) = n2"
  "fileinfo1 (text_files_format n1 n2 fi1 fi2 ls1 ls2) = Some fi1" "fileinfo2 (text_files_format n1 n2 fi1 fi2 ls1 ls2) = Some fi2"
  "file1 (text_files_format n1 n2 fi1 fi2 ls1 ls2) = ls1" "file2 (text_files_format n1 n2 fi1 fi2 ls1 ls2) = ls2"
  "\<not> header_printed (text_files_format n1 n2 fi1 fi2 ls1 ls2)"
  by (simp_all add: text_files_format_def new_format_def)

lemma kept_full: "length c = length xs \<Longrightarrow> kept xs c = xs \<Longrightarrow> True \<notin> set c"
proof (induction xs arbitrary: c)
  case (Cons x xs)
  then obtain b c' where c: "c = b # c'" "length c' = length xs" by (cases c) auto
  have "\<not> b" using Cons.prems(2) c length_kept_le [of xs c'] by (auto split: if_splits)
  then show ?case using Cons.IH [OF c(2)] Cons.prems(2) c(1) by simp
qed simp

lemma unmarked_no_changes:
  assumes r: "reported_upto d1 d2 c1 c2 (length c1) (length c2) vs" and u: "True \<notin> set c1 \<union> set c2"
  shows "changes vs = []"
proof (rule ccontr)
  assume "changes vs \<noteq> []"
  then obtain v where v: "v \<in> set (changes vs)" by (cases "changes vs") auto
  have "ops_ok 0 0 (int (length c1)) (int (length c2)) (changes vs)" using r by (simp add: reported_upto_def ops_ok_changes)
  from ops_ok_bounds [OF this v] have b: "0 \<le> start1 v" "end1 v \<le> int (length c1)" "0 \<le> start2 v" "end2 v \<le> int (length c2)"
    by auto
  have "op_marked c1 c2 v" using r v by (simp add: reported_upto_def)
  then have m: "start1 v < end1 v \<or> start2 v < end2 v" "marked_between c1 (start1 v) (end1 v)" "marked_between c2 (start2 v) (end2 v)"
    by (auto simp: op_marked_def)
  show False
  proof (cases "start1 v < end1 v")
    case True
    then have "c1 ! nat (start1 v)" "nat (start1 v) < length c1" using m(2) b by (auto simp: marked_between_def)
    then show False using u by (metis UnI1 nth_mem)
  next
    case False
    then have "c2 ! nat (start2 v)" "nat (start2 v) < length c2" using m(1,3) b by (auto simp: marked_between_def)
    then show False using u by (metis UnI2 nth_mem)
  qed
qed

lemma diff_text_files_Some:
  assumes ctx: "0 \<le> context_lines fl"
  obtains gs num c1 c2 where
    "diff_text_files fl low n1 n2 fi1 fi2 ls1 ls2 tr = Some (tr @ report_trace fl low (text_files_format n1 n2 fi1 fi2 ls1 ls2) gs)"
    and "[] \<notin> set gs" and "gs \<noteq> [] \<longleftrightarrow> changes (concat gs) \<noteq> []"
    and "reported_upto (map num ls1) (map num ls2) c1 c2 (length ls1) (length ls2) (concat gs)"
    and "\<forall>a \<in> set ls1 \<union> set ls2. \<forall>b \<in> set ls1 \<union> set ls2. num a = num b \<longleftrightarrow> choose_compare_line fl low a b"
    and "\<forall>a \<in> set ls1 \<union> set ls2. num a = (0 :: int) \<longleftrightarrow> cmp_ignore_blank_lines fl \<and> choose_compare_line fl low a []"
    and "length c1 = length ls1" and "length c2 = length ls2"
    and "kept (map num ls1) c1 = kept (map num ls2) c2" and "map num ls1 = map num ls2 \<longrightarrow> gs = []"
proof -
  let ?chg = "text_files_format n1 n2 fi1 fi2 ls1 ls2"
  obtain i1 i2 num where l: "line_changes fl (choose_compare_line fl low) (choose_compute_hash fl low) ls1 ls2 = Some (i1, i2)"
    "ids i1 = map num ls1" "ids i2 = map num ls2" "length (change i1) = length ls1" "length (change i2) = length ls2"
    "kept (ids i1) (change i1) = kept (ids i2) (change i2)"
    "\<forall>a \<in> set ls1 \<union> set ls2. \<forall>b \<in> set ls1 \<union> set ls2. num a = num b \<longleftrightarrow> choose_compare_line fl low a b"
    "\<forall>a \<in> set ls1 \<union> set ls2. num a = 0 \<longleftrightarrow> cmp_ignore_blank_lines fl \<and> choose_compare_line fl low a []"
    "map num ls1 = map num ls2 \<longrightarrow> True \<notin> set (change i1) \<union> set (change i2)"
    using choice.line_changes_Some [of fl fl low ls1 ls2] by blast
  obtain c1 where c1: "shift_boundaries (ids i1) (change i1) None = Some c1" "length c1 = length ls1"
    "kept (ids i1) c1 = kept (ids i1) (change i1)" using shift_boundaries_Some [of "change i1" "ids i1" None] l(2,4) by auto
  obtain c2 where c2: "shift_boundaries (ids i2) (change i2) None = Some c2" "length c2 = length ls2"
    "kept (ids i2) c2 = kept (ids i2) (change i2)" using shift_boundaries_Some [of "change i2" "ids i2" None] l(3,5) by auto
  have k: "kept (map num ls1) c1 = kept (map num ls2) c2" using c1(3) c2(3) l(2,3,6) by simp
  obtain gs b1 b2 where r: "report_diff (context_lines fl) (choose_diff_lines fl low) (map num ls1) (map num ls2) c1 c2 (?chg, tr) =
      Some (gs \<noteq> [], with_bufs ?chg b1 b2 (gs \<noteq> []),
        tr @ (if gs = [] then [] else format_header fl ?chg) @ concat (map (format_group fl low ?chg) gs))"
    "[] \<notin> set gs" "reported_upto (map num ls1) (map num ls2) c1 c2 (length ls1) (length ls2) (concat gs)"
    "gs \<noteq> [] \<longleftrightarrow> changes (concat gs) \<noteq> []"
    using chosen.report_diff_prints [of "map num ls1" ?chg "map num ls2" c1 c2 "context_lines fl" fl low tr] c1(2) c2(2) k ctx by auto
  have "diff_text_files fl low n1 n2 fi1 fi2 ls1 ls2 tr = Some (tr @ report_trace fl low ?chg gs)"
    unfolding diff_text_files_def l(1) bind.bind_lunit prod.case l(2,3) c1(1) [unfolded l(2)] c2(1) [unfolded l(3)]
      Let_def text_files_format_def [symmetric] r(1)
    using message_append [of fl n1 n2 "Some fi1" "Some fi2" MSG_FILE_IDENTICAL MSG_FILE_IDENTICAL False tr]
    by (simp add: report_trace_def release_eq)
  moreover have "gs = []" if "map num ls1 = map num ls2"
  proof -
    have "change i1 = replicate (length ls1) False" "change i2 = replicate (length ls2) False"
      using l(4,5,9) that by (auto intro!: nth_equalityI dest: nth_mem)
    then have "True \<notin> set c1 \<union> set c2"
      using kept_full [of c1 "map num ls1"] kept_full [of c2 "map num ls2"] c1 c2 l(2,3) by (auto simp: kept_False)
    then show ?thesis using unmarked_no_changes [of "map num ls1" "map num ls2" c1 c2] r(3,4) c1(2) c2(2) by auto
  qed
  ultimately show thesis using r(2-4) l(7,8) c1(2) c2(2) k by (intro that [of gs num c1 c2]) auto
qed


lemma sl_map: "sl (map f xs) a b = map f (sl xs a b)"
  by (simp add: sl_def take_map drop_map)

lemma patch_upto_map: "patch_upto (map f l1) (map f l2) i p vs = map f (patch_upto l1 l2 i p vs)"
  by (induction vs arbitrary: p) (simp_all add: sl_map)

lemma set_patch: "set (patch_upto l1 l2 i p vs) \<subseteq> set l1 \<union> set l2"
proof (induction vs arbitrary: p)
  have sl: "set (sl xs a b) \<subseteq> set xs" for xs :: "'a list" and a b
    unfolding sl_def by (meson set_take_subset set_drop_subset subset_trans)
  case Nil
  show ?case using sl by auto
  case (Cons v vs)
  then show ?case using sl by fastforce
qed

lemma map_num_eq_iff:
  assumes "\<forall>a \<in> A. \<forall>b \<in> A. num a = num b \<longleftrightarrow> cmp a b" and "set xs \<subseteq> A" and "set ys \<subseteq> A"
  shows "map num xs = map num ys \<longleftrightarrow> list_all2 cmp xs ys"
proof
  assume m: "map num xs = map num ys"
  then have l: "length xs = length ys" by (rule map_eq_imp_length_eq)
  have "cmp (xs ! k) (ys ! k)" if "k < length xs" for k
    using that m l assms by (metis nth_map nth_mem subsetD)
  then show "list_all2 cmp xs ys" using l by (simp add: list_all2_conv_all_nth)
next
  assume "list_all2 cmp xs ys"
  then show "map num xs = map num ys"
    using assms by (auto simp: list_all2_conv_all_nth intro!: nth_equalityI) (metis nth_mem subsetD)
qed

text \<open>
  C1. What is reported is a patch. For any two texts, all four output formats and all flags but the one that
  ignores blank lines: nothing panics; all that is written is the header, the groups of operations in the chosen
  format and the end; the operations are in range and in order; and the lines of the second text put in place of
  those of the first where an operation is a change give, line by line, the second text, under the comparison in
  use. No change is reported if and only if the two texts compare equal.
\<close>

theorem report_is_a_patch:
  assumes "0 \<le> context_lines fl" and "\<not> cmp_ignore_blank_lines fl"
  shows "\<exists>gs. diff_text_files fl low n1 n2 fi1 fi2 ls1 ls2 tr =
      Some (tr @ report_trace fl low (text_files_format n1 n2 fi1 fi2 ls1 ls2) gs) \<and>
    ops_ok 0 0 (int (length ls1)) (int (length ls2)) (concat gs) \<and>
    list_all2 (choose_compare_line fl low) (patch (changes (concat gs)) ls1 ls2) ls2 \<and>
    (gs = [] \<longleftrightarrow> list_all2 (choose_compare_line fl low) ls1 ls2)"
proof -
  obtain gs num c1 c2 where *: "diff_text_files fl low n1 n2 fi1 fi2 ls1 ls2 tr =
      Some (tr @ report_trace fl low (text_files_format n1 n2 fi1 fi2 ls1 ls2) gs)"
    "[] \<notin> set gs" "gs \<noteq> [] \<longleftrightarrow> changes (concat gs) \<noteq> []"
    "reported_upto (map num ls1) (map num ls2) c1 c2 (length ls1) (length ls2) (concat gs)"
    "\<forall>a \<in> set ls1 \<union> set ls2. \<forall>b \<in> set ls1 \<union> set ls2. num a = num b \<longleftrightarrow> choose_compare_line fl low a b"
    "\<forall>a \<in> set ls1 \<union> set ls2. num a = (0 :: int) \<longleftrightarrow> cmp_ignore_blank_lines fl \<and> choose_compare_line fl low a []"
    "length c1 = length ls1" "length c2 = length ls2" "kept (map num ls1) c1 = kept (map num ls2) c2"
    "map num ls1 = map num ls2 \<longrightarrow> gs = []"
    by (rule diff_text_files_Some [OF assms(1), of low n1 n2 fi1 fi2 ls1 ls2 tr])
  have "0 \<notin> set (map num ls1) \<union> set (map num ls2)" using *(6) assms(2) by auto
  then have "map num (patch (changes (concat gs)) ls1 ls2) = map num ls2"
    using *(4) by (simp add: reported_upto_def patch_def patch_upto_map)
  then have p: "list_all2 (choose_compare_line fl low) (patch (changes (concat gs)) ls1 ls2) ls2"
    using map_num_eq_iff [OF *(5)] set_patch [of ls1 ls2] by (simp add: patch_def)
  have "gs = [] \<longleftrightarrow> list_all2 (choose_compare_line fl low) ls1 ls2"
  proof
    assume "gs = []"
    then show "list_all2 (choose_compare_line fl low) ls1 ls2" using p by (simp add: patch_def sl_def)
  next
    assume "list_all2 (choose_compare_line fl low) ls1 ls2"
    then show "gs = []" using *(10) map_num_eq_iff [OF *(5), of ls1 ls2] by simp
  qed
  then show ?thesis using *(1,4) p by (auto simp: reported_upto_def)
qed

definition example_os :: Os where
  "example_os = \<lparr>os_Open = (\<lambda>n. if n = ''missing'' then Inl ''no such file'' else Inr ()),
     os_Read = (\<lambda>n m. Inr (take (nat m) n)), gzip_ReadAll = (\<lambda>n. Inl ''not gzip''), bzip2_ReadAll = (\<lambda>n. Inr n),
     os_Mmap = (\<lambda>n m. Inr ([CHR 0x00] @ n))\<rparr>"

definition example_info :: "bytes \<Rightarrow> int \<Rightarrow> FileInfo" where
  "example_info n m = \<lparr>fi_Name = n, fi_Size = m, fi_ModTime = ''now'', fi_IsDir = False\<rparr>"

theorem report_is_a_patch_witness:
  "\<exists>gs. diff_text_files default_flags id ''f'' ''g'' (example_info ''f'' 3) (example_info ''g'' 3) [''a'', ''b''] [''a'', ''c''] [] =
      Some (report_trace default_flags id (text_files_format ''f'' ''g'' (example_info ''f'' 3) (example_info ''g'' 3) [''a'', ''b''] [''a'', ''c'']) gs) \<and>
    patch (changes (concat gs)) [''a'', ''b''] [''a'', ''c''] = [''a'', ''c''] \<and> gs \<noteq> []"
proof -
  have f: "0 \<le> context_lines default_flags" "\<not> cmp_ignore_blank_lines default_flags" by (simp_all add: default_flags_def)
  have c: "choose_compare_line default_flags id = (=)" by (simp add: choose_compare_line_def default_flags_def)
  have e: "list_all2 (=) xs ys \<longleftrightarrow> xs = ys" for xs ys :: "bytes list" by (simp add: list.rel_eq)
  show ?thesis
    using report_is_a_patch [OF f, of id "''f''" "''g''" "example_info ''f'' 3" "example_info ''g'' 3" "[''a'', ''b'']" "[''a'', ''c'']" "[]"] unfolding c e by auto
qed

lemma diff_file_Some:
  assumes "0 \<le> context_lines fl"
  obtains xs bl ys ws where "diff_file fl low os n1 n2 fi1 fi2 tr = Some (tr @ xs @ bl @ ys)"
    and "balanced (xs @ bl @ ys)" and "only_files xs" and "only_files ys" and "bl = [] \<or> bl = block fl ws"
proof -
  obtain f1 f2 xs1 xs2 where f1: "open_file os n1 fi1 tr = (f1, tr @ xs1)" "open_actions f1 xs1"
    and f2: "open_file os n2 fi2 (tr @ xs1) = (f2, (tr @ xs1) @ xs2)" "open_actions f2 xs2"
    using open_file_actions [of os n1 fi1 tr] open_file_actions [of os n2 fi2] by (metis prod.collapse)
  have msg: "\<exists>ws. output_diff_message fl n1 n2 (Some fi1) (Some fi2) m1 m2 e t = t @ block fl ws" for m1 m2 e t
    by (simp add: output_diff_message_def message_block)
  have texts: "\<exists>bl ws. diff_text_files fl low n1 n2 fi1 fi2 ls1 ls2 t = Some (t @ bl) \<and> (bl = [] \<or> bl = block fl ws)" for ls1 ls2 t
  proof (rule diff_text_files_Some [OF assms, of low n1 n2 fi1 fi2 ls1 ls2 t])
    fix gs
    assume "diff_text_files fl low n1 n2 fi1 fi2 ls1 ls2 t = Some (t @ report_trace fl low (text_files_format n1 n2 fi1 fi2 ls1 ls2) gs)"
    then show "\<exists>bl ws. diff_text_files fl low n1 n2 fi1 fi2 ls1 ls2 t = Some (t @ bl) \<and> (bl = [] \<or> bl = block fl ws)"
      using report_trace_block by blast
  qed
  have "\<exists>g1 g2 bl ws. diff_opened fl low n1 n2 fi1 fi2 f1 f2 t = Some (g1, g2, t @ bl) \<and> same_file f1 g1 \<and> same_file f2 g2 \<and>
      (bl = [] \<or> bl = block fl ws)" for t
  proof -
    obtain g1 ls1 where g1: "Filedata_split_lines f1 = (g1, ls1)" "same_file f1 g1"
      by (cases "split_lines (data_of f1)") (auto simp: Filedata_split_lines_def same_file_def)
    obtain g2 ls2 where g2: "Filedata_split_lines f2 = (g2, ls2)" "same_file f2 g2"
      by (cases "split_lines (data_of f2)") (auto simp: Filedata_split_lines_def same_file_def)
    have r: "same_file f1 f1" "same_file f2 f2" by (simp_all add: same_file_def)
    note open_eq = diff_opened_def Let_def g1(1) g2(1) prod.case
    show ?thesis
    proof (cases "fd_errormsg f1 \<noteq> [] \<or> fd_errormsg f2 \<noteq> []")
      case True
      obtain ws where "output_diff_message fl n1 n2 (Some fi1) (Some fi2) (fd_errormsg f1) (fd_errormsg f2) True t = t @ block fl ws"
        using msg by blast
      then show ?thesis using r True unfolding open_eq by auto
    next
      case noerr: False
      show ?thesis
      proof (cases "data_of f1 = data_of f2")
        case True
        obtain ws where "output_diff_message fl n1 n2 (Some fi1) (Some fi2) MSG_FILE_IDENTICAL MSG_FILE_IDENTICAL False t = t @ block fl ws"
          using msg by blast
        then show ?thesis using r True noerr unfolding open_eq by (cases "show_identical_files fl") auto
      next
        case False
        define m where "m b = (if b then MSG_BIN_FILE_DIFFERS else MSG_FILE_DIFFERS)" for b
        obtain ws where w: "output_diff_message fl n1 n2 (Some fi1) (Some fi2) (m (fd_is_binary g1)) (m (fd_is_binary g2)) True t = t @ block fl ws"
          using msg by blast
        have m: "m b \<noteq> []" for b by (simp add: m_def msg_defs)
        obtain bl ws' where bl: "diff_text_files fl low n1 n2 fi1 fi2 ls1 ls2 t = Some (t @ bl)" "bl = [] \<or> bl = block fl ws'"
          using texts by blast
        show ?thesis
        proof (cases "fd_is_binary g1 \<or> fd_is_binary g2")
          case True
          then have "diff_opened fl low n1 n2 fi1 fi2 f1 f2 t = Some (g1, g2, t @ block fl ws)"
            using noerr False w m unfolding open_eq m_def by simp
          then show ?thesis using g1(2) g2(2) by blast
        next
          case nobin: False
          then have "diff_opened fl low n1 n2 fi1 fi2 f1 f2 t = Some (g1, g2, t @ bl)"
            using noerr False bl(1) unfolding open_eq by simp
          then show ?thesis using g1(2) g2(2) bl(2) by blast
        qed
      qed
    qed
  qed
  then obtain g1 g2 bl ws where d: "diff_opened fl low n1 n2 fi1 fi2 f1 f2 ((tr @ xs1) @ xs2) = Some (g1, g2, ((tr @ xs1) @ xs2) @ bl)"
    "same_file f1 g1" "same_file f2 g2" "bl = [] \<or> bl = block fl ws" by blast
  let ?t = "xs1 @ xs2 @ bl @ close_actions g2 @ close_actions g1"
  have "diff_file fl low os n1 n2 fi1 fi2 tr = Some (tr @ ?t)"
    using f1(1) f2(1) d(1) close_file_actions [of g2] close_file_actions [of g1]
    by (simp add: diff_file_def Let_def case_prod_beta)
  moreover have "open_actions g1 xs1" "open_actions g2 xs2" using f1(2) f2(2) d(2,3) same_file_actions by blast+
  moreover from this have "balanced (xs1 @ close_actions g1)" "balanced (xs2 @ close_actions g2)" by (simp_all add: open_close_balanced)
  moreover have "only_output bl" using d(4) only_output_block by (auto simp: only_output_def)
  ultimately have "diff_file fl low os n1 n2 fi1 fi2 tr = Some (tr @ ?t)" "balanced ?t"
    "only_files (xs1 @ xs2)" "only_files (close_actions g2 @ close_actions g1)"
    using balanced_nest by (simp_all add: only_files_actions)
  then show thesis using d(4) by (intro that [of "xs1 @ xs2" bl "close_actions g2 @ close_actions g1" ws]) simp_all
qed

text \<open>
  C2. Comparing two files leaves nothing behind. Whatever the operating system answers, \<open>diff_file\<close>
  does not panic, it closes every file that it opened and unmaps every file that it mapped, and all that it writes, if
  anything, is one block under the output lock (when several goroutines share the output).
\<close>

theorem diff_file_one_block:
  assumes "0 \<le> context_lines fl"
  shows "\<exists>tr' ws. diff_file fl low os n1 n2 fi1 fi2 tr = Some (tr @ tr') \<and> balanced tr' \<and>
    (output_of tr' = [] \<or> output_of tr' = block fl ws)"
proof (rule diff_file_Some [OF assms, of low os n1 n2 fi1 fi2 tr])
  fix xs bl ys ws
  assume *: "diff_file fl low os n1 n2 fi1 fi2 tr = Some (tr @ xs @ bl @ ys)" "balanced (xs @ bl @ ys)"
    "only_files xs" "only_files ys" "bl = [] \<or> bl = block fl ws"
  then have "output_of (xs @ bl @ ys) = bl"
    using only_output_block [of fl ws] by (auto simp: only_files_output only_output_eq)
  then show ?thesis using * by (intro exI [of _ "xs @ bl @ ys"] exI [of _ ws]) simp
qed


theorem diff_file_one_block_witness:
  "\<exists>tr' ws. diff_file (default_flags\<lparr>max_goroutines := 2\<rparr>) id example_os ''a.gz'' ''b'' (example_info ''a.gz'' 4) (example_info ''b'' 1) [] =
     Some tr' \<and> balanced tr' \<and> (output_of tr' = [] \<or> output_of tr' = Lock # map Write ws @ [Unlock])"
proof -
  have "0 \<le> context_lines (default_flags\<lparr>max_goroutines := 2\<rparr>)" by (simp add: default_flags_def)
  from diff_file_one_block [OF this, of id example_os "''a.gz''" "''b''" "example_info ''a.gz'' 4" "example_info ''b'' 1" "[]"]
  show ?thesis by (simp add: block_def)
qed

text \<open>
  The preview of a file that is missing on the other side checks for a binary file between opening and closing. A
  file that is mapped and binary loses its data there, and is then closed without being unmapped.
\<close>

lemma mapped_binary_stays_mapped:
  "(let (f, tr) = open_file example_os ''b'' (example_info ''b'' 10000) []
    in snd (close_file (check_binary f) tr)) = [OpenFile ''b'', MapFile ''b'', CloseFile ''b'']"
  by (simp add: example_os_def example_info_def open_file_def HasSuffix_def HasPrefix_def has_mmap_def MMAP_THRESHOLD_def
    check_binary_def close_file_def BINARY_CHECK_SIZE_def)


end
