(* ===== verification/Xdiff_Dirs.thy ===== *)
theory Xdiff_Dirs
  imports Xdiff_File "HOL-Library.List_Lexorder" "HOL-Library.Char_ord"
begin

text \<open>
  Comparing two directories (\<open>read_sorted_dir\<close>, \<open>diff_dirs\<close>, \<open>queue_diff_file\<close> and the entry points
  \<open>Xdiff\<close> and \<open>XdiffToString\<close> of \<open>xdiff.go\<close>).

  The operating system also answers \<open>Readdir\<close> and \<open>Stat\<close>; a name that cannot be opened or read as a
  directory gives the error message. \<open>exclude\<close> is \<open>regexp_exclude_files\<close>. \<open>diff_dirs\<close> calls itself for the
  subdirectories; \<open>n\<close> bounds the depth, and \<^term>\<open>None\<close> for a depth that is not enough stands for a
  recursion that goes on.

  Shown: the two index loops visit the entries of both directories that are not hidden like a merge of two sorted
  lists, so that every name is treated once, in order, first the files and then the directories; the two branches
  for a name that is a file on one side and a directory on the other are never reached; and for a finite
  directory tree everything ends without a panic.
\<close>

section \<open>Directories\<close>

record DirOs = Os +
  os_Readdir :: "bytes \<Rightarrow> bytes + FileInfo list"
  os_Stat :: "bytes \<Rightarrow> bytes + FileInfo"
  os_Create :: "bytes \<Rightarrow> bytes + unit"
  os_Now :: bytes

definition read_sorted_dir :: "DirOs \<Rightarrow> (bytes \<Rightarrow> bool) option \<Rightarrow> bytes \<Rightarrow> bytes + FileInfo list" where
  "read_sorted_dir os exclude dirname =
     (case os_Readdir os dirname of
        Inl err \<Rightarrow> Inl err
      | Inr all \<Rightarrow>
          (let all = (case exclude of
                        Some matches \<Rightarrow> (if all \<noteq> [] then filter (\<lambda>f. \<not> matches (fi_Name f)) all else all)
                      | None \<Rightarrow> all)
           in Inr (sort_key fi_Name all)))"

definition TrimRight :: "bytes \<Rightarrow> char \<Rightarrow> bytes" where
  "TrimRight s c = rev (dropWhile (\<lambda>x. x = c) (rev s))"

definition join_path :: "bytes \<Rightarrow> bytes \<Rightarrow> bytes" where
  "join_path dirname name = dirname @ ''/'' @ name"

definition queue_diff_file :: "bytes \<Rightarrow> bytes \<Rightarrow> FileInfo \<Rightarrow> FileInfo \<Rightarrow> trace \<Rightarrow> trace" where
  "queue_diff_file fname1 fname2 finfo1 finfo2 tr = tr @ [AddJob, QueueJob fname1 fname2 finfo1 finfo2]"

text \<open>What does not change during a comparison.\<close>

record Context =
  cx_flags :: Flags
  cx_ToLower :: "nat \<Rightarrow> nat"
  cx_os :: DirOs
  cx_exclude :: "(bytes \<Rightarrow> bool) option"

definition dir_message ::
  "Context \<Rightarrow> bytes \<Rightarrow> bytes \<Rightarrow> FileInfo option \<Rightarrow> FileInfo option \<Rightarrow> bytes \<Rightarrow> bytes \<Rightarrow> bool \<Rightarrow> trace \<Rightarrow> trace"
where
  "dir_message cx = output_diff_message (cx_flags cx)"

text \<open>
  The three branches of the loop: the name is on both sides, on the left only, on the right only.
  \<open>subdirs\<close> is \<open>diff_dirs\<close>.
\<close>

type_synonym subdirs = "bytes \<Rightarrow> bytes \<Rightarrow> FileInfo \<Rightarrow> FileInfo \<Rightarrow> trace \<Rightarrow> trace option"

definition dir_both ::
  "Context \<Rightarrow> subdirs \<Rightarrow> bool \<Rightarrow> bytes \<Rightarrow> bytes \<Rightarrow> FileInfo \<Rightarrow> FileInfo \<Rightarrow> trace \<Rightarrow> trace option"
where
  "dir_both cx subdirs dir_mode dirname1 dirname2 f1 f2 tr =
     (let path1 = join_path dirname1 (fi_Name f1); path2 = join_path dirname2 (fi_Name f2) in
      if fi_IsDir f1 \<noteq> fi_IsDir f2 then
        Some (if \<not> dir_mode then
                if fi_IsDir f1 then dir_message cx path1 path2 (Some f1) (Some f2) MSG_THIS_IS_DIR MSG_THIS_IS_FILE True tr
                else dir_message cx path1 path2 (Some f1) (Some f2) MSG_THIS_IS_FILE MSG_THIS_IS_DIR True tr
              else tr)
      else if dir_mode then subdirs path1 path2 f1 f2 tr
      else if max_goroutines (cx_flags cx) > 1 then Some (queue_diff_file path1 path2 f1 f2 tr)
      else diff_file (cx_flags cx) (cx_ToLower cx) (Os.truncate (cx_os cx)) path1 path2 f1 f2 tr)"

definition dir_only1 :: "Context \<Rightarrow> bool \<Rightarrow> bytes \<Rightarrow> bytes \<Rightarrow> FileInfo \<Rightarrow> trace \<Rightarrow> trace" where
  "dir_only1 cx dir_mode dirname1 dirname2 f1 tr =
     (let path1 = join_path dirname1 (fi_Name f1); path2 = join_path dirname2 (fi_Name f1) in
      if dir_mode then dir_message cx path1 path2 (Some f1) None [] MSG_DIR_NOT_EXISTS True tr
      else if suppress_missing_file (cx_flags cx) then
        dir_message cx path1 path2 (Some f1) None [] MSG_FILE_NOT_EXISTS True tr
      else
        (let (fdata, tr) = open_file (Os.truncate (cx_os cx)) path1 f1 tr;
             fdata = check_binary fdata;
             msg = fd_errormsg fdata;
             (fdata, lines) = Filedata_split_lines fdata;
             tr = output_diff_message_content (cx_flags cx) path1 path2 (Some f1) None msg MSG_FILE_NOT_EXISTS lines [] True tr
         in snd (close_file fdata tr)))"

definition dir_only2 :: "Context \<Rightarrow> bool \<Rightarrow> bytes \<Rightarrow> bytes \<Rightarrow> FileInfo \<Rightarrow> trace \<Rightarrow> trace" where
  "dir_only2 cx dir_mode dirname1 dirname2 f2 tr =
     (let path1 = join_path dirname1 (fi_Name f2); path2 = join_path dirname2 (fi_Name f2) in
      if dir_mode then dir_message cx path1 path2 None (Some f2) MSG_DIR_NOT_EXISTS [] True tr
      else if suppress_missing_file (cx_flags cx) then
        dir_message cx path1 path2 None (Some f2) MSG_FILE_NOT_EXISTS [] True tr
      else
        (let (fdata, tr) = open_file (Os.truncate (cx_os cx)) path2 f2 tr;
             fdata = check_binary fdata;
             msg = fd_errormsg fdata;
             (fdata, lines) = Filedata_split_lines fdata;
             tr = output_diff_message_content (cx_flags cx) path1 path2 None (Some f2) MSG_FILE_NOT_EXISTS msg [] lines True tr
         in snd (close_file fdata tr)))"

text \<open>The inner loop, for the files (\<open>dir_mode\<close> false) or for the directories.\<close>

definition skipped :: "bool \<Rightarrow> FileInfo option \<Rightarrow> bool" where
  "skipped dir_mode e = (case e of None \<Rightarrow> False
     | Some f \<Rightarrow> fi_IsDir f \<noteq> dir_mode \<or> HasPrefix (fi_Name f) ''.'')"

definition entry_name :: "FileInfo option \<Rightarrow> bytes" where
  "entry_name e = (case e of None \<Rightarrow> [] | Some f \<Rightarrow> fi_Name f)"

definition entry :: "FileInfo list \<Rightarrow> nat \<Rightarrow> FileInfo option" where
  "entry dir i = (if i < length dir then Some (dir ! i) else None)"

function dir_loop ::
  "Context \<Rightarrow> subdirs \<Rightarrow> bool \<Rightarrow> bytes \<Rightarrow> bytes \<Rightarrow> FileInfo list \<Rightarrow> FileInfo list \<Rightarrow> nat \<Rightarrow> nat \<Rightarrow> trace \<Rightarrow> trace option"
where
  "dir_loop cx subdirs dir_mode dirname1 dirname2 dir1 dir2 i1 i2 tr =
     (if i1 < length dir1 \<or> i2 < length dir2 then
        (if skipped dir_mode (entry dir1 i1) then
           dir_loop cx subdirs dir_mode dirname1 dirname2 dir1 dir2 (i1 + 1) i2 tr
         else if skipped dir_mode (entry dir2 i2) then
           dir_loop cx subdirs dir_mode dirname1 dirname2 dir1 dir2 i1 (i2 + 1) tr
         else
           (let name1 = entry_name (entry dir1 i1); name2 = entry_name (entry dir2 i2) in
            if name1 = name2 then
              do { f1 \<leftarrow> idx dir1 (int i1); f2 \<leftarrow> idx dir2 (int i2);
                   tr \<leftarrow> dir_both cx subdirs dir_mode dirname1 dirname2 f1 f2 tr;
                   dir_loop cx subdirs dir_mode dirname1 dirname2 dir1 dir2 (i1 + 1) (i2 + 1) tr }
            else if (i1 < length dir1 \<and> name1 < name2) \<or> i2 \<ge> length dir2 then
              do { f1 \<leftarrow> idx dir1 (int i1);
                   dir_loop cx subdirs dir_mode dirname1 dirname2 dir1 dir2 (i1 + 1) i2
                     (dir_only1 cx dir_mode dirname1 dirname2 f1 tr) }
            else if (i2 < length dir2 \<and> name2 < name1) \<or> i1 \<ge> length dir1 then
              do { f2 \<leftarrow> idx dir2 (int i2);
                   dir_loop cx subdirs dir_mode dirname1 dirname2 dir1 dir2 i1 (i2 + 1)
                     (dir_only2 cx dir_mode dirname1 dirname2 f2 tr) }
            else Some tr))
      else Some tr)"
  by pat_completeness auto
termination
  by (relation "measure (\<lambda>(cx, subdirs, dir_mode, dirname1, dirname2, dir1, dir2, i1, i2, tr).
        (length dir1 - i1) + (length dir2 - i2))") (auto simp: skipped_def entry_def split: if_splits)

declare dir_loop.simps [simp del]

primrec diff_dirs :: "Context \<Rightarrow> nat \<Rightarrow> subdirs" where
  "diff_dirs cx 0 dirname1 dirname2 finfo1 finfo2 tr = None"
| "diff_dirs cx (Suc n) dirname1 dirname2 finfo1 finfo2 tr =
     (let dirname1 = TrimRight dirname1 (CHR ''/''); dirname2 = TrimRight dirname2 (CHR ''/'') in
      case (read_sorted_dir (cx_os cx) (cx_exclude cx) dirname1, read_sorted_dir (cx_os cx) (cx_exclude cx) dirname2) of
        (Inr dir1, Inr dir2) \<Rightarrow>
          do { tr \<leftarrow> dir_loop cx (diff_dirs cx n) False dirname1 dirname2 dir1 dir2 0 0 tr;
               dir_loop cx (diff_dirs cx n) True dirname1 dirname2 dir1 dir2 0 0 tr }
      | (r1, r2) \<Rightarrow>
          (let msg1 = (case r1 of Inl err \<Rightarrow> err | Inr _ \<Rightarrow> []); msg2 = (case r2 of Inl err \<Rightarrow> err | Inr _ \<Rightarrow> [])
           in Some (dir_message cx dirname1 dirname2 (Some finfo1) (Some finfo2) msg1 msg2 True tr)))"

section \<open>The entry points\<close>

definition HTML_HEADER :: bytes where
  "HTML_HEADER =
   ''<!doctype html><html><head>'' @ nl @
   ''<meta http-equiv=\"content-type\" content=\"text/html;charset=utf-8\">''"

definition HTML_CSS :: bytes where
  "HTML_CSS =
   ''<style type=\"text/css\">'' @ nl @
   ''.tab {border-color:#808080; border-style:solid; border-width:1px 1px 1px 1px; border-collapse:collapse;}'' @ nl @
   ''.tth {border-color:#808080; border-style:solid; border-width:1px 1px 1px 1px; border-collapse:collapse; padding:4px; vertical-align:top; text-align:left; background-color:#E0E0E0;}'' @ nl @
   ''.ttd {border-color:#808080; border-style:solid; border-width:1px 1px 1px 1px; border-collapse:collapse; padding:4px; vertical-align:top; text-align:left;}'' @ nl @
   ''.hdr {color:black; font-size:85%;}'' @ nl @
   ''.inf {color:#C08000; font-size:85%;}'' @ nl @
   ''.err {color:red; font-size:85%; font-weight:bold; margin:0;}'' @ nl @
   ''.msg {color:#508050; font-size:85%; font-weight:bold; margin:0;}'' @ nl @
   ''.lno {color:#C08000; background-color:white; font-style:italic; margin:0;}'' @ nl @
   ''.nop {color:black; font-size:75%; font-family:monospace; white-space:pre; margin:0; display:block;}'' @ nl @
   ''.upd {color:black; font-size:75%; font-family:monospace; white-space:pre; margin:0; background-color:#CFCFFF; display:block;}'' @ nl @
   ''.emp {color:black; font-size:75%; font-family:monospace; white-space:pre; margin:0; background-color:#E0E0E0; display:block;}'' @ nl @
   ''.add {color:black; font-size:75%; font-family:monospace; white-space:pre; margin:0; background-color:#CFFFCF; display:block;}'' @ nl @
   ''.del {color:black; font-size:75%; font-family:monospace; white-space:pre; margin:0; background-color:#FFCFCF; display:block;}'' @ nl @
   ''.chg {color:#C00080; background-color:#AFAFDF;}'' @ nl @
   ''</style>''"

definition HTML_LEGEND :: bytes where
  "HTML_LEGEND =
   ''<br><b>Legend:</b><br><table class=\"tab\">'' @ nl @
   ''<tr><td class=\"tth\"><span class=\"hdr\">filename 1</span></td><td class=\"tth\"><span class=\"hdr\">filename 2</span></td></tr>'' @ nl @
   ''<tr><td class=\"ttd\">'' @ nl @
   ''<span class=\"del\"><span class=\"lno\">1 </span>line deleted</span>'' @ nl @
   ''<span class=\"nop\"><span class=\"lno\">2 </span>no change</span>'' @ nl @
   ''<span class=\"upd\"><span class=\"lno\">3 </span>line modified</span>'' @ nl @
   ''</td>'' @ nl @
   ''<td class=\"ttd\">'' @ nl @
   ''<span class=\"add\"><span class=\"lno\">1 </span>line added</span>'' @ nl @
   ''<span class=\"nop\"><span class=\"lno\">2 </span>no change</span>'' @ nl @
   ''<span class=\"upd\"><span class=\"lno\">3 </span><span class=\"chg\">L</span>ine <span class=\"chg\">M</span>odified</span>'' @ nl @
   ''</td></tr>'' @ nl @
   ''</table>'' @ nl"

definition VERSION :: bytes where "VERSION = ''0.1''"

text \<open>
  The two entry points differ in where the output goes and in how the file names are marked in the title:
  \<open>before\<close> and \<open>after\<close>. What is printed to the standard error output is left out. The goroutines that
  \<open>job_queue_init\<close> starts take the queued jobs; waiting for them is the action \<open>WaitJobs\<close>.
\<close>

definition job_queue_finish :: "Flags \<Rightarrow> trace \<Rightarrow> trace" where
  "job_queue_finish fl tr = (if max_goroutines fl > 1 then tr @ [WaitJobs] else tr)"

definition html_start :: "Flags \<Rightarrow> bytes \<Rightarrow> bytes \<Rightarrow> bytes \<Rightarrow> bytes \<Rightarrow> trace" where
  "html_start fl before after f1 f2 =
     (if \<not> output_as_text fl then
        [Write HTML_HEADER,
         Write (''<title>Compare '' @ EscapeString f1 @ '' vs '' @ EscapeString f2 @ ''</title>'' @ nl),
         Write HTML_CSS, Write (''</head><body>'' @ nl),
         Write (''<p>XDIFF version: '' @ VERSION @ ''<hr>=====>&nbsp;'' @ before @ EscapeString f1 @ after @
                ''<br> DIFF <br>=====>&nbsp;'' @ before @ EscapeString f2 @ after @ ''</p>'' @ nl)]
      else [])"

definition html_end :: "Flags \<Rightarrow> bytes \<Rightarrow> trace" where
  "html_end fl now =
     (if \<not> output_as_text fl
      then [Write (''Generated on '' @ now @ ''<br>''), Write HTML_LEGEND, Write (''</body></html>'' @ nl)] else [])"

definition stat_both :: "DirOs \<Rightarrow> bytes \<Rightarrow> bytes \<Rightarrow> bytes + FileInfo \<times> FileInfo" where
  "stat_both os f1 f2 =
     (case (os_Stat os f1, os_Stat os f2) of
        (Inr finfo1, Inr finfo2) \<Rightarrow>
          (if fi_IsDir finfo1 \<noteq> fi_IsDir finfo2 then Inl ''Unable to compare file and directory'' else Inr (finfo1, finfo2))
      | _ \<Rightarrow> Inl (''file1['' @ f1 @ ''] or file2['' @ f2 @ ''] stat error.''))"

definition compare_both :: "Context \<Rightarrow> nat \<Rightarrow> bytes \<Rightarrow> bytes \<Rightarrow> FileInfo \<Rightarrow> FileInfo \<Rightarrow> trace \<Rightarrow> trace option" where
  "compare_both cx n f1 f2 finfo1 finfo2 tr =
     (if \<not> fi_IsDir finfo1 \<and> \<not> fi_IsDir finfo2
      then diff_file (cx_flags cx) (cx_ToLower cx) (Os.truncate (cx_os cx)) f1 f2 finfo1 finfo2 tr
      else if fi_IsDir finfo1 \<and> fi_IsDir finfo2
      then do { tr \<leftarrow> diff_dirs cx n f1 f2 finfo1 finfo2 tr; Some (job_queue_finish (cx_flags cx) tr) }
      else Some tr)"

definition XdiffToString :: "Context \<Rightarrow> nat \<Rightarrow> bytes \<Rightarrow> bytes \<Rightarrow> (bytes + trace) option" where
  "XdiffToString cx n f1 f2 =
     (case stat_both (cx_os cx) f1 f2 of
        Inl err \<Rightarrow> Some (Inl err)
      | Inr (finfo1, finfo2) \<Rightarrow>
          do { let tr = html_start (cx_flags cx) ''<strong><font color=\"#e68a00\">'' ''</font></strong>'' f1 f2;
               tr \<leftarrow> compare_both cx n f1 f2 finfo1 finfo2 tr;
               Some (Inr (tr @ html_end (cx_flags cx) (os_Now (cx_os cx)))) })"

definition Xdiff :: "Context \<Rightarrow> nat \<Rightarrow> bytes \<Rightarrow> bytes \<Rightarrow> bytes \<Rightarrow> (bytes + trace) option" where
  "Xdiff cx n f1 f2 output =
     (case stat_both (cx_os cx) f1 f2 of
        Inl err \<Rightarrow> Some (Inl err)
      | Inr (finfo1, finfo2) \<Rightarrow>
          (case (if output = ''stdin'' \<or> output = ''stdout'' then Inr () else os_Create (cx_os cx) output) of
             Inl err \<Rightarrow> Some (Inl err)
           | Inr _ \<Rightarrow>
               do { let tr = html_start (cx_flags cx) ''<strong>'' ''</strong>'' f1 f2;
                    tr \<leftarrow> compare_both cx n f1 f2 finfo1 finfo2 tr;
                    Some (Inr (tr @ html_end (cx_flags cx) (os_Now (cx_os cx)))) }))"

section \<open>The loop is a merge\<close>

definition visible :: "bool \<Rightarrow> FileInfo list \<Rightarrow> FileInfo list" where
  "visible dir_mode dir = filter (\<lambda>f. fi_IsDir f = dir_mode \<and> \<not> HasPrefix (fi_Name f) ''.'') dir"

datatype DirTask = Both FileInfo FileInfo | Only1 FileInfo | Only2 FileInfo

fun merge :: "FileInfo list \<Rightarrow> FileInfo list \<Rightarrow> DirTask list" where
  "merge [] ys = map Only2 ys"
| "merge (x # xs) [] = map Only1 (x # xs)"
| "merge (x # xs) (y # ys) =
     (if fi_Name x = fi_Name y then Both x y # merge xs ys
      else if fi_Name x < fi_Name y then Only1 x # merge xs (y # ys)
      else Only2 y # merge (x # xs) ys)"

fun task_name :: "DirTask \<Rightarrow> bytes" where
  "task_name (Both x y) = fi_Name x" | "task_name (Only1 x) = fi_Name x" | "task_name (Only2 y) = fi_Name y"

definition do_task :: "Context \<Rightarrow> subdirs \<Rightarrow> bool \<Rightarrow> bytes \<Rightarrow> bytes \<Rightarrow> DirTask \<Rightarrow> trace \<Rightarrow> trace option" where
  "do_task cx subdirs dir_mode dirname1 dirname2 t tr =
     (case t of
        Both f1 f2 \<Rightarrow> dir_both cx subdirs dir_mode dirname1 dirname2 f1 f2 tr
      | Only1 f1 \<Rightarrow> Some (dir_only1 cx dir_mode dirname1 dirname2 f1 tr)
      | Only2 f2 \<Rightarrow> Some (dir_only2 cx dir_mode dirname1 dirname2 f2 tr))"

lemma merge_Nil2 [simp]: "merge xs [] = map Only1 xs"
  by (cases xs) simp_all

lemma visible_drop:
  "i < length dir \<Longrightarrow> visible m (drop i dir) =
    (if skipped m (Some (dir ! i)) then visible m (drop (i + 1) dir) else dir ! i # visible m (drop (i + 1) dir))"
  by (simp add: visible_def skipped_def flip: Cons_nth_drop_Suc)

lemma visible_Nil [simp]: "visible m [] = []"
  by (simp add: visible_def)

lemma visible_drop_end [simp]: "\<not> i < length dir \<Longrightarrow> visible m (drop i dir) = []"
  by (simp add: visible_def)

lemma dir_loop_merge:
  assumes "\<forall>f \<in> set dir1 \<union> set dir2. fi_Name f \<noteq> []"
  shows "dir_loop cx subdirs m dn1 dn2 dir1 dir2 i1 i2 tr =
    fold_ops (do_task cx subdirs m dn1 dn2) (merge (visible m (drop i1 dir1)) (visible m (drop i2 dir2))) tr"
proof (induction "(length dir1 - i1) + (length dir2 - i2)" arbitrary: i1 i2 tr rule: less_induct)
  case less
  let ?go = "\<lambda>i1 i2. fold_ops (do_task cx subdirs m dn1 dn2) (merge (visible m (drop i1 dir1)) (visible m (drop i2 dir2)))"
  have IH1: "i1 < length dir1 \<Longrightarrow> dir_loop cx subdirs m dn1 dn2 dir1 dir2 (i1 + 1) i2 t = ?go (i1 + 1) i2 t" for t
    by (rule less) simp
  have IH2: "i2 < length dir2 \<Longrightarrow> dir_loop cx subdirs m dn1 dn2 dir1 dir2 i1 (i2 + 1) t = ?go i1 (i2 + 1) t" for t
    by (rule less) simp
  have IH3: "i1 < length dir1 \<Longrightarrow> i2 < length dir2 \<Longrightarrow>
      dir_loop cx subdirs m dn1 dn2 dir1 dir2 (i1 + 1) (i2 + 1) t = ?go (i1 + 1) (i2 + 1) t" for t
    by (rule less) simp
  have ne: "i1 < length dir1 \<Longrightarrow> fi_Name (dir1 ! i1) \<noteq> []" "i2 < length dir2 \<Longrightarrow> fi_Name (dir2 ! i2) \<noteq> []"
    using assms by auto
  show ?case
  proof (cases "i1 < length dir1"; cases "i2 < length dir2")
    assume l: "i1 < length dir1" "i2 < length dir2"
    show ?thesis
      using l IH1 IH2 IH3
      by (subst dir_loop.simps)
        (auto simp: entry_def visible_drop entry_name_def idx_nat do_task_def Let_def simp del: Suc_eq_plus1
          dest: less_asym intro!: bind_option_cong)
  next
    assume l: "i1 < length dir1" "\<not> i2 < length dir2"
    then show ?thesis
      using IH1 ne by (subst dir_loop.simps)
        (auto simp: entry_def visible_drop entry_name_def idx_nat do_task_def skipped_def)
  next
    assume l: "\<not> i1 < length dir1" "i2 < length dir2"
    then show ?thesis
      using IH2 ne by (subst dir_loop.simps)
        (auto simp: entry_def visible_drop entry_name_def idx_nat do_task_def skipped_def)
  next
    assume l: "\<not> i1 < length dir1" "\<not> i2 < length dir2"
    then show ?thesis by (subst dir_loop.simps) simp
  qed
qed


lemma merge_names:
  "sorted_wrt (<) (map fi_Name xs) \<Longrightarrow> sorted_wrt (<) (map fi_Name ys) \<Longrightarrow>
   sorted_wrt (<) (map task_name (merge xs ys)) \<and>
   set (map task_name (merge xs ys)) = set (map fi_Name xs) \<union> set (map fi_Name ys)"
proof (induction xs ys rule: merge.induct)
  case (1 ys)
  then show ?case by (simp add: sorted_wrt_map image_image)
next
  case (2 x xs)
  then show ?case by (simp add: sorted_wrt_map image_image)
next
  case (3 x xs y ys)
  consider "fi_Name x = fi_Name y" | "fi_Name x < fi_Name y" | "fi_Name y < fi_Name x" by fastforce
  then show ?case
  proof cases
    case 1
    have "sorted_wrt (<) (map task_name (merge xs ys)) \<and>
        set (map task_name (merge xs ys)) = set (map fi_Name xs) \<union> set (map fi_Name ys)"
      by (rule "3.IH"(1) [OF 1]) (use "3.prems" in simp_all)
    moreover have "\<forall>n \<in> fi_Name ` set xs \<union> fi_Name ` set ys. fi_Name x < n" using "3.prems" 1 by auto
    ultimately show ?thesis using 1 by auto
  next
    case 2
    then have "fi_Name x \<noteq> fi_Name y" by simp
    then have "sorted_wrt (<) (map task_name (merge xs (y # ys))) \<and>
        set (map task_name (merge xs (y # ys))) = set (map fi_Name xs) \<union> set (map fi_Name (y # ys))"
      by (rule "3.IH"(2) [OF _ 2]) (use "3.prems" in simp_all)
    moreover have "\<forall>n \<in> fi_Name ` set xs \<union> fi_Name ` set (y # ys). fi_Name x < n" using "3.prems" 2 by fastforce
    ultimately show ?thesis using 2 \<open>fi_Name x \<noteq> fi_Name y\<close> by auto
  next
    case 3
    then have n: "fi_Name x \<noteq> fi_Name y" "\<not> fi_Name x < fi_Name y" by auto
    then have "sorted_wrt (<) (map task_name (merge (x # xs) ys)) \<and>
        set (map task_name (merge (x # xs) ys)) = set (map fi_Name (x # xs)) \<union> set (map fi_Name ys)"
      by (intro "3.IH"(3)) (use "3.prems" in simp_all)
    moreover have "\<forall>n \<in> fi_Name ` set (x # xs) \<union> fi_Name ` set ys. fi_Name y < n" using "3.prems" 3 by fastforce
    ultimately show ?thesis using n by auto
  qed
qed

lemma merge_tasks:
  assumes "t \<in> set (merge xs ys)"
  shows "case t of Both x y \<Rightarrow> x \<in> set xs \<and> y \<in> set ys \<and> fi_Name x = fi_Name y
    | Only1 x \<Rightarrow> x \<in> set xs | Only2 y \<Rightarrow> y \<in> set ys"
  using assms by (induction xs ys rule: merge.induct) (auto split: if_splits DirTask.splits)

lemma merge_covers:
  "(\<forall>x \<in> set xs. Only1 x \<in> set (merge xs ys) \<or> (\<exists>y. Both x y \<in> set (merge xs ys))) \<and>
   (\<forall>y \<in> set ys. Only2 y \<in> set (merge xs ys) \<or> (\<exists>x. Both x y \<in> set (merge xs ys)))"
  by (induction xs ys rule: merge.induct) (auto, metis+)

lemma merge_only:
  assumes "sorted_wrt (<) (map fi_Name xs)" and "sorted_wrt (<) (map fi_Name ys)"
  shows "Only1 x \<in> set (merge xs ys) \<Longrightarrow> fi_Name x \<notin> fi_Name ` set ys"
    and "Only2 y \<in> set (merge xs ys) \<Longrightarrow> fi_Name y \<notin> fi_Name ` set xs"
proof -
  have "sorted_wrt (<) (map task_name (merge xs ys))" using merge_names [OF assms] by simp
  then have "inj_on task_name (set (merge xs ys))" by (simp add: strict_sorted_iff distinct_map)
  then have inj: "t = u" if "t \<in> set (merge xs ys)" "u \<in> set (merge xs ys)" "task_name t = task_name u" for t u
    by (rule inj_onD [OF _ that(3,1,2)])
  show "fi_Name x \<notin> fi_Name ` set ys" if x: "Only1 x \<in> set (merge xs ys)"
  proof
    assume "fi_Name x \<in> fi_Name ` set ys"
    then obtain z where z: "z \<in> set ys" "fi_Name x = fi_Name z" by auto
    from merge_covers [of xs ys] z(1) consider "Only2 z \<in> set (merge xs ys)" | w where "Both w z \<in> set (merge xs ys)" by blast
    then show False
    proof cases
      case 1
      from inj [OF x this] z(2) show False by simp
    next
      case 2
      from inj [OF x this] merge_tasks [OF this] z(2) show False by simp
    qed
  qed
  show "fi_Name y \<notin> fi_Name ` set xs" if y: "Only2 y \<in> set (merge xs ys)"
  proof
    assume "fi_Name y \<in> fi_Name ` set xs"
    then obtain z where z: "z \<in> set xs" "fi_Name y = fi_Name z" by auto
    from merge_covers [of xs ys] z(1) consider "Only1 z \<in> set (merge xs ys)" | w where "Both z w \<in> set (merge xs ys)" by blast
    then show False
    proof cases
      case 1
      from inj [OF y this] z(2) show False by simp
    next
      case 2
      from inj [OF y this] z(2) show False by simp
    qed
  qed
qed

text \<open>A directory has no two entries of the same name, so that sorting makes it strictly sorted.\<close>

lemma sorted_visible:
  assumes "read_sorted_dir os exclude d = Inr dir" and "os_Readdir os d = Inr es" and "distinct (map fi_Name es)"
  shows "sorted_wrt (<) (map fi_Name (visible m dir))"
proof -
  obtain es' where e: "dir = sort_key fi_Name es'" "distinct (map fi_Name es')"
  proof (cases exclude)
    case None
    then show thesis using assms by (intro that [of es]) (simp_all add: read_sorted_dir_def)
  next
    case (Some matches)
    show thesis
      by (rule that [of "if es \<noteq> [] then filter (\<lambda>f. \<not> matches (fi_Name f)) es else es"])
        (use assms Some in \<open>simp_all add: read_sorted_dir_def distinct_map_filter\<close>)
  qed
  have "distinct (map fi_Name (visible m dir))" "sorted (map fi_Name (visible m dir))"
    using e by (auto simp: visible_def sorted_filter distinct_map intro: inj_on_subset)
  then show ?thesis by (simp add: strict_sorted_iff)
qed

text \<open>
  Two directories are compared name by name. For any two directory listings without empty or repeated names, each
  of the two passes treats exactly the names that occur on either side among the entries of its kind that are not hidden,
  every name once and in order: a name that both sides have as a pair of that name, a name that one side has as missing on
  the other.
\<close>

theorem dir_loop_treats_every_name:
  assumes "\<forall>f \<in> set dir1 \<union> set dir2. fi_Name f \<noteq> []"
    and "sorted_wrt (<) (map fi_Name (visible m dir1))" and "sorted_wrt (<) (map fi_Name (visible m dir2))"
  shows "\<exists>tasks. dir_loop cx subdirs m dn1 dn2 dir1 dir2 0 0 tr = fold_ops (do_task cx subdirs m dn1 dn2) tasks tr \<and>
    sorted_wrt (<) (map task_name tasks) \<and>
    set (map task_name tasks) = fi_Name ` (set (visible m dir1) \<union> set (visible m dir2)) \<and>
    (\<forall>t \<in> set tasks. case t of
       Both x y \<Rightarrow> x \<in> set (visible m dir1) \<and> y \<in> set (visible m dir2) \<and> fi_Name x = fi_Name y
     | Only1 x \<Rightarrow> x \<in> set (visible m dir1) \<and> fi_Name x \<notin> fi_Name ` set (visible m dir2)
     | Only2 y \<Rightarrow> y \<in> set (visible m dir2) \<and> fi_Name y \<notin> fi_Name ` set (visible m dir1))"
proof -
  let ?xs = "visible m dir1" and ?ys = "visible m dir2"
  have "case t of Both x y \<Rightarrow> x \<in> set ?xs \<and> y \<in> set ?ys \<and> fi_Name x = fi_Name y
     | Only1 x \<Rightarrow> x \<in> set ?xs \<and> fi_Name x \<notin> fi_Name ` set ?ys
     | Only2 y \<Rightarrow> y \<in> set ?ys \<and> fi_Name y \<notin> fi_Name ` set ?xs" if t: "t \<in> set (merge ?xs ?ys)" for t
  proof (cases t)
    case (Only1 x)
    then show ?thesis using merge_only(1) [OF assms(2,3)] t merge_tasks [OF t] by simp
  next
    case (Only2 y)
    then show ?thesis using merge_only(2) [OF assms(2,3)] t merge_tasks [OF t] by simp
  qed (use merge_tasks [OF t] in simp)
  then show ?thesis
    using dir_loop_merge [OF assms(1), of cx subdirs m dn1 dn2 0 0 tr] merge_names [OF assms(2,3)]
    by (intro exI [of _ "merge ?xs ?ys"]) (simp add: image_Un)
qed


theorem dir_loop_treats_every_name_witness:
  "\<exists>tasks. dir_loop \<lparr>cx_flags = default_flags, cx_ToLower = id, cx_os = Os.extend example_os
        \<lparr>os_Readdir = (\<lambda>d. Inr []), os_Stat = (\<lambda>n. Inl ''none''), os_Create = (\<lambda>n. Inr ()), os_Now = ''now''\<rparr>, cx_exclude = None\<rparr> (\<lambda>p1 p2 f1 f2 tr. Some tr) False ''l'' ''r''
      [example_info ''a'' 0, example_info ''c'' 0] [example_info ''b'' 0, example_info ''c'' 0] 0 0 [] =
    fold_ops (do_task \<lparr>cx_flags = default_flags, cx_ToLower = id, cx_os = Os.extend example_os
        \<lparr>os_Readdir = (\<lambda>d. Inr []), os_Stat = (\<lambda>n. Inl ''none''), os_Create = (\<lambda>n. Inr ()), os_Now = ''now''\<rparr>, cx_exclude = None\<rparr> (\<lambda>p1 p2 f1 f2 tr. Some tr) False ''l'' ''r'')
      tasks [] \<and> sorted_wrt (<) (map task_name tasks) \<and> set (map task_name tasks) = {''a'', ''b'', ''c''}"
proof -
  let ?d1 = "[example_info ''a'' 0, example_info ''c'' 0]" and ?d2 = "[example_info ''b'' 0, example_info ''c'' 0]"
  have v: "visible False ?d1 = ?d1" "visible False ?d2 = ?d2" by (simp_all add: visible_def example_info_def HasPrefix_def)
  have "\<forall>f \<in> set ?d1 \<union> set ?d2. fi_Name f \<noteq> []" by (simp add: example_info_def)
  moreover have "sorted_wrt (<) (map fi_Name (visible False ?d1))" "sorted_wrt (<) (map fi_Name (visible False ?d2))"
    unfolding v by (simp_all add: example_info_def less_char_def)
  moreover have "fi_Name ` (set (visible False ?d1) \<union> set (visible False ?d2)) = {''a'', ''b'', ''c''}"
    unfolding v by (auto simp: example_info_def)
  ultimately show ?thesis
    using dir_loop_treats_every_name [of ?d1 ?d2 False "\<lparr>cx_flags = default_flags, cx_ToLower = id, cx_os = Os.extend example_os
        \<lparr>os_Readdir = (\<lambda>d. Inr []), os_Stat = (\<lambda>n. Inl ''none''), os_Create = (\<lambda>n. Inr ()), os_Now = ''now''\<rparr>, cx_exclude = None\<rparr>" "\<lambda>p1 p2 f1 f2 tr. Some tr" "''l''" "''r''" "[]"]
    by auto
qed

text \<open>
  Both entries of a pair are of the kind of the pass, so the two branches of \<open>dir_both\<close> for a directory and a file of
  the same name are not reached; such a name is reported as missing, once on each side.
\<close>

lemma pairs_are_of_one_kind:
  "Both x y \<in> set (merge (visible m dir1) (visible m dir2)) \<Longrightarrow> fi_IsDir x = m \<and> fi_IsDir y = m"
  using merge_tasks [of "Both x y" "visible m dir1" "visible m dir2"] by (simp add: visible_def)

section \<open>The whole comparison\<close>

text \<open>
  Every write is made under the lock, the lock is given back, nothing else than writing and file access is
  done while it is held, and a job is announced to the wait group just before it is queued.
\<close>

datatype Mode = Free | Held | Announced

fun guarded :: "Mode \<Rightarrow> trace \<Rightarrow> bool" where
  "guarded m [] = (m = Free)"
| "guarded m (Lock # tr) = (m = Free \<and> guarded Held tr)"
| "guarded m (Unlock # tr) = (m = Held \<and> guarded Free tr)"
| "guarded m (Write s # tr) = (m = Held \<and> guarded m tr)"
| "guarded m (OpenFile n # tr) = (m \<noteq> Announced \<and> guarded m tr)"
| "guarded m (CloseFile n # tr) = (m \<noteq> Announced \<and> guarded m tr)"
| "guarded m (MapFile n # tr) = (m \<noteq> Announced \<and> guarded m tr)"
| "guarded m (UnmapFile n # tr) = (m \<noteq> Announced \<and> guarded m tr)"
| "guarded m (AddJob # tr) = (m = Free \<and> guarded Announced tr)"
| "guarded m (QueueJob p1 p2 f1 f2 # tr) = (m = Announced \<and> guarded Free tr)"
| "guarded m (JobDone # tr) = False"
| "guarded m (WaitJobs # tr) = False"

lemma guarded_append: "guarded m xs \<Longrightarrow> guarded Free ys \<Longrightarrow> guarded m (xs @ ys)"
  by (induction m xs rule: guarded.induct) auto

lemma guarded_writes: "guarded Held (map Write ws @ [Unlock])"
  by (induction ws) auto

lemma guarded_block: "1 < max_goroutines fl \<Longrightarrow> guarded Free (block fl ws)"
  by (simp add: block_def guarded_writes)

lemma guarded_files: "only_files xs \<Longrightarrow> guarded Free xs"
proof (induction xs)
  case (Cons a xs)
  then show ?case by (cases a) (simp_all add: only_files_def)
qed simp

text \<open>A trace that goes on: what a step of the comparison does.\<close>

definition extends :: "Flags \<Rightarrow> trace \<Rightarrow> trace option \<Rightarrow> bool" where
  "extends fl tr r \<longleftrightarrow> (\<exists>tr'. r = Some (tr @ tr') \<and> (1 < max_goroutines fl \<longrightarrow> guarded Free tr'))"

lemma extends_trans:
  assumes "extends fl tr r" and "\<And>t. extends fl t (f t)"
  shows "extends fl tr (Option.bind r f)"
proof -
  obtain x where x: "r = Some (tr @ x)" "1 < max_goroutines fl \<longrightarrow> guarded Free x" using assms(1) by (auto simp: extends_def)
  obtain y where y: "f (tr @ x) = Some ((tr @ x) @ y)" "1 < max_goroutines fl \<longrightarrow> guarded Free y"
    using assms(2) [of "tr @ x"] by (auto simp: extends_def)
  show ?thesis using x y by (auto simp: extends_def guarded_append)
qed

lemma extends_message: "extends fl tr (Some (output_diff_message_content fl n1 n2 i1 i2 m1 m2 d1 d2 e tr))"
proof -
  obtain ws where "output_diff_message_content fl n1 n2 i1 i2 m1 m2 d1 d2 e tr = tr @ block fl ws" using message_block by blast
  then show ?thesis by (auto simp: extends_def guarded_block)
qed

lemma extends_files: "only_files xs \<Longrightarrow> extends fl tr (Some (tr @ xs))"
  by (auto simp: extends_def guarded_files)

lemma extends_diff_file:
  assumes "0 \<le> context_lines fl"
  shows "extends fl tr (diff_file fl low os n1 n2 fi1 fi2 tr)"
proof (rule diff_file_Some [OF assms, of low os n1 n2 fi1 fi2 tr])
  fix xs bl ys ws
  assume *: "diff_file fl low os n1 n2 fi1 fi2 tr = Some (tr @ xs @ bl @ ys)" "only_files xs" "only_files ys"
    "bl = [] \<or> bl = block fl ws"
  then have "1 < max_goroutines fl \<longrightarrow> guarded Free (xs @ bl @ ys)"
    by (auto simp: guarded_files guarded_block intro!: guarded_append)
  then show ?thesis using *(1) by (auto simp: extends_def)
qed

lemma preview_extends:
  "extends fl tr (Some (let (fdata, tr) = open_file os p f tr; fdata = check_binary fdata; msg = fd_errormsg fdata;
      (fdata, ls) = Filedata_split_lines fdata
    in snd (close_file fdata (output_diff_message_content fl n1 n2 i1 i2 (m1 msg) (m2 msg) (d1 ls) (d2 ls) True tr))))"
proof -
  obtain fd xs where fd: "open_file os p f tr = (fd, tr @ xs)" "open_actions fd xs"
    using open_file_actions [of os p f tr] by (metis prod.collapse)
  obtain fd2 ls where fd2: "Filedata_split_lines (check_binary fd) = (fd2, ls)" by fastforce
  let ?out = "output_diff_message_content fl n1 n2 i1 i2 (m1 (fd_errormsg (check_binary fd))) (m2 (fd_errormsg (check_binary fd)))
    (d1 ls) (d2 ls) True (tr @ xs)"
  have "extends fl tr (do { t \<leftarrow> Some (tr @ xs); t \<leftarrow> Some (output_diff_message_content fl n1 n2 i1 i2
      (m1 (fd_errormsg (check_binary fd))) (m2 (fd_errormsg (check_binary fd))) (d1 ls) (d2 ls) True t); Some (t @ close_actions fd2) })"
    by (intro extends_trans extends_files extends_message) (simp_all add: only_files_actions fd(2) only_files_actions(1) [OF fd(2)])
  then show ?thesis by (simp add: fd(1) fd2 close_file_actions Let_def)
qed


lemma extends_only:
  "extends (cx_flags cx) tr (Some (dir_only1 cx m dn1 dn2 f tr))" "extends (cx_flags cx) tr (Some (dir_only2 cx m dn1 dn2 f tr))"
proof -
  let ?fl = "cx_flags cx" and ?os = "Os.truncate (cx_os cx)"
  have msg: "extends ?fl tr (Some (dir_message cx p1 p2 i1 i2 m1 m2 True tr))" for p1 p2 i1 i2 m1 m2
    by (simp add: dir_message_def output_diff_message_def extends_message)
  let ?p1 = "join_path dn1 (fi_Name f)" and ?p2 = "join_path dn2 (fi_Name f)"
  show "extends ?fl tr (Some (dir_only1 cx m dn1 dn2 f tr))"
    using msg preview_extends [of ?fl tr ?os ?p1 f ?p1 ?p2 "Some f" None "\<lambda>msg. msg" "\<lambda>msg. MSG_FILE_NOT_EXISTS" "\<lambda>ls. ls" "\<lambda>ls. []"]
    by (simp add: dir_only1_def Let_def)
  show "extends ?fl tr (Some (dir_only2 cx m dn1 dn2 f tr))"
    using msg preview_extends [of ?fl tr ?os ?p2 f ?p1 ?p2 None "Some f" "\<lambda>msg. MSG_FILE_NOT_EXISTS" "\<lambda>msg. msg" "\<lambda>ls. []" "\<lambda>ls. ls"]
    by (simp add: dir_only2_def Let_def)
qed

lemma extends_both:
  assumes "0 \<le> context_lines (cx_flags cx)"
    and "m \<Longrightarrow> extends (cx_flags cx) tr (subdirs (join_path dn1 (fi_Name f1)) (join_path dn2 (fi_Name f2)) f1 f2 tr)"
  shows "extends (cx_flags cx) tr (dir_both cx subdirs m dn1 dn2 f1 f2 tr)"
proof -
  have "extends (cx_flags cx) tr (Some tr)" using extends_files [of "[]" "cx_flags cx" tr] by simp
  moreover have "extends (cx_flags cx) tr (Some (queue_diff_file p1 p2 f1 f2 tr))" for p1 p2
    by (auto simp: extends_def queue_diff_file_def)
  moreover have "extends (cx_flags cx) tr (Some (dir_message cx p1 p2 i1 i2 m1 m2 True tr))" for p1 p2 i1 i2 m1 m2
    by (simp add: dir_message_def output_diff_message_def extends_message)
  ultimately show ?thesis using assms extends_diff_file by (simp add: dir_both_def Let_def)
qed

lemma extends_fold:
  "(\<And>t tr. t \<in> set ts \<Longrightarrow> extends fl tr (f t tr)) \<Longrightarrow> extends fl tr (fold_ops f ts tr)"
proof (induction ts arbitrary: tr)
  case Nil
  show ?case using extends_files [of "[]" fl tr] by simp
next
  case (Cons t ts)
  have "extends fl tr (f t tr \<bind> fold_ops f ts)"
    by (rule extends_trans) (simp_all add: Cons)
  then show ?case by simp
qed

definition names_ok :: "Context \<Rightarrow> bool" where
  "names_ok cx \<longleftrightarrow> (\<forall>d es. os_Readdir (cx_os cx) d = Inr es \<longrightarrow> (\<forall>f \<in> set es. fi_Name f \<noteq> []))"

text \<open>The tree under a directory has at most \<open>n\<close> levels.\<close>

primrec dirs_within :: "Context \<Rightarrow> nat \<Rightarrow> bytes \<Rightarrow> bool" where
  "dirs_within cx 0 d \<longleftrightarrow> False"
| "dirs_within cx (Suc n) d \<longleftrightarrow>
     (case read_sorted_dir (cx_os cx) (cx_exclude cx) (TrimRight d (CHR ''/'')) of
        Inl err \<Rightarrow> True
      | Inr es \<Rightarrow> \<forall>f \<in> set es. fi_IsDir f \<longrightarrow> dirs_within cx n (join_path (TrimRight d (CHR ''/'')) (fi_Name f)))"

lemma read_sorted_dir_names: "names_ok cx \<Longrightarrow> read_sorted_dir (cx_os cx) e d = Inr es \<Longrightarrow> f \<in> set es \<Longrightarrow> fi_Name f \<noteq> []"
  by (auto simp: read_sorted_dir_def names_ok_def split: sum.splits option.splits if_splits)

lemma diff_dirs_extends:
  assumes ctx: "0 \<le> context_lines (cx_flags cx)" and names: "names_ok cx"
  shows "dirs_within cx n dn1 \<Longrightarrow> extends (cx_flags cx) tr (diff_dirs cx n dn1 dn2 fi1 fi2 tr)"
proof (induction n arbitrary: dn1 dn2 fi1 fi2 tr)
  case (Suc n)
  let ?d1 = "TrimRight dn1 (CHR ''/'')" and ?d2 = "TrimRight dn2 (CHR ''/'')"
  let ?r1 = "read_sorted_dir (cx_os cx) (cx_exclude cx) ?d1" and ?r2 = "read_sorted_dir (cx_os cx) (cx_exclude cx) ?d2"
  have msg: "extends (cx_flags cx) tr (Some (dir_message cx p1 p2 i1 i2 m1 m2 True tr))" for p1 p2 i1 i2 m1 m2
    by (simp add: dir_message_def output_diff_message_def extends_message)
  show ?case
  proof (cases "\<exists>es1 es2. ?r1 = Inr es1 \<and> ?r2 = Inr es2")
    case True
    then obtain es1 es2 where r: "?r1 = Inr es1" "?r2 = Inr es2" by blast
    have ne: "\<forall>f \<in> set es1 \<union> set es2. fi_Name f \<noteq> []" using r read_sorted_dir_names [OF names] by blast
    have "extends (cx_flags cx) t (dir_loop cx (diff_dirs cx n) m ?d1 ?d2 es1 es2 0 0 t)" for m t
      unfolding dir_loop_merge [OF ne]
    proof (rule extends_fold)
      fix task t
      assume task: "task \<in> set (merge (visible m (drop 0 es1)) (visible m (drop 0 es2)))"
      show "extends (cx_flags cx) t (do_task cx (diff_dirs cx n) m ?d1 ?d2 task t)"
      proof (cases task)
        case (Both x y)
        have "x \<in> set es1" "fi_IsDir x = m" using merge_tasks [OF task] Both by (auto simp: visible_def)
        then have "m \<Longrightarrow> dirs_within cx n (join_path ?d1 (fi_Name x))" using Suc.prems r(1) by simp
        then have "extends (cx_flags cx) t (dir_both cx (diff_dirs cx n) m ?d1 ?d2 x y t)"
          using Suc.IH by (intro extends_both [OF ctx]) blast
        then show ?thesis by (simp add: do_task_def Both)
      qed (simp_all add: do_task_def extends_only)
    qed
    then have "extends (cx_flags cx) tr (dir_loop cx (diff_dirs cx n) False ?d1 ?d2 es1 es2 0 0 tr \<bind>
        dir_loop cx (diff_dirs cx n) True ?d1 ?d2 es1 es2 0 0)" by (intro extends_trans)
    then show ?thesis using r by (simp add: Let_def)
  next
    case False
    then show ?thesis using msg by (cases ?r1; cases ?r2) (simp_all add: Let_def)
  qed
qed simp

text \<open>
  C28. The comparison of two directories ends. For any two directories of which the first has a tree of finite depth,
  without empty names, \<open>diff_dirs\<close> returns without a panic; and when several goroutines share the output, everything
  that the calling goroutine itself writes is written under the lock, which it gives back before it queues a job or
  returns.
\<close>

theorem diff_dirs_ends:
  assumes "0 \<le> context_lines (cx_flags cx)" and "names_ok cx" and "dirs_within cx n dn1"
  shows "\<exists>tr'. diff_dirs cx n dn1 dn2 fi1 fi2 tr = Some (tr @ tr') \<and> (1 < max_goroutines (cx_flags cx) \<longrightarrow> guarded Free tr')"
  using diff_dirs_extends [OF assms] by (simp add: extends_def)

definition example_context :: "int \<Rightarrow> Context" where
  "example_context k = \<lparr>cx_flags = default_flags\<lparr>max_goroutines := k\<rparr>, cx_ToLower = id,
     cx_os = Os.extend example_os
       \<lparr>os_Readdir = (\<lambda>d. if d = ''l'' then Inr [example_info ''a'' 1, example_info ''b'' 1]
          else if d = ''r'' then Inr [example_info ''c'' 1, example_info ''b'' 1] else Inl ''not a directory''),
        os_Stat = (\<lambda>n. Inl ''none''), os_Create = (\<lambda>n. Inr ()), os_Now = ''now''\<rparr>, cx_exclude = None\<rparr>"

theorem diff_dirs_ends_witness:
  "\<exists>tr'. diff_dirs (example_context 2) 1 ''l/'' ''r'' (example_info ''l'' 0) (example_info ''r'' 0) [] = Some tr' \<and> guarded Free tr'"
proof -
  have "0 \<le> context_lines (cx_flags (example_context 2))" by (simp add: example_context_def default_flags_def)
  moreover have "names_ok (example_context 2)"
    by (auto simp: names_ok_def example_context_def Os.defs example_info_def split: if_splits)
  moreover have "dirs_within (example_context 2) (Suc 0) ''l/''"
    by (simp add: TrimRight_def read_sorted_dir_def example_context_def Os.defs example_info_def)
  moreover have "1 < max_goroutines (cx_flags (example_context 2))" by (simp add: example_context_def)
  ultimately show ?thesis
    using diff_dirs_ends [of "example_context 2" "Suc 0" "''l/''" "''r''" "example_info ''l'' 0" "example_info ''r'' 0" "[]"] by simp
qed

end
