(* ===== verification/Xdiff_Jobs.thy ===== *)
theory Xdiff_Jobs
  imports Xdiff_Dirs "HOL-Library.Multiset"
begin

text \<open>
  Comparing the files of a directory with several goroutines (\<open>job_queue_init\<close>, \<open>queue_diff_file\<close>,
  \<open>job_queue_finish\<close> and the output lock of \<open>xdiff.go\<close>).

  Every goroutine has the rest of its trace: the calling one, with number 0, what \<open>diff_dirs\<close> still does; a worker
  what \<open>diff_file\<close> still does for the job it took, and then \<open>JobDone\<close>. They share the channel \<open>job_queue\<close> with room
  for one job, the wait group, the mutex and the buffered output. One step is one action of one goroutine, or an
  idle worker that takes a job. A step can block (the mutex is taken, the channel is full, the wait group is not at
  zero) or fail (\<open>Unlock\<close> of a free mutex and a negative wait group panic in Go). What the operating system
  answers does not depend on the order of the steps.

  Shown, for every order of the steps: nothing fails, only the holder of the lock writes while jobs are running, the
  run goes on until everything is done and has a bounded length, and the output is then made of whole blocks, one
  for each comparison, in some order.
\<close>

section \<open>Goroutines\<close>

type_synonym Job = "bytes \<times> bytes \<times> FileInfo \<times> FileInfo"

record Jobs =
  threads :: "trace list"
  jobs :: "Job list"
  job_wait :: int
  holder :: "nat option"
  written :: "bytes list"

datatype Outcome = Blocks | Fails | Goes Jobs

fun perform :: "nat \<Rightarrow> OutAction \<Rightarrow> Jobs \<Rightarrow> Outcome" where
  "perform i Lock s = (if holder s = None then Goes (s\<lparr>holder := Some i\<rparr>) else Blocks)"
| "perform i Unlock s = (if holder s = None then Fails else Goes (s\<lparr>holder := None\<rparr>))"
| "perform i (Write w) s = Goes (s\<lparr>written := written s @ [w]\<rparr>)"
| "perform i (OpenFile n) s = Goes s"
| "perform i (CloseFile n) s = Goes s"
| "perform i (MapFile n) s = Goes s"
| "perform i (UnmapFile n) s = Goes s"
| "perform i AddJob s = Goes (s\<lparr>job_wait := job_wait s + 1\<rparr>)"
| "perform i (QueueJob p1 p2 f1 f2) s =
     (if length (jobs s) < 1 then Goes (s\<lparr>jobs := jobs s @ [(p1, p2, f1, f2)]\<rparr>) else Blocks)"
| "perform i JobDone s = (if job_wait s \<le> 0 then Fails else Goes (s\<lparr>job_wait := job_wait s - 1\<rparr>))"
| "perform i WaitJobs s = (if job_wait s = 0 then Goes s else Blocks)"

text \<open>What a worker does for one job.\<close>

definition job_trace :: "Context \<Rightarrow> Job \<Rightarrow> trace option" where
  "job_trace cx j = (case j of (p1, p2, f1, f2) \<Rightarrow>
     do { tr \<leftarrow> diff_file (cx_flags cx) (cx_ToLower cx) (Os.truncate (cx_os cx)) p1 p2 f1 f2 [];
          Some (tr @ [JobDone]) })"

inductive jobs_step :: "Context \<Rightarrow> Jobs \<Rightarrow> Jobs \<Rightarrow> bool" for cx where
  act: "i < length (threads s) \<Longrightarrow> threads s ! i = a # tr \<Longrightarrow> perform i a s = Goes s' \<Longrightarrow>
    jobs_step cx s (s'\<lparr>threads := (threads s)[i := tr]\<rparr>)"
| take: "0 < i \<Longrightarrow> i < length (threads s) \<Longrightarrow> threads s ! i = [] \<Longrightarrow> jobs s = j # js \<Longrightarrow> job_trace cx j = Some tr \<Longrightarrow>
    jobs_step cx s (s\<lparr>jobs := js, threads := (threads s)[i := tr]\<rparr>)"

inductive_cases jobs_stepE: "jobs_step cx s s'"

text \<open>The goroutines when the workers have been started; \<open>pre\<close> is what has been written before.\<close>

definition job_queue_init :: "Flags \<Rightarrow> bytes list \<Rightarrow> trace \<Rightarrow> Jobs" where
  "job_queue_init fl pre tr =
     \<lparr>threads = tr # (if max_goroutines fl > 1 then replicate (nat (max_goroutines fl)) [] else []),
      jobs = [], job_wait = 0, holder = None, written = pre\<rparr>"

definition finished :: "Jobs \<Rightarrow> bool" where
  "finished s \<longleftrightarrow> (\<forall>tr \<in> set (threads s). tr = []) \<and> jobs s = []"

section \<open>What is still to be written\<close>

fun blocks :: "bytes list \<Rightarrow> trace \<Rightarrow> bytes list list" where
  "blocks ws [] = []"
| "blocks ws (Lock # tr) = blocks [] tr"
| "blocks ws (Write w # tr) = blocks (ws @ [w]) tr"
| "blocks ws (Unlock # tr) = ws # blocks [] tr"
| "blocks ws (_ # tr) = blocks ws tr"

fun queued :: "trace \<Rightarrow> Job list" where
  "queued [] = []"
| "queued (QueueJob p1 p2 f1 f2 # tr) = (p1, p2, f1, f2) # queued tr"
| "queued (_ # tr) = queued tr"

definition job_blocks :: "Context \<Rightarrow> Job \<Rightarrow> bytes list list" where
  "job_blocks cx j = (case job_trace cx j of Some tr \<Rightarrow> blocks [] tr | None \<Rightarrow> [])"

definition jobs_blocks :: "Context \<Rightarrow> Job list \<Rightarrow> bytes list multiset" where
  "jobs_blocks cx js = mset (concat (map (job_blocks cx) js))"

definition pending :: "Context \<Rightarrow> bytes list \<Rightarrow> trace \<Rightarrow> bytes list multiset" where
  "pending cx ws tr = mset (blocks ws tr) + jobs_blocks cx (queued tr)"

lemma jobs_blocks_simps [simp]:
  "jobs_blocks cx [] = {#}" "jobs_blocks cx (j # js) = mset (job_blocks cx j) + jobs_blocks cx js"
  "jobs_blocks cx (js @ ks) = jobs_blocks cx js + jobs_blocks cx ks"
  by (simp_all add: jobs_blocks_def)

lemma blocks_writes [simp]: "blocks ws (map Write us) = []"
  by (induction us arbitrary: ws) auto

lemma queued_writes [simp]: "queued (map Write us) = []"
  by (induction us) auto

lemma queued_append [simp]: "queued (xs @ ys) = queued xs @ queued ys"
  by (induction xs rule: queued.induct) auto

fun no_queueing :: "OutAction \<Rightarrow> bool" where
  "no_queueing AddJob = False" | "no_queueing (QueueJob p1 p2 f1 f2) = False" | "no_queueing WaitJobs = False"
| "no_queueing _ = True"

definition quiet :: "trace \<Rightarrow> bool" where
  "quiet tr \<longleftrightarrow> list_all no_queueing tr"

lemma quiet_simps [simp]:
  "quiet []" "quiet (a # tr) \<longleftrightarrow> no_queueing a \<and> quiet tr" "quiet (xs @ ys) \<longleftrightarrow> quiet xs \<and> quiet ys"
  "quiet (map Write ws)"
  by (simp_all add: quiet_def list.pred_map o_def list.pred_True)

lemma quiet_queued [simp]: "quiet tr \<Longrightarrow> queued tr = []"
  by (induction tr rule: queued.induct) auto

section \<open>The shape of the traces\<close>

fun next_mode :: "Mode \<Rightarrow> OutAction \<Rightarrow> Mode option" where
  "next_mode m Lock = (if m = Free then Some Held else None)"
| "next_mode m Unlock = (if m = Held then Some Free else None)"
| "next_mode m (Write s) = (if m = Held then Some Held else None)"
| "next_mode m (OpenFile n) = (if m \<noteq> Announced then Some m else None)"
| "next_mode m (CloseFile n) = (if m \<noteq> Announced then Some m else None)"
| "next_mode m (MapFile n) = (if m \<noteq> Announced then Some m else None)"
| "next_mode m (UnmapFile n) = (if m \<noteq> Announced then Some m else None)"
| "next_mode m AddJob = (if m = Free then Some Announced else None)"
| "next_mode m (QueueJob p1 p2 f1 f2) = (if m = Announced then Some Free else None)"
| "next_mode m JobDone = None"
| "next_mode m WaitJobs = None"

lemma guarded_Cons: "guarded m (a # tr) \<longleftrightarrow> (\<exists>m'. next_mode m a = Some m' \<and> guarded m' tr)"
  by (cases a) auto

definition guarded_to :: "trace \<Rightarrow> Mode \<Rightarrow> trace \<Rightarrow> bool" where
  "guarded_to tail m tr \<longleftrightarrow> (\<exists>w. tr = w @ tail \<and> guarded m w)"

lemma guarded_to_Cons:
  "guarded_to tail m (a # tr) \<longleftrightarrow> m = Free \<and> a # tr = tail \<or> (\<exists>m'. next_mode m a = Some m' \<and> guarded_to tail m' tr)"
  unfolding guarded_to_def
proof
  assume "\<exists>w. a # tr = w @ tail \<and> guarded m w"
  then obtain w where w: "a # tr = w @ tail" "guarded m w" by blast
  then show "m = Free \<and> a # tr = tail \<or> (\<exists>m'. next_mode m a = Some m' \<and> (\<exists>w. tr = w @ tail \<and> guarded m' w))"
    by (cases w) (auto simp: guarded_Cons simp del: guarded.simps(2-))
next
  assume "m = Free \<and> a # tr = tail \<or> (\<exists>m'. next_mode m a = Some m' \<and> (\<exists>w. tr = w @ tail \<and> guarded m' w))"
  then show "\<exists>w. a # tr = w @ tail \<and> guarded m w"
    by (auto simp: guarded_Cons simp del: guarded.simps(2-) intro: exI [of _ "[]"] exI [of _ "a # w" for w])
qed

lemma guarded_to_Nil: "guarded_to tail m [] \<longleftrightarrow> tail = [] \<and> m = Free"
  by (auto simp: guarded_to_def)

text \<open>The calling goroutine is number 0.\<close>

definition thread_ok :: "bytes list \<Rightarrow> nat \<Rightarrow> Mode \<Rightarrow> trace \<Rightarrow> bool" where
  "thread_ok post i m tr \<longleftrightarrow>
     (if i = 0 then guarded_to (WaitJobs # map Write post) m tr
      else tr = [] \<and> m = Free \<or> guarded_to [JobDone] m tr \<and> quiet tr)"

definition owed :: "Mode \<Rightarrow> trace \<Rightarrow> nat" where
  "owed m tr = count_list tr JobDone + (if m = Announced then 1 else 0)"

definition job_ok :: "Context \<Rightarrow> bool" where
  "job_ok cx \<longleftrightarrow> (\<forall>j. \<exists>w. job_trace cx j = Some (w @ [JobDone]) \<and> guarded Free w \<and> quiet w)"

lemma only_files_quiet: "only_files tr \<Longrightarrow> quiet tr"
proof (induction tr)
  case (Cons a tr)
  then show ?case by (cases a) (simp_all add: only_files_def)
qed simp

lemma block_quiet: "quiet (block fl ws)"
  by (simp add: block_def)

lemma job_ok_context:
  assumes "0 \<le> context_lines (cx_flags cx)" and "1 < max_goroutines (cx_flags cx)"
  shows "job_ok cx"
  unfolding job_ok_def
proof
  fix j :: Job
  obtain p1 p2 f1 f2 where j: "j = (p1, p2, f1, f2)" by (cases j)
  show "\<exists>w. job_trace cx j = Some (w @ [JobDone]) \<and> guarded Free w \<and> quiet w"
  proof (rule diff_file_Some [OF assms(1), of "cx_ToLower cx" "Os.truncate (cx_os cx)" p1 p2 f1 f2 "[]"])
    fix xs bl ys ws
    assume *: "diff_file (cx_flags cx) (cx_ToLower cx) (Os.truncate (cx_os cx)) p1 p2 f1 f2 [] = Some ([] @ xs @ bl @ ys)"
      "only_files xs" "only_files ys" "bl = [] \<or> bl = block (cx_flags cx) ws"
    then have "guarded Free (xs @ bl @ ys)"
      using assms(2) by (auto simp: guarded_files guarded_block intro!: guarded_append)
    moreover have "quiet (xs @ bl @ ys)" using * by (auto simp: only_files_quiet block_quiet)
    ultimately show ?thesis using *(1) by (intro exI [of _ "xs @ bl @ ys"]) (simp add: job_trace_def j)
  qed
qed

section \<open>The invariant while jobs are running\<close>

lemma sum_upd:
  fixes f g :: "nat \<Rightarrow> 'a :: comm_monoid_add"
  assumes "i < n" and "\<And>k. k < n \<Longrightarrow> k \<noteq> i \<Longrightarrow> g k = f k"
  shows "sum g {..<n} + f i = sum f {..<n} + g i"
proof -
  have "sum h {..<n} = h i + sum h ({..<n} - {i})" for h :: "nat \<Rightarrow> 'a"
    using assms(1) by (simp add: sum.remove)
  moreover have "sum g ({..<n} - {i}) = sum f ({..<n} - {i})"
    using assms(2) by (intro sum.cong) auto
  ultimately show ?thesis by (simp add: ac_simps)
qed

text \<open>
  \<open>ms\<close> is the mode of every goroutine, \<open>cur\<close> what the holder of the lock has written of its block, and \<open>ds\<close> the
  blocks that are complete.
\<close>

definition modes_ok :: "bytes list \<Rightarrow> Jobs \<Rightarrow> Mode list \<Rightarrow> bool" where
  "modes_ok post s ms \<longleftrightarrow> length ms = length (threads s) \<and> 0 < length (threads s) \<and>
     (\<forall>i < length ms. thread_ok post i (ms ! i) (threads s ! i)) \<and>
     (\<forall>i. holder s = Some i \<longleftrightarrow> i < length ms \<and> ms ! i = Held)"

definition total_owed :: "Jobs \<Rightarrow> Mode list \<Rightarrow> nat" where
  "total_owed s ms = (\<Sum>i < length ms. owed (ms ! i) (threads s ! i))"

definition total_pending :: "Context \<Rightarrow> Jobs \<Rightarrow> Mode list \<Rightarrow> bytes list \<Rightarrow> bytes list multiset" where
  "total_pending cx s ms cur =
     (\<Sum>i < length ms. pending cx (if ms ! i = Held then cur else []) (threads s ! i)) + jobs_blocks cx (jobs s)"

definition running ::
  "Context \<Rightarrow> bytes list \<Rightarrow> bytes list \<Rightarrow> bytes list multiset \<Rightarrow> Jobs \<Rightarrow> Mode list \<Rightarrow> bytes list \<Rightarrow> bytes list list \<Rightarrow> bool"
where
  "running cx pre post T s ms cur ds \<longleftrightarrow> modes_ok post s ms \<and> length (jobs s) \<le> 1 \<and>
     job_wait s = int (length (jobs s) + total_owed s ms) \<and> (holder s = None \<longrightarrow> cur = []) \<and>
     written s = pre @ concat ds @ cur \<and> mset ds + total_pending cx s ms cur = T"

text \<open>All jobs are done and the calling goroutine writes the end of the output.\<close>

definition finishing :: "bytes list \<Rightarrow> bytes list \<Rightarrow> bytes list multiset \<Rightarrow> Jobs \<Rightarrow> bytes list list \<Rightarrow> bool" where
  "finishing pre post T s ds \<longleftrightarrow> 0 < length (threads s) \<and> (\<forall>i < length (threads s). 0 < i \<longrightarrow> threads s ! i = []) \<and>
     jobs s = [] \<and> holder s = None \<and> job_wait s = 0 \<and> mset ds = T \<and>
     (\<exists>us vs. post = us @ vs \<and> threads s ! 0 = map Write vs \<and> written s = pre @ concat ds @ us)"

lemma held_unique:
  assumes "modes_ok post s ms" and "i < length ms" and "k < length ms" and "ms ! k = Held" and "k \<noteq> i"
  shows "holder s = Some k" and "ms ! i \<noteq> Held"
proof -
  show k: "holder s = Some k" using assms by (simp add: modes_ok_def)
  show "ms ! i \<noteq> Held"
  proof
    assume "ms ! i = Held"
    then have "holder s = Some i" using assms(1,2) by (simp add: modes_ok_def)
    then show False using k assms(5) by simp
  qed
qed

lemma cancel_total:
  fixes S :: "'a multiset"
  assumes "S' + f = S + g" and "d' + g + j' = d + f + j"
  shows "d' + (S' + j') = d + (S + j)"
proof (rule multiset_eqI)
  fix x
  have "count S' x + count f x = count S x + count g x" "count d' x + count g x + count j' x = count d x + count f x + count j x"
    using arg_cong [OF assms(1), of "\<lambda>m. count m x"] arg_cong [OF assms(2), of "\<lambda>m. count m x"] by simp_all
  then show "count (d' + (S' + j')) x = count (d + (S + j)) x" by simp
qed

lemma running_step:
  assumes r: "running cx pre post T s ms cur ds" and i: "i < length ms"
    and ok: "thread_ok post i m' tr'"
    and th: "threads s' = (threads s)[i := tr']"
    and ho: "holder s' = (if m' = Held then Some i else if ms ! i = Held then None else holder s)"
    and fr: "m' = Held \<Longrightarrow> ms ! i = Held \<or> holder s = None"
    and cu: "ms ! i \<noteq> Held \<and> m' \<noteq> Held \<Longrightarrow> cur' = cur"
    and cn: "holder s' = None \<Longrightarrow> cur' = []"
    and jo: "length (jobs s') \<le> 1"
    and wa: "job_wait s' + int (length (jobs s) + owed (ms ! i) (threads s ! i)) =
      job_wait s + int (length (jobs s') + owed m' tr')"
    and wr: "written s' = pre @ concat ds' @ cur'"
    and bl: "mset ds' + pending cx (if m' = Held then cur' else []) tr' + jobs_blocks cx (jobs s') =
      mset ds + pending cx (if ms ! i = Held then cur else []) (threads s ! i) + jobs_blocks cx (jobs s)"
  shows "running cx pre post T s' (ms[i := m']) cur' ds'"
proof -
  have mo: "modes_ok post s ms" using r by (simp add: running_def)
  have len: "length ms = length (threads s)" using mo by (simp add: modes_ok_def)
  have "modes_ok post s' (ms[i := m'])"
  proof -
    have "\<forall>k < length ms. thread_ok post k (ms[i := m'] ! k) (threads s' ! k)"
      using mo ok i th len by (auto simp: modes_ok_def nth_list_update)
    moreover have "holder s' = Some k \<longleftrightarrow> k < length ms \<and> ms[i := m'] ! k = Held" for k
    proof -
      have h: "holder s = Some k \<longleftrightarrow> k < length ms \<and> ms ! k = Held" for k using mo unfolding modes_ok_def by blast
      have "holder s \<noteq> Some k" if "m' = Held" "k \<noteq> i" using fr [OF that(1)] h [of i] that(2) i by auto
      moreover have "holder s \<noteq> Some k" if "ms ! i = Held" "k \<noteq> i" using h [of i] that i by auto
      ultimately show ?thesis using ho h [of k] h [of i] i by (cases "k = i") (auto split: if_splits)
    qed
    ultimately show ?thesis using mo th by (simp add: modes_ok_def)
  qed
  moreover have "job_wait s' = int (length (jobs s') + total_owed s' (ms[i := m']))"
  proof -
    have "total_owed s' (ms[i := m']) + owed (ms ! i) (threads s ! i) = total_owed s ms + owed m' tr'"
      unfolding total_owed_def length_list_update
      using sum_upd [OF i, of "\<lambda>k. owed (ms[i := m'] ! k) (threads s' ! k)" "\<lambda>k. owed (ms ! k) (threads s ! k)"]
      using i len th by simp
    then show ?thesis using wa r by (simp add: running_def)
  qed
  moreover have "mset ds' + total_pending cx s' (ms[i := m']) cur' = T"
  proof -
    let ?f = "\<lambda>k. pending cx (if ms ! k = Held then cur else []) (threads s ! k)"
    let ?g = "\<lambda>k. pending cx (if ms[i := m'] ! k = Held then cur' else []) (threads s' ! k)"
    have "?g k = ?f k" if "k < length ms" "k \<noteq> i" for k
    proof (cases "ms ! k = Held")
      case True
      note h = held_unique [OF mo i that(1) True that(2)]
      have "m' \<noteq> Held" using fr h by auto
      then show ?thesis using cu h that th True by simp
    qed (use that th in simp)
    then have "sum ?g {..<length ms} + ?f i = sum ?f {..<length ms} + ?g i" by (intro sum_upd [OF i])
    moreover have "?g i = pending cx (if m' = Held then cur' else []) tr'" using i len th by simp
    ultimately have "mset ds' + (sum ?g {..<length ms} + jobs_blocks cx (jobs s')) =
        mset ds + (sum ?f {..<length ms} + jobs_blocks cx (jobs s))"
      using bl by (intro cancel_total) simp_all
    then show ?thesis using r by (simp add: running_def total_pending_def)
  qed
  ultimately show ?thesis using jo cn wr by (simp add: running_def)
qed

lemma thread_next:
  assumes "thread_ok post i m (a # tr)"
  obtains (goes) m' where "next_mode m a = Some m'" "thread_ok post i m' tr" "i \<noteq> 0 \<longrightarrow> no_queueing a"
    | (waits) "i = 0" "a = WaitJobs" "m = Free" "tr = map Write post"
    | (ends) "i \<noteq> 0" "a = JobDone" "m = Free" "tr = []"
  using assms by (cases "i = 0") (auto simp: thread_ok_def guarded_to_Cons)

lemma owed_Cons: "next_mode m a = Some m' \<Longrightarrow> count_list (a # tr) JobDone = count_list tr JobDone"
  by (cases a) auto

lemma running_act:
  assumes r: "running cx pre post T s ms cur ds" and i: "i < length (threads s)" and tr: "threads s ! i = a # tr"
    and p: "perform i a s = Goes s'" and m': "next_mode (ms ! i) a = Some m'" and ok: "thread_ok post i m' tr"
  shows "\<exists>cur' ds'. running cx pre post T (s'\<lparr>threads := (threads s)[i := tr]\<rparr>) (ms[i := m']) cur' ds'"
proof -
  have mo: "modes_ok post s ms" using r by (simp add: running_def)
  have len: "i < length ms" using mo i by (simp add: modes_ok_def)
  have held: "holder s = Some i \<longleftrightarrow> ms ! i = Held" using mo len by (simp add: modes_ok_def)
  have w: "job_wait s = int (length (jobs s) + total_owed s ms)" "holder s = None \<Longrightarrow> cur = []" "length (jobs s) \<le> 1"
    "written s = pre @ concat ds @ cur" using r by (simp_all add: running_def)
  note step = running_step [OF r len ok, of "s'\<lparr>threads := (threads s)[i := tr]\<rparr>"]
  note c = owed_Cons [OF m', of tr]
  note eqs = tr owed_def pending_def count_list.simps(2)
  show ?thesis
  proof (cases a)
    case Lock
    have *: "holder s = None" "s' = s\<lparr>holder := Some i\<rparr>" "ms ! i = Free" "m' = Held" using p m' Lock by (auto split: if_splits)
    show ?thesis using w held * Lock
      by (intro exI [of _ "[]"] exI [of _ ds] step) (simp_all add: eqs)
  next
    case Unlock
    have *: "holder s \<noteq> None" "s' = s\<lparr>holder := None\<rparr>" "ms ! i = Held" "m' = Free" using p m' Unlock by (auto split: if_splits)
    show ?thesis using w held * Unlock
      by (intro exI [of _ "[]"] exI [of _ "ds @ [cur]"] step) (simp_all add: eqs)
  next
    case (Write x)
    have *: "s' = s\<lparr>written := written s @ [x]\<rparr>" "ms ! i = Held" "m' = Held" using p m' Write by (auto split: if_splits)
    show ?thesis using w held * Write
      by (intro exI [of _ "cur @ [x]"] exI [of _ ds] step) (simp_all add: eqs)
  next
    case AddJob
    have *: "s' = s\<lparr>job_wait := job_wait s + 1\<rparr>" "ms ! i = Free" "m' = Announced" using p m' AddJob by (auto split: if_splits)
    show ?thesis using w held * AddJob
      by (intro exI [of _ cur] exI [of _ ds] step) (simp_all add: eqs)
  next
    case (QueueJob p1 p2 f1 f2)
    have *: "s' = s\<lparr>jobs := jobs s @ [(p1, p2, f1, f2)]\<rparr>" "length (jobs s) < 1" "ms ! i = Announced" "m' = Free"
      using p m' QueueJob by (auto split: if_splits)
    show ?thesis using w held * QueueJob
      by (intro exI [of _ cur] exI [of _ ds] step) (simp_all add: eqs)
  next
    case JobDone
    then show ?thesis using m' by simp
  next
    case WaitJobs
    then show ?thesis using m' by simp
  next
    case (OpenFile n)
    have *: "s' = s" "m' = ms ! i" using p m' OpenFile by (auto split: if_splits)
    show ?thesis using w held * OpenFile
      by (intro exI [of _ cur] exI [of _ ds] step) (auto simp add: eqs)
  next
    case (CloseFile n)
    have *: "s' = s" "m' = ms ! i" using p m' CloseFile by (auto split: if_splits)
    show ?thesis using w held * CloseFile
      by (intro exI [of _ cur] exI [of _ ds] step) (auto simp add: eqs)
  next
    case (MapFile n)
    have *: "s' = s" "m' = ms ! i" using p m' MapFile by (auto split: if_splits)
    show ?thesis using w held * MapFile
      by (intro exI [of _ cur] exI [of _ ds] step) (auto simp add: eqs)
  next
    case (UnmapFile n)
    have *: "s' = s" "m' = ms ! i" using p m' UnmapFile by (auto split: if_splits)
    show ?thesis using w held * UnmapFile
      by (intro exI [of _ cur] exI [of _ ds] step) (auto simp add: eqs)
  qed
qed

lemma running_done:
  assumes r: "running cx pre post T s ms cur ds" and i: "0 < i" "i < length (threads s)" and tr: "threads s ! i = [JobDone]"
    and p: "perform i JobDone s = Goes s'" and m: "ms ! i = Free"
  shows "running cx pre post T (s'\<lparr>threads := (threads s)[i := []]\<rparr>) (ms[i := Free]) cur ds"
proof -
  have len: "i < length ms" using r i by (simp add: running_def modes_ok_def)
  have "s' = s\<lparr>job_wait := job_wait s - 1\<rparr>" using p by (auto split: if_splits)
  then show ?thesis using r m i tr len
    by (intro running_step [OF r len, where tr' = "[]"]) (simp_all add: thread_ok_def owed_def pending_def running_def)
qed

lemma running_take:
  assumes r: "running cx pre post T s ms cur ds" and i: "0 < i" "i < length (threads s)" and tr: "threads s ! i = []"
    and j: "jobs s = j # js" "job_trace cx j = Some tr" and ok: "job_ok cx"
  shows "running cx pre post T (s\<lparr>jobs := js, threads := (threads s)[i := tr]\<rparr>) (ms[i := Free]) cur ds"
proof -
  have len: "i < length ms" using r i by (simp add: running_def modes_ok_def)
  have th: "thread_ok post i (ms ! i) []" using r i(2) len unfolding running_def modes_ok_def tr [symmetric] by blast
  have m: "ms ! i = Free" using th i by (auto simp: thread_ok_def guarded_to_Nil)
  obtain w where w: "tr = w @ [JobDone]" "guarded Free w" "quiet w" using ok j(2) unfolding job_ok_def by (metis option.inject)
  have "count_list w JobDone = 0" for m
  proof -
    have "guarded m w \<Longrightarrow> JobDone \<notin> set w" for m by (induction m w rule: guarded.induct) auto
    then show ?thesis using w(2) by (auto simp: count_list_0_iff)
  qed
  then show ?thesis using r m i tr len w j
    by (intro running_step [OF r len, where tr' = tr])
      (auto simp: thread_ok_def owed_def pending_def running_def guarded_to_def job_blocks_def)
qed

lemma owed_zero: "thread_ok post i m tr \<Longrightarrow> i \<noteq> 0 \<Longrightarrow> owed m tr = 0 \<Longrightarrow> tr = []"
  by (auto simp: thread_ok_def owed_def guarded_to_def)

lemma running_wait:
  assumes r: "running cx pre post T s ms cur ds" and tr: "threads s ! 0 = WaitJobs # map Write post"
    and p: "perform 0 WaitJobs s = Goes s'" and m: "ms ! 0 = Free"
  shows "finishing pre post T (s'\<lparr>threads := (threads s)[0 := map Write post]\<rparr>) ds"
proof -
  have s': "s' = s" "job_wait s = 0" using p by (auto split: if_splits)
  have mo: "modes_ok post s ms" using r by (simp add: running_def)
  then have len: "length ms = length (threads s)" "0 < length (threads s)" by (simp_all add: modes_ok_def)
  have "int (length (jobs s) + total_owed s ms) = 0" using r s'(2) by (simp add: running_def)
  then have z: "jobs s = []" "total_owed s ms = 0" by (simp_all only: of_nat_eq_0_iff add_is_0 length_0_conv)
  have idle: "threads s ! i = []" "ms ! i = Free" if "i < length ms" "0 < i" for i
  proof -
    have ok: "thread_ok post i (ms ! i) (threads s ! i)" using mo that(1) unfolding modes_ok_def by blast
    have o: "owed (ms ! i) (threads s ! i) = 0" using z(2) that(1) by (simp add: total_owed_def)
    show "threads s ! i = []" using owed_zero [OF ok _ o] that by simp
    then show "ms ! i = Free" using ok that by (auto simp: thread_ok_def guarded_to_Nil)
  qed
  have ho: "holder s = None"
  proof (cases "holder s")
    case (Some k)
    then have "k < length ms \<and> ms ! k = Held" using mo unfolding modes_ok_def by blast
    then show ?thesis using idle m by (cases "k = 0") auto
  qed simp
  have "pending cx (if ms ! k = Held then cur else []) (threads s ! k) = {#}" if "k < length ms" for k
    using that idle [of k] tr m by (cases "k = 0") (simp_all add: pending_def)
  then have "mset ds = T" using r z by (simp add: running_def total_pending_def)
  moreover have "cur = []" using r ho by (simp add: running_def)
  ultimately show ?thesis using r z ho idle len s' by (auto simp: finishing_def running_def nth_list_update)
qed

lemma finishing_step:
  assumes f: "finishing pre post T s ds" and st: "jobs_step cx s s'"
  shows "finishing pre post T s' ds"
  using st
proof (cases rule: jobs_step.cases)
  case (act i a tr s1)
  have i: "i = 0" using f act(2,3) by (cases "i = 0") (simp_all add: finishing_def)
  obtain us vs where u: "post = us @ vs" "threads s ! 0 = map Write vs" "written s = pre @ concat ds @ us"
    using f unfolding finishing_def by blast
  obtain w ws where w: "vs = w # ws" "a = Write w" "tr = map Write ws" using u(2) act(3) i by (cases vs) auto
  have s1: "s1 = s\<lparr>written := written s @ [w]\<rparr>" using act(4) w(2) by simp
  have "post = (us @ [w]) @ ws" using u(1) w(1) by simp
  moreover have "threads s' ! 0 = map Write ws" using act(1,2) i w(3) by simp
  moreover have "written s' = pre @ concat ds @ us @ [w]" using u(3) act(1) s1 by simp
  ultimately have "\<exists>us vs. post = us @ vs \<and> threads s' ! 0 = map Write vs \<and> written s' = pre @ concat ds @ us" by blast
  then show ?thesis using f act(1) s1 i by (auto simp: finishing_def)
next
  case (take i j js tr)
  then show ?thesis using f by (simp add: finishing_def)
qed

definition jobs_inv :: "Context \<Rightarrow> bytes list \<Rightarrow> bytes list \<Rightarrow> bytes list multiset \<Rightarrow> Jobs \<Rightarrow> bool" where
  "jobs_inv cx pre post T s \<longleftrightarrow> (\<exists>ms cur ds. running cx pre post T s ms cur ds) \<or> (\<exists>ds. finishing pre post T s ds)"

lemma jobs_inv_step:
  assumes inv: "jobs_inv cx pre post T s" and ok: "job_ok cx" and st: "jobs_step cx s s'"
  shows "jobs_inv cx pre post T s'"
proof (cases "\<exists>ds. finishing pre post T s ds")
  case True
  then show ?thesis using finishing_step [OF _ st] unfolding jobs_inv_def by blast
next
  case False
  then obtain ms cur ds where r: "running cx pre post T s ms cur ds" using inv unfolding jobs_inv_def by blast
  have th: "thread_ok post i (ms ! i) (threads s ! i)" if "i < length (threads s)" for i
    using r that unfolding running_def modes_ok_def by simp
  show ?thesis using st
  proof (cases rule: jobs_step.cases)
    case (act i a tr s1)
    have "thread_ok post i (ms ! i) (a # tr)" using th act(2,3) by metis
    then show ?thesis
    proof (cases rule: thread_next)
      case (goes m')
      show ?thesis using running_act [OF r act(2-4) goes(1,2)] act(1) unfolding jobs_inv_def by blast
    next
      case waits
      then show ?thesis using running_wait [OF r, of s1] act unfolding jobs_inv_def by blast
    next
      case ends
      then show ?thesis using running_done [OF r, of i s1] act unfolding jobs_inv_def by blast
    qed
  next
    case (take i j js tr)
    then show ?thesis using running_take [OF r, of i j js tr] ok unfolding jobs_inv_def by blast
  qed
qed

lemma jobs_inv_steps:
  "(jobs_step cx)\<^sup>*\<^sup>* s s' \<Longrightarrow> jobs_inv cx pre post T s \<Longrightarrow> job_ok cx \<Longrightarrow> jobs_inv cx pre post T s'"
  by (induction rule: rtranclp_induct) (blast intro: jobs_inv_step)+

lemma jobs_inv_init:
  assumes "guarded Free tr"
  shows "jobs_inv cx pre post (pending cx [] tr) (job_queue_init fl pre (tr @ WaitJobs # map Write post))"
proof -
  let ?s = "job_queue_init fl pre (tr @ WaitJobs # map Write post)"
  let ?n = "length (threads ?s)"
  let ?ms = "replicate ?n Free"
  have th: "threads ?s ! 0 = tr @ WaitJobs # map Write post" "0 < ?n" "\<And>i. 0 < i \<Longrightarrow> i < ?n \<Longrightarrow> threads ?s ! i = []"
    by (auto simp: job_queue_init_def)
  have bl: "blocks ws (tr @ WaitJobs # map Write post) = blocks ws tr" for ws
    by (induction ws tr rule: blocks.induct) auto
  have nodone: "guarded m tr \<Longrightarrow> JobDone \<notin> set tr" for m by (induction m tr rule: guarded.induct) auto
  have "JobDone \<notin> set (tr @ WaitJobs # map Write post)" using nodone [OF assms] by auto
  then have cnt: "count_list (tr @ WaitJobs # map Write post) JobDone = 0" by (simp add: count_list_0_iff)
  have ms: "?ms ! i = Free" if "i < ?n" for i using that by (rule nth_replicate)
  have "thread_ok post i Free (threads ?s ! i)" if "i < ?n" for i
    using th that assms by (cases "i = 0") (auto simp: thread_ok_def guarded_to_def)
  moreover have "holder ?s = None" by (simp add: job_queue_init_def)
  ultimately have "modes_ok post ?s ?ms" using ms th(2) unfolding modes_ok_def length_replicate by auto
  moreover have "total_owed ?s ?ms = 0"
  proof -
    have "owed Free (threads ?s ! i) = 0" if "i < ?n" for i using th that cnt by (cases "i = 0") (simp_all add: owed_def)
    then show ?thesis by (simp add: total_owed_def)
  qed
  moreover have "total_pending cx ?s ?ms [] = pending cx [] tr"
  proof -
    have "pending cx [] (threads ?s ! i) = (if i = 0 then pending cx [] tr else {#})" if "i < ?n" for i
      using th that bl by (cases "i = 0") (simp_all add: pending_def)
    then have "(\<Sum>i < ?n. pending cx [] (threads ?s ! i)) = (\<Sum>i < ?n. if i = 0 then pending cx [] tr else {#})"
      by (intro sum.cong) simp_all
    then show ?thesis using th(2) by (simp add: total_pending_def sum.delta job_queue_init_def)
  qed
  ultimately have "running cx pre post (pending cx [] tr) ?s ?ms [] []"
    by (simp add: running_def job_queue_init_def)
  then show ?thesis unfolding jobs_inv_def by blast
qed

section \<open>Progress\<close>

definition can_step :: "Jobs \<Rightarrow> nat \<Rightarrow> bool" where
  "can_step s i \<longleftrightarrow> (\<exists>a tr s'. i < length (threads s) \<and> threads s ! i = a # tr \<and> perform i a s = Goes s')"

lemma can_stepI: "i < length (threads s) \<Longrightarrow> threads s ! i = a # tr \<Longrightarrow> perform i a s = Goes s' \<Longrightarrow> can_step s i"
  by (auto simp: can_step_def)

lemma can_step_goes: "can_step s i \<Longrightarrow> \<exists>s'. jobs_step cx s s'"
  unfolding can_step_def by (blast intro: act)

lemma quiet_goes:
  assumes m: "next_mode m a = Some m'" and f: "m = Free \<Longrightarrow> holder s = None" and h: "m = Held \<Longrightarrow> holder s \<noteq> None"
    and q: "m = Announced \<Longrightarrow> jobs s = []"
  shows "\<exists>s'. perform i a s = Goes s'"
  using assms by (cases a) (auto split: if_splits)

text \<open>A goroutine that has something left and is neither at its end nor announcing a job goes on when the lock is its own or free.\<close>

lemma thread_goes:
  assumes ok: "thread_ok post i m (a # tr)" and i: "i < length (threads s)" "threads s ! i = a # tr"
    and f: "m = Free \<Longrightarrow> holder s = None" and h: "m = Held \<Longrightarrow> holder s \<noteq> None" and q: "m = Announced \<Longrightarrow> jobs s = []"
    and w: "a = WaitJobs \<Longrightarrow> job_wait s = 0" and d: "a = JobDone \<Longrightarrow> 0 < job_wait s"
  shows "can_step s i"
  using ok
proof (cases rule: thread_next)
  case (goes m')
  then show ?thesis using quiet_goes [OF goes(1) f h q] can_stepI [OF i] by blast
next
  case waits
  then show ?thesis using w can_stepI [OF i] by simp
next
  case ends
  then show ?thesis using d can_stepI [OF i] by simp
qed

lemma idle_worker_takes:
  assumes "0 < i" "i < length (threads s)" "threads s ! i = []" "jobs s \<noteq> []" "job_ok cx"
  shows "\<exists>s'. jobs_step cx s s'"
proof -
  obtain j js where j: "jobs s = j # js" using assms(4) by (cases "jobs s") auto
  obtain w where "job_trace cx j = Some (w @ [JobDone])" using assms(5) unfolding job_ok_def by blast
  then show ?thesis using take [OF assms(1-3) j] by blast
qed

lemma owed_positive: "i < (n::nat) \<Longrightarrow> (0::nat) < f i \<Longrightarrow> 0 < (\<Sum>i < n. f i)"
  by (rule order_less_le_trans [OF _ member_le_sum]) simp_all

lemma running_progress:
  assumes r: "running cx pre post T s ms cur ds" and ok: "job_ok cx" and workers: "1 < length (threads s)"
  shows "\<exists>s'. jobs_step cx s s'"
proof -
  have mo: "modes_ok post s ms" using r by (simp add: running_def)
  then have len: "length ms = length (threads s)" by (simp add: modes_ok_def)
  have th: "thread_ok post i (ms ! i) (threads s ! i)" if "i < length (threads s)" for i
    using mo that unfolding modes_ok_def by simp
  have ho: "holder s = Some i \<longleftrightarrow> i < length ms \<and> ms ! i = Held" for i using mo unfolding modes_ok_def by blast
  have wait: "job_wait s = int (length (jobs s) + total_owed s ms)" using r by (simp add: running_def)
  have zero: "0 < length (threads s)" using workers by linarith
  have ne0: "threads s ! 0 \<noteq> []" using th [OF zero] by (auto simp: thread_ok_def guarded_to_def)
  have busy: "can_step s i" if i: "i < length (threads s)" "threads s ! i \<noteq> []" and m: "ms ! i \<noteq> Free \<or> holder s = None"
    and q: "ms ! i = Announced \<Longrightarrow> jobs s = []" and w: "hd (threads s ! i) = WaitJobs \<Longrightarrow> job_wait s = 0" for i
  proof -
    obtain a tr where t: "threads s ! i = a # tr" using i(2) by (cases "threads s ! i") auto
    have "0 < job_wait s" if "a = JobDone"
    proof -
      have "0 < owed (ms ! i) (threads s ! i)" using t that by (simp add: owed_def)
      then have "0 < total_owed s ms" unfolding total_owed_def using i(1) len by (intro owed_positive) simp_all
      then show ?thesis using wait by simp
    qed
    then show ?thesis using thread_goes [of post i "ms ! i" a tr s] th [OF i(1)] t i(1) m q w ho [of i] len by auto
  qed
  show ?thesis
  proof (cases "holder s")
    case (Some i)
    then have i: "i < length (threads s)" "ms ! i = Held" using ho len by auto
    then have "threads s ! i \<noteq> []" using th [OF i(1)] by (auto simp: thread_ok_def guarded_to_Nil split: if_splits)
    moreover have "hd (threads s ! i) \<noteq> WaitJobs"
      using th [OF i(1)] i(2) calculation by (cases "threads s ! i") (auto elim: thread_next)
    ultimately show ?thesis using busy [OF i(1)] i(2) can_step_goes by auto
  next
    case None
    show ?thesis
    proof (cases "\<exists>i. 0 < i \<and> i < length (threads s) \<and> threads s ! i \<noteq> []")
      case True
      then obtain i where i: "0 < i" "i < length (threads s)" "threads s ! i \<noteq> []" by blast
      have g: "guarded_to [JobDone] (ms ! i) (threads s ! i)" "quiet (threads s ! i)"
        using th [OF i(2)] i by (auto simp: thread_ok_def)
      have "hd (threads s ! i) \<noteq> WaitJobs" using g(2) i(3) by (cases "threads s ! i") auto
      moreover have "ms ! i \<noteq> Announced"
      proof
        assume "ms ! i = Announced"
        then obtain w where "threads s ! i = w @ [JobDone]" "guarded Announced w" using g(1) by (auto simp: guarded_to_def)
        then show False using g(2) by (cases w; cases "hd w") auto
      qed
      ultimately show ?thesis using busy [OF i(2,3)] None can_step_goes by auto
    next
      case False
      then have idle: "threads s ! 1 = []" using workers by (metis zero_less_one)
      show ?thesis
      proof (cases "jobs s = []")
        case True
        have "job_wait s = 0" if "hd (threads s ! 0) = WaitJobs"
        proof -
          have "owed (ms ! i) (threads s ! i) = 0" if "i < length ms" for i
          proof (cases "i = 0")
            case True
            obtain a tr where t: "threads s ! 0 = a # tr" using ne0 by (cases "threads s ! 0") auto
            then have a: "a = WaitJobs" using \<open>hd (threads s ! 0) = WaitJobs\<close> by simp
            have "thread_ok post 0 (ms ! 0) (WaitJobs # tr)" using th [OF zero] t a by simp
            then have "ms ! 0 = Free \<and> tr = map Write post" by (auto elim: thread_next)
            then show ?thesis using True t a by (auto simp: owed_def count_list_0_iff)
          next
            case i: False
            then have "threads s ! i = []" using False that unfolding len by blast
            then show ?thesis using th [of i] i that len by (auto simp: owed_def thread_ok_def guarded_to_Nil)
          qed
          then show ?thesis using wait True by (simp add: total_owed_def)
        qed
        then have "can_step s 0" using busy [OF zero ne0] None True by blast
        then show ?thesis by (rule can_step_goes)
      next
        case False
        then show ?thesis using idle_worker_takes [of 1 s cx] idle workers ok by simp
      qed
    qed
  qed
qed

lemma finishing_progress:
  assumes f: "finishing pre post T s ds" and n: "\<not> finished s"
  shows "\<exists>s'. jobs_step cx s s'"
proof -
  obtain us vs where u: "threads s ! 0 = map Write vs" using f unfolding finishing_def by blast
  have "threads s ! 0 \<noteq> []"
  proof
    assume z: "threads s ! 0 = []"
    have "\<forall>i < length (threads s). threads s ! i = []"
    proof (intro allI impI)
      fix i assume "i < length (threads s)"
      then show "threads s ! i = []" using f z by (cases "i = 0") (auto simp: finishing_def)
    qed
    then have "\<forall>tr \<in> set (threads s). tr = []" by (metis in_set_conv_nth)
    then show False using f n by (simp add: finished_def finishing_def)
  qed
  then obtain w ws where "threads s ! 0 = Write w # map Write ws" using u by (cases vs) auto
  then show ?thesis using f act [of 0 s "Write w"] by (auto simp: finishing_def)
qed

section \<open>Every run has the same length\<close>

fun effort :: "(Job \<Rightarrow> nat) \<Rightarrow> trace \<Rightarrow> nat" where
  "effort c [] = 0"
| "effort c (QueueJob p1 p2 f1 f2 # tr) = 2 + c (p1, p2, f1, f2) + effort c tr"
| "effort c (_ # tr) = 1 + effort c tr"

definition job_effort :: "Context \<Rightarrow> Job \<Rightarrow> nat" where
  "job_effort cx j = (case job_trace cx j of Some tr \<Rightarrow> length tr | None \<Rightarrow> 0)"

definition total_effort :: "Context \<Rightarrow> Jobs \<Rightarrow> nat" where
  "total_effort cx s = (\<Sum>i < length (threads s). effort (job_effort cx) (threads s ! i)) +
     sum_list (map (\<lambda>j. 1 + job_effort cx j) (jobs s))"

lemma quiet_effort: "quiet tr \<Longrightarrow> effort c tr = length tr"
  by (induction c tr rule: effort.induct) auto

lemma effort_upd:
  assumes "i < length ts"
  shows "(\<Sum>k < length ts. effort c (ts[i := tr] ! k)) + effort c (ts ! i) = (\<Sum>k < length ts. effort c (ts ! k)) + effort c tr"
  using sum_upd [OF assms, of "\<lambda>k. effort c (ts[i := tr] ! k)" "\<lambda>k. effort c (ts ! k)"] assms by simp

lemma step_effort:
  assumes "jobs_step cx s s'" and ok: "job_ok cx"
  shows "total_effort cx s = Suc (total_effort cx s')"
  using assms(1)
proof (cases rule: jobs_step.cases)
  case (act i a tr s1)
  have "jobs s1 = jobs s \<and> effort (job_effort cx) (a # tr) = 1 + effort (job_effort cx) tr \<or>
      (\<exists>p1 p2 f1 f2. a = QueueJob p1 p2 f1 f2 \<and> jobs s1 = jobs s @ [(p1, p2, f1, f2)])"
    using act(4) by (cases a) (auto split: if_splits)
  then show ?thesis
    using act(1) effort_upd [OF act(2), of "job_effort cx" tr] act(3) by (auto simp: total_effort_def)
next
  case (take i j js tr)
  obtain w where "tr = w @ [JobDone]" "quiet w" using ok take(6) unfolding job_ok_def by (metis option.inject)
  then have "effort (job_effort cx) tr = job_effort cx j" using take(6) by (simp add: quiet_effort job_effort_def)
  then show ?thesis
    using take effort_upd [OF take(3), of "job_effort cx" tr] by (simp add: total_effort_def)
qed

lemma run_effort: "(jobs_step cx ^^ n) s s' \<Longrightarrow> job_ok cx \<Longrightarrow> total_effort cx s = n + total_effort cx s'"
proof (induction n arbitrary: s')
  case (Suc n)
  then obtain s1 where "(jobs_step cx ^^ n) s s1" "jobs_step cx s1 s'" by auto
  then show ?case using Suc.IH [of s1] step_effort Suc.prems(2) by simp
qed simp

lemma finished_effort:
  assumes "finished s"
  shows "total_effort cx s = 0"
proof -
  have "effort c (threads s ! i) = 0" if "i < length (threads s)" for i c
  proof -
    have "threads s ! i = []" using assms nth_mem [OF that] unfolding finished_def by blast
    then show ?thesis by simp
  qed
  then show ?thesis using assms by (simp add: total_effort_def finished_def)
qed

lemma step_threads: "jobs_step cx s s' \<Longrightarrow> length (threads s') = length (threads s)"
  by (auto elim!: jobs_stepE)

lemma steps_threads: "(jobs_step cx)\<^sup>*\<^sup>* s s' \<Longrightarrow> length (threads s') = length (threads s)"
  by (induction rule: rtranclp_induct) (simp_all add: step_threads)

section \<open>Comparing directories with several goroutines\<close>

definition writes_of :: "trace \<Rightarrow> bytes list" where
  "writes_of tr = concat (map (\<lambda>a. case a of Write w \<Rightarrow> [w] | _ \<Rightarrow> []) tr)"

lemma html_writes: "html_start fl b a f1 f2 = map Write (writes_of (html_start fl b a f1 f2))"
  "html_end fl now = map Write (writes_of (html_end fl now))"
  by (simp_all add: html_start_def html_end_def writes_of_def)

text \<open>Two directories that can be compared with several goroutines.\<close>

definition directories :: "Context \<Rightarrow> nat \<Rightarrow> bytes \<Rightarrow> bytes \<Rightarrow> bool" where
  "directories cx n f1 f2 \<longleftrightarrow> 0 \<le> context_lines (cx_flags cx) \<and> 1 < max_goroutines (cx_flags cx) \<and> names_ok cx \<and>
     dirs_within cx n f1 \<and> (\<exists>fi1 fi2. stat_both (cx_os cx) f1 f2 = Inr (fi1, fi2) \<and> fi_IsDir fi1 \<and> fi_IsDir fi2)"

lemma directories_trace:
  assumes "directories cx n f1 f2"
  obtains pre tr post where "XdiffToString cx n f1 f2 = Some (Inr (map Write pre @ tr @ WaitJobs # map Write post))"
    and "guarded Free tr"
proof -
  let ?pre = "writes_of (html_start (cx_flags cx) ''<strong><font color=\"#e68a00\">'' ''</font></strong>'' f1 f2)"
  let ?post = "writes_of (html_end (cx_flags cx) (os_Now (cx_os cx)))"
  obtain fi1 fi2 where f: "stat_both (cx_os cx) f1 f2 = Inr (fi1, fi2)" "fi_IsDir fi1" "fi_IsDir fi2"
    using assms by (auto simp: directories_def)
  have c: "0 \<le> context_lines (cx_flags cx)" "1 < max_goroutines (cx_flags cx)" "names_ok cx" "dirs_within cx n f1"
    using assms by (auto simp: directories_def)
  obtain tr where tr: "diff_dirs cx n f1 f2 fi1 fi2 (map Write ?pre) = Some (map Write ?pre @ tr)" "guarded Free tr"
    using diff_dirs_extends [OF c(1,3,4), of "map Write ?pre" f2 fi1 fi2] c(2) by (auto simp: extends_def)
  have "XdiffToString cx n f1 f2 = Some (Inr (map Write ?pre @ tr @ WaitJobs # map Write ?post))"
    unfolding XdiffToString_def using f tr(1) c(2)
    by (simp add: compare_both_def job_queue_finish_def flip: html_writes)
  then show thesis using that tr(2) by blast
qed

lemma reached_inv:
  assumes "guarded Free tr" and "job_ok cx"
    and "(jobs_step cx)\<^sup>*\<^sup>* (job_queue_init fl pre (tr @ WaitJobs # map Write post)) s"
  shows "jobs_inv cx pre post (pending cx [] tr) s"
  using jobs_inv_steps [OF assms(3) jobs_inv_init [OF assms(1)] assms(2)] .

lemma directories_job_ok: "directories cx n f1 f2 \<Longrightarrow> job_ok cx"
  by (simp add: directories_def job_ok_context)

lemma finished_is_finishing:
  assumes "jobs_inv cx pre post T s" and "finished s"
  shows "\<exists>ds. written s = pre @ concat ds @ post \<and> mset ds = T"
  using assms(1) unfolding jobs_inv_def
proof
  assume "\<exists>ms cur ds. running cx pre post T s ms cur ds"
  then obtain ms where "modes_ok post s ms" by (auto simp: running_def)
  then have "thread_ok post 0 (ms ! 0) (threads s ! 0)" "0 < length (threads s)" unfolding modes_ok_def by auto
  moreover have "threads s ! 0 = []" using assms(2) nth_mem [OF calculation(2)] unfolding finished_def by blast
  ultimately have False by (simp add: thread_ok_def guarded_to_Nil)
  then show ?thesis ..
next
  assume "\<exists>ds. finishing pre post T s ds"
  then obtain ds us vs where d: "0 < length (threads s)" "mset ds = T" "post = us @ vs" "threads s ! 0 = map Write vs"
    "written s = pre @ concat ds @ us" unfolding finishing_def by blast
  have "threads s ! 0 = []" using assms(2) nth_mem [OF d(1)] unfolding finished_def by blast
  then show ?thesis using d by auto
qed

text \<open>
  C3. The concurrent comparison of two directories tears nothing apart and loses nothing. In every state that the goroutines can reach, when nothing is left to do, the output is what was
  written before and after the comparison and, between them, complete blocks: those of the calling goroutine and
  those of every file comparison that it queued, each exactly once and none torn apart.
\<close>

theorem concurrent_report_is_whole:
  assumes "directories cx n f1 f2"
  shows "\<exists>pre tr post. XdiffToString cx n f1 f2 = Some (Inr (map Write pre @ tr @ WaitJobs # map Write post)) \<and>
    (\<forall>s. (jobs_step cx)\<^sup>*\<^sup>* (job_queue_init (cx_flags cx) pre (tr @ WaitJobs # map Write post)) s \<longrightarrow> finished s \<longrightarrow>
      (\<exists>bs. written s = pre @ concat bs @ post \<and> mset bs = mset (blocks [] tr) + jobs_blocks cx (queued tr)))"
proof (rule directories_trace [OF assms])
  fix pre tr post
  assume t: "XdiffToString cx n f1 f2 = Some (Inr (map Write pre @ tr @ WaitJobs # map Write post))" "guarded Free tr"
  have "\<exists>bs. written s = pre @ concat bs @ post \<and> mset bs = pending cx [] tr"
    if "(jobs_step cx)\<^sup>*\<^sup>* (job_queue_init (cx_flags cx) pre (tr @ WaitJobs # map Write post)) s" "finished s" for s
    using finished_is_finishing [OF reached_inv [OF t(2) directories_job_ok [OF assms] that(1)] that(2)] .
  then show ?thesis using t(1) unfolding pending_def by blast
qed

text \<open>
  C4. The concurrent comparison always comes to its end. From every reachable state in which something is left to
  do, some goroutine can go on, whatever the order of the steps so far was; and every run has the same bounded number of
  steps, so that after it everything is done.
\<close>

theorem concurrent_report_ends:
  assumes "directories cx n f1 f2"
  shows "\<exists>pre tr post. XdiffToString cx n f1 f2 = Some (Inr (map Write pre @ tr @ WaitJobs # map Write post)) \<and>
    (let s0 = job_queue_init (cx_flags cx) pre (tr @ WaitJobs # map Write post) in
      (\<forall>s. (jobs_step cx)\<^sup>*\<^sup>* s0 s \<longrightarrow> finished s \<or> Ex (jobs_step cx s)) \<and>
      (\<forall>k s. (jobs_step cx ^^ k) s0 s \<longrightarrow> k \<le> total_effort cx s0 \<and> (finished s \<longleftrightarrow> k = total_effort cx s0)))"
proof (rule directories_trace [OF assms])
  fix pre tr post
  assume t: "XdiffToString cx n f1 f2 = Some (Inr (map Write pre @ tr @ WaitJobs # map Write post))" "guarded Free tr"
  let ?s0 = "job_queue_init (cx_flags cx) pre (tr @ WaitJobs # map Write post)"
  note ok = directories_job_ok [OF assms]
  have workers: "1 < length (threads ?s0)" using assms by (auto simp: job_queue_init_def directories_def)
  have live: "finished s \<or> Ex (jobs_step cx s)" if r: "(jobs_step cx)\<^sup>*\<^sup>* ?s0 s" for s
  proof -
    have "1 < length (threads s)" using steps_threads [OF r] workers by simp
    then show ?thesis
      using reached_inv [OF t(2) ok r] running_progress [OF _ ok] finishing_progress unfolding jobs_inv_def by blast
  qed
  have "k \<le> total_effort cx ?s0 \<and> (finished s \<longleftrightarrow> k = total_effort cx ?s0)" if k: "(jobs_step cx ^^ k) ?s0 s" for k s
  proof -
    have e: "total_effort cx ?s0 = k + total_effort cx s" by (rule run_effort [OF k ok])
    have "finished s" if "total_effort cx s = 0"
    proof (rule ccontr)
      assume "\<not> finished s"
      then obtain s' where "jobs_step cx s s'" using live relpowp_imp_rtranclp [OF k] by blast
      then show False using step_effort [OF _ ok] that by simp
    qed
    then show ?thesis using e finished_effort [of s cx] by auto
  qed
  then show ?thesis using t(1) live by (intro exI [of _ pre] exI [of _ tr] exI [of _ post]) (simp add: Let_def)
qed

text \<open>What the invariant says of the next actions.\<close>

lemma running_safe:
  assumes r: "running cx pre post T s ms cur ds" and i: "i < length (threads s)" "threads s ! i = a # tr"
  shows "perform i a s \<noteq> Fails" and "a = Write w \<Longrightarrow> holder s = Some i"
proof -
  have mo: "modes_ok post s ms" using r by (simp add: running_def)
  have len: "length ms = length (threads s)" using mo by (simp add: modes_ok_def)
  have ok: "thread_ok post i (ms ! i) (a # tr)" using mo i len unfolding modes_ok_def by metis
  have ho: "ms ! i = Held \<Longrightarrow> holder s = Some i" using mo i(1) len unfolding modes_ok_def by simp
  have "0 < job_wait s" if "a = JobDone"
  proof -
    have "0 < owed (ms ! i) (threads s ! i)" using i(2) that by (simp add: owed_def)
    then have "0 < total_owed s ms" unfolding total_owed_def using i(1) len by (intro owed_positive) simp_all
    then show ?thesis using r by (simp add: running_def)
  qed
  moreover have "holder s = Some i" if "a = Unlock \<or> a = Write w"
    using ok that ho by (auto elim!: thread_next split: if_splits)
  ultimately show "perform i a s \<noteq> Fails" and "a = Write w \<Longrightarrow> holder s = Some i"
    by (cases a; auto)+
qed

text \<open>
  C11. The goroutines keep to the rules of what they share. In every reachable state no goroutine is about to
  unlock a mutex that is not locked or to bring the wait group below zero, which would be a panic; a goroutine that is
  about to write holds the lock, or all the others are done; and the channel never holds more than one job.
\<close>

theorem concurrent_report_is_safe:
  assumes "directories cx n f1 f2"
  shows "\<exists>pre tr post. XdiffToString cx n f1 f2 = Some (Inr (map Write pre @ tr @ WaitJobs # map Write post)) \<and>
    (\<forall>s i a rest. (jobs_step cx)\<^sup>*\<^sup>* (job_queue_init (cx_flags cx) pre (tr @ WaitJobs # map Write post)) s \<longrightarrow>
      i < length (threads s) \<longrightarrow> threads s ! i = a # rest \<longrightarrow>
      perform i a s \<noteq> Fails \<and> length (jobs s) \<le> 1 \<and>
      (\<forall>w. a = Write w \<longrightarrow> holder s = Some i \<or> (\<forall>k < length (threads s). k \<noteq> i \<longrightarrow> threads s ! k = [])))"
proof (rule directories_trace [OF assms])
  fix pre tr post
  assume t: "XdiffToString cx n f1 f2 = Some (Inr (map Write pre @ tr @ WaitJobs # map Write post))" "guarded Free tr"
  have "perform i a s \<noteq> Fails \<and> length (jobs s) \<le> 1 \<and>
      (\<forall>w. a = Write w \<longrightarrow> holder s = Some i \<or> (\<forall>k < length (threads s). k \<noteq> i \<longrightarrow> threads s ! k = []))"
    if s: "(jobs_step cx)\<^sup>*\<^sup>* (job_queue_init (cx_flags cx) pre (tr @ WaitJobs # map Write post)) s"
      "i < length (threads s)" "threads s ! i = a # rest" for s i a rest
    using reached_inv [OF t(2) directories_job_ok [OF assms] s(1)] unfolding jobs_inv_def
  proof
    assume "\<exists>ms cur ds. running cx pre post (pending cx [] tr) s ms cur ds"
    then obtain ms cur ds where r: "running cx pre post (pending cx [] tr) s ms cur ds" by blast
    then have "length (jobs s) \<le> 1" by (simp add: running_def)
    then show ?thesis using running_safe [OF r s(2,3)] by blast
  next
    assume "\<exists>ds. finishing pre post (pending cx [] tr) s ds"
    then obtain ds vs where f: "finishing pre post (pending cx [] tr) s ds" "threads s ! 0 = map Write vs"
      unfolding finishing_def by blast
    have i: "i = 0" using f(1) s(2,3) by (cases "i = 0") (simp_all add: finishing_def)
    then obtain w where "a = Write w" using f(2) s(3) by (cases vs) auto
    then show ?thesis using f(1) i by (auto simp: finishing_def)
  qed
  then show ?thesis using t(1) by blast
qed

definition example_directories :: Context where
  "example_directories = (let cx = example_context 2 in
     cx\<lparr>cx_os := (cx_os cx)\<lparr>os_Stat := (\<lambda>n. Inr ((example_info n 0)\<lparr>fi_IsDir := True\<rparr>))\<rparr>\<rparr>)"

lemma example_directories: "directories example_directories (Suc 0) ''l'' ''r''"
proof -
  have "names_ok example_directories"
    by (auto simp: names_ok_def example_directories_def example_context_def Os.defs example_info_def split: if_splits)
  moreover have "dirs_within example_directories (Suc 0) ''l''"
    by (simp add: TrimRight_def read_sorted_dir_def example_directories_def example_context_def Os.defs example_info_def)
  moreover have "stat_both (cx_os example_directories) ''l'' ''r'' =
      Inr ((example_info ''l'' 0)\<lparr>fi_IsDir := True\<rparr>, (example_info ''r'' 0)\<lparr>fi_IsDir := True\<rparr>)"
    by (simp add: stat_both_def example_directories_def example_context_def)
  moreover have "0 \<le> context_lines (cx_flags example_directories)" "1 < max_goroutines (cx_flags example_directories)"
    by (simp_all add: example_directories_def example_context_def default_flags_def)
  ultimately show ?thesis by (simp add: directories_def del: dirs_within.simps)
qed

theorem concurrent_report_is_whole_witness:
  "\<exists>pre tr post. XdiffToString example_directories 1 ''l'' ''r'' = Some (Inr (map Write pre @ tr @ WaitJobs # map Write post)) \<and>
    (\<forall>s. (jobs_step example_directories)\<^sup>*\<^sup>*
        (job_queue_init (cx_flags example_directories) pre (tr @ WaitJobs # map Write post)) s \<longrightarrow> finished s \<longrightarrow>
      (\<exists>bs. written s = pre @ concat bs @ post \<and> mset bs = mset (blocks [] tr) + jobs_blocks example_directories (queued tr)))"
  using concurrent_report_is_whole [OF example_directories] by simp

theorem concurrent_report_ends_witness:
  "\<exists>pre tr post. let s0 = job_queue_init (cx_flags example_directories) pre (tr @ WaitJobs # map Write post) in
      (\<forall>k s. (jobs_step example_directories ^^ k) s0 s \<longrightarrow> (finished s \<longleftrightarrow> k = total_effort example_directories s0))"
  using concurrent_report_ends [OF example_directories] unfolding Let_def by blast

theorem concurrent_report_is_safe_witness:
  "\<exists>pre tr post. \<forall>s i rest. (jobs_step example_directories)\<^sup>*\<^sup>*
      (job_queue_init (cx_flags example_directories) pre (tr @ WaitJobs # map Write post)) s \<longrightarrow>
      i < length (threads s) \<longrightarrow> threads s ! i = Unlock # rest \<longrightarrow> holder s \<noteq> None"
  using concurrent_report_is_safe [OF example_directories]
  by (elim exE conjE, intro exI allI impI) (drule spec, drule spec, drule spec, drule spec, fastforce split: if_splits)

end
