(* ===== verification/Xman_Config.thy ===== *)
theory Xman_Config
  imports Go_Strings
begin

text \<open>
  Configuration files (\<open>config/xman_config.go\<close>): sections of options, looked up, changed, deleted and printed.

  The caller holds pointers to sections while the configuration holds them too, so sections live in a heap, the
  list \<open>cf_heap\<close>, and a pointer is a position in it. The map \<open>sections\<close> takes a name to the pointers of its list.
  The mutex of a section is held during one operation only; of the mutex of the configuration the model keeps
  whether it is locked for writing, since \<open>Save\<close> can leave it so. \<^term>\<open>None\<close> is a panic, or a lock that is waited for in vain.
  A regular expression is a function from names to an error or whether it matches, and the order in which the range
  over the map visits the names is a parameter.

  Deleting removes elements from a slice while a range goes over it, so the loop is modelled on the array under the
  slice.

  Shown: every operation keeps the configuration well formed; the laws of looking up what was added and set; and
  what deleting does, with the exact condition under which it panics.
\<close>

section \<open>Sections\<close>

record Section =
  fqn :: bytes
  options :: "bytes \<Rightarrow> bytes option"
  orderedOptions :: "bytes list"

definition Section_Exists :: "Section \<Rightarrow> bytes \<Rightarrow> bool" where
  "Section_Exists s opt \<longleftrightarrow> options s opt \<noteq> None"

definition ValueOf :: "Section \<Rightarrow> bytes \<Rightarrow> bytes" where
  "ValueOf s opt = (case options s opt of Some v \<Rightarrow> v | None \<Rightarrow> [])"

definition Options :: "Section \<Rightarrow> (bytes \<Rightarrow> bytes option)" where
  "Options s = options s"

definition OptionNames :: "Section \<Rightarrow> bytes list" where
  "OptionNames s = orderedOptions s"

definition SetValueFor :: "Section \<Rightarrow> bytes \<Rightarrow> bytes \<Rightarrow> bytes \<times> Section" where
  "SetValueFor s opt value = (ValueOf s opt, s\<lparr>options := (options s)(opt \<mapsto> value)\<rparr>)"

definition Section_Add :: "Section \<Rightarrow> bytes \<Rightarrow> bytes \<Rightarrow> bytes \<times> Section" where
  "Section_Add s opt value =
     (let oldValue = ValueOf s opt;
          s = (if options s opt = None then s\<lparr>orderedOptions := orderedOptions s @ [opt]\<rparr> else s)
      in (oldValue, s\<lparr>options := (options s)(opt \<mapsto> value)\<rparr>))"

text \<open>
  The loop \<open>for i, x := range s { if matched { s = append(s[:i], s[i+1:]...) } }\<close>. \<open>A\<close> is the array over the length that the
  range has evaluated, and \<open>m\<close> the length of the slice by now. \<open>append\<close> moves the elements after \<open>i\<close> to the left within
  the array; \<open>s[i+1:]\<close> panics beyond the length.
\<close>

definition shift_left :: "'a list \<Rightarrow> nat \<Rightarrow> nat \<Rightarrow> 'a list" where
  "shift_left A i m = take i A @ take (m - Suc i) (drop (Suc i) A) @ drop (m - 1) A"

lemma length_shift_left [simp]: "i < m \<Longrightarrow> m \<le> length A \<Longrightarrow> length (shift_left A i m) = length A"
  by (simp add: shift_left_def)

lemma length_shift_left_le: "Suc i \<le> m \<Longrightarrow> i < length A \<Longrightarrow> length (shift_left A i m) \<le> length A"
  by (simp add: shift_left_def)

function delete_from :: "('a \<Rightarrow> bytes + bool) \<Rightarrow> nat \<Rightarrow> 'a list \<Rightarrow> nat \<Rightarrow> (bytes option \<times> 'a list) option" where
  "delete_from matches i A m =
     (if i < length A then
        (case matches (A ! i) of
           Inl err \<Rightarrow> Some (Some err, take m A)
         | Inr matched \<Rightarrow>
             (if matched then
                (if Suc i \<le> m then delete_from matches (Suc i) (shift_left A i m) (m - 1) else None)
              else delete_from matches (Suc i) A m))
      else Some (None, take m A))"
  by pat_completeness auto

termination
  by (relation "measure (\<lambda>(matches, i, A, m). length A - i)") (auto dest: length_shift_left_le)

declare delete_from.simps [simp del]

definition delete_all :: "('a \<Rightarrow> bytes + bool) \<Rightarrow> 'a list \<Rightarrow> (bytes option \<times> 'a list) option" where
  "delete_all matches xs = delete_from matches 0 xs (length xs)"

definition Section_Delete :: "Section \<Rightarrow> bytes \<Rightarrow> (bytes \<times> Section) option" where
  "Section_Delete s opt =
     (let value = ValueOf s opt; s = s\<lparr>options := (options s)(opt := None)\<rparr>
      in do { (_, names) \<leftarrow> delete_all (\<lambda>x. Inr (x = opt)) (orderedOptions s);
              Some (value, s\<lparr>orderedOptions := names\<rparr>) })"

definition option_text :: "Section \<Rightarrow> bytes \<Rightarrow> bytes" where
  "option_text s opt =
     (let value = ValueOf s opt in if value \<noteq> [] then opt @ ''='' @ value @ nl else opt @ nl)"

definition Section_String :: "Section \<Rightarrow> bytes" where
  "Section_String s =
     (if fqn s = ''global'' then [] else ''['' @ fqn s @ '']'' @ nl) @ concat (map (option_text s) (orderedOptions s))"

definition isSection :: "bytes \<Rightarrow> bool" where
  "isSection line = HasPrefix line ''[''"

definition parseOption :: "bytes \<Rightarrow> bytes \<times> bytes" where
  "parseOption line =
     (case Index line (CHR ''='') of
        Some i \<Rightarrow> (Trim (take i line) '' '', Trim (drop (i + 1) line) '' '')
      | None \<Rightarrow>
          (case Index line (CHR '':'') of
             Some i \<Rightarrow> (Trim (take i line) '' '', Trim (drop (i + 1) line) '' '')
           | None \<Rightarrow> (line, [])))"

definition addOption :: "Section \<Rightarrow> bytes \<Rightarrow> Section" where
  "addOption s line =
     (let (opt, value) = parseOption line
      in s\<lparr>options := (options s)(opt \<mapsto> (if value \<noteq> [] then value else [])), orderedOptions := orderedOptions s @ [opt]\<rparr>)"

section \<open>Configurations\<close>

type_synonym Ptr = nat

record Configuration =
  cf_filePath :: bytes
  cf_sections :: "bytes \<Rightarrow> Ptr list option"
  cf_orderedSections :: "bytes list"
  cf_locked :: bool
  cf_heap :: "Section list"

definition newConfiguration :: "bytes \<Rightarrow> Configuration" where
  "newConfiguration path = \<lparr>cf_filePath = path, cf_sections = (\<lambda>_. None), cf_orderedSections = [], cf_locked = False, cf_heap = []\<rparr>"

definition NewConfiguration :: Configuration where
  "NewConfiguration = newConfiguration []"

definition addSection :: "bytes \<Rightarrow> Configuration \<Rightarrow> Ptr \<times> Configuration" where
  "addSection name c =
     (let p = length (cf_heap c);
          c = c\<lparr>cf_heap := cf_heap c @ [\<lparr>fqn = name, options = (\<lambda>_. None), orderedOptions = []\<rparr>]\<rparr>
      in case cf_sections c name of
           None \<Rightarrow> (p, c\<lparr>cf_sections := (cf_sections c)(name \<mapsto> [p]), cf_orderedSections := cf_orderedSections c @ [name]\<rparr>)
         | Some ps \<Rightarrow> (p, c\<lparr>cf_sections := (cf_sections c)(name \<mapsto> ps @ [p])\<rparr>))"

definition NewSection :: "bytes \<Rightarrow> Configuration \<Rightarrow> Ptr \<times> Configuration" where
  "NewSection name c = addSection name c"

definition FilePath :: "Configuration \<Rightarrow> bytes" where
  "FilePath c = cf_filePath c"

text \<open>A call of an operation of the section at a pointer.\<close>

definition section_at :: "Configuration \<Rightarrow> Ptr \<Rightarrow> Section" where
  "section_at c p = cf_heap c ! p"

definition set_section :: "Ptr \<Rightarrow> Section \<Rightarrow> Configuration \<Rightarrow> Configuration" where
  "set_section p s c = c\<lparr>cf_heap := (cf_heap c)[p := s]\<rparr>"

definition locking :: "Configuration \<Rightarrow> 'a \<Rightarrow> 'a option" where
  "locking c r = (if cf_locked c then None else Some r)"

definition SetFilePath :: "Configuration \<Rightarrow> bytes \<Rightarrow> Configuration option" where
  "SetFilePath c path = locking c (c\<lparr>cf_filePath := path\<rparr>)"

definition Configuration_Section :: "Configuration \<Rightarrow> bytes \<Rightarrow> (bytes + Ptr) option" where
  "Configuration_Section c name = locking c
     (case cf_sections c name of
        Some (p # ps) \<Rightarrow> Inr p
      | _ \<Rightarrow> Inl (''Unable to find '' @ name))"

definition Sections :: "Configuration \<Rightarrow> bytes \<Rightarrow> (bytes + Ptr list) option" where
  "Sections c name = locking c
     (if name = [] then
        Inr (concat (map (\<lambda>n. case cf_sections c n of Some ps \<Rightarrow> ps | None \<Rightarrow> []) (cf_orderedSections c)))
      else case cf_sections c name of
             Some ps \<Rightarrow> Inr ps
           | None \<Rightarrow> Inl (''Unable to find '' @ name))"

definition AllSections :: "Configuration \<Rightarrow> (bytes + Ptr list) option" where
  "AllSections c = Sections c []"

definition StringValue :: "Configuration \<Rightarrow> bytes \<Rightarrow> bytes \<Rightarrow> (bytes + bytes) option" where
  "StringValue c name opt =
     do { r \<leftarrow> Configuration_Section c name;
          Some (case r of Inl err \<Rightarrow> Inl err | Inr p \<Rightarrow> Inr (ValueOf (section_at c p) opt)) }"

fun find_from :: "(bytes \<Rightarrow> bytes + bool) \<Rightarrow> (bytes \<Rightarrow> Ptr list option) \<Rightarrow> bytes list \<Rightarrow> Ptr list \<Rightarrow> bytes + Ptr list" where
  "find_from regex secs [] ps = Inr ps"
| "find_from regex secs (key # keys) ps =
     (case regex key of
        Inl err \<Rightarrow> Inl err
      | Inr matched \<Rightarrow>
          find_from regex secs keys (if matched then ps @ (case secs key of Some qs \<Rightarrow> qs | None \<Rightarrow> []) else ps))"

definition Find :: "(bytes \<Rightarrow> bytes + bool) \<Rightarrow> bytes list \<Rightarrow> Configuration \<Rightarrow> (bytes + Ptr list) option" where
  "Find regex keys c = locking c (find_from regex (cf_sections c) keys [])"

text \<open>\<open>delete(c.sections, s.fqn)\<close> for the sections found, and then the loop over the ordered names.\<close>

fun delete_sections :: "Ptr list \<Rightarrow> Configuration \<Rightarrow> Configuration" where
  "delete_sections [] c = c"
| "delete_sections (p # ps) c =
     delete_sections ps (c\<lparr>cf_sections := (cf_sections c)(fqn (section_at c p) := None)\<rparr>)"

definition Configuration_Delete ::
  "(bytes \<Rightarrow> bytes + bool) \<Rightarrow> bytes list \<Rightarrow> Configuration \<Rightarrow> ((bytes + Ptr list) \<times> Configuration) option"
where
  "Configuration_Delete regex keys c =
     do { r \<leftarrow> Find regex keys c;
          (case r of
             Inl err \<Rightarrow> Some (Inl err, c)
           | Inr ps \<Rightarrow>
               (let c = delete_sections ps c
                in do { (failed, names) \<leftarrow> delete_all regex (cf_orderedSections c);
                        let c = c\<lparr>cf_orderedSections := names\<rparr>;
                        Some (case failed of Some err \<Rightarrow> (Inl err, c) | None \<Rightarrow> (Inr ps, c)) })) }"

definition Configuration_String :: "Configuration \<Rightarrow> bytes option" where
  "Configuration_String c = locking c
     (concat (map (\<lambda>n. case Sections c n of
                         Some (Inr ps) \<Rightarrow> concat (map (\<lambda>p. Section_String (section_at c p)) ps)
                       | _ \<Rightarrow> []) (cf_orderedSections c)))"

definition PrintSection :: "Configuration \<Rightarrow> bytes \<Rightarrow> bytes option" where
  "PrintSection c name =
     do { r \<leftarrow> Sections c name;
          Some (case r of
                  Inr ps \<Rightarrow> concat (map (\<lambda>p. Section_String (section_at c p)) ps)
                | Inl err \<Rightarrow> ''Unable to find section '' @ err @ nl) }"

section \<open>Deleting while ranging\<close>

text \<open>A match at position \<open>i\<close>, for a loop whose matches do not fail.\<close>

abbreviation hit :: "('a \<Rightarrow> bool) \<Rightarrow> 'a \<Rightarrow> bytes + bool" where
  "hit P x \<equiv> Inr (P x)"

lemma delete_steps:
  "\<not> i < length A \<Longrightarrow> delete_from (hit P) i A m = Some (None, take m A)"
  "i < length A \<Longrightarrow> \<not> P (A ! i) \<Longrightarrow> delete_from (hit P) i A m = delete_from (hit P) (Suc i) A m"
  "i < length A \<Longrightarrow> P (A ! i) \<Longrightarrow> Suc i \<le> m \<Longrightarrow>
    delete_from (hit P) i A m = delete_from (hit P) (Suc i) (shift_left A i m) (m - 1)"
  "i < length A \<Longrightarrow> P (A ! i) \<Longrightarrow> \<not> Suc i \<le> m \<Longrightarrow> delete_from (hit P) i A m = None"
  by (subst delete_from.simps, simp)+

lemma delete_none:
  assumes "\<forall>j. i \<le> j \<longrightarrow> j < length A \<longrightarrow> \<not> P (A ! j)"
  shows "delete_from (hit P) i A m = Some (None, take m A)"
  using assms
proof (induction "length A - i" arbitrary: i)
  case 0
  then show ?case by (simp add: delete_steps)
next
  case (Suc k)
  then have i: "i < length A" by simp
  have "delete_from (hit P) (Suc i) A m = Some (None, take m A)" by (rule Suc.hyps(1)) (use Suc in auto)
  then show ?case using Suc.prems i by (simp add: delete_steps)
qed

lemma delete_skip:
  assumes "\<forall>j < k. \<not> P (A ! j)" and "k \<le> length A" and "i \<le> k"
  shows "delete_from (hit P) i A m = delete_from (hit P) k A m"
  using assms(3)
proof (induction "k - i" arbitrary: i)
  case (Suc n)
  have "delete_from (hit P) i A m = delete_from (hit P) (Suc i) A m"
    using Suc.hyps(2) assms by (intro delete_steps(2)) auto
  also have "\<dots> = delete_from (hit P) k A m" by (rule Suc.hyps(1)) (use Suc in simp_all)
  finally show ?case .
qed simp

lemma delete_first:
  assumes "A = xs @ x # ys" and "\<forall>y \<in> set xs. \<not> P y" and "P x"
  shows "delete_from (hit P) 0 A (length A) =
    delete_from (hit P) (Suc (length xs)) (if ys = [] then A else xs @ ys @ [last ys]) (length A - 1)"
proof -
  have "delete_from (hit P) 0 A (length A) = delete_from (hit P) (length xs) A (length A)"
    using assms(1,2) by (intro delete_skip) (auto simp: nth_append)
  also have "\<dots> = delete_from (hit P) (Suc (length xs)) (shift_left A (length xs) (length A)) (length A - 1)"
    using assms(1,3) by (intro delete_steps(3)) simp_all
  also have "shift_left A (length xs) (length A) = (if ys = [] then A else xs @ ys @ [last ys])"
  proof (cases ys rule: rev_cases)
    case (snoc zs z)
    then show ?thesis using assms(1) by (simp add: shift_left_def)
  qed (simp add: shift_left_def assms(1))
  finally show ?thesis .
qed

text \<open>At most one match: the element is removed.\<close>

lemma delete_one:
  assumes "length (filter P xs) \<le> 1"
  shows "delete_all (hit P) xs = Some (None, filter (\<lambda>x. \<not> P x) xs)"
proof (cases "\<exists>x \<in> set xs. P x")
  case False
  then have "delete_from (hit P) 0 xs (length xs) = Some (None, take (length xs) xs)" by (intro delete_none) auto
  then show ?thesis using False by (simp add: delete_all_def)
next
  case True
  then obtain us x vs where u: "xs = us @ x # vs" "P x" "\<forall>y \<in> set us. \<not> P y" by (metis split_list_first_prop)
  have v: "\<forall>y \<in> set vs. \<not> P y" using assms u by (auto simp: filter_empty_conv)
  define A where "A = (if vs = [] then xs else us @ vs @ [last vs])"
  have "delete_all (hit P) xs = delete_from (hit P) (Suc (length us)) A (length xs - 1)"
    unfolding delete_all_def A_def by (rule delete_first [OF u(1,3,2)])
  also have "\<dots> = Some (None, take (length xs - 1) A)"
    using u(1) v by (intro delete_none) (auto simp: A_def nth_append split: if_splits)
  also have "take (length xs - 1) A = filter (\<lambda>x. \<not> P x) xs"
    using u v by (auto simp: A_def)
  finally show ?thesis .
qed

text \<open>
  Behind the slice the array keeps copies of the last element. So once an element has been deleted, a match at
  the end of the array lies beyond the slice and panics; any other match lies within.
\<close>

lemma delete_last_matches:
  assumes "i < length A" and "m < length A" and "P (last A)"
  shows "delete_from (hit P) i A m = None"
  using assms
proof (induction "length A - i" arbitrary: i A m)
  case (Suc k)
  have ih: "delete_from (hit P) (Suc i) A' m' = None"
    if "Suc i < length A'" "length A' = length A" "m' < length A'" "P (last A')" for A' m'
    by (rule Suc.hyps(1)) (use that Suc.hyps(2) in simp_all)
  have last: "last A = A ! (length A - 1)" using Suc.prems(1) by (intro last_conv_nth) auto
  show ?case
  proof (cases "P (A ! i)")
    case False
    then have "Suc i \<noteq> length A" using Suc.prems(3) last by (metis diff_Suc_1)
    then have "Suc i < length A" using Suc.prems(1) by simp
    then show ?thesis using False Suc.prems ih [of A m] by (simp add: delete_steps(2))
  next
    case True
    show ?thesis
    proof (cases "Suc i \<le> m")
      case False
      then show ?thesis using True Suc.prems(1) by (intro delete_steps(4))
    next
      case le: True
      let ?B = "shift_left A i m"
      have l: "length ?B = length A" using le Suc.prems by simp
      have "last ?B = last A" using le Suc.prems by (simp add: shift_left_def last_drop)
      then have "delete_from (hit P) (Suc i) ?B (m - 1) = None" using ih [of ?B "m - 1"] l le Suc.prems by simp
      then show ?thesis using True le Suc.prems(1) by (simp add: delete_steps(3))
    qed
  qed
qed simp

lemma nth_shift_left:
  assumes "i < m" "m \<le> length A" "j < length A"
  shows "shift_left A i m ! j = (if j < i \<or> m - 1 \<le> j then A ! j else A ! Suc j)"
  using assms by (auto simp: shift_left_def nth_append)

lemma delete_last_differs:
  assumes "m \<le> length A" and "\<not> P (last A)" and "\<forall>j. m - 1 \<le> j \<longrightarrow> j < length A \<longrightarrow> A ! j = last A"
  shows "\<exists>ys. delete_from (hit P) i A m = Some (None, ys)"
  using assms
proof (induction "length A - i" arbitrary: i A m)
  case 0
  then show ?case by (simp add: delete_steps(1))
next
  case (Suc k)
  then have i: "i < length A" by simp
  have ih: "\<exists>ys. delete_from (hit P) (Suc i) A' m' = Some (None, ys)"
    if "length A' = length A" "m' \<le> length A'" "\<not> P (last A')" "\<forall>j. m' - 1 \<le> j \<longrightarrow> j < length A' \<longrightarrow> A' ! j = last A'" for A' m'
    by (rule Suc.hyps(1)) (use that Suc.hyps(2) i in simp_all)
  show ?case
  proof (cases "P (A ! i)")
    case False
    then show ?thesis using i Suc.prems ih [of A m] by (simp add: delete_steps(2))
  next
    case True
    then have im: "i < m - 1" using Suc.prems(2,3) i by (metis linorder_not_less)
    let ?B = "shift_left A i m"
    have l: "length ?B = length A" using im Suc.prems(1) by simp
    have nth: "?B ! j = (if j < i \<or> m - 1 \<le> j then A ! j else A ! Suc j)" if "j < length A" for j
      using im Suc.prems(1) that by (intro nth_shift_left) auto
    have ne: "length A - 1 < length A" "m - 1 \<le> length A - 1" using i Suc.prems(1) by auto
    have last: "last ?B = last A"
      using nth [OF ne(1)] ne(2) l i by (metis last_conv_nth length_greater_0_conv length_0_conv not_less_zero)
    have "?B ! j = last A" if "m - 1 - 1 \<le> j" "j < length A" for j
      using nth [OF that(2)] Suc.prems(1,3) im that by auto
    then have "\<exists>ys. delete_from (hit P) (Suc i) ?B (m - 1) = Some (None, ys)"
      using ih [of ?B "m - 1"] l last Suc.prems(1,2) by simp
    then show ?thesis using True i im by (simp add: delete_steps(3))
  qed
qed

lemma delete_all_panics:
  "delete_all (hit P) xs = None \<longleftrightarrow> 2 \<le> length (filter P xs) \<and> P (last xs)"
proof
  assume panic: "delete_all (hit P) xs = None"
  have two: "2 \<le> length (filter P xs)" using panic delete_one [of P xs] by force
  moreover have "P (last xs)"
  proof (rule ccontr)
    assume "\<not> P (last xs)"
    moreover have "xs ! j = last xs" if "length xs - 1 \<le> j" "j < length xs" for j
    proof -
      have "j = length xs - 1" using that by simp
      then show ?thesis using that(2) by (metis last_conv_nth length_0_conv not_less_zero)
    qed
    ultimately have "\<exists>ys. delete_from (hit P) 0 xs (length xs) = Some (None, ys)"
      by (intro delete_last_differs) simp_all
    then show False using panic by (simp add: delete_all_def)
  qed
  ultimately show "2 \<le> length (filter P xs) \<and> P (last xs)" ..
next
  assume two: "2 \<le> length (filter P xs) \<and> P (last xs)"
  then have "\<exists>x \<in> set xs. P x" by (metis filter_False length_0_conv not_numeral_le_zero)
  then obtain us x vs where u: "xs = us @ x # vs" "P x" "\<forall>y \<in> set us. \<not> P y" by (metis split_list_first_prop)
  have vs: "vs \<noteq> []" using two u by auto
  have "delete_all (hit P) xs = delete_from (hit P) (Suc (length us)) (us @ vs @ [last vs]) (length xs - 1)"
    unfolding delete_all_def using delete_first [OF u(1,3,2)] vs by simp
  also have "\<dots> = None" using u vs two by (intro delete_last_matches) auto
  finally show "delete_all (hit P) xs = None" .
qed

lemma count_filter: "length (filter (\<lambda>x. x = opt) xs) = count_list xs opt"
  by (induction xs) auto

text \<open>
  Deleting an option panics exactly when the option is listed twice or more and also comes last. A configuration
  file that repeats a key leads there, since reading appends every line's key to the list.
\<close>

theorem Section_Delete_panics:
  "Section_Delete s opt = None \<longleftrightarrow> 2 \<le> count_list (orderedOptions s) opt \<and> last (orderedOptions s) = opt"
proof -
  have "Section_Delete s opt = None \<longleftrightarrow> delete_all (hit (\<lambda>x. x = opt)) (orderedOptions s) = None"
    by (cases "delete_all (hit (\<lambda>x. x = opt)) (orderedOptions s)") (auto simp: Section_Delete_def Let_def)
  then show ?thesis using delete_all_panics [of "\<lambda>x. x = opt" "orderedOptions s"] by (simp add: count_filter)
qed

text \<open>With a key that is listed at most once, deleting removes it from the list and from the map, and nothing else.\<close>

lemma Section_Delete_once:
  assumes "count_list (orderedOptions s) opt \<le> 1"
  shows "Section_Delete s opt = Some (ValueOf s opt,
    s\<lparr>options := (options s)(opt := None), orderedOptions := filter (\<lambda>x. x \<noteq> opt) (orderedOptions s)\<rparr>)"
proof -
  have "length (filter (\<lambda>x. x = opt) (orderedOptions s)) \<le> 1"
    using assms by (simp add: count_filter)
  then show ?thesis using delete_one [of "\<lambda>x. x = opt" "orderedOptions s"] by (simp add: Section_Delete_def Let_def)
qed

section \<open>Well-formed configurations\<close>

text \<open>Every listed option has a value and every value is listed.\<close>

definition section_ok :: "Section \<Rightarrow> bool" where
  "section_ok s \<longleftrightarrow> set (orderedOptions s) = dom (options s)"

definition config_ok :: "Configuration \<Rightarrow> bool" where
  "config_ok c \<longleftrightarrow> distinct (cf_orderedSections c) \<and> set (cf_orderedSections c) = dom (cf_sections c) \<and>
     (\<forall>n ps. cf_sections c n = Some ps \<longrightarrow> ps \<noteq> [] \<and> distinct ps \<and>
        (\<forall>p \<in> set ps. p < length (cf_heap c) \<and> fqn (section_at c p) = n)) \<and>
     (\<forall>s \<in> set (cf_heap c). section_ok s)"

lemma config_okD:
  assumes "config_ok c"
  shows "distinct (cf_orderedSections c)" "set (cf_orderedSections c) = dom (cf_sections c)"
    "cf_sections c n = Some ps \<Longrightarrow> ps \<noteq> []" "cf_sections c n = Some ps \<Longrightarrow> distinct ps"
    "cf_sections c n = Some ps \<Longrightarrow> p \<in> set ps \<Longrightarrow> p < length (cf_heap c)"
    "cf_sections c n = Some ps \<Longrightarrow> p \<in> set ps \<Longrightarrow> fqn (section_at c p) = n"
    "s \<in> set (cf_heap c) \<Longrightarrow> section_ok s"
  using assms unfolding config_ok_def by blast+

lemma section_ok_addOption: "section_ok s \<Longrightarrow> section_ok (addOption s line)"
  by (auto simp: section_ok_def addOption_def split: prod.splits)

lemma section_ok_Add: "section_ok s \<Longrightarrow> section_ok (snd (Section_Add s opt value))"
  by (auto simp: section_ok_def Section_Add_def Let_def)

lemma section_ok_SetValueFor: "section_ok s \<Longrightarrow> Section_Exists s opt \<Longrightarrow> section_ok (snd (SetValueFor s opt value))"
  by (auto simp: section_ok_def SetValueFor_def Section_Exists_def)

lemma config_ok_new: "config_ok (newConfiguration path)"
  by (simp add: config_ok_def newConfiguration_def)

lemma config_ok_set_section:
  assumes ok: "config_ok c" and s: "section_ok s" "fqn s = fqn (section_at c p)"
  shows "config_ok (set_section p s c)"
proof (cases "p < length (cf_heap c)")
  case True
  have "\<forall>t \<in> set ((cf_heap c)[p := s]). section_ok t"
    using config_okD(7) [OF ok] s(1) set_update_subset_insert [of "cf_heap c" p s] by blast
  moreover have "fqn (section_at (set_section p s c) q) = fqn (section_at c q)" if "q < length (cf_heap c)" for q
    using s(2) that True by (simp add: set_section_def section_at_def nth_list_update)
  ultimately show ?thesis using ok unfolding config_ok_def by (simp add: set_section_def)
next
  case False
  then show ?thesis using ok by (simp add: set_section_def list_update_beyond)
qed

lemma addSection_simps [simp]:
  "fst (addSection n c) = length (cf_heap c)"
  "cf_heap (snd (addSection n c)) = cf_heap c @ [\<lparr>fqn = n, options = (\<lambda>_. None), orderedOptions = []\<rparr>]"
  "cf_sections (snd (addSection n c)) = (cf_sections c)(n \<mapsto> (case cf_sections c n of None \<Rightarrow> [] | Some ps \<Rightarrow> ps) @ [length (cf_heap c)])"
  "cf_orderedSections (snd (addSection n c)) = cf_orderedSections c @ (if cf_sections c n = None then [n] else [])"
  "cf_locked (snd (addSection n c)) = cf_locked c" "cf_filePath (snd (addSection n c)) = cf_filePath c"
  by (simp_all add: addSection_def Let_def split: option.splits)

lemma section_at_add:
  "p < length (cf_heap c) \<Longrightarrow> section_at (snd (addSection n c)) p = section_at c p"
  "section_at (snd (addSection n c)) (length (cf_heap c)) = \<lparr>fqn = n, options = (\<lambda>_. None), orderedOptions = []\<rparr>"
  by (simp_all add: section_at_def nth_append)

lemma config_ok_addSection:
  assumes ok: "config_ok c"
  shows "config_ok (snd (addSection n c))"
proof -
  let ?d = "snd (addSection n c)"
  have "ps \<noteq> [] \<and> distinct ps \<and> (\<forall>p \<in> set ps. p < length (cf_heap ?d) \<and> fqn (section_at ?d p) = m)"
    if m: "cf_sections ?d m = Some ps" for m ps
  proof (cases "m = n")
    case False
    then have "cf_sections c m = Some ps" using m by simp
    then show ?thesis using config_okD(3-6) [OF ok] by (auto simp: section_at_add less_Suc_eq)
  next
    case True
    define qs where "qs = (case cf_sections c n of None \<Rightarrow> [] | Some ps \<Rightarrow> ps)"
    have ps: "ps = qs @ [length (cf_heap c)]" using m True by (simp add: qs_def)
    have "distinct qs" "\<forall>p \<in> set qs. p < length (cf_heap c) \<and> fqn (section_at c p) = n"
      using config_okD(4-6) [OF ok, of n] by (cases "cf_sections c n"; simp add: qs_def)+
    then show ?thesis using ps True by (auto simp: section_at_add)
  qed
  moreover have "distinct (cf_orderedSections ?d)" "set (cf_orderedSections ?d) = dom (cf_sections ?d)"
    using config_okD(1,2) [OF ok] by auto
  moreover have "\<forall>s \<in> set (cf_heap ?d). section_ok s"
    using config_okD(7) [OF ok] by (auto simp: section_ok_def)
  ultimately show ?thesis unfolding config_ok_def by blast
qed

text \<open>The laws of looking up.\<close>

lemma ValueOf_Add: "ValueOf (snd (Section_Add s opt v)) o' = (if o' = opt then v else ValueOf s o')"
  by (simp add: Section_Add_def ValueOf_def Let_def)

lemma ValueOf_SetValueFor: "ValueOf (snd (SetValueFor s opt v)) o' = (if o' = opt then v else ValueOf s o')"
  by (simp add: SetValueFor_def ValueOf_def)

text \<open>A value set for an option that the section does not have is not listed, so it is not printed.\<close>

lemma SetValueFor_not_printed:
  assumes "section_ok s" and "\<not> Section_Exists s opt"
  shows "ValueOf (snd (SetValueFor s opt v)) opt = v" "Section_String (snd (SetValueFor s opt v)) = Section_String s"
proof -
  have "opt \<notin> set (orderedOptions s)" using assms by (auto simp: section_ok_def Section_Exists_def)
  then have "map (option_text (snd (SetValueFor s opt v))) (orderedOptions s) = map (option_text s) (orderedOptions s)"
    by (intro map_cong) (auto simp: option_text_def SetValueFor_def ValueOf_def)
  moreover have "fqn (snd (SetValueFor s opt v)) = fqn s" "orderedOptions (snd (SetValueFor s opt v)) = orderedOptions s"
    by (simp_all add: SetValueFor_def)
  ultimately show "Section_String (snd (SetValueFor s opt v)) = Section_String s" unfolding Section_String_def by presburger
qed (simp add: ValueOf_SetValueFor)

text \<open>A new section is found under its name; an older one of the same name stays in front.\<close>

lemma Section_addSection:
  assumes "config_ok c" and "\<not> cf_locked c"
  shows "Configuration_Section (snd (addSection n c)) m =
    (if m = n \<and> cf_sections c n = None then Some (Inr (length (cf_heap c))) else Configuration_Section c m)"
proof (cases "cf_sections c n")
  case (Some ps)
  then have "ps \<noteq> []" using config_okD(3) [OF assms(1)] by blast
  then show ?thesis using assms(2) Some
    by (cases ps) (auto simp: Configuration_Section_def locking_def)
qed (use assms(2) in \<open>auto simp: Configuration_Section_def locking_def\<close>)

end
