(* ===== verification/Xman_Config_File.thy ===== *)
theory Xman_Config_File
  imports Xman_Config
begin

text \<open>
  Reading and saving configuration files (\<open>Read\<close> and \<open>Save\<close> of \<open>config/xman_config.go\<close>).

  The file system is a parameter: \<open>open\<close> gives an error or the contents of the file and the error that ends reading
  it, if any; for \<open>Save\<close> the results of renaming, creating, writing (flushing the buffer) and closing.

  Shown: what is read is well formed; what \<open>Save\<close> writes is read back as the same sections; and a \<open>Save\<close> that fails
  leaves the configuration locked.
\<close>

section \<open>Reading\<close>

definition read_line :: "bytes \<Rightarrow> Ptr \<times> Configuration \<Rightarrow> Ptr \<times> Configuration" where
  "read_line line = (\<lambda>(active, c).
     (if \<not> (HasPrefix line ''#'' \<or> HasPrefix line '';'') \<and> length line > 0 then
        (if isSection line then addSection (Trim line '' []'') c
         else (active, set_section active (addOption (section_at c active) line) c))
      else (active, c)))"

type_synonym Opener = "bytes \<Rightarrow> bytes + bytes \<times> bytes option"

definition Read :: "Opener \<Rightarrow> bytes \<Rightarrow> bytes + Configuration" where
  "Read open path =
     (let path = Clean path in
      case open path of
        Inl err \<Rightarrow> Inl err
      | Inr (content, failed) \<Rightarrow>
          (let start = addSection ''global'' (newConfiguration path);
               (ls, too_long) = scan_lines content;
               (active, config) = fold read_line ls start
           in if too_long then Inl ''bufio.Scanner: token too long''
              else case failed of Some err \<Rightarrow> Inl err | None \<Rightarrow> Inr config))"

section \<open>Saving\<close>

text \<open>
  An error of \<open>Rename\<close> comes with whether it says that the file does not exist. The deferred functions run from
  the last to the first: the lock is given back, the buffer is flushed, the file is closed; each sets the error that is returned.
  The result holds that error, what was handed to the file with the error of flushing it, and the configuration.
\<close>

record SaveOs =
  so_Rename :: "bytes \<Rightarrow> bytes \<Rightarrow> (bytes \<times> bool) option"
  so_Create :: "bytes \<Rightarrow> bytes option"
  so_Flush :: "bytes \<Rightarrow> bytes option"
  so_Close :: "bytes \<Rightarrow> bytes option"

record Saved =
  sv_err :: "bytes option"
  sv_file :: "(bytes \<times> bytes option) option"
  sv_config :: Configuration

definition save_text :: "Configuration \<Rightarrow> Ptr list \<Rightarrow> bytes" where
  "save_text c ps = concat (map (\<lambda>p. Section_String (section_at c p) @ nl) ps)"

definition Save :: "SaveOs \<Rightarrow> Configuration \<Rightarrow> bytes \<Rightarrow> Saved option" where
  "Save os c path =
     (if cf_locked c then None
      else
        (let failed = (\<lambda>err. Some \<lparr>sv_err = Some err, sv_file = None, sv_config = c\<lparr>cf_locked := True\<rparr>\<rparr>);
             create = (case so_Create os path of
                         Some err \<Rightarrow> failed err
                       | None \<Rightarrow>
                           do { r \<leftarrow> AllSections c;
                                let content = (case r of Inr ps \<Rightarrow> save_text c ps | Inl err \<Rightarrow> []);
                                Some \<lparr>sv_err = so_Close os path, sv_file = Some (content, so_Flush os content), sv_config = c\<rparr> })
         in case so_Rename os path (path @ ''.bak'') of
              Some (err, isNotExist) \<Rightarrow> (if \<not> isNotExist then failed err else create)
            | None \<Rightarrow> create))"

section \<open>What is read is well formed\<close>

lemma read_line_ok:
  assumes "config_ok c" and "active < length (cf_heap c)" and "read_line line (active, c) = (active', c')"
  shows "config_ok c' \<and> active' < length (cf_heap c') \<and> cf_locked c' = cf_locked c \<and>
    (\<forall>n. cf_sections c n \<noteq> None \<longrightarrow> cf_sections c' n \<noteq> None)"
proof (cases "\<not> (HasPrefix line ''#'' \<or> HasPrefix line '';'') \<and> length line > 0")
  case True
  show ?thesis
  proof (cases "isSection line")
    case sec: True
    then have e: "active' = fst (addSection (Trim line '' []'') c)" "c' = snd (addSection (Trim line '' []'') c)"
      using True assms(3) by (simp_all add: read_line_def)
    show ?thesis unfolding e using config_ok_addSection [OF assms(1)] by simp
  next
    case False
    then have e: "active' = active" "c' = set_section active (addOption (section_at c active) line) c"
      using True assms(3) by (auto simp: read_line_def)
    have "section_ok (section_at c active)" using config_okD(7) [OF assms(1)] assms(2) by (simp add: section_at_def)
    then have "config_ok c'"
      unfolding e by (intro config_ok_set_section assms(1) section_ok_addOption) (auto simp: addOption_def split: prod.splits)
    then show ?thesis using assms(2) by (simp add: e set_section_def)
  qed
next
  case False
  then have "active' = active" "c' = c" using assms(3) by (auto simp: read_line_def)
  then show ?thesis using assms(1,2) by simp
qed

lemma fold_read_line_ok:
  assumes "config_ok c" and "active < length (cf_heap c)" and "fold read_line ls (active, c) = (active', c')"
  shows "config_ok c' \<and> cf_locked c' = cf_locked c \<and> (\<forall>n. cf_sections c n \<noteq> None \<longrightarrow> cf_sections c' n \<noteq> None)"
  using assms
proof (induction ls arbitrary: active c)
  case (Cons l ls)
  obtain a1 c1 where r: "read_line l (active, c) = (a1, c1)" by fastforce
  note ok = read_line_ok [OF Cons.prems(1,2) r]
  then show ?case using Cons.IH [of c1 a1] Cons.prems(3) r by auto
qed auto

lemma addSection_eq: "addSection n c = (length (cf_heap c), snd (addSection n c))"
  using addSection_simps(1) [of n c] by (metis prod.collapse)

text \<open>
  C31. Every configuration that is read is well formed: the ordered names are those of the map, each once, every
  name leads to sections of that name, in the heap and each once, the listed options of every section are those that
  have a value, and there is a section \<open>global\<close>.
\<close>

theorem Read_well_formed:
  assumes "Read open path = Inr c"
  shows "config_ok c \<and> cf_sections c ''global'' \<noteq> None \<and> \<not> cf_locked c"
proof -
  obtain content failed where o: "open (Clean path) = Inr (content, failed)"
    using assms by (auto simp: Read_def Let_def split: sum.splits)
  obtain ls too_long where l: "scan_lines content = (ls, too_long)" by fastforce
  let ?c = "snd (addSection ''global'' (newConfiguration (Clean path)))"
  obtain active config where f: "fold read_line ls (addSection ''global'' (newConfiguration (Clean path))) = (active, config)" by fastforce
  have c: "c = config" using assms o l f by (auto simp: Read_def Let_def split: if_splits option.splits)
  have "fold read_line ls (0, ?c) = (active, config)"
    using f addSection_eq [of "''global''" "newConfiguration (Clean path)"] by (simp add: newConfiguration_def)
  then show ?thesis
    using fold_read_line_ok [of ?c 0 ls active config] config_ok_addSection [OF config_ok_new]
    by (simp add: c) (simp add: newConfiguration_def)
qed

section \<open>Reading what was saved\<close>

definition option_line :: "Section \<Rightarrow> bytes \<Rightarrow> bytes" where
  "option_line s opt = (if ValueOf s opt \<noteq> [] then opt @ ''='' @ ValueOf s opt else opt)"

definition section_lines :: "Section \<Rightarrow> bytes list" where
  "section_lines s = (if fqn s = ''global'' then [] else [''['' @ fqn s @ '']'']) @ map (option_line s) (orderedOptions s)"

lemma Section_String_lines: "Section_String s = concat (map (\<lambda>l. l @ nl) (section_lines s))"
proof -
  have "option_text s opt = option_line s opt @ nl" for opt
    by (simp add: option_text_def option_line_def Let_def)
  then have "map (option_text s) xs = map (\<lambda>l. l @ nl) (map (option_line s) xs)" for xs by simp
  then show ?thesis by (simp add: Section_String_def section_lines_def del: map_map)
qed

text \<open>Names, options and values that survive: no newlines, no markers, nothing that \<open>Trim\<close> or the scanner takes away.\<close>

definition clean_line :: "bytes \<Rightarrow> bool" where
  "clean_line l \<longleftrightarrow> CHR 0x0A \<notin> set l \<and> (l = [] \<or> last l \<noteq> CHR 0x0D) \<and> length l < MaxScanTokenSize"

definition clean_option :: "Section \<Rightarrow> bytes \<Rightarrow> bool" where
  "clean_option s opt \<longleftrightarrow> clean_line (option_line s opt) \<and> option_line s opt \<noteq> [] \<and>
     hd (option_line s opt) \<notin> set ''#;['' \<and> CHR ''='' \<notin> set opt \<and> (ValueOf s opt = [] \<longrightarrow> CHR '':'' \<notin> set opt) \<and>
     trimmed (ValueOf s opt) '' '' \<and> (ValueOf s opt \<noteq> [] \<longrightarrow> trimmed opt '' '')"

definition clean_section :: "Section \<Rightarrow> bool" where
  "clean_section s \<longleftrightarrow> section_ok s \<and> trimmed (fqn s) '' []'' \<and> clean_line (''['' @ fqn s @ '']'') \<and>
     (\<forall>opt \<in> set (orderedOptions s). clean_option s opt)"

lemma parseOption_line:
  assumes "clean_option s opt"
  shows "parseOption (option_line s opt) = (opt, ValueOf s opt)"
proof (cases "ValueOf s opt = []")
  case True
  then have "CHR ''='' \<notin> set opt" "CHR '':'' \<notin> set opt" using assms by (auto simp: clean_option_def)
  then have i: "Index opt (CHR ''='') = None" "Index opt (CHR '':'') = None" by simp_all
  show ?thesis using True by (simp add: option_line_def parseOption_def i del: Index_None_iff)
next
  case False
  then have "CHR ''='' \<notin> set opt" "trimmed (ValueOf s opt) '' ''" "trimmed opt '' ''" using assms by (auto simp: clean_option_def)
  then show ?thesis using False by (simp add: option_line_def parseOption_def)
qed

text \<open>Reading the lines of the options into the section that is active.\<close>

definition add_value :: "(bytes \<Rightarrow> bytes) \<Rightarrow> bytes \<Rightarrow> Section \<Rightarrow> Section" where
  "add_value v opt t = t\<lparr>options := (options t)(opt \<mapsto> v opt), orderedOptions := orderedOptions t @ [opt]\<rparr>"

lemma set_section_simps [simp]:
  "length (cf_heap (set_section p t c)) = length (cf_heap c)"
  "p < length (cf_heap c) \<Longrightarrow> section_at (set_section p t c) p = t"
  "set_section p t (set_section p u c) = set_section p t c"
  "set_section p (section_at c p) c = c"
  by (simp_all add: set_section_def section_at_def)

lemma read_options:
  assumes "\<forall>opt \<in> set opts. clean_option s opt" and "p < length (cf_heap c)"
  shows "fold read_line (map (option_line s) opts) (p, c) = (p, set_section p (fold (add_value (ValueOf s)) opts (section_at c p)) c)"
  using assms
proof (induction opts arbitrary: c)
  case (Cons o1 opts)
  let ?l = "option_line s o1" and ?t = "add_value (ValueOf s) o1 (section_at c p)"
  have co: "clean_option s o1" using Cons.prems(1) by simp
  obtain x xs where l: "?l = x # xs" using co by (cases ?l) (auto simp: clean_option_def)
  then have "x \<notin> set ''#;[''" using co by (simp add: clean_option_def)
  then have "read_line ?l (p, c) = (p, set_section p (addOption (section_at c p) ?l) c)"
    using l by (simp add: read_line_def HasPrefix_def isSection_def)
  also have "addOption (section_at c p) ?l = ?t"
    using parseOption_line [OF co] by (simp add: addOption_def add_value_def)
  finally have r: "read_line ?l (p, c) = (p, set_section p ?t c)" .
  have "fold read_line (map (option_line s) opts) (p, set_section p ?t c) =
      (p, set_section p (fold (add_value (ValueOf s)) opts (section_at (set_section p ?t c) p)) (set_section p ?t c))"
    using Cons.prems by (intro Cons.IH) simp_all
  then show ?case using r Cons.prems(2) by simp
qed simp

lemma collect_options:
  "fold (add_value v) opts t =
    t\<lparr>options := (\<lambda>o'. if o' \<in> set opts then Some (v o') else options t o'), orderedOptions := orderedOptions t @ opts\<rparr>"
proof (induction opts arbitrary: t)
  case (Cons o1 opts)
  have "(\<lambda>o'. if o' \<in> set opts then Some (v o') else options (add_value v o1 t) o') =
      (\<lambda>o'. if o' = o1 \<or> o' \<in> set opts then Some (v o') else options t o')"
    by (auto simp: add_value_def)
  then show ?case unfolding fold_simps o_apply Cons.IH by (simp add: add_value_def)
qed simp

lemma section_ok_options: "section_ok s \<Longrightarrow> (\<lambda>o'. if o' \<in> set (orderedOptions s) then Some (ValueOf s o') else None) = options s"
  by (auto simp: section_ok_def ValueOf_def dom_def fun_eq_iff split: option.splits)

lemma read_section_options:
  assumes "clean_section s" and "p < length (cf_heap c)"
    and "section_at c p = \<lparr>fqn = fqn s, options = (\<lambda>_. None), orderedOptions = []\<rparr>"
  shows "fold read_line (map (option_line s) (orderedOptions s)) (p, c) = (p, set_section p s c)"
proof -
  have "fold (add_value (ValueOf s)) (orderedOptions s) (section_at c p) = s"
    using assms(1,3) section_ok_options [of s] by (simp add: collect_options clean_section_def cong: if_cong)
  then show ?thesis using read_options [of "orderedOptions s" s p c] assms(1,2) by (simp add: clean_section_def)
qed

text \<open>A section that is read is put at the end of the heap.\<close>

definition put :: "Section \<Rightarrow> Configuration \<Rightarrow> Configuration" where
  "put s c = set_section (length (cf_heap c)) s (snd (addSection (fqn s) c))"

lemma read_section:
  assumes "clean_section s" and "fqn s \<noteq> ''global''"
  shows "fold read_line (section_lines s) (active, c) = (length (cf_heap c), put s c)"
proof -
  let ?h = "''['' @ fqn s @ '']''"
  have "Trim ?h '' []'' = fqn s" using assms(1) Trim_around [of "''[''" "'' []''" "'']''"] by (simp add: clean_section_def)
  then have "read_line ?h (active, c) = addSection (fqn s) c"
    by (simp add: read_line_def HasPrefix_def isSection_def)
  then have h: "read_line ?h (active, c) = (length (cf_heap c), snd (addSection (fqn s) c))"
    using addSection_eq by metis
  have "fold read_line (map (option_line s) (orderedOptions s)) (length (cf_heap c), snd (addSection (fqn s) c)) =
      (length (cf_heap c), put s c)"
    unfolding put_def by (rule read_section_options [OF assms(1)]) (simp_all add: section_at_add)
  then show ?thesis using assms(2) h by (simp add: section_lines_def)
qed

lemma read_empty: "read_line [] st = st"
  by (simp add: read_line_def split: prod.splits)

lemma read_sections:
  assumes "\<forall>s \<in> set ss. clean_section s \<and> fqn s \<noteq> ''global''"
  shows "snd (fold read_line (concat (map (\<lambda>s. section_lines s @ [[]]) ss)) (active, c)) = fold put ss c"
  using assms by (induction ss arbitrary: active c) (simp_all add: read_section read_empty)

text \<open>What a configuration holds: the sections in the order in which \<open>AllSections\<close> gives them.\<close>

definition sections_named :: "Configuration \<Rightarrow> bytes \<Rightarrow> Section list" where
  "sections_named c n = map (section_at c) (case cf_sections c n of Some ps \<Rightarrow> ps | None \<Rightarrow> [])"

definition all_sections :: "Configuration \<Rightarrow> Section list" where
  "all_sections c = concat (map (sections_named c) (cf_orderedSections c))"

lemma AllSections_eq:
  assumes "\<not> cf_locked c"
  shows "\<exists>ps. AllSections c = Some (Inr ps) \<and> map (section_at c) ps = all_sections c"
proof -
  have "sections_named c = (\<lambda>n. map (section_at c) (case cf_sections c n of Some ps \<Rightarrow> ps | None \<Rightarrow> []))"
    by (rule ext) (simp add: sections_named_def)
  then show ?thesis using assms
    by (simp add: AllSections_def Sections_def locking_def all_sections_def map_concat o_def)
qed

lemma put_simps [simp]:
  "cf_orderedSections (put s c) = cf_orderedSections c @ (if cf_sections c (fqn s) = None then [fqn s] else [])"
  "cf_sections (put s c) = (cf_sections c)(fqn s \<mapsto> (case cf_sections c (fqn s) of None \<Rightarrow> [] | Some ps \<Rightarrow> ps) @ [length (cf_heap c)])"
  "cf_heap (put s c) = cf_heap c @ [s]" "cf_filePath (put s c) = cf_filePath c"
  by (simp_all add: put_def set_section_def)

lemma section_at_put:
  "p < length (cf_heap c) \<Longrightarrow> section_at (put s c) p = section_at c p" "section_at (put s c) (length (cf_heap c)) = s"
  by (simp_all add: section_at_def nth_append)

lemma put_ok: "config_ok c \<Longrightarrow> section_ok s \<Longrightarrow> config_ok (put s c)"
  unfolding put_def by (intro config_ok_set_section config_ok_addSection) (simp_all add: section_at_add)

lemma sections_named_put:
  assumes "config_ok c"
  shows "sections_named (put s c) n = sections_named c n @ (if n = fqn s then [s] else [])"
proof -
  define qs where "qs = (case cf_sections c n of None \<Rightarrow> [] | Some ps \<Rightarrow> ps)"
  have "\<forall>p \<in> set qs. p < length (cf_heap c)" using config_okD(5) [OF assms, of n] by (cases "cf_sections c n") (simp_all add: qs_def)
  then have "map (section_at (put s c)) qs = map (section_at c) qs" by (simp add: section_at_put)
  then show ?thesis by (simp add: sections_named_def qs_def section_at_put split: if_splits)
qed

text \<open>Sections of one name after the other: a new name comes last, another section of the last name too.\<close>

lemma all_sections_put:
  assumes ok: "config_ok c" and last: "cf_sections c (fqn s) = None \<or> cf_orderedSections c \<noteq> [] \<and> last (cf_orderedSections c) = fqn s"
  shows "all_sections (put s c) = all_sections c @ [s]"
proof (cases "cf_sections c (fqn s)")
  case None
  then have "fqn s \<notin> set (cf_orderedSections c)" using config_okD(2) [OF ok] by auto
  then have "concat (map (sections_named (put s c)) (cf_orderedSections c)) = concat (map (sections_named c) (cf_orderedSections c))"
    by (intro arg_cong [of _ _ concat] map_cong) (auto simp: sections_named_put [OF ok])
  moreover have "sections_named (put s c) (fqn s) = [s]"
    using None by (simp add: sections_named_put [OF ok]) (simp add: sections_named_def)
  ultimately show ?thesis using None by (simp add: all_sections_def)
next
  case (Some ps)
  then obtain ns where ns: "cf_orderedSections c = ns @ [fqn s]" using last by (metis append_butlast_last_id option.distinct(1))
  then have "fqn s \<notin> set ns" using config_okD(1) [OF ok] by simp
  then have "concat (map (sections_named (put s c)) ns) = concat (map (sections_named c) ns)"
    by (intro arg_cong [of _ _ concat] map_cong) (auto simp: sections_named_put [OF ok])
  then show ?thesis using Some ns by (simp add: all_sections_def sections_named_put [OF ok])
qed

lemma put_same_name:
  assumes "config_ok c" and "\<forall>s \<in> set ss. section_ok s \<and> fqn s = n" and "cf_orderedSections c \<noteq> []" "last (cf_orderedSections c) = n"
  shows "config_ok (fold put ss c) \<and> all_sections (fold put ss c) = all_sections c @ ss \<and>
    cf_orderedSections (fold put ss c) = cf_orderedSections c"
  using assms
proof (induction ss arbitrary: c)
  case (Cons s ss)
  have n: "fqn s = n" "section_ok s" using Cons.prems(2) by simp_all
  have "n \<in> set (cf_orderedSections c)" using Cons.prems(3,4) by auto
  then have "cf_sections c n \<noteq> None" using config_okD(2) [OF Cons.prems(1)] by auto
  then have o: "cf_orderedSections (put s c) = cf_orderedSections c" using n by simp
  show ?case
    using Cons.IH [of "put s c"] put_ok [OF Cons.prems(1) n(2)] all_sections_put [OF Cons.prems(1), of s] Cons.prems n o by simp
qed simp

lemma put_groups:
  assumes "config_ok c" and "distinct ns" and "\<forall>n \<in> set ns. cf_sections c n = None"
    and "\<forall>n \<in> set ns. G n \<noteq> [] \<and> (\<forall>s \<in> set (G n). section_ok s \<and> fqn s = n)"
  shows "all_sections (fold put (concat (map G ns)) c) = all_sections c @ concat (map G ns) \<and>
    cf_orderedSections (fold put (concat (map G ns)) c) = cf_orderedSections c @ ns"
  using assms
proof (induction ns arbitrary: c)
  case (Cons n ns)
  obtain s ss where g: "G n = s # ss" "fqn s = n" "section_ok s" "\<forall>t \<in> set ss. section_ok t \<and> fqn t = n"
    using Cons.prems(4) by (cases "G n") auto
  have new: "cf_sections c n = None" using Cons.prems(3) by simp
  let ?c1 = "put s c" and ?c2 = "fold put ss (put s c)"
  have ok1: "config_ok ?c1" by (rule put_ok [OF Cons.prems(1) g(3)])
  have all1: "all_sections ?c1 = all_sections c @ [s]" using all_sections_put [OF Cons.prems(1), of s] new g(2) by simp
  have ord1: "cf_orderedSections ?c1 = cf_orderedSections c @ [n]" using new g(2) by simp
  have two: "config_ok ?c2 \<and> all_sections ?c2 = all_sections ?c1 @ ss \<and> cf_orderedSections ?c2 = cf_orderedSections ?c1"
    using put_same_name [OF ok1 g(4)] ord1 by simp
  have "cf_sections ?c2 m = None" if "m \<in> set ns" for m
  proof -
    have "m \<noteq> n" "cf_sections c m = None" using that Cons.prems(2,3) by auto
    then have "m \<notin> set (cf_orderedSections ?c2)" using two ord1 config_okD(2) [OF Cons.prems(1)] by auto
    then show ?thesis using config_okD(2) [of ?c2] two by auto
  qed
  then have "all_sections (fold put (concat (map G ns)) ?c2) = all_sections ?c2 @ concat (map G ns) \<and>
      cf_orderedSections (fold put (concat (map G ns)) ?c2) = cf_orderedSections ?c2 @ ns"
    using Cons.IH [of ?c2] two Cons.prems by simp
  then show ?case using g(1) two all1 ord1 by simp
qed simp

text \<open>What can be saved: \<open>global\<close> comes first, with one section, and everything is clean.\<close>

definition savable :: "Configuration \<Rightarrow> bool" where
  "savable c \<longleftrightarrow> config_ok c \<and> \<not> cf_locked c \<and> (\<forall>s \<in> set (all_sections c). clean_section s) \<and>
     (\<exists>g ns. cf_orderedSections c = ''global'' # ns \<and> sections_named c ''global'' = [g])"

lemma save_text_lines:
  "concat (map (\<lambda>s. Section_String s @ nl) ss) = concat (map (\<lambda>l. l @ nl) (concat (map (\<lambda>s. section_lines s @ [[]]) ss)))"
  by (induction ss) (simp_all add: Section_String_lines)

lemma clean_section_lines: "clean_section s \<Longrightarrow> l \<in> set (section_lines s @ [[]]) \<Longrightarrow> clean_line l"
  by (auto simp: section_lines_def clean_section_def clean_option_def split: if_splits)
    (simp_all add: clean_line_def MaxScanTokenSize_def)

lemma sections_named_fqn: "config_ok c \<Longrightarrow> s \<in> set (sections_named c n) \<Longrightarrow> fqn s = n"
  using config_okD(6) [of c n] by (cases "cf_sections c n") (auto simp: sections_named_def)

lemma sections_named_nonempty: "config_ok c \<Longrightarrow> n \<in> set (cf_orderedSections c) \<Longrightarrow> sections_named c n \<noteq> []"
  using config_okD(2,3) [of c] by (auto simp: sections_named_def split: option.splits)

lemma read_saved:
  assumes "savable c" and "open (Clean path) = Inr (concat (map (\<lambda>s. Section_String s @ nl) (all_sections c)), None)"
  shows "\<exists>c'. Read open path = Inr c' \<and> all_sections c' = all_sections c \<and> cf_orderedSections c' = cf_orderedSections c"
proof -
  have ok: "config_ok c" and clean: "\<forall>s \<in> set (all_sections c). clean_section s" using assms(1) by (auto simp: savable_def)
  obtain g ns where g: "cf_orderedSections c = ''global'' # ns" "sections_named c ''global'' = [g]"
    using assms(1) by (auto simp: savable_def)
  let ?rest = "concat (map (sections_named c) ns)"
  have all: "all_sections c = g # ?rest" using g by (simp add: all_sections_def)
  let ?ls = "concat (map (\<lambda>s. section_lines s @ [[]]) (all_sections c))"
  have "clean_line l" if l: "l \<in> set ?ls" for l
  proof -
    obtain s where "s \<in> set (all_sections c)" "l \<in> set (section_lines s @ [[]])"
      using l unfolding set_concat set_map by blast
    then show ?thesis using clean clean_section_lines by blast
  qed
  then have scan: "scan_lines (concat (map (\<lambda>s. Section_String s @ nl) (all_sections c))) = (?ls, False)"
    unfolding save_text_lines by (intro scan_lines_concat) (auto simp: clean_line_def)
  let ?c0 = "snd (addSection ''global'' (newConfiguration (Clean path)))"
  have c0: "cf_heap ?c0 = [\<lparr>fqn = ''global'', options = (\<lambda>_. None), orderedOptions = []\<rparr>]"
    "cf_orderedSections ?c0 = [''global'']" "cf_sections ?c0 = [''global'' \<mapsto> [0]]" by (simp_all add: newConfiguration_def)
  have fg: "fqn g = ''global''" using sections_named_fqn [OF ok, of g "''global''"] g(2) by simp
  have cg: "clean_section g" using clean all by simp
  have "fold read_line (section_lines g) (0, ?c0) = (0, set_section 0 g ?c0)"
    using read_section_options [OF cg, of 0 ?c0] fg c0 by (simp add: section_lines_def section_at_def)
  then have "fold read_line ?ls (0, ?c0) = fold read_line (concat (map (\<lambda>s. section_lines s @ [[]]) ?rest)) (0, set_section 0 g ?c0)"
    by (simp add: all read_empty)
  moreover have others: "\<forall>s \<in> set ?rest. clean_section s \<and> fqn s \<noteq> ''global''"
  proof
    fix s assume s: "s \<in> set ?rest"
    then obtain n where n: "n \<in> set ns" "s \<in> set (sections_named c n)" by auto
    have "n \<noteq> ''global''" using config_okD(1) [OF ok] g(1) n(1) by auto
    moreover have "clean_section s" using clean all s by (metis list.set_intros(2))
    ultimately show "clean_section s \<and> fqn s \<noteq> ''global''" using sections_named_fqn [OF ok n(2)] by simp
  qed
  ultimately have f: "snd (fold read_line ?ls (0, ?c0)) = fold put ?rest (set_section 0 g ?c0)" by (simp add: read_sections)
  let ?c1 = "set_section 0 g ?c0"
  have h1: "cf_heap ?c1 = [g]" "cf_orderedSections ?c1 = [''global'']" "cf_sections ?c1 = [''global'' \<mapsto> [0]]"
    using c0 by (simp_all add: set_section_def)
  have ok1: "config_ok ?c1" using cg fg h1 by (auto simp: config_ok_def clean_section_def section_at_def split: if_splits)
  have all1: "all_sections ?c1 = [g]" using h1 by (simp add: all_sections_def sections_named_def section_at_def)
  have "all_sections (fold put ?rest ?c1) = all_sections ?c1 @ ?rest \<and>
      cf_orderedSections (fold put ?rest ?c1) = cf_orderedSections ?c1 @ ns"
  proof (rule put_groups [OF ok1])
    show "distinct ns" "\<forall>n \<in> set ns. cf_sections ?c1 n = None" using config_okD(1) [OF ok] g(1) h1(3) by auto
    show "\<forall>n \<in> set ns. sections_named c n \<noteq> [] \<and> (\<forall>s \<in> set (sections_named c n). section_ok s \<and> fqn s = n)"
    proof
      fix n assume n: "n \<in> set ns"
      have "sections_named c n \<noteq> []" using n g(1) by (intro sections_named_nonempty [OF ok]) simp
      moreover have "section_ok s" if "s \<in> set (sections_named c n)" for s
        using clean all n that by (auto simp: clean_section_def)
      ultimately show "sections_named c n \<noteq> [] \<and> (\<forall>s \<in> set (sections_named c n). section_ok s \<and> fqn s = n)"
        using sections_named_fqn [OF ok] by blast
    qed
  qed
  then have "all_sections (fold put ?rest ?c1) = all_sections c" "cf_orderedSections (fold put ?rest ?c1) = cf_orderedSections c"
    using all all1 h1(2) g(1) by simp_all
  moreover have "Read open path = Inr (snd (fold read_line ?ls (0, ?c0)))"
    using assms(2) scan addSection_eq [of "''global''" "newConfiguration (Clean path)"]
    by (simp add: Read_def Let_def newConfiguration_def split: prod.splits)
  ultimately show ?thesis using f by auto
qed

text \<open>
  C15. What is saved is read back. A well-formed configuration whose names, options and values hold no newline,
  marker or outer blank, with one section \<open>global\<close> in front, is written by \<open>Save\<close> without change to itself, and \<open>Read\<close>
  of the written file gives the same sections in the same order, each with the same options and values in the same order.
\<close>

theorem Save_Read_roundtrip:
  assumes "savable c" and "so_Rename os path (path @ ''.bak'') = None" and "so_Create os path = None"
  shows "\<exists>content c'. Save os c path = Some \<lparr>sv_err = so_Close os path, sv_file = Some (content, so_Flush os content), sv_config = c\<rparr> \<and>
    Read (\<lambda>_. Inr (content, None)) path = Inr c' \<and>
    all_sections c' = all_sections c \<and> cf_orderedSections c' = cf_orderedSections c"
proof -
  have "\<not> cf_locked c" using assms(1) by (simp add: savable_def)
  then obtain ps where ps: "AllSections c = Some (Inr ps)" "map (section_at c) ps = all_sections c" using AllSections_eq by blast
  let ?text = "concat (map (\<lambda>s. Section_String s @ nl) (all_sections c))"
  have "save_text c ps = ?text" by (simp add: save_text_def o_def flip: ps(2))
  then have "Save os c path = Some \<lparr>sv_err = so_Close os path, sv_file = Some (?text, so_Flush os ?text), sv_config = c\<rparr>"
    using assms(2,3) ps(1) \<open>\<not> cf_locked c\<close> by (simp add: Save_def Let_def)
  moreover obtain c' where "Read (\<lambda>_. Inr (?text, None)) path = Inr c'" "all_sections c' = all_sections c"
    "cf_orderedSections c' = cf_orderedSections c"
    using read_saved [OF assms(1), of "\<lambda>_. Inr (?text, None)" path] by auto
  ultimately show ?thesis by blast
qed

definition example_global :: Section where
  "example_global = \<lparr>fqn = ''global'', options = [''a'' \<mapsto> ''1''], orderedOptions = [''a'']\<rparr>"

definition example_section :: Section where
  "example_section = \<lparr>fqn = ''b'', options = [''k'' \<mapsto> [], ''url'' \<mapsto> ''x=y:z''], orderedOptions = [''k'', ''url'', ''k'']\<rparr>"

definition example_config :: Configuration where
  "example_config = \<lparr>cf_filePath = ''f'', cf_sections = [''global'' \<mapsto> [0], ''b'' \<mapsto> [1, 2]], cf_orderedSections = [''global'', ''b''],
     cf_locked = False, cf_heap = [example_global, example_section, example_section]\<rparr>"

lemma example_config_sections: "all_sections example_config = [example_global, example_section, example_section]"
  by (simp add: all_sections_def example_config_def) (simp add: sections_named_def section_at_def)

lemma example_clean: "clean_section example_global" "clean_section example_section"
  by (auto simp: example_global_def example_section_def clean_section_def section_ok_def trimmed_def clean_line_def
      MaxScanTokenSize_def clean_option_def option_line_def ValueOf_def split: if_splits)

lemma example_config_savable: "savable example_config"
proof -
  have "config_ok example_config"
    using example_clean
    by (auto simp: config_ok_def example_config_def section_at_def clean_section_def split: if_splits)
      (simp_all add: example_global_def example_section_def)
  moreover have "sections_named example_config ''global'' = [example_global]" "\<not> cf_locked example_config"
    "cf_orderedSections example_config = [''global'', ''b'']"
    by (simp_all add: example_config_def sections_named_def section_at_def)
  ultimately show ?thesis using example_clean by (simp add: savable_def example_config_sections)
qed

theorem Save_Read_roundtrip_witness:
  "\<exists>content c'. Read (\<lambda>_. Inr (content, None)) ''f'' = Inr c' \<and> all_sections c' = [example_global, example_section, example_section]"
  using Save_Read_roundtrip [OF example_config_savable,
      of "\<lparr>so_Rename = \<lambda>_ _. None, so_Create = \<lambda>_. None, so_Flush = \<lambda>_. None, so_Close = \<lambda>_. None\<rparr>" "''f''"]
  unfolding example_config_sections by auto

theorem Read_well_formed_witness:
  "\<exists>c. Read (\<lambda>_. Inr (''a=1'', None)) ''f'' = Inr c \<and> config_ok c \<and> cf_sections c ''global'' \<noteq> None"
proof -
  have "scan_lines ''a=1'' = ([''a=1''], False)" by (simp add: scan_lines_def MaxScanTokenSize_def drop_cr_def)
  then have "\<exists>c. Read (\<lambda>_. Inr (''a=1'', None)) ''f'' = Inr c" by (simp add: Read_def Let_def split: prod.splits)
  then show ?thesis using Read_well_formed [of "\<lambda>_. Inr (''a=1'', None)" "''f''"] by blast
qed

section \<open>Errors of saving\<close>

text \<open>
  C33. A \<open>Save\<close> that cannot rename the old file, or cannot create the new one, returns the error with the mutex
  still locked: from then on nothing that takes the lock ever returns. When both succeed, the error of flushing the
  buffer is lost, since closing the file overwrites it.
\<close>

theorem Save_failures:
  "\<not> cf_locked c \<Longrightarrow>
    (if (\<exists>err. so_Rename os path (path @ ''.bak'') = Some (err, False)) \<or> so_Create os path \<noteq> None
     then \<exists>err c'. Save os c path = Some \<lparr>sv_err = Some err, sv_file = None, sv_config = c'\<rparr> \<and>
       (\<forall>n m regex keys. Configuration_Section c' n = None \<and> Sections c' n = None \<and> StringValue c' n m = None \<and>
          Find regex keys c' = None \<and> Configuration_Delete regex keys c' = None \<and> Configuration_String c' = None \<and>
          SetFilePath c' n = None \<and> Save os c' n = None)
     else \<exists>content. Save os c path = Some \<lparr>sv_err = so_Close os path, sv_file = Some (content, so_Flush os content), sv_config = c\<rparr>)"
proof -
  assume c: "\<not> cf_locked c"
  have stuck: "\<forall>n m regex keys. Configuration_Section c' n = None \<and> Sections c' n = None \<and> StringValue c' n m = None \<and>
      Find regex keys c' = None \<and> Configuration_Delete regex keys c' = None \<and> Configuration_String c' = None \<and>
      SetFilePath c' n = None \<and> Save os c' n = None" if "cf_locked c'" for c'
    using that by (simp add: Configuration_Section_def Sections_def StringValue_def Find_def Configuration_Delete_def
        Configuration_String_def SetFilePath_def Save_def locking_def)
  have failed: "\<exists>err' c'. Some \<lparr>sv_err = Some err, sv_file = None, sv_config = c\<lparr>cf_locked := True\<rparr>\<rparr> =
      Some \<lparr>sv_err = Some err', sv_file = None, sv_config = c'\<rparr> \<and> cf_locked c'" for err by simp
  obtain ps where ps: "AllSections c = Some (Inr ps)" using AllSections_eq [OF c] by blast
  show ?thesis
  proof (cases "(\<exists>err. so_Rename os path (path @ ''.bak'') = Some (err, False)) \<or> so_Create os path \<noteq> None")
    case True
    then have "\<exists>err. Save os c path = Some \<lparr>sv_err = Some err, sv_file = None, sv_config = c\<lparr>cf_locked := True\<rparr>\<rparr>"
      using c by (auto simp: Save_def Let_def split: option.splits)
    then show ?thesis using True stuck [of "c\<lparr>cf_locked := True\<rparr>"] by auto
  next
    case False
    then have "\<exists>content. Save os c path = Some \<lparr>sv_err = so_Close os path, sv_file = Some (content, so_Flush os content), sv_config = c\<rparr>"
      using c ps by (auto simp: Save_def Let_def split: option.splits)
    then show ?thesis using False by simp
  qed
qed

theorem Save_failures_witness:
  "\<exists>c'. Save \<lparr>so_Rename = (\<lambda>_ _. Some (''denied'', False)), so_Create = (\<lambda>_. None), so_Flush = (\<lambda>_. None), so_Close = (\<lambda>_. None)\<rparr>
      example_config ''f'' = Some \<lparr>sv_err = Some ''denied'', sv_file = None, sv_config = c'\<rparr> \<and> Configuration_Section c' ''b'' = None"
proof -
  let ?os = "\<lparr>so_Rename = (\<lambda>_ _. Some (''denied'', False)), so_Create = (\<lambda>_. None), so_Flush = (\<lambda>_. None), so_Close = (\<lambda>_. None)\<rparr>"
  have c: "\<not> cf_locked example_config" by (simp add: example_config_def)
  have "Save ?os example_config ''f'' = Some \<lparr>sv_err = Some ''denied'', sv_file = None, sv_config = example_config\<lparr>cf_locked := True\<rparr>\<rparr>"
    using c by (simp add: Save_def Let_def)
  then show ?thesis using Save_failures [OF c, of ?os "''f''"] by auto
qed

section \<open>Deleting sections\<close>

lemma find_from_hit:
  "find_from (hit P) secs keys ps = Inr (ps @ concat (map (\<lambda>n. case secs n of Some qs \<Rightarrow> qs | None \<Rightarrow> []) (filter P keys)))"
  by (induction keys arbitrary: ps) auto

lemma delete_sections_simps:
  "cf_heap (delete_sections ps c) = cf_heap c" "cf_orderedSections (delete_sections ps c) = cf_orderedSections c"
  "cf_locked (delete_sections ps c) = cf_locked c"
  by (induction ps arbitrary: c) auto

lemma delete_sections_map:
  "cf_sections (delete_sections ps c) = (\<lambda>n. if n \<in> (\<lambda>p. fqn (section_at c p)) ` set ps then None else cf_sections c n)"
proof (induction ps arbitrary: c)
  case (Cons p ps)
  have "section_at (c\<lparr>cf_sections := f\<rparr>) q = section_at c q" for f q by (simp add: section_at_def)
  then show ?case using Cons by (auto simp: fun_eq_iff)
qed auto

text \<open>
  C32. Deleting the sections whose names match a regular expression panics exactly when two or more names match and
  the last of the ordered names is one of them. When at most one name matches, its sections are found and removed, the
  others stay as they are, and the configuration stays well formed.
\<close>

theorem Configuration_Delete_correct:
  assumes ok: "config_ok c" and lock: "\<not> cf_locked c" and keys: "set keys = dom (cf_sections c)"
  shows "(Configuration_Delete (hit P) keys c = None \<longleftrightarrow>
       2 \<le> length (filter P (cf_orderedSections c)) \<and> P (last (cf_orderedSections c))) \<and>
    (length (filter P (cf_orderedSections c)) \<le> 1 \<longrightarrow>
       (\<exists>ps c'. Configuration_Delete (hit P) keys c = Some (Inr ps, c') \<and> config_ok c' \<and>
          set ps = {p. \<exists>n qs. P n \<and> cf_sections c n = Some qs \<and> p \<in> set qs} \<and>
          cf_sections c' = (\<lambda>n. if P n then None else cf_sections c n) \<and>
          cf_orderedSections c' = filter (\<lambda>n. \<not> P n) (cf_orderedSections c)))"
proof -
  let ?ps = "concat (map (\<lambda>n. case cf_sections c n of Some qs \<Rightarrow> qs | None \<Rightarrow> []) (filter P keys))"
  let ?d = "delete_sections ?ps c"
  have find: "Find (hit P) keys c = Some (Inr ?ps)" using lock by (simp add: Find_def locking_def find_from_hit)
  have ps: "set ?ps = {p. \<exists>n qs. P n \<and> cf_sections c n = Some qs \<and> p \<in> set qs}"
    using keys by (force split: option.splits)
  have secs: "cf_sections ?d = (\<lambda>n. if P n then None else cf_sections c n)"
  proof
    fix n
    have "n \<in> (\<lambda>p. fqn (section_at c p)) ` set ?ps \<longleftrightarrow> P n \<and> cf_sections c n \<noteq> None"
    proof
      assume "n \<in> (\<lambda>p. fqn (section_at c p)) ` set ?ps"
      then obtain p m qs where p: "fqn (section_at c p) = n" "P m" "cf_sections c m = Some qs" "p \<in> set qs"
        unfolding ps by blast
      then have "m = n" using config_okD(6) [OF ok] by metis
      then show "P n \<and> cf_sections c n \<noteq> None" using p by simp
    next
      assume n: "P n \<and> cf_sections c n \<noteq> None"
      then obtain qs where qs: "cf_sections c n = Some qs" by blast
      then obtain p where "p \<in> set qs" using config_okD(3) [OF ok] by (metis list.set_intros(1) neq_Nil_conv)
      then have "p \<in> set ?ps" "fqn (section_at c p) = n" using n qs config_okD(6) [OF ok] unfolding ps by blast+
      then show "n \<in> (\<lambda>p. fqn (section_at c p)) ` set ?ps" by blast
    qed
    then show "cf_sections ?d n = (if P n then None else cf_sections c n)" by (auto simp: delete_sections_map)
  qed
  have del: "Configuration_Delete (hit P) keys c =
      (case delete_all (hit P) (cf_orderedSections c) of None \<Rightarrow> None
       | Some (failed, names) \<Rightarrow> Some (case failed of Some err \<Rightarrow> Inl err | None \<Rightarrow> Inr ?ps, ?d\<lparr>cf_orderedSections := names\<rparr>))"
    by (cases "delete_all (hit P) (cf_orderedSections c)")
      (auto simp: Configuration_Delete_def find delete_sections_simps Let_def split: option.splits)
  show ?thesis
  proof
    show "Configuration_Delete (hit P) keys c = None \<longleftrightarrow>
        2 \<le> length (filter P (cf_orderedSections c)) \<and> P (last (cf_orderedSections c))"
      unfolding delete_all_panics [symmetric] del by (auto split: option.splits)
    show "length (filter P (cf_orderedSections c)) \<le> 1 \<longrightarrow>
       (\<exists>ps c'. Configuration_Delete (hit P) keys c = Some (Inr ps, c') \<and> config_ok c' \<and>
          set ps = {p. \<exists>n qs. P n \<and> cf_sections c n = Some qs \<and> p \<in> set qs} \<and>
          cf_sections c' = (\<lambda>n. if P n then None else cf_sections c n) \<and>
          cf_orderedSections c' = filter (\<lambda>n. \<not> P n) (cf_orderedSections c))"
    proof
      assume "length (filter P (cf_orderedSections c)) \<le> 1"
      note one = delete_one [OF this]
      let ?e = "?d\<lparr>cf_orderedSections := filter (\<lambda>n. \<not> P n) (cf_orderedSections c)\<rparr>"
      have "config_ok ?e"
        using ok secs unfolding config_ok_def by (auto simp: delete_sections_simps section_at_def split: if_splits)
      then show "\<exists>ps c'. Configuration_Delete (hit P) keys c = Some (Inr ps, c') \<and> config_ok c' \<and>
          set ps = {p. \<exists>n qs. P n \<and> cf_sections c n = Some qs \<and> p \<in> set qs} \<and>
          cf_sections c' = (\<lambda>n. if P n then None else cf_sections c n) \<and>
          cf_orderedSections c' = filter (\<lambda>n. \<not> P n) (cf_orderedSections c)"
        using ps secs by (intro exI [of _ ?ps] exI [of _ ?e]) (simp add: del one)
    qed
  qed
qed

theorem Configuration_Delete_correct_witness:
  "\<exists>ps c'. Configuration_Delete (hit (\<lambda>n. n = ''b'')) [''b'', ''global''] example_config = Some (Inr ps, c') \<and>
    cf_orderedSections c' = [''global'']"
proof -
  have "config_ok example_config" "\<not> cf_locked example_config"
    using example_config_savable by (simp_all add: savable_def)
  moreover have "set [''b'', ''global''] = dom (cf_sections example_config)" by (auto simp: example_config_def split: if_splits)
  moreover have "cf_orderedSections example_config = [''global'', ''b'']" by (simp add: example_config_def)
  ultimately show ?thesis
    using Configuration_Delete_correct [of example_config "[''b'', ''global'']" "\<lambda>n. n = ''b''"] by auto
qed

end
