(* ===== verification/Xman_Requests.thy ===== *)
theory Xman_Requests
  imports Go_Base
begin

text \<open>
  Requests to a remote server and the responses to them (\<open>RequestToRemote\<close> and the loops of \<open>udpConnStart\<close> and
  \<open>tcpConnStart\<close> in \<open>xman/xman_conn_proxy.go\<close>).

  A caller takes the next sequence number, puts a request with a fresh response channel into \<open>reqChan\<close> and waits for
  the channel or for a timeout, after which it puts a cancellation into \<open>reqChan\<close>. The loop of the manager takes a request
  and enters it in \<open>reqMap\<close>, takes a cancellation and removes the entry, or takes a response, hands it to the request
  with its number and removes the entry. Channels are lists with a capacity; a send into a full channel blocks, which
  is a step that is not possible. If the channel is empty and its receiver waits, what is sent is handed over at once, which is all that a channel without room can do
  (a configuration without \<open>MaxReq\<close> makes such channels). The response channels are numbered like the calls. Sequence numbers are 32-bit words and wrap
  around. Packages have any type. \<open>alive\<close> tells whether the goroutine runs that sends to the network; it ends when a
  TCP connection is closed.

  Shown: whatever the order of the steps and whatever arrives, a response never blocks the loop; a caller gets at
  most one response, one that arrived with its number; and an entry of the map belongs to a call that is waiting, or
  its cancellation is under way.
\<close>

section \<open>The manager\<close>

record Request =
  IsCancel :: bool
  ReqSeq :: "32 word"
  ReqPkg :: bytes
  RspChan :: nat

record 'p ConnMgr =
  reqChan :: "Request list"
  sendChan :: "bytes list"
  recvChan :: "(32 word \<times> 'p) list list"
  reqMap :: "32 word \<Rightarrow> Request option"
  rspChans :: "nat \<Rightarrow> 'p list"
  reqMaxSize :: nat
  sending :: "bytes option"

text \<open>
  The branch of the loop for a request. The package then goes into \<open>sendChan\<close>; until there is room for it, it is
  \<open>sending\<close>, and the loop does nothing else.
\<close>

definition handle_request :: "Request \<Rightarrow> 'p ConnMgr \<Rightarrow> 'p ConnMgr" where
  "handle_request req m =
     (if IsCancel req then m\<lparr>reqMap := (reqMap m)(ReqSeq req := None)\<rparr>
      else m\<lparr>reqMap := (reqMap m)(ReqSeq req \<mapsto> req), sending := Some (ReqPkg req)\<rparr>)"

text \<open>One response; it blocks when the response channel, with room for one, is full.\<close>

definition handle_response :: "32 word \<times> 'p \<Rightarrow> 'p ConnMgr \<Rightarrow> 'p ConnMgr option" where
  "handle_response = (\<lambda>(seq, pkg) m.
     (case reqMap m seq of
        None \<Rightarrow> Some m
      | Some req \<Rightarrow>
          (if length (rspChans m (RspChan req)) < 1 then
             Some (m\<lparr>rspChans := (rspChans m)(RspChan req := rspChans m (RspChan req) @ [pkg]),
                     reqMap := (reqMap m)(ReqSeq req := None)\<rparr>)
           else None)))"

text \<open>
  The TCP loop ranges over a map of responses, here a list in the order of the range. The UDP loop unpacks one
  message, which may fail.
\<close>

fun handle_responses :: "(32 word \<times> 'p) list \<Rightarrow> 'p ConnMgr \<Rightarrow> 'p ConnMgr option" where
  "handle_responses [] m = Some m"
| "handle_responses (r # rs) m = do { m \<leftarrow> handle_response r m; handle_responses rs m }"

definition udp_responses :: "('e + 32 word \<times> 'p) \<Rightarrow> (32 word \<times> 'p) list" where
  "udp_responses unpacked = (case unpacked of Inl err \<Rightarrow> [] | Inr r \<Rightarrow> [r])"

section \<open>Callers\<close>

datatype 'p CallStatus = Sending | Waiting | Got 'p | Cancelling | TimedOut

record 'p Conns =
  mgr :: "'p ConnMgr"
  remoteSrvSeq :: "32 word"
  calls :: "(Request \<times> 'p CallStatus) list"
  arrived :: "(32 word \<times> 'p) list"

definition new_request :: "(32 word \<Rightarrow> bytes) \<Rightarrow> 'p Conns \<Rightarrow> Request" where
  "new_request packHandler s =
     (let newSeq = remoteSrvSeq s + 1
      in \<lparr>IsCancel = False, ReqSeq = newSeq, ReqPkg = packHandler newSeq, RspChan = length (calls s)\<rparr>)"

definition cancellation :: "Request \<Rightarrow> Request" where
  "cancellation req = \<lparr>IsCancel = True, ReqSeq = ReqSeq req, ReqPkg = [], RspChan = 0\<rparr>"

definition set_status :: "nat \<Rightarrow> 'p CallStatus \<Rightarrow> 'p Conns \<Rightarrow> 'p Conns" where
  "set_status i st s = s\<lparr>calls := (calls s)[i := (fst (calls s ! i), st)]\<rparr>"

definition status :: "'p Conns \<Rightarrow> nat \<Rightarrow> 'p CallStatus" where
  "status s i = snd (calls s ! i)"

definition request :: "'p Conns \<Rightarrow> nat \<Rightarrow> Request" where
  "request s i = fst (calls s ! i)"

text \<open>
  The steps: a call begins; its request enters \<open>reqChan\<close>; the caller takes a response; it times out and sends the
  cancellation; the loop takes a request, puts its package into \<open>sendChan\<close>, or takes a batch of responses; the network
  takes a package and brings responses. The last four hand something over through an empty channel: a request, a cancellation, a package, and responses.
\<close>

inductive conn_step :: "bool \<Rightarrow> 'p Conns \<Rightarrow> 'p Conns \<Rightarrow> bool" for alive where
  begin_call: "conn_step alive s (s\<lparr>remoteSrvSeq := remoteSrvSeq s + 1, calls := calls s @ [(new_request packHandler s, Sending)]\<rparr>)"
| enqueue: "i < length (calls s) \<Longrightarrow> status s i = Sending \<Longrightarrow> length (reqChan (mgr s)) < reqMaxSize (mgr s) \<Longrightarrow>
    conn_step alive s (set_status i Waiting (s\<lparr>mgr := (mgr s)\<lparr>reqChan := reqChan (mgr s) @ [request s i]\<rparr>\<rparr>))"
| receive: "i < length (calls s) \<Longrightarrow> status s i = Waiting \<Longrightarrow> rspChans (mgr s) i = pkg # ps \<Longrightarrow>
    conn_step alive s (set_status i (Got pkg) (s\<lparr>mgr := (mgr s)\<lparr>rspChans := (rspChans (mgr s))(i := ps)\<rparr>\<rparr>))"
| timeout: "i < length (calls s) \<Longrightarrow> status s i = Waiting \<Longrightarrow> conn_step alive s (set_status i Cancelling s)"
| cancel: "i < length (calls s) \<Longrightarrow> status s i = Cancelling \<Longrightarrow> length (reqChan (mgr s)) < reqMaxSize (mgr s) \<Longrightarrow>
    conn_step alive s (set_status i TimedOut (s\<lparr>mgr := (mgr s)\<lparr>reqChan := reqChan (mgr s) @ [cancellation (request s i)]\<rparr>\<rparr>))"
| take_request: "sending (mgr s) = None \<Longrightarrow> reqChan (mgr s) = req # reqs \<Longrightarrow>
    conn_step alive s (s\<lparr>mgr := handle_request req ((mgr s)\<lparr>reqChan := reqs\<rparr>)\<rparr>)"
| push: "sending (mgr s) = Some data \<Longrightarrow> length (sendChan (mgr s)) < reqMaxSize (mgr s) \<Longrightarrow>
    conn_step alive s (s\<lparr>mgr := (mgr s)\<lparr>sendChan := sendChan (mgr s) @ [data], sending := None\<rparr>\<rparr>)"
| take_response: "sending (mgr s) = None \<Longrightarrow> recvChan (mgr s) = rsp # rsps \<Longrightarrow>
    handle_responses rsp ((mgr s)\<lparr>recvChan := rsps\<rparr>) = Some m \<Longrightarrow> conn_step alive s (s\<lparr>mgr := m\<rparr>)"
| send: "alive \<Longrightarrow> sendChan (mgr s) = data # ds \<Longrightarrow> conn_step alive s (s\<lparr>mgr := (mgr s)\<lparr>sendChan := ds\<rparr>\<rparr>)"
| arrive: "length (recvChan (mgr s)) < reqMaxSize (mgr s) \<Longrightarrow>
    conn_step alive s (s\<lparr>mgr := (mgr s)\<lparr>recvChan := recvChan (mgr s) @ [rsp]\<rparr>, arrived := arrived s @ rsp\<rparr>)"
| hand_request: "i < length (calls s) \<Longrightarrow> status s i = Sending \<Longrightarrow> sending (mgr s) = None \<Longrightarrow> reqChan (mgr s) = [] \<Longrightarrow>
    conn_step alive s (set_status i Waiting (s\<lparr>mgr := handle_request (request s i) (mgr s)\<rparr>))"
| hand_cancellation: "i < length (calls s) \<Longrightarrow> status s i = Cancelling \<Longrightarrow> sending (mgr s) = None \<Longrightarrow> reqChan (mgr s) = [] \<Longrightarrow>
    conn_step alive s (set_status i TimedOut (s\<lparr>mgr := handle_request (cancellation (request s i)) (mgr s)\<rparr>))"
| hand_package: "alive \<Longrightarrow> sending (mgr s) = Some data \<Longrightarrow> sendChan (mgr s) = [] \<Longrightarrow> conn_step alive s (s\<lparr>mgr := (mgr s)\<lparr>sending := None\<rparr>\<rparr>)"
| hand_responses: "sending (mgr s) = None \<Longrightarrow> recvChan (mgr s) = [] \<Longrightarrow> handle_responses rsp (mgr s) = Some m \<Longrightarrow>
    conn_step alive s (s\<lparr>mgr := m, arrived := arrived s @ rsp\<rparr>)"

inductive_cases conn_stepE: "conn_step alive s s'"

definition new_conn :: "nat \<Rightarrow> 'p Conns" where
  "new_conn n = \<lparr>mgr = \<lparr>reqChan = [], sendChan = [], recvChan = [], reqMap = (\<lambda>_. None), rspChans = (\<lambda>_. []), reqMaxSize = n, sending = None\<rparr>,
     remoteSrvSeq = 0, calls = [], arrived = []\<rparr>"

section \<open>Every request is in one place\<close>

text \<open>
  A request is a token: still with its caller, in the channel, in the map, in its response channel as a response, or
  with the caller as a response. It may get lost (a request whose number came around again), but it is never in two
  places.
\<close>

definition tokens :: "'p Conns \<Rightarrow> nat \<Rightarrow> nat" where
  "tokens s i = (case status s i of Sending \<Rightarrow> 1 | Got p \<Rightarrow> 1 | _ \<Rightarrow> 0) + count_list (reqChan (mgr s)) (request s i) +
     (if reqMap (mgr s) (ReqSeq (request s i)) = Some (request s i) then 1 else 0) + length (rspChans (mgr s) i)"

definition is_call :: "'p Conns \<Rightarrow> Request \<Rightarrow> bool" where
  "is_call s req \<longleftrightarrow> RspChan req < length (calls s) \<and> request s (RspChan req) = req"

definition call_ok :: "'p Conns \<Rightarrow> nat \<Rightarrow> bool" where
  "call_ok s i \<longleftrightarrow> \<not> IsCancel (request s i) \<and> RspChan (request s i) = i \<and> tokens s i \<le> 1 \<and>
     (\<forall>p \<in> set (rspChans (mgr s) i). (ReqSeq (request s i), p) \<in> set (arrived s)) \<and>
     (\<forall>p. status s i = Got p \<longrightarrow> (ReqSeq (request s i), p) \<in> set (arrived s))"

definition queues_ok :: "'p Conns \<Rightarrow> bool" where
  "queues_ok s \<longleftrightarrow> (\<forall>i \<ge> length (calls s). rspChans (mgr s) i = []) \<and>
     (\<forall>req \<in> set (reqChan (mgr s)). \<not> IsCancel req \<longrightarrow> is_call s req) \<and>
     (\<forall>seq req. reqMap (mgr s) seq = Some req \<longrightarrow> is_call s req \<and> ReqSeq req = seq) \<and>
     (\<forall>rsp \<in> set (recvChan (mgr s)). set rsp \<subseteq> set (arrived s))"

definition conns_ok :: "'p Conns \<Rightarrow> bool" where
  "conns_ok s \<longleftrightarrow> (\<forall>i < length (calls s). call_ok s i) \<and> queues_ok s"

lemma conns_simps [simp]:
  "request (s\<lparr>mgr := m\<rparr>) k = request s k" "status (s\<lparr>mgr := m\<rparr>) k = status s k"
  "request (s\<lparr>mgr := m, arrived := a\<rparr>) k = request s k" "status (s\<lparr>mgr := m, arrived := a\<rparr>) k = status s k"
  "is_call (s\<lparr>mgr := m\<rparr>) req = is_call s req" "is_call (s\<lparr>mgr := m, arrived := a\<rparr>) req = is_call s req"
  by (simp_all add: request_def status_def is_call_def)

lemma nth_set_snd:
  "fst (xs[i := (fst (xs ! i), st)] ! k) = fst (xs ! k)"
  "snd (xs[i := (fst (xs ! i), st)] ! k) = (if k = i \<and> i < length xs then st else snd (xs ! k))"
  by (cases "i < length xs"; cases "k = i"; simp add: list_update_beyond)+

lemma set_status_simps [simp]:
  "length (calls (set_status i st s)) = length (calls s)" "mgr (set_status i st s) = mgr s"
  "arrived (set_status i st s) = arrived s" "remoteSrvSeq (set_status i st s) = remoteSrvSeq s"
  "request (set_status i st s) k = request s k"
  "status (set_status i st s) k = (if k = i \<and> i < length (calls s) then st else status s k)"
  "is_call (set_status i st s) req = is_call s req"
  by (simp_all add: set_status_def request_def status_def is_call_def nth_set_snd)

lemma call_okD:
  assumes "conns_ok s" and "i < length (calls s)"
  shows "\<not> IsCancel (request s i)" "RspChan (request s i) = i" "tokens s i \<le> 1"
    "p \<in> set (rspChans (mgr s) i) \<Longrightarrow> (ReqSeq (request s i), p) \<in> set (arrived s)"
    "status s i = Got p \<Longrightarrow> (ReqSeq (request s i), p) \<in> set (arrived s)"
  using assms unfolding conns_ok_def call_ok_def by blast+

lemma queues_okD:
  assumes "conns_ok s"
  shows "length (calls s) \<le> i \<Longrightarrow> rspChans (mgr s) i = []"
    "req \<in> set (reqChan (mgr s)) \<Longrightarrow> \<not> IsCancel req \<Longrightarrow> is_call s req"
    "reqMap (mgr s) seq = Some req \<Longrightarrow> is_call s req" "reqMap (mgr s) seq = Some req \<Longrightarrow> ReqSeq req = seq"
    "rsp \<in> set (recvChan (mgr s)) \<Longrightarrow> r \<in> set rsp \<Longrightarrow> r \<in> set (arrived s)"
  using assms unfolding conns_ok_def queues_ok_def by blast+

lemma request_inj: "conns_ok s \<Longrightarrow> i < length (calls s) \<Longrightarrow> k < length (calls s) \<Longrightarrow> request s i = request s k \<longleftrightarrow> i = k"
  using call_okD(2) by metis

lemma cancellation_not_call: "conns_ok s \<Longrightarrow> k < length (calls s) \<Longrightarrow> cancellation req \<noteq> request s k"
  using call_okD(1) by (metis Request.select_convs(1) cancellation_def)

lemma enqueue_ok:
  assumes ok: "conns_ok s" and i: "i < length (calls s)" "status s i = Sending"
  shows "conns_ok (set_status i Waiting (s\<lparr>mgr := (mgr s)\<lparr>reqChan := reqChan (mgr s) @ [request s i]\<rparr>\<rparr>))"
    (is "conns_ok ?s")
proof -
  have "call_ok ?s k" if k: "k < length (calls s)" for k
    using call_okD [OF ok k] i request_inj [OF ok i(1) k] unfolding call_ok_def
    by (auto simp: tokens_def)
  moreover have "is_call s (request s i)" using call_okD(2) [OF ok i(1)] i(1) by (simp add: is_call_def)
  then have "queues_ok ?s" using queues_okD [OF ok] by (auto simp: queues_ok_def)
  ultimately show ?thesis by (simp add: conns_ok_def)
qed

lemma receive_ok:
  assumes ok: "conns_ok s" and i: "i < length (calls s)" "status s i = Waiting" and p: "rspChans (mgr s) i = pkg # ps"
  shows "conns_ok (set_status i (Got pkg) (s\<lparr>mgr := (mgr s)\<lparr>rspChans := (rspChans (mgr s))(i := ps)\<rparr>\<rparr>))"
    (is "conns_ok ?s")
proof -
  have "call_ok ?s k" if k: "k < length (calls s)" for k
    using call_okD [OF ok k] i p unfolding call_ok_def by (auto simp: tokens_def)
  moreover have "queues_ok ?s" using queues_okD [OF ok] i(1) by (auto simp: queues_ok_def)
  ultimately show ?thesis by (simp add: conns_ok_def)
qed

lemma timeout_ok:
  assumes ok: "conns_ok s" and i: "i < length (calls s)" "status s i = Waiting"
  shows "conns_ok (set_status i Cancelling s)" (is "conns_ok ?s")
proof -
  have "call_ok ?s k" if k: "k < length (calls s)" for k
    using call_okD [OF ok k] i unfolding call_ok_def by (auto simp: tokens_def)
  moreover have "queues_ok ?s" using queues_okD [OF ok] by (auto simp: queues_ok_def)
  ultimately show ?thesis by (simp add: conns_ok_def)
qed

lemma cancel_ok:
  assumes ok: "conns_ok s" and i: "i < length (calls s)" "status s i = Cancelling"
  shows "conns_ok (set_status i TimedOut (s\<lparr>mgr := (mgr s)\<lparr>reqChan := reqChan (mgr s) @ [cancellation (request s i)]\<rparr>\<rparr>))"
    (is "conns_ok ?s")
proof -
  have "call_ok ?s k" if k: "k < length (calls s)" for k
    using call_okD [OF ok k] i cancellation_not_call [OF ok k, of "request s i"] unfolding call_ok_def
    by (auto simp: tokens_def)
  moreover have "queues_ok ?s" using queues_okD [OF ok] by (auto simp: queues_ok_def cancellation_def)
  ultimately show ?thesis by (simp add: conns_ok_def)
qed

lemma begin_call_ok:
  assumes ok: "conns_ok s"
  shows "conns_ok (s\<lparr>remoteSrvSeq := remoteSrvSeq s + 1, calls := calls s @ [(new_request packHandler s, Sending)]\<rparr>)"
    (is "conns_ok ?s")
proof -
  let ?n = "length (calls s)"
  have old: "request ?s k = request s k" "status ?s k = status s k" if "k < ?n" for k
    using that by (simp_all add: request_def status_def nth_append)
  have new: "request ?s ?n = new_request packHandler s" "status ?s ?n = Sending" by (simp_all add: request_def status_def)
  have r: "RspChan (new_request packHandler s) = ?n" "\<not> IsCancel (new_request packHandler s)"
    by (simp_all add: new_request_def Let_def)
  have c: "is_call ?s req" if "is_call s req" for req using that old by (simp add: is_call_def)
  have nocall: "\<not> is_call s (new_request packHandler s)" by (simp add: is_call_def r)
  have "call_ok ?s k" if k: "k < ?n" for k
    using call_okD [OF ok k] old [OF k] unfolding call_ok_def by (simp add: tokens_def)
  moreover have "call_ok ?s ?n"
  proof -
    have "new_request packHandler s \<notin> set (reqChan (mgr s))" using queues_okD(2) [OF ok] r(2) nocall by blast
    moreover have "reqMap (mgr s) q \<noteq> Some (new_request packHandler s)" for q using queues_okD(3) [OF ok] nocall by blast
    ultimately show ?thesis
      using queues_okD(1) [OF ok, of ?n] r new by (simp add: call_ok_def tokens_def count_list_0_iff)
  qed
  moreover have "queues_ok ?s" using queues_okD [OF ok] c by (auto simp: queues_ok_def)
  ultimately show ?thesis by (auto simp: conns_ok_def less_Suc_eq)
qed

lemma handle_request_ok:
  assumes ok: "conns_ok s" and r: "reqChan (mgr s) = req # reqs"
  shows "conns_ok (s\<lparr>mgr := handle_request req ((mgr s)\<lparr>reqChan := reqs\<rparr>)\<rparr>)" (is "conns_ok ?s")
proof (cases "IsCancel req")
  case True
  then have m: "handle_request req ((mgr s)\<lparr>reqChan := reqs\<rparr>) = (mgr s)\<lparr>reqChan := reqs, reqMap := (reqMap (mgr s))(ReqSeq req := None)\<rparr>"
    by (simp add: handle_request_def)
  have "call_ok ?s k" if k: "k < length (calls s)" for k
  proof -
    have "tokens ?s k \<le> tokens s k" using r by (auto simp: tokens_def m)
    then show ?thesis using call_okD [OF ok k] unfolding call_ok_def by (auto simp: m)
  qed
  moreover have "queues_ok ?s" using queues_okD [OF ok] r by (auto simp: queues_ok_def m split: if_splits)
  ultimately show ?thesis by (simp add: conns_ok_def)
next
  case False
  then have m: "handle_request req ((mgr s)\<lparr>reqChan := reqs\<rparr>) =
      (mgr s)\<lparr>reqChan := reqs, reqMap := (reqMap (mgr s))(ReqSeq req \<mapsto> req), sending := Some (ReqPkg req)\<rparr>"
    by (simp add: handle_request_def)
  have req: "is_call s req" using queues_okD(2) [OF ok] r False by simp
  have "call_ok ?s k" if k: "k < length (calls s)" for k
  proof (cases "req = request s k")
    case True
    then show ?thesis using call_okD [OF ok k] r unfolding call_ok_def m by (auto simp: tokens_def split: if_splits)
  next
    case neq: False
    have "tokens ?s k \<le> tokens s k" using neq r by (auto simp: tokens_def m)
    then show ?thesis using call_okD [OF ok k] unfolding call_ok_def by (auto simp: m)
  qed
  moreover have "queues_ok ?s" using queues_okD [OF ok] r req by (auto simp: queues_ok_def m split: if_splits)
  ultimately show ?thesis by (simp add: conns_ok_def)
qed

lemma entry_empty:
  assumes ok: "conns_ok s" and r: "reqMap (mgr s) seq = Some req"
  shows "is_call s req" "ReqSeq req = seq" "rspChans (mgr s) (RspChan req) = []"
proof -
  show c: "is_call s req" "ReqSeq req = seq" using queues_okD(3,4) [OF ok r] by auto
  then have "RspChan req < length (calls s)" "request s (RspChan req) = req" by (simp_all add: is_call_def)
  then show "rspChans (mgr s) (RspChan req) = []"
    using call_okD(3) [OF ok, of "RspChan req"] r c(2) by (simp add: tokens_def)
qed

text \<open>A response is delivered without blocking.\<close>

lemma handle_response_ok:
  assumes ok: "conns_ok s" and a: "(seq, pkg) \<in> set (arrived s)"
  shows "\<exists>m. handle_response (seq, pkg) (mgr s) = Some m \<and> conns_ok (s\<lparr>mgr := m\<rparr>) \<and> recvChan m = recvChan (mgr s)"
proof (cases "reqMap (mgr s) seq")
  case None
  then show ?thesis using ok by (simp add: handle_response_def)
next
  case (Some req)
  note e = entry_empty [OF ok Some]
  let ?i = "RspChan req"
  define m where "m = (mgr s)\<lparr>rspChans := (rspChans (mgr s))(?i := [pkg]), reqMap := (reqMap (mgr s))(seq := None)\<rparr>"
  have h: "handle_response (seq, pkg) (mgr s) = Some m" using Some e by (simp add: handle_response_def m_def)
  have i: "?i < length (calls s)" "request s ?i = req" using e(1) by (simp_all add: is_call_def)
  have "call_ok (s\<lparr>mgr := m\<rparr>) k" if k: "k < length (calls s)" for k
  proof (cases "k = ?i")
    case True
    then show ?thesis using call_okD [OF ok k] i e a Some unfolding call_ok_def by (auto simp: tokens_def m_def)
  next
    case False
    then have "tokens (s\<lparr>mgr := m\<rparr>) k \<le> tokens s k" by (auto simp: tokens_def m_def)
    then show ?thesis using call_okD [OF ok k] False unfolding call_ok_def by (auto simp: m_def)
  qed
  moreover have "queues_ok (s\<lparr>mgr := m\<rparr>)" using queues_okD [OF ok] i(1) by (auto simp: queues_ok_def m_def split: if_splits)
  ultimately show ?thesis using h by (auto simp: conns_ok_def m_def)
qed

lemma handle_responses_ok:
  assumes "conns_ok s" and "set rsp \<subseteq> set (arrived s)"
  shows "\<exists>m. handle_responses rsp (mgr s) = Some m \<and> conns_ok (s\<lparr>mgr := m\<rparr>)"
  using assms
proof (induction rsp arbitrary: s)
  case (Cons r rsp)
  obtain seq pkg where r: "r = (seq, pkg)" by (cases r)
  obtain m where m: "handle_response r (mgr s) = Some m" "conns_ok (s\<lparr>mgr := m\<rparr>)"
    using handle_response_ok [OF Cons.prems(1), of seq pkg] Cons.prems(2) r by auto
  then show ?case using Cons.IH [of "s\<lparr>mgr := m\<rparr>"] Cons.prems(2) by simp
qed simp

lemma drop_response_ok: "conns_ok s \<Longrightarrow> recvChan (mgr s) = rsp # rsps \<Longrightarrow> conns_ok (s\<lparr>mgr := (mgr s)\<lparr>recvChan := rsps\<rparr>\<rparr>)"
  unfolding conns_ok_def call_ok_def queues_ok_def tokens_def by simp

lemma send_ok:
  "conns_ok s \<Longrightarrow> conns_ok (s\<lparr>mgr := (mgr s)\<lparr>sendChan := ds\<rparr>\<rparr>)"
  "conns_ok s \<Longrightarrow> conns_ok (s\<lparr>mgr := (mgr s)\<lparr>sendChan := ds, sending := d\<rparr>\<rparr>)"
  "conns_ok s \<Longrightarrow> conns_ok (s\<lparr>mgr := (mgr s)\<lparr>sending := d\<rparr>\<rparr>)"
  unfolding conns_ok_def call_ok_def queues_ok_def tokens_def by simp_all

lemma arrive_ok: "conns_ok s \<Longrightarrow> conns_ok (s\<lparr>mgr := (mgr s)\<lparr>recvChan := recvChan (mgr s) @ [rsp]\<rparr>, arrived := arrived s @ rsp\<rparr>)"
  unfolding conns_ok_def call_ok_def queues_ok_def tokens_def by (auto simp: subset_iff)

lemma arrived_ok: "conns_ok s \<Longrightarrow> conns_ok (s\<lparr>arrived := arrived s @ rsp\<rparr>)"
  unfolding conns_ok_def call_ok_def queues_ok_def tokens_def status_def request_def is_call_def by (auto simp: subset_iff)

text \<open>Nothing that is handed over blocks the loop either.\<close>

lemma any_responses_ok:
  assumes "conns_ok s"
  shows "\<exists>m. handle_responses rsp (mgr s) = Some m \<and> conns_ok (s\<lparr>mgr := m, arrived := arrived s @ rsp\<rparr>)"
proof -
  have "s\<lparr>arrived := arrived s @ rsp, mgr := m\<rparr> = s\<lparr>mgr := m, arrived := arrived s @ rsp\<rparr>" for m by (cases s) simp
  moreover obtain m where "handle_responses rsp (mgr s) = Some m" "conns_ok (s\<lparr>arrived := arrived s @ rsp, mgr := m\<rparr>)"
    using handle_responses_ok [OF arrived_ok [OF assms, of rsp], of rsp] by auto
  ultimately show ?thesis by metis
qed

text \<open>A request that is handed over has been in the channel for no time: the step is the two of entering it and taking it.\<close>

lemma hand_over_eq:
  "reqChan (mgr s) = [] \<Longrightarrow>
   set_status i st (s\<lparr>mgr := handle_request req (mgr s)\<rparr>) =
     (let t = set_status i st (s\<lparr>mgr := (mgr s)\<lparr>reqChan := reqChan (mgr s) @ [req]\<rparr>\<rparr>)
      in t\<lparr>mgr := handle_request req ((mgr t)\<lparr>reqChan := []\<rparr>)\<rparr>)"
  by (cases s, rename_tac m q c a, case_tac m) (simp add: handle_request_def set_status_def Let_def)

lemma conn_step_ok:
  assumes "conn_step alive s s'" and "conns_ok s"
  shows "conns_ok s'"
  using assms
proof (cases rule: conn_step.cases)
  case (hand_request i)
  have "reqChan (mgr (set_status i Waiting (s\<lparr>mgr := (mgr s)\<lparr>reqChan := reqChan (mgr s) @ [request s i]\<rparr>\<rparr>))) = [request s i]"
    using hand_request(5) by simp
  from handle_request_ok [OF enqueue_ok [OF assms(2) hand_request(2,3)] this] show ?thesis
    unfolding hand_request(1) hand_over_eq [OF hand_request(5)] Let_def .
next
  case (hand_cancellation i)
  have "reqChan (mgr (set_status i TimedOut (s\<lparr>mgr := (mgr s)\<lparr>reqChan := reqChan (mgr s) @ [cancellation (request s i)]\<rparr>\<rparr>))) =
      [cancellation (request s i)]"
    using hand_cancellation(5) by simp
  from handle_request_ok [OF cancel_ok [OF assms(2) hand_cancellation(2,3)] this] show ?thesis
    unfolding hand_cancellation(1) hand_over_eq [OF hand_cancellation(5)] Let_def .
next
  case (hand_responses rsp m)
  then show ?thesis using any_responses_ok [OF assms(2), of rsp] by auto
next
  case (take_response rsp rsps m)
  have ok: "conns_ok (s\<lparr>mgr := (mgr s)\<lparr>recvChan := rsps\<rparr>\<rparr>)" by (rule drop_response_ok [OF assms(2) take_response(3)])
  have "set rsp \<subseteq> set (arrived s)" using queues_okD(5) [OF assms(2)] take_response(3) by auto
  then show ?thesis using handle_responses_ok [OF ok, of rsp] take_response by auto
qed (simp_all add: assms(2) begin_call_ok enqueue_ok receive_ok timeout_ok cancel_ok handle_request_ok send_ok arrive_ok)

lemma new_conn_ok: "conns_ok (new_conn n)"
  by (simp add: new_conn_def conns_ok_def queues_ok_def)

lemma reachable_ok: "(conn_step alive)\<^sup>*\<^sup>* (new_conn n) s \<Longrightarrow> conns_ok s"
  by (induction rule: rtranclp_induct) (auto intro: new_conn_ok conn_step_ok)

text \<open>
  C13. Responses go to the calls they belong to. In every reachable state, the loop can deliver the responses that
  have arrived, and any that are handed over to it, without blocking; a response channel holds at most one response; and a caller that has a response has one that
  arrived with the number of its call, while nothing of its request is left in the channels or the map, so that it
  gets no second one.
\<close>

theorem responses_reach_their_calls:
  assumes "(conn_step alive)\<^sup>*\<^sup>* (new_conn n) s"
  shows "(\<forall>rsp rsps. recvChan (mgr s) = rsp # rsps \<longrightarrow> (\<exists>m. handle_responses rsp ((mgr s)\<lparr>recvChan := rsps\<rparr>) = Some m)) \<and>
    (\<forall>rsp. \<exists>m. handle_responses rsp (mgr s) = Some m) \<and>
    (\<forall>i < length (calls s). length (rspChans (mgr s) i) \<le> 1 \<and>
      (\<forall>p. status s i = Got p \<longrightarrow> (ReqSeq (request s i), p) \<in> set (arrived s) \<and> rspChans (mgr s) i = [] \<and>
        request s i \<notin> set (reqChan (mgr s)) \<and> (\<forall>seq. reqMap (mgr s) seq \<noteq> Some (request s i))))"
proof -
  note ok = reachable_ok [OF assms]
  have "\<exists>m. handle_responses rsp ((mgr s)\<lparr>recvChan := rsps\<rparr>) = Some m" if r: "recvChan (mgr s) = rsp # rsps" for rsp rsps
  proof -
    have "set rsp \<subseteq> set (arrived s)" using queues_okD(5) [OF ok] r by auto
    then show ?thesis using handle_responses_ok [OF drop_response_ok [OF ok r], of rsp] by auto
  qed
  moreover have "length (rspChans (mgr s) i) \<le> 1" if "i < length (calls s)" for i
    using call_okD(3) [OF ok that] by (simp add: tokens_def)
  moreover have "rspChans (mgr s) i = [] \<and> request s i \<notin> set (reqChan (mgr s)) \<and> reqMap (mgr s) seq \<noteq> Some (request s i)"
    if "i < length (calls s)" "status s i = Got p" for i p seq
    using call_okD(3) [OF ok that(1)] queues_okD(4) [OF ok, of seq "request s i"] that(2)
    by (auto simp: tokens_def count_list_0_iff split: if_splits)
  moreover have "\<exists>m. handle_responses rsp (mgr s) = Some m" for rsp using any_responses_ok [OF ok, of rsp] by blast
  ultimately show ?thesis using call_okD(5) [OF ok] by blast
qed

section \<open>The map does not grow\<close>

text \<open>Behind a request that is still in the channel although its caller has given up comes its cancellation.\<close>

definition cancels :: "Request list \<Rightarrow> 32 word \<Rightarrow> bool" where
  "cancels reqs seq \<longleftrightarrow> (\<exists>c \<in> set reqs. IsCancel c \<and> ReqSeq c = seq)"

fun followed :: "Request list \<Rightarrow> Request \<Rightarrow> bool" where
  "followed [] r = True"
| "followed (x # xs) r \<longleftrightarrow> (x = r \<longrightarrow> cancels xs (ReqSeq r)) \<and> followed xs r"

lemma cancels_simps [simp]:
  "\<not> cancels [] seq" "cancels (x # xs) seq \<longleftrightarrow> IsCancel x \<and> ReqSeq x = seq \<or> cancels xs seq"
  "cancels (xs @ ys) seq \<longleftrightarrow> cancels xs seq \<or> cancels ys seq"
  by (auto simp: cancels_def)

lemma followed_append: "followed xs r \<Longrightarrow> y \<noteq> r \<Longrightarrow> followed (xs @ [y]) r"
  by (induction xs) auto

lemma followed_cancel: "IsCancel y \<Longrightarrow> ReqSeq y = ReqSeq r \<Longrightarrow> y \<noteq> r \<Longrightarrow> followed (xs @ [y]) r"
  by (induction xs) auto

definition given_up :: "'p Conns \<Rightarrow> bool" where
  "given_up s \<longleftrightarrow> (\<forall>i < length (calls s). status s i = TimedOut \<longrightarrow> followed (reqChan (mgr s)) (request s i) \<and>
     (\<forall>seq. reqMap (mgr s) seq = Some (request s i) \<longrightarrow> cancels (reqChan (mgr s)) seq))"

lemma handle_response_map:
  "handle_response r m = Some m' \<Longrightarrow> reqChan m' = reqChan m \<and> (reqMap m' seq = Some req \<longrightarrow> reqMap m seq = Some req)"
  by (auto simp: handle_response_def split: prod.splits option.splits if_splits)

lemma handle_responses_map:
  "handle_responses rs m = Some m' \<Longrightarrow> reqChan m' = reqChan m \<and> (reqMap m' seq = Some req \<longrightarrow> reqMap m seq = Some req)"
proof (induction rs arbitrary: m)
  case (Cons r rs)
  then obtain m1 where "handle_response r m = Some m1" "handle_responses rs m1 = Some m'" by (auto split: Option.bind_splits)
  then show ?case using handle_response_map Cons.IH by metis
qed simp

lemma given_upD:
  "given_up s \<Longrightarrow> i < length (calls s) \<Longrightarrow> status s i = TimedOut \<Longrightarrow> followed (reqChan (mgr s)) (request s i)"
  "given_up s \<Longrightarrow> i < length (calls s) \<Longrightarrow> status s i = TimedOut \<Longrightarrow> reqMap (mgr s) seq = Some (request s i) \<Longrightarrow>
    cancels (reqChan (mgr s)) seq"
  unfolding given_up_def by blast+

lemma enqueue_given_up:
  assumes ok: "conns_ok s" and g: "given_up s" and i: "i < length (calls s)" "status s i = Sending"
  shows "given_up (set_status i Waiting (s\<lparr>mgr := (mgr s)\<lparr>reqChan := reqChan (mgr s) @ [request s i]\<rparr>\<rparr>))"
proof -
  have "followed (reqChan (mgr s) @ [request s i]) (request s k)" if "k < length (calls s)" "status s k = TimedOut" for k
  proof -
    have "request s i \<noteq> request s k" using request_inj [OF ok i(1) that(1)] that(2) i(2) by auto
    then show ?thesis using followed_append given_upD(1) [OF g that] by blast
  qed
  then show ?thesis using g i unfolding given_up_def by auto
qed

lemma cancel_given_up:
  assumes ok: "conns_ok s" and g: "given_up s" and i: "i < length (calls s)" "status s i = Cancelling"
  shows "given_up (set_status i TimedOut (s\<lparr>mgr := (mgr s)\<lparr>reqChan := reqChan (mgr s) @ [cancellation (request s i)]\<rparr>\<rparr>))"
proof -
  let ?c = "cancellation (request s i)"
  have "followed (reqChan (mgr s) @ [?c]) (request s k)" if k: "k < length (calls s)" "k = i \<or> status s k = TimedOut" for k
  proof (cases "k = i")
    case True
    then show ?thesis using followed_cancel cancellation_not_call [OF ok k(1)] by (simp add: cancellation_def)
  next
    case False
    then show ?thesis using k followed_append given_upD(1) [OF g k(1)] cancellation_not_call [OF ok k(1)] by blast
  qed
  moreover have "cancels [?c] seq" if "reqMap (mgr s) seq = Some (request s i)" for seq
    using queues_okD(4) [OF ok that] by (simp add: cancellation_def)
  ultimately show ?thesis using g i unfolding given_up_def by auto
qed

lemma take_request_given_up:
  assumes ok: "conns_ok s" and g: "given_up s" and r: "reqChan (mgr s) = req # reqs"
  shows "given_up (s\<lparr>mgr := handle_request req ((mgr s)\<lparr>reqChan := reqs\<rparr>)\<rparr>)" (is "given_up ?s")
  unfolding given_up_def
proof (intro allI impI)
  fix k assume "k < length (calls ?s)" "status ?s k = TimedOut"
  then have k: "k < length (calls s)" "status s k = TimedOut" by simp_all
  have f: "followed (req # reqs) (request s k)" using given_upD(1) [OF g k] r by simp
  have "cancels reqs seq" if m: "reqMap (mgr ?s) seq = Some (request s k)" for seq
  proof (cases "IsCancel req")
    case True
    then have "reqMap (mgr s) seq = Some (request s k)" "seq \<noteq> ReqSeq req"
      using m by (auto simp: handle_request_def split: if_splits)
    then show ?thesis using given_upD(2) [OF g k, of seq] r by auto
  next
    case False
    show ?thesis
    proof (cases "req = request s k \<and> seq = ReqSeq req")
      case True
      then show ?thesis using f by simp
    next
      case neq: False
      then have "reqMap (mgr s) seq = Some (request s k)"
        using m False by (auto simp: handle_request_def split: if_splits)
      then show ?thesis using given_upD(2) [OF g k, of seq] r False by simp
    qed
  qed
  then show "followed (reqChan (mgr ?s)) (request ?s k) \<and> (\<forall>seq. reqMap (mgr ?s) seq = Some (request ?s k) \<longrightarrow> cancels (reqChan (mgr ?s)) seq)"
    using f by (simp add: handle_request_def)
qed

lemma responses_given_up:
  assumes "given_up s" and "handle_responses rsp ((mgr s)\<lparr>recvChan := rsps\<rparr>) = Some m"
  shows "given_up (s\<lparr>mgr := m\<rparr>)"
proof -
  have "reqChan m = reqChan (mgr s)" "reqMap m seq = Some req \<Longrightarrow> reqMap (mgr s) seq = Some req" for seq req
    using handle_responses_map [OF assms(2)] by simp_all
  then show ?thesis using assms(1) unfolding given_up_def by simp
qed

lemma conn_step_given_up:
  assumes st: "conn_step alive s s'" and ok: "conns_ok s" and g: "given_up s"
  shows "given_up s'"
  using st
proof (cases rule: conn_step.cases)
  case (begin_call packHandler)
  have "request s' k = request s k" "status s' k = status s k" if "k < length (calls s)" for k
    using that begin_call by (simp_all add: request_def status_def nth_append)
  moreover have "status s' (length (calls s)) = Sending" using begin_call by (simp add: status_def)
  ultimately show ?thesis using g begin_call unfolding given_up_def by (auto simp: less_Suc_eq)
next
  case (enqueue i)
  then show ?thesis using enqueue_given_up [OF ok g] by simp
next
  case (cancel i)
  then show ?thesis using cancel_given_up [OF ok g] by simp
next
  case (take_request req reqs)
  then show ?thesis using take_request_given_up [OF ok g] by simp
next
  case (take_response rsp rsps m)
  then show ?thesis using responses_given_up [OF g] by simp
next
  case (hand_request i)
  have "reqChan (mgr (set_status i Waiting (s\<lparr>mgr := (mgr s)\<lparr>reqChan := reqChan (mgr s) @ [request s i]\<rparr>\<rparr>))) = [request s i]"
    using hand_request(5) by simp
  from take_request_given_up [OF enqueue_ok [OF ok hand_request(2,3)] enqueue_given_up [OF ok g hand_request(2,3)] this] show ?thesis
    unfolding hand_request(1) hand_over_eq [OF hand_request(5)] Let_def .
next
  case (hand_cancellation i)
  have "reqChan (mgr (set_status i TimedOut (s\<lparr>mgr := (mgr s)\<lparr>reqChan := reqChan (mgr s) @ [cancellation (request s i)]\<rparr>\<rparr>))) =
      [cancellation (request s i)]"
    using hand_cancellation(5) by simp
  from take_request_given_up [OF cancel_ok [OF ok hand_cancellation(2,3)] cancel_given_up [OF ok g hand_cancellation(2,3)] this] show ?thesis
    unfolding hand_cancellation(1) hand_over_eq [OF hand_cancellation(5)] Let_def .
next
  case (hand_responses rsp m)
  have "handle_responses rsp ((mgr s)\<lparr>recvChan := recvChan (mgr s)\<rparr>) = Some m" using hand_responses(4) by simp
  from responses_given_up [OF g this] show ?thesis using hand_responses(1) by (simp add: given_up_def)
qed (use g in \<open>auto simp: given_up_def\<close>)

text \<open>
  C14. The map of pending requests does not keep what nobody waits for. In every reachable state every entry is
  filed under its own number and belongs to a call whose caller still waits or is about to cancel, or else the
  cancellation is in \<open>reqChan\<close>. So when every call is over and \<open>reqChan\<close> is empty, the map is empty.
\<close>

theorem pending_requests_are_removed:
  assumes "(conn_step alive)\<^sup>*\<^sup>* (new_conn n) s"
  shows "(\<forall>seq req. reqMap (mgr s) seq = Some req \<longrightarrow>
      is_call s req \<and> ReqSeq req = seq \<and>
      (status s (RspChan req) \<in> {Waiting, Cancelling} \<or> status s (RspChan req) = TimedOut \<and> cancels (reqChan (mgr s)) seq)) \<and>
    (reqChan (mgr s) = [] \<and> (\<forall>i < length (calls s). status s i \<notin> {Waiting, Cancelling}) \<longrightarrow> (\<forall>seq. reqMap (mgr s) seq = None))"
proof -
  note ok = reachable_ok [OF assms]
  have g: "given_up s" using assms
  proof (induction rule: rtranclp_induct)
    case base
    then show ?case by (simp add: given_up_def new_conn_def)
  next
    case (step s1 s2)
    then show ?case using conn_step_given_up reachable_ok by blast
  qed
  have entry: "is_call s req \<and> ReqSeq req = seq \<and>
      (status s (RspChan req) \<in> {Waiting, Cancelling} \<or> status s (RspChan req) = TimedOut \<and> cancels (reqChan (mgr s)) seq)"
    if r: "reqMap (mgr s) seq = Some req" for seq req
  proof -
    note e = entry_empty [OF ok r]
    have i: "RspChan req < length (calls s)" "request s (RspChan req) = req" using e(1) by (simp_all add: is_call_def)
    show ?thesis
    proof (cases "status s (RspChan req) = TimedOut")
      case True
      then show ?thesis using e given_upD(2) [OF g i(1) True, of seq] r i(2) by simp
    next
      case False
      have "(case status s (RspChan req) of Sending \<Rightarrow> 1 | Got p \<Rightarrow> 1 | _ \<Rightarrow> 0) = (0::nat)"
        using call_okD(3) [OF ok i(1)] r e(2) i(2) by (simp add: tokens_def)
      then show ?thesis using e False by (auto split: CallStatus.splits)
    qed
  qed
  moreover have "reqMap (mgr s) seq = None"
    if "reqChan (mgr s) = []" "\<forall>i < length (calls s). status s i \<notin> {Waiting, Cancelling}" for seq
  proof (cases "reqMap (mgr s) seq")
    case (Some req)
    then show ?thesis using entry [OF Some] that by (auto simp: is_call_def)
  qed
  ultimately show ?thesis by blast
qed

text \<open>A manager that has lost its connection: one call whose package does not find room behind another one.\<close>

lemma rtranclp3: "r a b \<Longrightarrow> r b c \<Longrightarrow> r c d \<Longrightarrow> r\<^sup>*\<^sup>* a d"
  by (meson converse_rtranclp_into_rtranclp rtranclp.rtrancl_refl)

definition example_call :: "nat Conns" where
  "example_call = (new_conn 1)\<lparr>remoteSrvSeq := 1, calls := [(new_request (\<lambda>_. ''a'') (new_conn 1 :: nat Conns), Waiting)],
     mgr := (mgr (new_conn 1))\<lparr>reqMap := [1 \<mapsto> new_request (\<lambda>_. ''a'') (new_conn 1 :: nat Conns)], sending := Some ''a''\<rparr>\<rparr>"

lemma example_call_reached: "(conn_step True)\<^sup>*\<^sup>* (new_conn 1) example_call"
proof -
  let ?r = "new_request (\<lambda>_. ''a'') (new_conn 1 :: nat Conns)"
  let ?s1 = "(new_conn 1 :: nat Conns)\<lparr>remoteSrvSeq := 1, calls := [(?r, Sending)]\<rparr>"
  let ?s2 = "set_status 0 Waiting (?s1\<lparr>mgr := (mgr ?s1)\<lparr>reqChan := [?r]\<rparr>\<rparr>)"
  have "conn_step True (new_conn 1) ?s1"
    using begin_call [of True "new_conn 1 :: nat Conns" "\<lambda>_. ''a''"] by (simp add: new_conn_def)
  moreover have "conn_step True ?s1 ?s2"
    using enqueue [of 0 ?s1 True] by (simp add: new_conn_def status_def request_def)
  moreover have "conn_step True ?s2 example_call"
  proof -
    have "handle_request ?r ((mgr ?s2)\<lparr>reqChan := []\<rparr>) = mgr example_call"
      by (simp add: handle_request_def example_call_def new_conn_def new_request_def Let_def fun_eq_iff)
    moreover have "?s2\<lparr>mgr := mgr example_call\<rparr> = example_call"
      by (simp add: example_call_def new_conn_def set_status_def)
    moreover have "sending (mgr ?s2) = None" "reqChan (mgr ?s2) = [?r]" by (simp_all add: new_conn_def)
    ultimately show ?thesis using take_request [of ?s2 ?r "[]" True] by simp
  qed
  ultimately show ?thesis by (rule rtranclp3)
qed

text \<open>Channels without room: the request, its package and the response are handed over.\<close>

lemma no_room_needed: "\<exists>s :: nat Conns. (conn_step True)\<^sup>*\<^sup>* (new_conn 0) s \<and> status s 0 = Got 5"
proof -
  let ?r = "new_request (\<lambda>_. ''a'') (new_conn 0 :: nat Conns)"
  let ?s1 = "(new_conn 0 :: nat Conns)\<lparr>remoteSrvSeq := 1, calls := [(?r, Sending)]\<rparr>"
  let ?s2 = "set_status 0 Waiting (?s1\<lparr>mgr := handle_request ?r (mgr ?s1)\<rparr>)"
  let ?s3 = "?s2\<lparr>mgr := (mgr ?s2)\<lparr>sending := None\<rparr>\<rparr>"
  let ?m = "(mgr ?s3)\<lparr>rspChans := (rspChans (mgr ?s3))(0 := [5]), reqMap := (reqMap (mgr ?s3))(1 := None)\<rparr>"
  let ?s4 = "?s3\<lparr>mgr := ?m, arrived := arrived ?s3 @ [(1, 5)]\<rparr>"
  let ?s5 = "set_status 0 (Got 5) (?s4\<lparr>mgr := (mgr ?s4)\<lparr>rspChans := (rspChans (mgr ?s4))(0 := [])\<rparr>\<rparr>)"
  note defs = new_conn_def handle_request_def new_request_def Let_def status_def request_def set_status_def handle_response_def
  have "conn_step True (new_conn 0) ?s1"
    using begin_call [of True "new_conn 0 :: nat Conns" "\<lambda>_. ''a''"] by (simp add: new_conn_def)
  moreover have "conn_step True ?s1 ?s2" using hand_request [of 0 ?s1 True] by (simp add: defs)
  moreover have "conn_step True ?s2 ?s3" by (rule hand_package [of True ?s2 "''a''"]) (simp_all add: defs)
  moreover have "handle_responses [(1, 5)] (mgr ?s3) = Some ?m" by (simp add: defs)
  then have "conn_step True ?s3 ?s4" by (intro hand_responses) (simp_all add: defs)
  moreover have "conn_step True ?s4 ?s5" by (rule receive [of 0 ?s4 5 "[]" True]) (simp_all add: defs)
  moreover have "status ?s5 0 = Got 5" by (simp add: defs)
  ultimately show ?thesis by (meson rtranclp.rtrancl_into_rtrancl rtranclp.rtrancl_refl)
qed

theorem responses_reach_their_calls_witness:
  "length (rspChans (mgr example_call) 0) \<le> 1"
  using responses_reach_their_calls [OF example_call_reached] by (simp add: example_call_def)

theorem pending_requests_are_removed_witness:
  "status example_call 0 \<in> {Waiting, Cancelling} \<or> cancels (reqChan (mgr example_call)) 1"
proof -
  let ?r = "new_request (\<lambda>_. ''a'') (new_conn 1 :: nat Conns)"
  have "reqMap (mgr example_call) 1 = Some ?r" "RspChan ?r = 0"
    by (simp_all add: example_call_def new_request_def new_conn_def Let_def)
  then show ?thesis using pending_requests_are_removed [OF example_call_reached] by fastforce
qed

section \<open>A loop that blocks\<close>

text \<open>
  C34. A closed connection blocks its manager for good. Once the goroutine that sends has ended and a package finds
  \<open>sendChan\<close> full, no order of steps makes the loop go on: it takes no request and delivers no response any more, and when \<open>reqChan\<close>
  has filled up, no caller gets its request or its cancellation into it, so that not even the timeout returns.
\<close>

theorem closed_connection_blocks:
  assumes "sending (mgr s) = Some data" and "length (sendChan (mgr s)) = reqMaxSize (mgr s)" and "(conn_step False)\<^sup>*\<^sup>* s s'"
  shows "sending (mgr s') = Some data \<and> reqMap (mgr s') = reqMap (mgr s) \<and> (\<forall>i. length (rspChans (mgr s') i) \<le> length (rspChans (mgr s) i)) \<and>
    (length (reqChan (mgr s)) = reqMaxSize (mgr s) \<longrightarrow>
      (\<forall>i < length (calls s). status s i \<in> {Sending, Cancelling} \<longrightarrow> status s' i = status s i))"
proof -
  have "sending (mgr s') = Some data \<and> length (sendChan (mgr s')) = reqMaxSize (mgr s') \<and> reqMaxSize (mgr s') = reqMaxSize (mgr s) \<and>
    reqMap (mgr s') = reqMap (mgr s) \<and> (\<forall>i. length (rspChans (mgr s') i) \<le> length (rspChans (mgr s) i)) \<and>
    length (calls s) \<le> length (calls s') \<and>
    (length (reqChan (mgr s)) = reqMaxSize (mgr s) \<longrightarrow> length (reqChan (mgr s')) = reqMaxSize (mgr s') \<and>
      (\<forall>i < length (calls s). status s i \<in> {Sending, Cancelling} \<longrightarrow> status s' i = status s i))"
    using assms(3)
  proof (induction rule: rtranclp_induct)
    case base
    then show ?case using assms(1,2) by simp
  next
    case (step s1 s2)
    from step.hyps(2) show ?case
    proof (cases rule: conn_step.cases)
      case (begin_call packHandler)
      then have "status s2 i = status s1 i" if "i < length (calls s1)" for i using that by (simp add: status_def nth_append)
      then show ?thesis using begin_call step.IH by auto
    next
      case (receive i pkg ps)
      then have "length (rspChans (mgr s1) i) = Suc (length ps)" by simp
      moreover have "length (rspChans (mgr s1) i) \<le> length (rspChans (mgr s) i)" using step.IH by simp
      ultimately have "length ps \<le> length (rspChans (mgr s) i)" by simp
      then show ?thesis using receive step.IH by (auto; metis CallStatus.distinct(1) CallStatus.distinct(12))
    next
      case (timeout i)
      then show ?thesis using step.IH by auto
    qed (use step.IH in auto)
  qed
  then show ?thesis by blast
qed

definition example_blocked :: "nat Conns" where
  "example_blocked = example_call\<lparr>mgr := (mgr example_call)\<lparr>sendChan := [''b'']\<rparr>\<rparr>"

theorem closed_connection_blocks_witness:
  "sending (mgr (set_status 0 Cancelling example_blocked)) = Some ''a'' \<and>
   reqMap (mgr (set_status 0 Cancelling example_blocked)) 1 \<noteq> None"
proof -
  have b: "sending (mgr example_blocked) = Some ''a''" "length (sendChan (mgr example_blocked)) = reqMaxSize (mgr example_blocked)"
    "reqMap (mgr example_blocked) 1 \<noteq> None"
    by (simp_all add: example_blocked_def example_call_def new_conn_def)
  have "conn_step False example_blocked (set_status 0 Cancelling example_blocked)"
    by (rule timeout) (simp_all add: example_blocked_def example_call_def status_def)
  then have "(conn_step False)\<^sup>*\<^sup>* example_blocked (set_status 0 Cancelling example_blocked)" by blast
  then show ?thesis using closed_connection_blocks [OF b(1,2)] b(3) by metis
qed

end
