(* ===== verification/Conn_Pool.thy ===== *)
theory Conn_Pool
  imports Go_Base "HOL-Library.Multiset"
begin

text \<open>
  The connection pool of \<open>utils/xman_conn_pool.go\<close>, and the contract of a pool that gives out a connection and puts it back at once.

  The channel \<open>idle\<close> is a list, \<^term>\<open>None\<close> before it is made; taking from an empty channel waits in vain, which is
  \<^term>\<open>None\<close> too, since \<open>Get\<close> is the only one to put connections back. \<open>dial i\<close> is the result of the call number \<open>i\<close> of
  \<open>Dial\<close>, \<open>now\<close> the time.

  Shown: \<open>Get\<close> goes round the connections in order and never loses one; a pool whose first dial fails stays
  empty, and every \<open>Get\<close> on it blocks.
\<close>

section \<open>The contract\<close>

locale conn_pool =
  fixes get :: "'s \<Rightarrow> ('c \<times> 's) option"
    and content :: "'s \<Rightarrow> 'c list"
  assumes get_keeps: "get s = Some (c, s') \<Longrightarrow> mset (content s') = mset (content s)"
    and get_member: "get s = Some (c, s') \<Longrightarrow> c \<in> set (content s)"
begin

fun gets :: "nat \<Rightarrow> 's \<Rightarrow> ('c list \<times> 's) option" where
  "gets 0 s = Some ([], s)"
| "gets (Suc n) s = do { (c, s) \<leftarrow> get s; (cs, s) \<leftarrow> gets n s; Some (c # cs, s) }"

lemma gets_keep: "gets n s = Some (cs, s') \<Longrightarrow> mset (content s') = mset (content s) \<and> set cs \<subseteq> set (content s) \<and> length cs = n"
proof (induction n arbitrary: s cs)
  case (Suc n)
  then obtain c s1 ds where s1: "get s = Some (c, s1)" "gets n s1 = Some (ds, s')" "cs = c # ds"
    by (auto split: Option.bind_splits)
  have "set (content s1) = set (content s)" using get_keeps [OF s1(1)] by (metis set_mset_mset)
  then show ?case using Suc.IH [OF s1(2)] get_keeps [OF s1(1)] get_member [OF s1(1)] s1(3) by auto
qed simp

lemma gets_not_empty: "gets n s = Some (cs, s') \<Longrightarrow> 0 < n \<Longrightarrow> content s' \<noteq> []"
  using gets_keep [of n s cs s'] by (cases cs) auto

end

section \<open>The pool\<close>

record 'c ConnPool =
  MaxActive :: int
  idle :: "('c \<times> int) list option"

text \<open>The loop of \<open>InitPool\<close> from the call number \<open>i\<close> on; an error ends it and leaves what has been put.\<close>

fun fill :: "(nat \<Rightarrow> bytes + 'c) \<Rightarrow> int \<Rightarrow> nat \<Rightarrow> nat \<Rightarrow> ('c \<times> int) list \<Rightarrow> bytes option \<times> ('c \<times> int) list" where
  "fill dial now i 0 ics = (None, ics)"
| "fill dial now i (Suc n) ics =
     (case dial i of Inl err \<Rightarrow> (Some err, ics) | Inr c \<Rightarrow> fill dial now (Suc i) n (ics @ [(c, now)]))"

definition InitPool :: "(nat \<Rightarrow> bytes + 'c) \<Rightarrow> int \<Rightarrow> 'c ConnPool \<Rightarrow> (bytes option \<times> 'c ConnPool) option" where
  "InitPool dial now cp =
     (if MaxActive cp < 0 then None
      else let (err, ics) = fill dial now 0 (nat (MaxActive cp)) [] in Some (err, cp\<lparr>idle := Some ics\<rparr>))"

definition Release :: "int \<Rightarrow> 'c \<Rightarrow> 'c ConnPool \<Rightarrow> 'c ConnPool" where
  "Release now c cp = cp\<lparr>idle := map_option (\<lambda>ics. ics @ [(c, now)]) (idle cp)\<rparr>"

definition ConnPool_Get :: "(nat \<Rightarrow> bytes + 'c) \<Rightarrow> int \<Rightarrow> 'c ConnPool \<Rightarrow> ('c \<times> 'c ConnPool) option" where
  "ConnPool_Get dial now cp =
     do { cp \<leftarrow> (case idle cp of None \<Rightarrow> map_option snd (InitPool dial now cp) | Some _ \<Rightarrow> Some cp);
          case idle cp of
            Some ((c, t) # ics) \<Rightarrow> Some (c, Release now c (cp\<lparr>idle := Some ics\<rparr>))
          | _ \<Rightarrow> None }"

definition idle_conns :: "'c ConnPool \<Rightarrow> 'c list" where
  "idle_conns cp = (case idle cp of Some ics \<Rightarrow> map fst ics | None \<Rightarrow> [])"

text \<open>What a pool will hold once it has been filled.\<close>

definition pool_conns :: "(nat \<Rightarrow> bytes + 'c) \<Rightarrow> 'c ConnPool \<Rightarrow> 'c list" where
  "pool_conns dial cp =
     (case idle cp of Some ics \<Rightarrow> map fst ics | None \<Rightarrow> map fst (snd (fill dial 0 0 (nat (MaxActive cp)) [])))"

lemma fill_times: "map fst (snd (fill dial now i n ics)) = map fst (snd (fill dial now' i n ics'))"
  if "map fst ics = map fst ics'"
  using that by (induction dial now i n ics arbitrary: ics' rule: fill.induct) (auto split: sum.splits)

lemma ConnPool_Get_eq:
  "ConnPool_Get dial now cp =
    (if idle cp = None \<and> MaxActive cp < 0 then None
     else case pool_conns dial cp of
       [] \<Rightarrow> None
     | c # cs \<Rightarrow>
        (let ics = (case idle cp of Some ics \<Rightarrow> ics | None \<Rightarrow> snd (fill dial now 0 (nat (MaxActive cp)) []))
         in Some (c, cp\<lparr>idle := Some (tl ics @ [(c, now)])\<rparr>)))"
proof (cases "idle cp")
  case None
  obtain err ics where f: "fill dial now 0 (nat (MaxActive cp)) [] = (err, ics)" by fastforce
  have "pool_conns dial cp = map fst ics"
    using fill_times [of "[]" "[]" dial 0 0 "nat (MaxActive cp)" now] f None by (simp add: pool_conns_def)
  then show ?thesis
    using None f by (cases ics) (auto simp: ConnPool_Get_def InitPool_def Release_def Let_def)
next
  case (Some ics)
  then show ?thesis by (cases ics) (auto simp: ConnPool_Get_def pool_conns_def Release_def Let_def)
qed

interpretation pool: conn_pool "ConnPool_Get dial now" "pool_conns dial" for dial now
proof
  fix s s' c
  assume g: "ConnPool_Get dial now s = Some (c, s')"
  then obtain cs where cs: "pool_conns dial s = c # cs"
    by (auto simp: ConnPool_Get_eq Let_def split: if_splits list.splits)
  have "map fst (snd (fill dial now 0 (nat (MaxActive s)) [])) = map fst (snd (fill dial 0 0 (nat (MaxActive s)) []))"
    by (rule fill_times) simp
  then have "pool_conns dial s' = cs @ [c]"
    using g cs by (cases "idle s") (auto simp: ConnPool_Get_eq Let_def pool_conns_def map_tl split: if_splits)
  then show "mset (pool_conns dial s') = mset (pool_conns dial s)" using cs by simp
  show "c \<in> set (pool_conns dial s)" using cs by simp
qed

section \<open>Round robin\<close>

definition Gets :: "(nat \<Rightarrow> bytes + 'c) \<Rightarrow> int \<Rightarrow> nat \<Rightarrow> 'c ConnPool \<Rightarrow> ('c list \<times> 'c ConnPool) option" where
  "Gets dial now = pool.gets dial now"

lemma Get_rotates:
  assumes "pool_conns dial cp = c # cs" and "idle cp = None \<longrightarrow> 0 \<le> MaxActive cp"
  shows "\<exists>cp'. ConnPool_Get dial now cp = Some (c, cp') \<and> pool_conns dial cp' = cs @ [c] \<and> idle cp' \<noteq> None"
proof -
  have "map fst (snd (fill dial now 0 (nat (MaxActive cp)) [])) = map fst (snd (fill dial 0 0 (nat (MaxActive cp)) []))"
    by (rule fill_times) simp
  then show ?thesis using assms by (cases "idle cp") (auto simp: ConnPool_Get_eq Let_def pool_conns_def map_tl)
qed

lemma rotate_nth: "xs \<noteq> [] \<Longrightarrow> rotate1 xs = tl xs @ [hd xs]"
  by (cases xs) auto

lemma Gets_rotate:
  assumes "pool_conns dial cp \<noteq> []" and "idle cp = None \<longrightarrow> 0 \<le> MaxActive cp"
  shows "\<exists>cp'. Gets dial now n cp = Some (map (\<lambda>k. pool_conns dial cp ! (k mod length (pool_conns dial cp))) [0..<n], cp') \<and>
    pool_conns dial cp' = rotate n (pool_conns dial cp)"
  using assms
proof (induction n arbitrary: cp)
  case (Suc n)
  let ?cs = "pool_conns dial cp"
  obtain c cs where c: "?cs = c # cs" using Suc.prems(1) by (cases ?cs) auto
  obtain cp1 where g: "ConnPool_Get dial now cp = Some (c, cp1)" "pool_conns dial cp1 = cs @ [c]" "idle cp1 \<noteq> None"
    using Get_rotates [OF c Suc.prems(2)] by blast
  obtain cp' where ih: "Gets dial now n cp1 = Some (map (\<lambda>k. (cs @ [c]) ! (k mod length (cs @ [c]))) [0..<n], cp')"
    "pool_conns dial cp' = rotate n (cs @ [c])"
    using Suc.IH [of cp1] g by auto
  have r: "cs @ [c] = rotate 1 ?cs" by (simp add: c)
  have "(cs @ [c]) ! (k mod length (cs @ [c])) = ?cs ! (Suc k mod length ?cs)" for k
  proof -
    have "k mod length (cs @ [c]) < length ?cs" by (simp add: c)
    then have "rotate 1 ?cs ! (k mod length ?cs) = ?cs ! ((1 + k mod length ?cs) mod length ?cs)"
      using nth_rotate [of "k mod length ?cs" ?cs 1] by (simp add: c)
    then show ?thesis by (simp add: r mod_Suc_eq)
  qed
  then have "map (\<lambda>k. (cs @ [c]) ! (k mod length (cs @ [c]))) [0..<n] = map (\<lambda>k. ?cs ! (Suc k mod length ?cs)) [0..<n]" by simp
  also have "\<dots> = map (\<lambda>k. ?cs ! (k mod length ?cs)) (map Suc [0..<n])" by (simp only: map_map o_def)
  also have "\<dots> = map (\<lambda>k. ?cs ! (k mod length ?cs)) [Suc 0..<Suc n]" by (simp only: map_Suc_upt)
  finally have "c # map (\<lambda>k. (cs @ [c]) ! (k mod length (cs @ [c]))) [0..<n] = map (\<lambda>k. ?cs ! (k mod length ?cs)) [0..<Suc n]"
    by (simp add: upt_conv_Cons c del: upt_Suc)
  moreover have "rotate n (cs @ [c]) = rotate (Suc n) ?cs" by (simp add: c rotate1_rotate_swap)
  ultimately show ?case using g(1) ih by (simp add: Gets_def)
qed (simp add: Gets_def)

text \<open>
  The pool gives out its connections in turn. If the first dial succeeds (or the pool holds connections), any
  number of calls of \<open>Get\<close> return at once, the call number \<open>k\<close> (from 0) the connection at \<open>k\<close> modulo their number, and
  no connection is lost; otherwise every \<open>Get\<close> waits for ever.
\<close>

theorem pool_goes_round:
  "if pool_conns dial cp \<noteq> [] \<and> (idle cp \<noteq> None \<or> 0 \<le> MaxActive cp)
   then \<exists>cp'. Gets dial now n cp = Some (map (\<lambda>k. pool_conns dial cp ! (k mod length (pool_conns dial cp))) [0..<n], cp') \<and>
     mset (pool_conns dial cp') = mset (pool_conns dial cp)
   else ConnPool_Get dial now cp = None"
proof (cases "pool_conns dial cp \<noteq> [] \<and> (idle cp \<noteq> None \<or> 0 \<le> MaxActive cp)")
  case True
  then obtain cp' where "Gets dial now n cp = Some (map (\<lambda>k. pool_conns dial cp ! (k mod length (pool_conns dial cp))) [0..<n], cp')"
    using Gets_rotate [of dial cp now n] by auto
  moreover from this have "mset (pool_conns dial cp') = mset (pool_conns dial cp)"
    using pool.gets_keep unfolding Gets_def by blast
  ultimately show ?thesis using True by auto
next
  case False
  then show ?thesis by (auto simp: ConnPool_Get_eq split: list.splits)
qed

theorem pool_goes_round_witness:
  "\<exists>cp'. Gets (\<lambda>i. Inr i) 0 3 \<lparr>MaxActive = 2, idle = None\<rparr> = Some ([0, 1, 0], cp')"
proof -
  have p: "pool_conns (\<lambda>i. Inr i) \<lparr>MaxActive = 2, idle = None\<rparr> = [0, 1]" by (simp add: pool_conns_def eval_nat_numeral)
  have "[0..<3] = [0, 1, 2::nat]" by (simp add: upt_rec)
  then show ?thesis using pool_goes_round [of "\<lambda>i. Inr i" "\<lparr>MaxActive = 2, idle = None\<rparr>" 0 3] unfolding p by (auto simp: eval_nat_numeral mod_Suc)
qed

end
