(* ===== verification/Xman_Remote.thy ===== *)
theory Xman_Remote
  imports Conn_Pool
begin

text \<open>
  The registry of remote servers, the choice of one, the life of a TCP connection and the TCP connection pool
  (\<open>xman/xman_conn_proxy.go\<close>).

  \<open>SrvInfo\<close>, connection managers, sockets and the channels \<open>pauseConn\<close> are objects that several parts point to; each
  kind has a list in \<open>World\<close>, and a pointer is a position in it. Of a socket the model keeps whether it is open, of a
  pause channel whether it is closed, of an unpacking handler whether it is set. \<^term>\<open>None\<close> is a panic, the exit of the process when the first dial of a
  connection fails, or waiting in vain. \<open>dial m\<close> tells whether resolving and dialling for manager \<open>m\<close> succeeds,
  \<open>now\<close> is the time. The goroutines that a manager starts are counted in \<open>w_started\<close>.

  Shown: registering, choosing, closing and reconnecting in any order keep the registry in range and never close a
  channel twice; the choice goes round the registered servers, each in turn, and never finds one that is not OK, even
  when its connection is closed; and what the pool does when its connections fail.
\<close>

section \<open>The state\<close>

definition SRV_STATUS_OK :: int where "SRV_STATUS_OK = 1"
definition SRV_STATUS_RECONNECT :: int where "SRV_STATUS_RECONNECT = 2"
definition maxRemoteSrvIP :: nat where "maxRemoteSrvIP = 16"
definition tcpConnCheckReconnect :: int where "tcpConnCheckReconnect = 10"

lemmas remote_consts = SRV_STATUS_OK_def SRV_STATUS_RECONNECT_def maxRemoteSrvIP_def tcpConnCheckReconnect_def

datatype ConnMgrRef = NoMgr | UDPMgr nat | TCPMgr nat

record SrvInfo =
  srvStatus :: int
  packHandler :: "(32 word \<Rightarrow> bytes) option"
  srvSeq :: "32 word"
  connMgr :: ConnMgrRef

record RemoteSrvInfo =
  srvIdx :: nat
  allSrvNum :: nat
  srvInfos :: "nat option list"

record TCPConnMgr =
  closed :: int
  mgrStatus :: int
  conn :: nat
  pauseConn :: nat
  tcpUnpackHandler :: bool
  srvInfo :: "nat option"
  closeConnTime :: int

record World =
  RemoteSrvChanList :: "32 word \<Rightarrow> RemoteSrvInfo option"
  w_srvs :: "SrvInfo list"
  w_mgrs :: "TCPConnMgr list"
  w_conns :: "bool list"
  w_pauses :: "bool list"
  w_udp :: nat
  w_starting :: "nat list"
  w_started :: "nat list"

definition w_init :: World where
  "w_init = \<lparr>RemoteSrvChanList = (\<lambda>_. None), w_srvs = [], w_mgrs = [], w_conns = [], w_pauses = [], w_udp = 0, w_starting = [], w_started = []\<rparr>"

definition upd_mgr :: "nat \<Rightarrow> (TCPConnMgr \<Rightarrow> TCPConnMgr) \<Rightarrow> World \<Rightarrow> World" where
  "upd_mgr m f w = w\<lparr>w_mgrs := (w_mgrs w)[m := f (w_mgrs w ! m)]\<rparr>"

definition upd_srv :: "nat \<Rightarrow> (SrvInfo \<Rightarrow> SrvInfo) \<Rightarrow> World \<Rightarrow> World" where
  "upd_srv p f w = w\<lparr>w_srvs := (w_srvs w)[p := f (w_srvs w ! p)]\<rparr>"

section \<open>A TCP connection\<close>

text \<open>\<open>net.DialTCP\<close> and \<open>make(chan bool)\<close>: a new socket, a new channel.\<close>

definition new_conn_obj :: "World \<Rightarrow> nat \<times> World" where
  "new_conn_obj w = (length (w_conns w), w\<lparr>w_conns := w_conns w @ [True]\<rparr>)"

definition new_pause :: "World \<Rightarrow> nat \<times> World" where
  "new_pause w = (length (w_pauses w), w\<lparr>w_pauses := w_pauses w @ [False]\<rparr>)"

definition TCPConnHandler :: "bool \<Rightarrow> bool \<Rightarrow> World \<Rightarrow> (nat \<times> World) option" where
  "TCPConnHandler unpack dialled w =
     (if \<not> dialled then None
      else (let (c, w) = new_conn_obj w; (p, w) = new_pause w;
                m = \<lparr>closed = -1, mgrStatus = SRV_STATUS_OK, conn = c, pauseConn = p, tcpUnpackHandler = unpack, srvInfo = None, closeConnTime = 0\<rparr>
            in Some (length (w_mgrs w), w\<lparr>w_mgrs := w_mgrs w @ [m]\<rparr>)))"

text \<open>The two goroutines of a connection, started where the flag says that none runs.\<close>

definition tcpConnSendAndRecv :: "nat \<Rightarrow> World \<Rightarrow> World" where
  "tcpConnSendAndRecv m w =
     (if closed (w_mgrs w ! m) = -1 then (upd_mgr m (\<lambda>t. t\<lparr>closed := 0\<rparr>) w)\<lparr>w_started := w_started w @ [m]\<rparr> else w)"

text \<open>What the goroutine \<open>tcpConnStart\<close> of a manager does first.\<close>

definition tcpConnStart :: "nat \<Rightarrow> World \<Rightarrow> World" where
  "tcpConnStart m w = tcpConnSendAndRecv m (w\<lparr>w_starting := remove1 m (w_starting w)\<rparr>)"

definition go_start :: "nat \<Rightarrow> World \<Rightarrow> World" where
  "go_start m w = w\<lparr>w_starting := w_starting w @ [m]\<rparr>"

text \<open>Both goroutines call it when they end; closing a closed channel panics.\<close>

definition tcpConnClose :: "int \<Rightarrow> nat \<Rightarrow> World \<Rightarrow> World option" where
  "tcpConnClose now m w =
     (if closed (w_mgrs w ! m) = 0 then
        (let t = w_mgrs w ! m; w = upd_mgr m (\<lambda>t. t\<lparr>closed := -1\<rparr>) w;
             w = w\<lparr>w_conns := (w_conns w)[conn t := False]\<rparr>
         in if w_pauses w ! pauseConn t then None
            else Some (upd_mgr m (\<lambda>t. t\<lparr>mgrStatus := SRV_STATUS_RECONNECT, closeConnTime := now\<rparr>)
                   (w\<lparr>w_pauses := (w_pauses w)[pauseConn t := True]\<rparr>)))
      else Some w)"

text \<open>A manager of a pool has no \<open>srvInfo\<close>: using it is a nil dereference.\<close>

definition tcpConnReconnect :: "(nat \<Rightarrow> bool) \<Rightarrow> nat \<Rightarrow> World \<Rightarrow> (bool \<times> World) option" where
  "tcpConnReconnect dial m w =
     (if \<not> dial m then Some (False, w)
      else (let (c, w) = new_conn_obj w; w = upd_mgr m (\<lambda>t. t\<lparr>conn := c\<rparr>) w
            in case srvInfo (w_mgrs w ! m) of
                 None \<Rightarrow> None
               | Some p \<Rightarrow>
                   (let w = upd_srv p (\<lambda>s. s\<lparr>srvStatus := SRV_STATUS_OK\<rparr>) w;
                        (ch, w) = new_pause w;
                        w = upd_mgr m (\<lambda>t. t\<lparr>pauseConn := ch\<rparr>) w
                    in Some (True, tcpConnSendAndRecv m w))))"

definition checkTcpReconnect :: "int \<Rightarrow> (nat \<Rightarrow> bool) \<Rightarrow> nat \<Rightarrow> World \<Rightarrow> (bool \<times> World) option" where
  "checkTcpReconnect now dial m w =
     (if now - closeConnTime (w_mgrs w ! m) > tcpConnCheckReconnect then tcpConnReconnect dial m w else Some (False, w))"

section \<open>The registry\<close>

text \<open>The part that both \<open>Register\<close> functions begin with: a new \<open>SrvInfo\<close> is put under its tag.\<close>

definition register :: "32 word \<Rightarrow> (32 word \<Rightarrow> bytes) option \<Rightarrow> World \<Rightarrow> (nat \<times> World) option" where
  "register srvTag handler w =
     (let p = length (w_srvs w);
          w = w\<lparr>w_srvs := w_srvs w @ [\<lparr>srvStatus = SRV_STATUS_OK, packHandler = handler, srvSeq = 0, connMgr = NoMgr\<rparr>]\<rparr>
      in case RemoteSrvChanList w srvTag of
           None \<Rightarrow>
             (let info = \<lparr>srvIdx = 0, allSrvNum = 1, srvInfos = (replicate maxRemoteSrvIP None)[0 := Some p]\<rparr>
              in Some (p, w\<lparr>RemoteSrvChanList := (RemoteSrvChanList w)(srvTag \<mapsto> info)\<rparr>))
         | Some info \<Rightarrow>
             (if allSrvNum info \<ge> maxRemoteSrvIP then None
              else (let info = info\<lparr>srvInfos := (srvInfos info)[allSrvNum info := Some p], allSrvNum := allSrvNum info + 1\<rparr>
                    in Some (p, w\<lparr>RemoteSrvChanList := (RemoteSrvChanList w)(srvTag \<mapsto> info)\<rparr>))))"

definition RegisterTCPConn :: "32 word \<Rightarrow> (32 word \<Rightarrow> bytes) option \<Rightarrow> bool \<Rightarrow> bool \<Rightarrow> World \<Rightarrow> (nat \<times> World) option" where
  "RegisterTCPConn srvTag handler unpack dialled w =
     do { (p, w) \<leftarrow> register srvTag handler w;
          (m, w) \<leftarrow> TCPConnHandler unpack dialled w;
          let w = upd_mgr m (\<lambda>t. t\<lparr>srvInfo := Some p\<rparr>) w;
          Some (m, go_start m (upd_srv p (\<lambda>s. s\<lparr>connMgr := TCPMgr m\<rparr>) w)) }"

text \<open>One round of the loop of \<open>NewTCPConnPool\<close>.\<close>

definition pool_conn :: "bool \<Rightarrow> bool \<Rightarrow> World \<Rightarrow> (nat \<times> World) option" where
  "pool_conn unpack dialled w = do { (m, w) \<leftarrow> TCPConnHandler unpack dialled w; Some (m, go_start m w) }"

definition RegisterUDPConn :: "32 word \<Rightarrow> (32 word \<Rightarrow> bytes) option \<Rightarrow> bool \<Rightarrow> World \<Rightarrow> World option" where
  "RegisterUDPConn srvTag handler dialled w =
     do { (p, w) \<leftarrow> register srvTag handler w;
          if dialled then Some (upd_srv p (\<lambda>s. s\<lparr>connMgr := UDPMgr (w_udp w)\<rparr>) (w\<lparr>w_udp := w_udp w + 1\<rparr>)) else None }"

text \<open>The remainder by zero panics.\<close>

definition addSrvIdx :: "RemoteSrvInfo \<Rightarrow> RemoteSrvInfo option" where
  "addSrvIdx info = (if allSrvNum info = 0 then None else Some (info\<lparr>srvIdx := (srvIdx info + 1) mod allSrvNum info\<rparr>))"

definition srv_at :: "RemoteSrvInfo \<Rightarrow> World \<Rightarrow> (nat \<times> SrvInfo) option" where
  "srv_at info w = do { e \<leftarrow> idx (srvInfos info) (int (srvIdx info)); p \<leftarrow> e; Some (p, w_srvs w ! p) }"

datatype RemoteErr = ErrNotFountRemoteSrv | ErrRemoteSrvUnConnect

definition tcp_mgr :: "ConnMgrRef \<Rightarrow> nat option" where
  "tcp_mgr r = (case r of TCPMgr m \<Rightarrow> Some m | _ \<Rightarrow> None)"

definition next_srv :: "32 word \<Rightarrow> World \<Rightarrow> ((nat \<times> SrvInfo) \<times> World) option" where
  "next_srv srvTag w =
     do { info \<leftarrow> RemoteSrvChanList w srvTag;
          info \<leftarrow> addSrvIdx info;
          let w = w\<lparr>RemoteSrvChanList := (RemoteSrvChanList w)(srvTag \<mapsto> info)\<rparr>;
          s \<leftarrow> srv_at info w;
          Some (s, w) }"

definition chooseRemoteSrv :: "int \<Rightarrow> (nat \<Rightarrow> bool) \<Rightarrow> 32 word \<Rightarrow> World \<Rightarrow> ((RemoteErr + nat) \<times> World) option" where
  "chooseRemoteSrv now dial srvTag w =
     (if RemoteSrvChanList w srvTag = None then Some (Inl ErrNotFountRemoteSrv, w)
      else do { ((p1, s1), w) \<leftarrow> next_srv srvTag w;
                if srvStatus s1 \<noteq> SRV_STATUS_OK then
                  do { m1 \<leftarrow> tcp_mgr (connMgr s1);
                       (ok, w) \<leftarrow> checkTcpReconnect now dial m1 w;
                       if ok then Some (Inr p1, w)
                       else do { ((p2, s2), w) \<leftarrow> next_srv srvTag w;
                                 if srvStatus s2 \<noteq> SRV_STATUS_OK then
                                   do { m2 \<leftarrow> tcp_mgr (connMgr s2);
                                        (ok, w) \<leftarrow> checkTcpReconnect now dial m2 w;
                                        Some (if ok then Inr p2 else Inl ErrRemoteSrvUnConnect, w) }
                                 else Some (Inr p2, w) } }
                else Some (Inr p1, w) })"

text \<open>
  The beginning of \<open>RequestToRemote\<close>: the server, the next number (\<open>atomic.AddUint32\<close> wraps around) and the packed request;
  a missing handler panics.
\<close>

definition RequestToRemote_begin ::
  "int \<Rightarrow> (nat \<Rightarrow> bool) \<Rightarrow> 32 word \<Rightarrow> World \<Rightarrow> ((RemoteErr + nat \<times> 32 word \<times> bytes) \<times> World) option"
where
  "RequestToRemote_begin now dial srvTag w =
     do { (r, w) \<leftarrow> chooseRemoteSrv now dial srvTag w;
          case r of
            Inl err \<Rightarrow> Some (Inl err, w)
          | Inr p \<Rightarrow>
              (let newSeq = srvSeq (w_srvs w ! p) + 1; w = upd_srv p (\<lambda>s. s\<lparr>srvSeq := newSeq\<rparr>) w
               in do { handler \<leftarrow> packHandler (w_srvs w ! p); Some (Inr (p, newSeq, handler newSeq), w) }) }"

definition SetPackHandler :: "nat \<Rightarrow> (32 word \<Rightarrow> bytes) option \<Rightarrow> World \<Rightarrow> World option" where
  "SetPackHandler m handler w =
     do { p \<leftarrow> srvInfo (w_mgrs w ! m); Some (upd_srv p (\<lambda>s. s\<lparr>packHandler := handler\<rparr>) w) }"

definition SetUnpackHandler :: "nat \<Rightarrow> bool \<Rightarrow> World \<Rightarrow> World" where
  "SetUnpackHandler m handler w = upd_mgr m (\<lambda>t. t\<lparr>tcpUnpackHandler := handler\<rparr>) w"

section \<open>What can happen\<close>

text \<open>
  Registering, filling a pool, the start of the goroutines, their ends, choosing a server, requests and setting handlers,
  in any order. A connection is made again by \<open>chooseRemoteSrv\<close> alone (and by \<open>Reconnect\<close> of a pool, below).
\<close>

inductive reach :: "World \<Rightarrow> bool" where
  r_init: "reach w_init"
| r_tcp: "reach w \<Longrightarrow> RegisterTCPConn srvTag handler unpack dialled w = Some (m, w') \<Longrightarrow> reach w'"
| r_pool: "reach w \<Longrightarrow> pool_conn unpack dialled w = Some (m, w') \<Longrightarrow> reach w'"
| r_udp: "reach w \<Longrightarrow> RegisterUDPConn srvTag handler dialled w = Some w' \<Longrightarrow> reach w'"
| r_start: "reach w \<Longrightarrow> m \<in> set (w_starting w) \<Longrightarrow> reach (tcpConnStart m w)"
| r_close: "reach w \<Longrightarrow> m < length (w_mgrs w) \<Longrightarrow> tcpConnClose now m w = Some w' \<Longrightarrow> reach w'"
| r_choose: "reach w \<Longrightarrow> chooseRemoteSrv now dial srvTag w = Some (r, w') \<Longrightarrow> reach w'"
| r_request: "reach w \<Longrightarrow> RequestToRemote_begin now dial srvTag w = Some (b, w') \<Longrightarrow> reach w'"
| r_handler: "reach w \<Longrightarrow> m < length (w_mgrs w) \<Longrightarrow> SetPackHandler m handler w = Some w' \<Longrightarrow> reach w'"
| r_unpack: "reach w \<Longrightarrow> m < length (w_mgrs w) \<Longrightarrow> reach (SetUnpackHandler m h w)"

definition info_ok :: "World \<Rightarrow> RemoteSrvInfo \<Rightarrow> bool" where
  "info_ok w info \<longleftrightarrow> srvIdx info < allSrvNum info \<and> allSrvNum info \<le> maxRemoteSrvIP \<and> length (srvInfos info) = maxRemoteSrvIP \<and>
     (\<forall>k < allSrvNum info. \<exists>p. srvInfos info ! k = Some p \<and> p < length (w_srvs w))"

definition mgr_ok :: "World \<Rightarrow> TCPConnMgr \<Rightarrow> bool" where
  "mgr_ok w t \<longleftrightarrow> closed t \<in> {0, -1} \<and> conn t < length (w_conns w) \<and> pauseConn t < length (w_pauses w) \<and>
     (\<forall>p. srvInfo t = Some p \<longrightarrow> p < length (w_srvs w)) \<and> (closed t = 0 \<longrightarrow> \<not> w_pauses w ! pauseConn t)"

definition starting_ok :: "World \<Rightarrow> bool" where
  "starting_ok w \<longleftrightarrow> distinct (w_starting w) \<and> (\<forall>m \<in> set (w_starting w). m < length (w_mgrs w) \<and>
     closed (w_mgrs w ! m) = -1 \<and> pauseConn (w_mgrs w ! m) < length (w_pauses w) \<and> \<not> w_pauses w ! pauseConn (w_mgrs w ! m))"

definition world_ok :: "World \<Rightarrow> bool" where
  "world_ok w \<longleftrightarrow> (\<forall>srvTag info. RemoteSrvChanList w srvTag = Some info \<longrightarrow> info_ok w info) \<and>
     (\<forall>s \<in> set (w_srvs w). srvStatus s = SRV_STATUS_OK) \<and>
     (\<forall>t \<in> set (w_mgrs w). mgr_ok w t) \<and> distinct (map pauseConn (w_mgrs w)) \<and> starting_ok w"

lemma world_okD:
  assumes "world_ok w"
  shows "RemoteSrvChanList w srvTag = Some info \<Longrightarrow> info_ok w info" "s \<in> set (w_srvs w) \<Longrightarrow> srvStatus s = SRV_STATUS_OK"
    "m < length (w_mgrs w) \<Longrightarrow> mgr_ok w (w_mgrs w ! m)" "distinct (map pauseConn (w_mgrs w))" "starting_ok w"
  using assms unfolding world_ok_def by auto

lemma upd_simps [simp]:
  "w_mgrs (upd_mgr m f w) = (w_mgrs w)[m := f (w_mgrs w ! m)]" "w_srvs (upd_mgr m f w) = w_srvs w"
  "RemoteSrvChanList (upd_mgr m f w) = RemoteSrvChanList w" "w_conns (upd_mgr m f w) = w_conns w" "w_pauses (upd_mgr m f w) = w_pauses w"
  "w_starting (upd_mgr m f w) = w_starting w" "w_starting (upd_srv p g w) = w_starting w"
  "w_srvs (upd_srv p g w) = (w_srvs w)[p := g (w_srvs w ! p)]" "w_mgrs (upd_srv p g w) = w_mgrs w"
  "RemoteSrvChanList (upd_srv p g w) = RemoteSrvChanList w" "w_conns (upd_srv p g w) = w_conns w" "w_pauses (upd_srv p g w) = w_pauses w"
  by (simp_all add: upd_mgr_def upd_srv_def)

text \<open>What keeps the invariant: parts that do not matter change, tables grow, one server or one manager changes.\<close>

lemma info_ok_mono: "info_ok w info \<Longrightarrow> length (w_srvs w) \<le> length (w_srvs w') \<Longrightarrow> info_ok w' info"
  unfolding info_ok_def by (meson order_less_le_trans)

lemma mgr_ok_mono: "mgr_ok w t \<Longrightarrow> length (w_srvs w) \<le> length (w_srvs w') \<Longrightarrow> w_conns w' = w_conns w @ cs \<Longrightarrow>
    w_pauses w' = w_pauses w @ ps \<Longrightarrow> mgr_ok w' t"
  unfolding mgr_ok_def by (auto simp: nth_append intro: order_less_le_trans)

lemma starting_ok_mono: "starting_ok w \<Longrightarrow> w_starting w' = w_starting w \<Longrightarrow> w_mgrs w' = w_mgrs w @ ms \<Longrightarrow>
    w_pauses w' = w_pauses w @ ps \<Longrightarrow> starting_ok w'"
  unfolding starting_ok_def by (auto simp: nth_append)

lemma world_ok_mono:
  assumes "world_ok w" "RemoteSrvChanList w' = RemoteSrvChanList w" "w_srvs w' = w_srvs w @ ss" "\<forall>s \<in> set ss. srvStatus s = SRV_STATUS_OK"
    "w_conns w' = w_conns w @ cs" "w_pauses w' = w_pauses w @ ps" "w_mgrs w' = w_mgrs w" "w_starting w' = w_starting w"
  shows "world_ok w'"
proof -
  have "info_ok w' info" if "info_ok w info" for info using info_ok_mono [OF that, of w'] assms(3) by simp
  moreover have "mgr_ok w' t" if "mgr_ok w t" for t using mgr_ok_mono [OF that, of w' cs ps] assms(3,5,6) by simp
  moreover have "starting_ok w'" using starting_ok_mono [of w w' "[]" ps] assms world_okD(5) by simp
  ultimately show ?thesis using assms unfolding world_ok_def by auto
qed

lemma world_ok_upd_srv:
  assumes ok: "world_ok w" and g: "\<And>s. srvStatus s = SRV_STATUS_OK \<Longrightarrow> srvStatus (g s) = SRV_STATUS_OK" and p: "p < length (w_srvs w)"
  shows "world_ok (upd_srv p g w)"
proof -
  have "srvStatus s = SRV_STATUS_OK" if "s \<in> set ((w_srvs w)[p := g (w_srvs w ! p)])" for s
    using that world_okD(2) [OF ok] g p set_update_subset_insert [of "w_srvs w" p] by (metis insertE nth_mem subsetD)
  moreover have "info_ok (upd_srv p g w) info = info_ok w info" "mgr_ok (upd_srv p g w) t = mgr_ok w t" for info t
    by (simp_all add: info_ok_def mgr_ok_def)
  moreover have "starting_ok (upd_srv p g w) = starting_ok w" by (simp add: starting_ok_def)
  ultimately show ?thesis using ok unfolding world_ok_def by simp
qed

lemma world_ok_upd_mgr:
  assumes ok: "world_ok w" and m: "m < length (w_mgrs w)"
    and t: "mgr_ok (upd_mgr m f w) (f (w_mgrs w ! m))"
    and p: "pauseConn (f (w_mgrs w ! m)) = pauseConn (w_mgrs w ! m) \<or> (\<forall>u \<in> set (w_mgrs w). pauseConn (f (w_mgrs w ! m)) \<noteq> pauseConn u)"
    and s: "m \<notin> set (w_starting w) \<or> closed (f (w_mgrs w ! m)) = -1 \<and> \<not> w_pauses w ! pauseConn (f (w_mgrs w ! m))"
  shows "world_ok (upd_mgr m f w)"
proof -
  have same: "info_ok (upd_mgr m f w) info = info_ok w info" "mgr_ok (upd_mgr m f w) u = mgr_ok w u" for info u
    by (simp_all add: info_ok_def mgr_ok_def)
  have "mgr_ok w u" if "u \<in> set ((w_mgrs w)[m := f (w_mgrs w ! m)])" for u
    using that ok t same set_update_subset_insert [of "w_mgrs w" m] unfolding world_ok_def by (metis insertE subsetD)
  moreover have "distinct (map pauseConn ((w_mgrs w)[m := f (w_mgrs w ! m)]))"
    using p
  proof
    assume "pauseConn (f (w_mgrs w ! m)) = pauseConn (w_mgrs w ! m)"
    then have "map pauseConn ((w_mgrs w)[m := f (w_mgrs w ! m)]) = map pauseConn (w_mgrs w)"
      using m by (simp add: map_update list_update_same_conv)
    then show ?thesis using world_okD(4) [OF ok] by simp
  next
    assume "\<forall>u \<in> set (w_mgrs w). pauseConn (f (w_mgrs w ! m)) \<noteq> pauseConn u"
    then have "pauseConn (f (w_mgrs w ! m)) \<notin> set (map pauseConn (w_mgrs w))" by auto
    then show ?thesis unfolding map_update using world_okD(4) [OF ok] by (intro distinct_list_update) auto
  qed
  moreover have "starting_ok (upd_mgr m f w)"
    using world_okD(5) [OF ok] s t m unfolding starting_ok_def mgr_ok_def by (auto simp: nth_list_update)
  ultimately show ?thesis using ok same unfolding world_ok_def by simp
qed

lemma world_ok_new:
  "world_ok w \<Longrightarrow> world_ok (w\<lparr>w_conns := w_conns w @ [True]\<rparr>)"
  "world_ok w \<Longrightarrow> world_ok (w\<lparr>w_pauses := w_pauses w @ [False]\<rparr>)"
  "world_ok w \<Longrightarrow> world_ok (w\<lparr>w_started := l\<rparr>)"
  "world_ok w \<Longrightarrow> world_ok (w\<lparr>w_udp := k\<rparr>)"
  using world_ok_mono [of w "w\<lparr>w_conns := w_conns w @ [True]\<rparr>" "[]" "[True]" "[]"]
    world_ok_mono [of w "w\<lparr>w_pauses := w_pauses w @ [False]\<rparr>" "[]" "[]" "[False]"]
    world_ok_mono [of w "w\<lparr>w_started := l\<rparr>" "[]" "[]" "[]"] world_ok_mono [of w "w\<lparr>w_udp := k\<rparr>" "[]" "[]" "[]"]
  by simp_all

lemma SendAndRecv_ok:
  assumes ok: "world_ok w" and m: "m < length (w_mgrs w)" and p: "\<not> w_pauses w ! pauseConn (w_mgrs w ! m)"
    and s: "m \<notin> set (w_starting w)"
  shows "world_ok (tcpConnSendAndRecv m w)"
proof (cases "closed (w_mgrs w ! m) = -1")
  case True
  have "mgr_ok w (w_mgrs w ! m)" by (rule world_okD(3) [OF ok m])
  then have "world_ok (upd_mgr m (\<lambda>t. t\<lparr>closed := 0\<rparr>) w)"
    using p s by (intro world_ok_upd_mgr [OF ok m]) (simp_all add: mgr_ok_def)
  then show ?thesis using True world_ok_new(3) by (simp add: tcpConnSendAndRecv_def)
qed (use ok in \<open>simp add: tcpConnSendAndRecv_def\<close>)


section \<open>Every operation keeps the invariant\<close>

lemma register_ok:
  assumes ok: "world_ok w" and r: "register srvTag handler w = Some (p, w')"
  shows "world_ok w' \<and> p < length (w_srvs w') \<and> w_mgrs w' = w_mgrs w"
proof -
  let ?s = "\<lparr>srvStatus = SRV_STATUS_OK, packHandler = handler, srvSeq = 0, connMgr = NoMgr\<rparr>"
  define v where "v = w\<lparr>w_srvs := w_srvs w @ [?s]\<rparr>"
  have v: "world_ok v" by (rule world_ok_mono [OF ok, where ss = "[?s]" and cs = "[]" and ps = "[]"]) (simp_all add: v_def)
  have put: "world_ok (v\<lparr>RemoteSrvChanList := (RemoteSrvChanList v)(srvTag \<mapsto> info)\<rparr>)" if "info_ok v info" for info
    using v that by (auto simp: world_ok_def info_ok_def mgr_ok_def starting_ok_def)
  have p: "p = length (w_srvs w)" "p < length (w_srvs v)" using r by (auto simp: register_def Let_def v_def split: option.splits if_splits)
  show ?thesis
  proof (cases "RemoteSrvChanList w srvTag")
    case None
    have "info_ok v \<lparr>srvIdx = 0, allSrvNum = 1, srvInfos = (replicate maxRemoteSrvIP None)[0 := Some p]\<rparr>"
      using p by (simp add: info_ok_def maxRemoteSrvIP_def)
    from put [OF this] show ?thesis using r None p by (auto simp: register_def Let_def v_def)
  next
    case (Some info)
    have i: "info_ok v info" using world_okD(1) [OF v] Some by (simp add: v_def)
    have "allSrvNum info < maxRemoteSrvIP" using r Some by (auto simp: register_def Let_def split: if_splits)
    then have "info_ok v (info\<lparr>srvInfos := (srvInfos info)[allSrvNum info := Some p], allSrvNum := allSrvNum info + 1\<rparr>)"
      using i p by (auto simp: info_ok_def nth_list_update less_Suc_eq)
    from put [OF this] show ?thesis using r Some p by (auto simp: register_def Let_def v_def split: if_splits)
  qed
qed

lemma TCPConnHandler_ok:
  assumes ok: "world_ok w" and d: "TCPConnHandler unpack dialled w = Some (m, w')"
  shows "world_ok w' \<and> m < length (w_mgrs w') \<and> w_srvs w' = w_srvs w \<and> m \<notin> set (w_starting w') \<and> closed (w_mgrs w' ! m) = -1 \<and>
    \<not> w_pauses w' ! pauseConn (w_mgrs w' ! m)"
proof -
  define t where "t = \<lparr>closed = -1, mgrStatus = SRV_STATUS_OK, conn = length (w_conns w), pauseConn = length (w_pauses w), tcpUnpackHandler = unpack, srvInfo = None, closeConnTime = 0\<rparr>"
  define v where "v = w\<lparr>w_conns := w_conns w @ [True], w_pauses := w_pauses w @ [False]\<rparr>"
  have w': "w' = v\<lparr>w_mgrs := w_mgrs w @ [t]\<rparr>" and m: "m = length (w_mgrs w)"
    using d by (auto simp: TCPConnHandler_def new_conn_obj_def new_pause_def v_def t_def Let_def split: if_splits)
  have v: "world_ok v" by (rule world_ok_mono [OF ok, where ss = "[]" and cs = "[True]" and ps = "[False]"]) (simp_all add: v_def)
  have same: "info_ok w' info = info_ok v info" "mgr_ok w' u = mgr_ok v u" for info u by (simp_all add: w' info_ok_def mgr_ok_def)
  have "mgr_ok v t" by (simp add: mgr_ok_def v_def t_def)
  moreover have "pauseConn u < length (w_pauses w)" if "u \<in> set (w_mgrs w)" for u
    using that ok unfolding world_ok_def mgr_ok_def by blast
  then have "length (w_pauses w) \<notin> set (map pauseConn (w_mgrs w))" by fastforce
  moreover have "starting_ok w'" by (rule starting_ok_mono [OF world_okD(5) [OF v], of _ "[t]" "[]"]) (simp_all add: w' v_def)
  moreover have "RemoteSrvChanList w' = RemoteSrvChanList v" "w_srvs w' = w_srvs v" "w_mgrs w' = w_mgrs v @ [t]" "pauseConn t = length (w_pauses w)"
    "w_mgrs v = w_mgrs w" by (simp_all add: w' v_def t_def)
  ultimately have "world_ok w'" using v unfolding world_ok_def same by auto
  then show ?thesis using world_okD(5) [OF ok] by (auto simp: w' m v_def t_def starting_ok_def)
qed

lemma go_start_ok:
  assumes "world_ok w" "m < length (w_mgrs w)" "m \<notin> set (w_starting w)" "closed (w_mgrs w ! m) = -1" "\<not> w_pauses w ! pauseConn (w_mgrs w ! m)"
  shows "world_ok (go_start m w)"
  using assms world_okD(3) [OF assms(1,2)] by (simp add: go_start_def world_ok_def info_ok_def mgr_ok_def starting_ok_def)

lemma upd_srvInfo_ok:
  assumes "world_ok w" "m < length (w_mgrs w)" "p < length (w_srvs w)" "m \<notin> set (w_starting w)"
  shows "world_ok (upd_mgr m (\<lambda>t. t\<lparr>srvInfo := Some p\<rparr>) w)"
  by (rule world_ok_upd_mgr [OF assms(1,2)]) (use assms world_okD(3) [OF assms(1,2)] in \<open>simp_all add: mgr_ok_def\<close>)

lemma RegisterTCPConn_ok:
  assumes ok: "world_ok w" and r: "RegisterTCPConn srvTag handler unpack dialled w = Some (m, w')"
  shows "world_ok w'"
proof -
  obtain p w1 w2 where s: "register srvTag handler w = Some (p, w1)" "TCPConnHandler unpack dialled w1 = Some (m, w2)"
    "w' = go_start m (upd_srv p (\<lambda>s. s\<lparr>connMgr := TCPMgr m\<rparr>) (upd_mgr m (\<lambda>t. t\<lparr>srvInfo := Some p\<rparr>) w2))"
    using r by (auto simp: RegisterTCPConn_def Let_def split: Option.bind_splits)
  have r1: "world_ok w1" "p < length (w_srvs w1)" using register_ok [OF ok s(1)] by auto
  have r2: "world_ok w2" "m < length (w_mgrs w2)" "w_srvs w2 = w_srvs w1" "m \<notin> set (w_starting w2)" "closed (w_mgrs w2 ! m) = -1"
    "\<not> w_pauses w2 ! pauseConn (w_mgrs w2 ! m)" using TCPConnHandler_ok [OF r1(1) s(2)] by auto
  have "world_ok (upd_srv p (\<lambda>s. s\<lparr>connMgr := TCPMgr m\<rparr>) (upd_mgr m (\<lambda>t. t\<lparr>srvInfo := Some p\<rparr>) w2))"
    using r1 r2 by (intro world_ok_upd_srv upd_srvInfo_ok) auto
  then show ?thesis unfolding s(3) using r2 by (intro go_start_ok) auto
qed

lemma pool_conn_ok:
  assumes ok: "world_ok w" and r: "pool_conn unpack dialled w = Some (m, w')"
  shows "world_ok w'"
proof -
  obtain v where v: "TCPConnHandler unpack dialled w = Some (m, v)" "w' = go_start m v"
    using r by (auto simp: pool_conn_def split: Option.bind_splits)
  show ?thesis unfolding v(2) using TCPConnHandler_ok [OF ok v(1)] by (intro go_start_ok) auto
qed

lemma tcpConnStart_ok:
  assumes ok: "world_ok w" and m: "m \<in> set (w_starting w)"
  shows "world_ok (tcpConnStart m w)"
proof -
  let ?v = "w\<lparr>w_starting := remove1 m (w_starting w)\<rparr>"
  have s: "starting_ok w" by (rule world_okD(5) [OF ok])
  have "world_ok ?v" using ok s by (auto simp: world_ok_def info_ok_def mgr_ok_def starting_ok_def)
  then show ?thesis unfolding tcpConnStart_def using s m by (intro SendAndRecv_ok) (auto simp: starting_ok_def)
qed

lemma RegisterUDPConn_ok:
  assumes ok: "world_ok w" and r: "RegisterUDPConn srvTag handler dialled w = Some w'"
  shows "world_ok w'"
proof -
  obtain p w1 where s: "register srvTag handler w = Some (p, w1)"
    "w' = upd_srv p (\<lambda>s. s\<lparr>connMgr := UDPMgr (w_udp w1)\<rparr>) (w1\<lparr>w_udp := w_udp w1 + 1\<rparr>)"
    using r by (auto simp: RegisterUDPConn_def split: Option.bind_splits if_splits)
  show ?thesis unfolding s(2) using register_ok [OF ok s(1)] by (intro world_ok_upd_srv world_ok_new) auto
qed

lemma pause_inj:
  assumes "world_ok w" "k < length (w_mgrs w)" "m < length (w_mgrs w)" "k \<noteq> m"
  shows "pauseConn (w_mgrs w ! k) \<noteq> pauseConn (w_mgrs w ! m)"
  using nth_eq_iff_index_eq [OF world_okD(4) [OF assms(1)], of k m] assms by simp

lemma Close_ok:
  assumes ok: "world_ok w" and m: "m < length (w_mgrs w)"
  shows "\<exists>w'. tcpConnClose now m w = Some w' \<and> world_ok w' \<and> RemoteSrvChanList w' = RemoteSrvChanList w \<and> w_srvs w' = w_srvs w"
proof (cases "closed (w_mgrs w ! m) = 0")
  case True
  let ?t = "w_mgrs w ! m"
  let ?w = "w\<lparr>w_mgrs := (w_mgrs w)[m := ?t\<lparr>closed := -1, mgrStatus := SRV_STATUS_RECONNECT, closeConnTime := now\<rparr>],
    w_conns := (w_conns w)[conn ?t := False], w_pauses := (w_pauses w)[pauseConn ?t := True]\<rparr>"
  have t: "mgr_ok w ?t" by (rule world_okD(3) [OF ok m])
  then have eq: "tcpConnClose now m w = Some ?w" using True m by (simp add: tcpConnClose_def mgr_ok_def Let_def upd_mgr_def)
  have "mgr_ok ?w u" if "u \<in> set (w_mgrs ?w)" for u
  proof -
    from that obtain k where "k < length (w_mgrs ?w)" "w_mgrs ?w ! k = u" unfolding in_set_conv_nth by blast
    then have k: "k < length (w_mgrs w)" "u = w_mgrs ?w ! k" by simp_all
    show ?thesis
    proof (cases "k = m")
      case False
      then have "pauseConn (w_mgrs w ! k) \<noteq> pauseConn ?t" using pause_inj [OF ok k(1) m] by simp
      then show ?thesis using world_okD(3) [OF ok k(1)] k False by (simp add: mgr_ok_def)
    qed (use t k in \<open>simp add: mgr_ok_def\<close>)
  qed
  moreover have "map pauseConn (w_mgrs ?w) = map pauseConn (w_mgrs w)" using m by (simp add: map_update list_update_same_conv)
  moreover have "starting_ok ?w"
  proof -
    have "u \<noteq> m \<and> pauseConn (w_mgrs w ! u) \<noteq> pauseConn ?t" if "u \<in> set (w_starting w)" for u
    proof -
      have u: "u < length (w_mgrs w)" "closed (w_mgrs w ! u) = -1" using that world_okD(5) [OF ok] by (auto simp: starting_ok_def)
      then have "u \<noteq> m" using True by auto
      then show ?thesis using pause_inj [OF ok u(1) m] by simp
    qed
    note this [THEN conjunct1, THEN not_sym] this [THEN conjunct2, THEN not_sym]
    then show ?thesis using world_okD(5) [OF ok] by (simp add: starting_ok_def)
  qed
  ultimately have "world_ok ?w" using ok unfolding world_ok_def info_ok_def by simp
  then show ?thesis using eq by simp
qed (use ok in \<open>simp add: tcpConnClose_def\<close>)

lemma Reconnect_ok:
  assumes ok: "world_ok w" and m: "m < length (w_mgrs w)" and r: "tcpConnReconnect dial m w = Some (b, w')"
    and s: "m \<notin> set (w_starting w)"
  shows "world_ok w'"
proof (cases "dial m")
  case True
  define w1 where "w1 = upd_mgr m (\<lambda>t. t\<lparr>conn := length (w_conns w)\<rparr>) (w\<lparr>w_conns := w_conns w @ [True]\<rparr>)"
  have 1: "world_ok w1" unfolding w1_def using m s world_okD(3) [OF world_ok_new(1) [OF ok], of m]
    by (intro world_ok_upd_mgr world_ok_new(1) [OF ok]) (auto simp: mgr_ok_def)
  obtain p where p: "srvInfo (w_mgrs w ! m) = Some p"
    using r True m by (auto simp: tcpConnReconnect_def new_conn_obj_def split: option.splits)
  then have pw: "p < length (w_srvs w)" using world_okD(3) [OF ok m] by (simp add: mgr_ok_def)
  define w2 where "w2 = (upd_srv p (\<lambda>s. s\<lparr>srvStatus := SRV_STATUS_OK\<rparr>) w1)\<lparr>w_pauses := w_pauses w @ [False]\<rparr>"
  have "world_ok (upd_srv p (\<lambda>s. s\<lparr>srvStatus := SRV_STATUS_OK\<rparr>) w1)" using pw by (intro world_ok_upd_srv 1) (auto simp: w1_def)
  from world_ok_new(2) [OF this] have 2: "world_ok w2" by (simp add: w2_def w1_def)
  define w3 where "w3 = upd_mgr m (\<lambda>t. t\<lparr>pauseConn := length (w_pauses w)\<rparr>) w2"
  have mw: "m < length (w_mgrs w2)" "w_mgrs w2 ! m = (w_mgrs w ! m)\<lparr>conn := length (w_conns w)\<rparr>" "w_pauses w2 = w_pauses w @ [False]"
    "w_conns w2 = w_conns w @ [True]" "w_starting w2 = w_starting w" "length (w_srvs w2) = length (w_srvs w)"
    using m by (simp_all add: w2_def w1_def)
  have mw3: "length (w_mgrs w3) = length (w_mgrs w)" "pauseConn (w_mgrs w3 ! m) = length (w_pauses w)" "w_pauses w3 = w_pauses w @ [False]"
    "w_starting w3 = w_starting w" using m mw by (simp_all add: w3_def) (simp add: w2_def w1_def)
  have fresh: "pauseConn u \<noteq> length (w_pauses w)" if u: "u \<in> set (w_mgrs w2)" for u
  proof -
    have "set (w_mgrs w2) \<subseteq> insert ((w_mgrs w ! m)\<lparr>conn := length (w_conns w)\<rparr>) (set (w_mgrs w))"
      by (simp add: w2_def w1_def set_update_subset_insert)
    then have "u \<in> set (w_mgrs w) \<or> pauseConn u = pauseConn (w_mgrs w ! m)" using u by auto
    moreover have "pauseConn (w_mgrs w ! m) < length (w_pauses w)" using world_okD(3) [OF ok m] by (simp add: mgr_ok_def)
    moreover have "u \<in> set (w_mgrs w) \<Longrightarrow> pauseConn u < length (w_pauses w)" using ok unfolding world_ok_def mgr_ok_def by blast
    ultimately show ?thesis by auto
  qed
  have 3: "world_ok w3" unfolding w3_def
    using world_okD(3) [OF ok m] fresh [THEN not_sym] mw s by (intro world_ok_upd_mgr 2) (simp_all add: mgr_ok_def)
  have "srvInfo (w_mgrs w1 ! m) = Some p" using p m by (simp add: w1_def)
  then have eq: "w' = tcpConnSendAndRecv m w3"
    using r True by (simp add: tcpConnReconnect_def new_conn_obj_def new_pause_def w3_def w2_def w1_def Let_def split: option.splits)
  show ?thesis unfolding eq using mw3 m s by (intro SendAndRecv_ok 3) auto
qed (use ok r in \<open>simp add: tcpConnReconnect_def\<close>)

section \<open>The choice of a server\<close>

lemma info_at:
  assumes "info_ok w info" "k < allSrvNum info"
  obtains p where "srvInfos info ! k = Some p" "p < length (w_srvs w)" "k < length (srvInfos info)"
  using assms unfolding info_ok_def by (metis order_less_le_trans)

lemma choose_eq:
  assumes ok: "world_ok w"
  shows "chooseRemoteSrv now dial srvTag w =
    (case RemoteSrvChanList w srvTag of
       None \<Rightarrow> Some (Inl ErrNotFountRemoteSrv, w)
     | Some info \<Rightarrow>
         (let i = (srvIdx info + 1) mod allSrvNum info
          in Some (Inr (the (srvInfos info ! i)), w\<lparr>RemoteSrvChanList := (RemoteSrvChanList w)(srvTag \<mapsto> info\<lparr>srvIdx := i\<rparr>)\<rparr>)))"
proof (cases "RemoteSrvChanList w srvTag")
  case (Some info)
  let ?i = "(srvIdx info + 1) mod allSrvNum info"
  have i: "info_ok w info" by (rule world_okD(1) [OF ok Some])
  then have n: "?i < allSrvNum info" "0 < allSrvNum info" by (simp_all add: info_ok_def)
  obtain p where p: "srvInfos info ! ?i = Some p" "p < length (w_srvs w)" "?i < length (srvInfos info)"
    by (rule info_at [OF i n(1)])
  have "idx (srvInfos info) (int ?i) = Some (Some p)" using p by (simp only: idx_nat)
  moreover have "srvStatus (w_srvs w ! p) = SRV_STATUS_OK" using world_okD(2) [OF ok] p by simp
  ultimately show ?thesis using Some n p by (simp add: chooseRemoteSrv_def next_srv_def addSrvIdx_def srv_at_def Let_def)
qed (simp add: chooseRemoteSrv_def)

lemma choose_ok:
  assumes ok: "world_ok w" and c: "chooseRemoteSrv now dial srvTag w = Some (r, w')"
  shows "world_ok w' \<and> w_srvs w' = w_srvs w \<and> (\<forall>p. r = Inr p \<longrightarrow> p < length (w_srvs w))"
proof (cases "RemoteSrvChanList w srvTag")
  case (Some info)
  let ?i = "(srvIdx info + 1) mod allSrvNum info"
  let ?w = "w\<lparr>RemoteSrvChanList := (RemoteSrvChanList w)(srvTag \<mapsto> info\<lparr>srvIdx := ?i\<rparr>)\<rparr>"
  have i: "info_ok w info" by (rule world_okD(1) [OF ok Some])
  then have n: "?i < allSrvNum info" by (simp add: info_ok_def)
  have w': "r = Inr (the (srvInfos info ! ?i))" "w' = ?w" using c Some by (simp_all add: choose_eq [OF ok] Let_def)
  have "info_ok w (info\<lparr>srvIdx := ?i\<rparr>)" using i n by (simp add: info_ok_def)
  then have "world_ok ?w" using ok by (auto simp: world_ok_def info_ok_def mgr_ok_def starting_ok_def)
  moreover have "the (srvInfos info ! ?i) < length (w_srvs w)" by (rule info_at [OF i n]) simp
  ultimately show ?thesis using w' by simp
qed (use ok c in \<open>auto simp: choose_eq [OF ok]\<close>)

lemma Request_ok:
  assumes ok: "world_ok w" and c: "RequestToRemote_begin now dial srvTag w = Some (b, w')"
  shows "world_ok w'"
proof -
  obtain r w1 where r: "chooseRemoteSrv now dial srvTag w = Some (r, w1)"
    using c by (auto simp: RequestToRemote_begin_def split: Option.bind_splits)
  have 1: "world_ok w1" "w_srvs w1 = w_srvs w" "\<And>p. r = Inr p \<Longrightarrow> p < length (w_srvs w1)" using choose_ok [OF ok r] by auto
  show ?thesis
  proof (cases r)
    case (Inr p)
    let ?g = "\<lambda>s. s\<lparr>srvSeq := srvSeq (w_srvs w1 ! p) + 1\<rparr>"
    have "w' = upd_srv p ?g w1" using c r Inr by (auto simp: RequestToRemote_begin_def Let_def split: Option.bind_splits)
    moreover have "world_ok (upd_srv p ?g w1)" using 1 Inr by (intro world_ok_upd_srv) auto
    ultimately show ?thesis by simp
  qed (use c r 1 in \<open>auto simp: RequestToRemote_begin_def\<close>)
qed

lemma SetPackHandler_ok:
  assumes ok: "world_ok w" and m: "m < length (w_mgrs w)" and c: "SetPackHandler m handler w = Some w'"
  shows "world_ok w'"
proof -
  obtain p where p: "srvInfo (w_mgrs w ! m) = Some p" "w' = upd_srv p (\<lambda>s. s\<lparr>packHandler := handler\<rparr>) w"
    using c by (auto simp: SetPackHandler_def split: Option.bind_splits)
  show ?thesis unfolding p(2) using world_okD(3) [OF ok m] p by (intro world_ok_upd_srv ok) (auto simp: mgr_ok_def)
qed

lemma SetUnpackHandler_ok: "world_ok w \<Longrightarrow> m < length (w_mgrs w) \<Longrightarrow> world_ok (SetUnpackHandler m h w)"
  using world_okD(3,5) by (auto simp: SetUnpackHandler_def starting_ok_def mgr_ok_def intro!: world_ok_upd_mgr)

lemma reach_ok: "reach w \<Longrightarrow> world_ok w"
proof (induction rule: reach.induct)
  case r_init
  then show ?case by (simp add: world_ok_def w_init_def starting_ok_def)
next
  case (r_close w m now w')
  then show ?case using Close_ok [of w m now] by auto
qed (blast intro: RegisterTCPConn_ok pool_conn_ok RegisterUDPConn_ok tcpConnStart_ok choose_ok [THEN conjunct1] Request_ok SetPackHandler_ok SetUnpackHandler_ok)+

fun choices :: "(int \<times> (nat \<Rightarrow> bool)) list \<Rightarrow> 32 word \<Rightarrow> World \<Rightarrow> ((RemoteErr + nat) list \<times> World) option" where
  "choices [] srvTag w = Some ([], w)"
| "choices ((now, dial) # evs) srvTag w =
     do { (r, w) \<leftarrow> chooseRemoteSrv now dial srvTag w; (rs, w) \<leftarrow> choices evs srvTag w; Some (r # rs, w) }"

lemma choices_eq:
  assumes "world_ok w" and "RemoteSrvChanList w srvTag = Some info"
  shows "\<exists>w'. choices evs srvTag w =
      Some (map (\<lambda>k. Inr (the (srvInfos info ! ((srvIdx info + Suc k) mod allSrvNum info)))) [0..<length evs], w') \<and> w_conns w' = w_conns w"
  using assms
proof (induction evs arbitrary: w info)
  case (Cons ev evs)
  obtain now dial where ev: "ev = (now, dial)" by fastforce
  define info1 where "info1 = info\<lparr>srvIdx := Suc (srvIdx info) mod allSrvNum info\<rparr>"
  define w1 where "w1 = w\<lparr>RemoteSrvChanList := (RemoteSrvChanList w)(srvTag \<mapsto> info1)\<rparr>"
  define f where "f k = (Inr (the (srvInfos info ! ((srvIdx info + Suc k) mod allSrvNum info))) :: RemoteErr + nat)" for k
  have c: "chooseRemoteSrv now dial srvTag w = Some (f 0, w1)"
    using Cons.prems(2) by (simp add: choose_eq [OF Cons.prems(1)] Let_def w1_def info1_def f_def)
  have "world_ok w1" using choose_ok [OF Cons.prems(1) c] by simp
  moreover have "RemoteSrvChanList w1 srvTag = Some info1" by (simp add: w1_def)
  ultimately obtain w2 where w2: "choices evs srvTag w1 =
      Some (map (\<lambda>k. Inr (the (srvInfos info1 ! ((srvIdx info1 + Suc k) mod allSrvNum info1)))) [0..<length evs], w2)" "w_conns w2 = w_conns w1"
    using Cons.IH by blast
  have "Inr (the (srvInfos info1 ! ((srvIdx info1 + Suc k) mod allSrvNum info1))) = f (Suc k)" for k
    using mod_add_left_eq [of "Suc (srvIdx info)" "allSrvNum info" "Suc k"] by (simp add: info1_def f_def)
  with w2 have "choices evs srvTag w1 = Some (map (\<lambda>k. f (Suc k)) [0..<length evs], w2)" by simp
  moreover have "f 0 # map (\<lambda>k. f (Suc k)) [0..<length evs] = map f [0..<Suc (length evs)]"
    by (simp add: upt_conv_Cons flip: map_Suc_upt del: upt_Suc)
  ultimately have "choices (ev # evs) srvTag w = Some (map f [0..<length (ev # evs)], w2)" using c ev by simp
  then show ?case using w2(2) unfolding f_def by (auto simp: w1_def)
qed simp

text \<open>
  C35. Whatever has happened, the index of each tag is below its number of servers, which is at most 16; closing a
  connection never closes its pause channel twice, choosing a server never panics (in particular never by a
  nil server or a connection of the wrong kind), and registering a server at a reachable address panics exactly when the tag already has 16.
\<close>

theorem registry_is_safe:
  assumes "reach w"
  shows "(\<forall>srvTag info. RemoteSrvChanList w srvTag = Some info \<longrightarrow> srvIdx info < allSrvNum info \<and> allSrvNum info \<le> 16) \<and>
    (\<forall>now. \<forall>m < length (w_mgrs w). tcpConnClose now m w \<noteq> None) \<and>
    (\<forall>now dial srvTag. chooseRemoteSrv now dial srvTag w \<noteq> None) \<and>
    (\<forall>srvTag handler unpack. RegisterTCPConn srvTag handler unpack True w = None \<longleftrightarrow> map_option allSrvNum (RemoteSrvChanList w srvTag) = Some 16)"
proof -
  have ok: "world_ok w" by (rule reach_ok [OF assms])
  have info: "\<forall>srvTag info. RemoteSrvChanList w srvTag = Some info \<longrightarrow> srvIdx info < allSrvNum info \<and> allSrvNum info \<le> 16"
    using world_okD(1) [OF ok] by (auto simp: info_ok_def maxRemoteSrvIP_def)
  have "tcpConnClose now m w \<noteq> None" if "m < length (w_mgrs w)" for now m using Close_ok [OF ok that] by fastforce
  moreover have "chooseRemoteSrv now dial srvTag w \<noteq> None" for now dial srvTag
    by (auto simp: choose_eq [OF ok] Let_def split: option.splits)
  moreover have "RegisterTCPConn srvTag handler unpack True w = None \<longleftrightarrow> register srvTag handler w = None" for srvTag handler unpack
    by (auto simp: RegisterTCPConn_def TCPConnHandler_def new_conn_obj_def new_pause_def Let_def split: Option.bind_splits)
  moreover have "register srvTag handler w = None \<longleftrightarrow> map_option allSrvNum (RemoteSrvChanList w srvTag) = Some 16" for srvTag handler
    using info by (auto simp: register_def Let_def maxRemoteSrvIP_def split: option.splits) (meson order_antisym)
  ultimately show ?thesis using info by simp
qed

definition demo :: "World option" where
  "demo = do { (m, w) \<leftarrow> RegisterTCPConn 7 (Some (\<lambda>seq. [])) False True w_init; (m', w) \<leftarrow> RegisterTCPConn 7 None False True w; Some (tcpConnStart m w) }"

lemmas register_defs = RegisterTCPConn_def TCPConnHandler_def register_def new_conn_obj_def new_pause_def upd_mgr_def upd_srv_def go_start_def
  w_init_def maxRemoteSrvIP_def

lemma demo_reach: "\<exists>w info. demo = Some w \<and> reach w \<and> RemoteSrvChanList w 7 = Some info \<and> allSrvNum info = 2 \<and> srvIdx info = 0 \<and>
    length (w_mgrs w) = 2"
proof -
  obtain m1 w1 where 1: "RegisterTCPConn 7 (Some (\<lambda>seq. [])) False True w_init = Some (m1, w1)" "m1 = 0" "w_starting w1 = [0]"
    "RemoteSrvChanList w1 7 = Some \<lparr>srvIdx = 0, allSrvNum = 1, srvInfos = (replicate 16 None)[0 := Some 0]\<rparr>"
    "length (w_srvs w1) = 1" "length (w_mgrs w1) = 1"
    by (simp add: register_defs Let_def)
  obtain m2 w2 where 2: "RegisterTCPConn 7 None False True w1 = Some (m2, w2)" "w_starting w2 = [0, m2]" "length (w_mgrs w2) = 2"
    "RemoteSrvChanList w2 7 = Some \<lparr>srvIdx = 0, allSrvNum = 2, srvInfos = (replicate 16 None)[0 := Some 0, 1 := Some 1]\<rparr>"
    using 1(3-6) by (simp add: register_defs Let_def)
  have "reach w1" by (rule r_tcp [OF r_init 1(1)])
  then have w2: "reach w2" using 2(1) by (rule r_tcp)
  have "reach (tcpConnStart m1 w2)" using w2 1(2) 2(2) by (intro r_start) simp_all
  then show ?thesis using 1 2 by (auto simp: demo_def tcpConnStart_def tcpConnSendAndRecv_def upd_mgr_def)
qed

theorem registry_is_safe_witness:
  "\<exists>w. demo = Some w \<and> chooseRemoteSrv 0 (\<lambda>m. False) 7 w \<noteq> None \<and> RegisterTCPConn 7 None False True w \<noteq> None"
proof -
  obtain w info where w: "demo = Some w" "reach w" "RemoteSrvChanList w 7 = Some info" "allSrvNum info = 2" using demo_reach by blast
  note s = registry_is_safe [OF w(2)]
  have "chooseRemoteSrv 0 (\<lambda>m. False) 7 w \<noteq> None" using s by blast
  moreover have "RegisterTCPConn 7 None False True w = None \<longleftrightarrow> map_option allSrvNum (RemoteSrvChanList w 7) = Some 16" using s by blast
  ultimately have "chooseRemoteSrv 0 (\<lambda>m. False) 7 w \<noteq> None \<and> RegisterTCPConn 7 None False True w \<noteq> None" using w by simp
  then show ?thesis using w(1) by blast
qed

text \<open>
  C36. The servers of a tag are chosen in turn, and a closed connection makes no difference: after any
  connection has been closed the next choices are the servers that follow the last one in the order of registration, wrapping
  around, and none of them makes a new connection. (The close marks the manager, while the choice looks at the
  server.)
\<close>

theorem closed_servers_are_chosen:
  assumes "reach w" and "m < length (w_mgrs w)" and "RemoteSrvChanList w srvTag = Some info"
  shows "\<exists>w1 w2. tcpConnClose now m w = Some w1 \<and>
    choices evs srvTag w1 =
      Some (map (\<lambda>k. Inr (the (srvInfos info ! ((srvIdx info + Suc k) mod allSrvNum info)))) [0..<length evs], w2) \<and>
    w_conns w2 = w_conns w1"
proof -
  obtain w1 where w1: "tcpConnClose now m w = Some w1" "world_ok w1" "RemoteSrvChanList w1 = RemoteSrvChanList w"
    using Close_ok [OF reach_ok [OF assms(1)] assms(2)] by blast
  from choices_eq [OF w1(2), of srvTag info evs] w1 assms(3) show ?thesis by auto
qed

theorem closed_servers_are_chosen_witness:
  "\<exists>w w1 w2. demo = Some w \<and> tcpConnClose 5 0 w = Some w1 \<and> (\<exists>p q. choices [(6, \<lambda>_. True), (7, \<lambda>_. True), (8, \<lambda>_. True)] 7 w1 = Some ([p, q, p], w2))"
proof -
  obtain w info where w: "demo = Some w" "reach w" "RemoteSrvChanList w 7 = Some info" "allSrvNum info = 2" "srvIdx info = 0"
    "length (w_mgrs w) = 2" using demo_reach by blast
  have three: "[0..<3] = [0, 1, 2::nat]" by (simp add: upt_rec)
  have "0 < length (w_mgrs w)" using w by simp
  from closed_servers_are_chosen [OF w(2) this w(3), of 5 "[(6, \<lambda>_. True), (7, \<lambda>_. True), (8, \<lambda>_. True)]"] w three
  obtain w1 w2 where "tcpConnClose 5 0 w = Some w1"
    "choices [(6, \<lambda>_. True), (7, \<lambda>_. True), (8, \<lambda>_. True)] 7 w1 =
      Some ([Inr (the (srvInfos info ! 1)), Inr (the (srvInfos info ! 0)), Inr (the (srvInfos info ! 1))], w2)"
    by (auto simp del: choices.simps)
  then show ?thesis using w(1) by blast
qed

section \<open>The connection pool\<close>

record TCPConnPool =
  maxIdle :: int
  conns :: "nat list"
  poolInfo :: "nat option"

text \<open>
  \<open>dialled i\<close> is the result of the dial number \<open>i\<close>; \<open>make(chan, maxIdle)\<close> panics for a negative \<open>maxIdle\<close>. Nothing sets
  \<open>srvInfo\<close>.
\<close>

fun pool_fill :: "bool \<Rightarrow> (nat \<Rightarrow> bool) \<Rightarrow> nat \<Rightarrow> nat \<Rightarrow> TCPConnPool \<Rightarrow> World \<Rightarrow> (TCPConnPool \<times> World) option" where
  "pool_fill unpack dialled i 0 pool w = Some (pool, w)"
| "pool_fill unpack dialled i (Suc n) pool w =
     do { (m, w) \<leftarrow> pool_conn unpack (dialled i) w; pool_fill unpack dialled (Suc i) n (pool\<lparr>conns := conns pool @ [m]\<rparr>) w }"

definition NewTCPConnPool :: "int \<Rightarrow> bool \<Rightarrow> (nat \<Rightarrow> bool) \<Rightarrow> World \<Rightarrow> (TCPConnPool \<times> World) option" where
  "NewTCPConnPool n unpack dialled w =
     (if n < 0 then None else pool_fill unpack dialled 0 (nat n) \<lparr>maxIdle = n, conns = [], poolInfo = None\<rparr> w)"

definition TCPConnPool_Release :: "nat \<Rightarrow> TCPConnPool \<Rightarrow> TCPConnPool" where
  "TCPConnPool_Release m pool = pool\<lparr>conns := conns pool @ [m]\<rparr>"

text \<open>
  The loop of \<open>Get\<close>; \<open>taken\<close> are the managers whose release has been deferred, the last one first, which is the order in which
  they are released. An empty channel makes it wait.
\<close>

datatype PoolErr = ErrTCPConnPoolGet

fun pool_get :: "int \<Rightarrow> nat list \<Rightarrow> nat list \<Rightarrow> TCPConnPool \<Rightarrow> World \<Rightarrow> ((PoolErr + nat) \<times> TCPConnPool \<times> World) option" where
  "pool_get i [] taken pool w = None"
| "pool_get i (m # ms) taken pool w =
     (let taken = m # taken; released = fold TCPConnPool_Release taken (pool\<lparr>conns := ms\<rparr>)
      in if mgrStatus (w_mgrs w ! m) = SRV_STATUS_OK then Some (Inr m, released, w)
         else if i + 1 \<ge> maxIdle pool sdiv 2
         then do { p \<leftarrow> poolInfo pool; Some (Inl ErrTCPConnPoolGet, released, upd_srv p (\<lambda>s. s\<lparr>srvStatus := SRV_STATUS_RECONNECT\<rparr>) w) }
         else pool_get (i + 1) ms taken pool w)"

definition TCPConnPool_Get :: "TCPConnPool \<Rightarrow> World \<Rightarrow> ((PoolErr + nat) \<times> TCPConnPool \<times> World) option" where
  "TCPConnPool_Get pool w = pool_get 0 (conns pool) [] pool w"

fun pool_reconnect :: "(nat \<Rightarrow> bool) \<Rightarrow> int \<Rightarrow> nat list \<Rightarrow> nat list \<Rightarrow> TCPConnPool \<Rightarrow> World \<Rightarrow> (nat option \<times> TCPConnPool \<times> World) option"
where
  "pool_reconnect dial i [] taken pool w = None"
| "pool_reconnect dial i (m # ms) taken pool w =
     (let taken = m # taken; released = fold TCPConnPool_Release taken (pool\<lparr>conns := ms\<rparr>)
      in if mgrStatus (w_mgrs w ! m) = SRV_STATUS_OK then Some (Some m, released, w)
         else do { (ok, w) \<leftarrow> tcpConnReconnect dial m w;
                   if ok then Some (Some m, released, upd_mgr m (\<lambda>t. t\<lparr>mgrStatus := SRV_STATUS_OK\<rparr>) w)
                   else if i + 1 \<ge> maxIdle pool sdiv 2 then Some (None, released, w)
                   else pool_reconnect dial (i + 1) ms taken pool w })"

definition TCPConnPool_Reconnect :: "(nat \<Rightarrow> bool) \<Rightarrow> TCPConnPool \<Rightarrow> World \<Rightarrow> (nat option \<times> TCPConnPool \<times> World) option" where
  "TCPConnPool_Reconnect dial pool w = pool_reconnect dial 0 (conns pool) [] pool w"

lemma released: "fold TCPConnPool_Release ms pool = pool\<lparr>conns := conns pool @ ms\<rparr>"
  by (induction ms arbitrary: pool) (simp_all add: TCPConnPool_Release_def)

abbreviation failed :: "World \<Rightarrow> nat \<Rightarrow> bool" where
  "failed w m \<equiv> mgrStatus (w_mgrs w ! m) \<noteq> SRV_STATUS_OK"

lemma pool_get_eq:
  assumes "poolInfo pool = None"
  shows "pool_get i ms taken pool w =
    (let b = length (takeWhile (failed w) ms)
     in if b < length ms \<and> (b = 0 \<or> i + int b < maxIdle pool sdiv 2)
        then Some (Inr (ms ! b), pool\<lparr>conns := drop (Suc b) ms @ rev (take (Suc b) ms) @ taken\<rparr>, w) else None)"
proof (induction ms arbitrary: i taken)
  case (Cons m ms)
  show ?case
  proof (cases "failed w m")
    case True
    then show ?thesis using Cons.IH [of "i + 1" "m # taken"] assms by (auto simp: Let_def released algebra_simps)
  next
    case False
    then show ?thesis by (simp add: Let_def released)
  qed
qed simp

text \<open>What the pool offers to the contract of \<open>Conn_Pool\<close>: the successful calls of \<open>Get\<close>.\<close>

definition pool_step :: "TCPConnPool \<times> World \<Rightarrow> (nat \<times> TCPConnPool \<times> World) option" where
  "pool_step s = (case TCPConnPool_Get (fst s) (snd s) of Some (Inr m, pool, w) \<Rightarrow> Some (m, pool, w) | _ \<Rightarrow> None)"

lemma mset_pool_get: "pool_get i ms taken pool w = Some (r, pool', w') \<Longrightarrow>
    mset (conns pool') = mset ms + mset taken \<and> (\<forall>m. r = Inr m \<longrightarrow> m \<in> set ms)"
  by (induction i ms taken pool w rule: pool_get.induct) (auto simp: Let_def released split: if_splits Option.bind_splits)

interpretation tcp_pool: conn_pool pool_step "\<lambda>s. conns (fst s)"
proof
  fix s s' c
  assume "pool_step s = Some (c, s')"
  then have "pool_get 0 (conns (fst s)) [] (fst s) (snd s) = Some (Inr c, fst s', snd s')"
    by (auto simp: pool_step_def TCPConnPool_Get_def split: option.splits sum.splits)
  from mset_pool_get [OF this] show "mset (conns (fst s')) = mset (conns (fst s))" "c \<in> set (conns (fst s))" by auto
qed

text \<open>
  No number of successful calls of \<open>Get\<close> loses a connection or gives out a connection that the pool does not hold: each
  is put back before the call returns.
\<close>

theorem pool_keeps_connections:
  assumes "tcp_pool.gets n (pool, w) = Some (ms, pool', w')"
  shows "mset (conns pool') = mset (conns pool) \<and> set ms \<subseteq> set (conns pool) \<and> length ms = n"
  using tcp_pool.gets_keep [OF assms] by simp

text \<open>
  What \<open>Get\<close> does on a pool made by \<open>NewTCPConnPool\<close> (no server is attached to it). The failed connections at the front
  are skipped; if there is a working one behind fewer than \<open>maxIdle / 2\<close> failed ones, it is given out, and all
  that were taken go to the back in the reverse order; otherwise the call panics by a nil dereference or waits for
  ever. The error \<open>ErrTCPConnPoolGet\<close> is never returned.
\<close>

theorem pool_Get_result:
  assumes "poolInfo pool = None"
  shows "TCPConnPool_Get pool w =
    (let b = length (takeWhile (failed w) (conns pool))
     in if b < length (conns pool) \<and> (b = 0 \<or> int b < maxIdle pool sdiv 2)
        then Some (Inr (conns pool ! b), pool\<lparr>conns := drop (Suc b) (conns pool) @ rev (take (Suc b) (conns pool))\<rparr>, w) else None)"
  using pool_get_eq [OF assms, of 0] by (simp add: TCPConnPool_Get_def Let_def)

lemma Reconnect_without_server:
  assumes "srvInfo (w_mgrs w ! m) = None" "m < length (w_mgrs w)"
  shows "tcpConnReconnect dial m w = (if dial m then None else Some (False, w))"
  using assms by (simp add: tcpConnReconnect_def new_conn_obj_def Let_def)

lemma pool_reconnect_eq:
  assumes "\<forall>m \<in> set ms. m < length (w_mgrs w) \<and> srvInfo (w_mgrs w ! m) = None"
  shows "pool_reconnect dial i ms taken pool w =
    (let b = length (takeWhile (\<lambda>m. failed w m \<and> \<not> dial m) ms); c = nat (max 1 (maxIdle pool sdiv 2 - i))
     in if b < length ms \<and> b < c
        then (if failed w (ms ! b) then None
              else Some (Some (ms ! b), pool\<lparr>conns := drop (Suc b) ms @ rev (take (Suc b) ms) @ taken\<rparr>, w))
        else if c \<le> length ms then Some (None, pool\<lparr>conns := drop c ms @ rev (take c ms) @ taken\<rparr>, w) else None)"
  using assms
proof (induction ms arbitrary: i taken)
  case (Cons m ms)
  show ?case
  proof (cases "failed w m \<and> \<not> dial m")
    case True
    let ?b = "length (takeWhile (\<lambda>m. failed w m \<and> \<not> dial m) ms)"
    show ?thesis
    proof (cases "i + 1 \<ge> maxIdle pool sdiv 2")
      case more: False
      then have c: "nat (max 1 (maxIdle pool sdiv 2 - i)) = Suc (nat (max 1 (maxIdle pool sdiv 2 - (i + 1))))" by auto
      show ?thesis using Cons.IH [of "i + 1" "m # taken"] Cons.prems True more unfolding c
        by (simp add: Let_def released Reconnect_without_server)
    qed (use True Cons.prems in \<open>simp add: Let_def released Reconnect_without_server\<close>)
  next
    case False
    then show ?thesis using Cons.prems by (auto simp: Let_def released Reconnect_without_server)
  qed
qed simp

text \<open>
  What \<open>Reconnect\<close> does on a pool whose connections have no server, as \<open>NewTCPConnPool\<close> makes them. It looks at most at
  \<open>maxIdle / 2\<close> connections (one at least). At the first that works or can be dialled it ends: a working one is
  returned, but a failed one whose dial succeeds makes it panic, so no connection is ever made again. If there
  is none, it returns nil, or waits for ever when the pool holds fewer.
\<close>

theorem pool_Reconnect_result:
  assumes "\<forall>m \<in> set (conns pool). m < length (w_mgrs w) \<and> srvInfo (w_mgrs w ! m) = None"
  shows "TCPConnPool_Reconnect dial pool w =
    (let ms = conns pool; b = length (takeWhile (\<lambda>m. failed w m \<and> \<not> dial m) ms); c = nat (max 1 (maxIdle pool sdiv 2))
     in if b < length ms \<and> b < c
        then (if failed w (ms ! b) then None else Some (Some (ms ! b), pool\<lparr>conns := drop (Suc b) ms @ rev (take (Suc b) ms)\<rparr>, w))
        else if c \<le> length ms then Some (None, pool\<lparr>conns := drop c ms @ rev (take c ms)\<rparr>, w) else None)"
  unfolding TCPConnPool_Reconnect_def Let_def pool_reconnect_eq [OF assms] diff_0_right append_Nil2 by (rule refl)

text \<open>The pool of the witnesses: four connections, the first of which has been closed.\<close>

definition demo_pool :: "(TCPConnPool \<times> World) option" where
  "demo_pool = do { (pool, w) \<leftarrow> NewTCPConnPool 4 False (\<lambda>_. True) w_init; w \<leftarrow> tcpConnClose 5 0 (tcpConnStart 0 w); Some (pool, w) }"

lemma demo_pool_value:
  "\<exists>w. demo_pool = Some (\<lparr>maxIdle = 4, conns = [0, 1, 2, 3], poolInfo = None\<rparr>, w) \<and> length (w_mgrs w) = 4 \<and>
    map (failed w) [0, 1, 2, 3] = [True, False, False, False] \<and> (\<forall>m \<in> {0, 1, 2, 3}. srvInfo (w_mgrs w ! m) = None)"
  by (simp add: demo_pool_def NewTCPConnPool_def pool_conn_def eval_nat_numeral register_defs tcpConnStart_def tcpConnSendAndRecv_def
      tcpConnClose_def Let_def remote_consts)

theorem pool_keeps_connections_witness:
  "\<exists>pool w ms pool' w'. demo_pool = Some (pool, w) \<and> tcp_pool.gets 1 (pool, w) = Some (ms, pool', w') \<and>
    mset (conns pool') = mset (conns pool) \<and> length ms = 1"
proof -
  obtain w where w: "demo_pool = Some (\<lparr>maxIdle = 4, conns = [0, 1, 2, 3], poolInfo = None\<rparr>, w)"
    "map (failed w) [0, 1, 2, 3] = [True, False, False, False]" using demo_pool_value by (elim exE conjE) (rule that, assumption+)
  let ?pool = "\<lparr>maxIdle = 4, conns = [0, 1, 2, 3], poolInfo = None\<rparr>"
  obtain ms pool' w' where g: "tcp_pool.gets 1 (?pool, w) = Some (ms, pool', w')"
    using w(2) by (simp add: pool_step_def pool_get_eq TCPConnPool_Get_def Let_def)
  from pool_keeps_connections [OF this] g w(1) show ?thesis by blast
qed

theorem pool_Get_result_witness:
  "\<exists>pool w pool'. demo_pool = Some (pool, w) \<and> TCPConnPool_Get pool w = Some (Inr 1, pool', w) \<and> conns pool' = [2, 3, 1, 0]"
proof -
  obtain w where w: "demo_pool = Some (\<lparr>maxIdle = 4, conns = [0, 1, 2, 3], poolInfo = None\<rparr>, w)"
    "map (failed w) [0, 1, 2, 3] = [True, False, False, False]" using demo_pool_value by (elim exE conjE) (rule that, assumption+)
  let ?pool = "\<lparr>maxIdle = 4, conns = [0, 1, 2, 3], poolInfo = None\<rparr>"
  have "TCPConnPool_Get ?pool w = Some (Inr 1, ?pool\<lparr>conns := [2, 3, 1, 0]\<rparr>, w)"
    using pool_Get_result [of ?pool w] w(2) by (simp add: Let_def)
  then show ?thesis using w(1) by force
qed

theorem pool_Reconnect_result_witness:
  "\<exists>pool w. demo_pool = Some (pool, w) \<and> TCPConnPool_Reconnect (\<lambda>_. True) pool w = None"
proof -
  obtain w where w: "demo_pool = Some (\<lparr>maxIdle = 4, conns = [0, 1, 2, 3], poolInfo = None\<rparr>, w)" "length (w_mgrs w) = 4"
    "map (failed w) [0, 1, 2, 3] = [True, False, False, False]" "\<forall>m \<in> {0, 1, 2, 3}. srvInfo (w_mgrs w ! m) = None"
    using demo_pool_value by (elim exE conjE) (rule that, assumption+)
  let ?pool = "\<lparr>maxIdle = 4, conns = [0, 1, 2, 3], poolInfo = None\<rparr>"
  have "TCPConnPool_Reconnect (\<lambda>_. True) ?pool w = None"
    using pool_Reconnect_result [of ?pool w "\<lambda>_. True"] w(2-4) by (simp add: Let_def)
  then show ?thesis using w(1) by blast
qed

end
