(* ===== verification/Go_Numbers.thy ===== *)
theory Go_Numbers
  imports Go_Strings
begin

text \<open>
  \<open>strconv.Atoi\<close>, which gives a value even when it fails, and the round trip with \<open>strconv.Itoa\<close>.
\<close>

datatype NumError = ErrSyntax | ErrRange

definition digit :: "char \<Rightarrow> nat option" where
  "digit c = (let d = of_char c in if 48 \<le> d \<and> d \<le> 57 then Some (d - 48) else None)"

fun ParseUint :: "nat \<Rightarrow> bytes \<Rightarrow> NumError + nat" where
  "ParseUint n [] = Inr n"
| "ParseUint n (c # s) =
     (case digit c of
        None \<Rightarrow> Inl ErrSyntax
      | Some d \<Rightarrow> (if n * 10 + d \<ge> 2 ^ 64 then Inl ErrRange else ParseUint (n * 10 + d) s))"

definition Atoi :: "bytes \<Rightarrow> int \<times> NumError option" where
  "Atoi s =
     (let neg = (s \<noteq> [] \<and> hd s = CHR ''-''); digs = (if s \<noteq> [] \<and> hd s \<in> {CHR ''-'', CHR ''+''} then tl s else s)
      in if digs = [] then (0, Some ErrSyntax)
         else (case ParseUint 0 digs of
                 Inl ErrSyntax \<Rightarrow> (0, Some ErrSyntax)
               | Inl ErrRange \<Rightarrow> (if neg then - (2 ^ 63) else 2 ^ 63 - 1, Some ErrRange)
               | Inr n \<Rightarrow>
                   (if \<not> neg \<and> n \<ge> 2 ^ 63 then (2 ^ 63 - 1, Some ErrRange)
                    else if neg \<and> n > 2 ^ 63 then (- (2 ^ 63), Some ErrRange)
                    else (if neg then - int n else int n, None))))"

lemma digit_char: "d < 10 \<Longrightarrow> digit (char_of (48 + d)) = Some d"
  by (simp add: digit_def)

lemma ParseUint_snoc: "ParseUint m s = Inr n \<Longrightarrow> digit c = Some d \<Longrightarrow> n * 10 + d < 2 ^ 64 \<Longrightarrow> ParseUint m (s @ [c]) = Inr (n * 10 + d)"
  by (induction m s rule: ParseUint.induct) (auto split: option.splits if_splits)

lemma ParseUint_digits: "n < 2 ^ 64 \<Longrightarrow> ParseUint 0 (digits n) = Inr n"
proof (induction n rule: digits.induct)
  case (1 n)
  show ?case
  proof (cases "n < 10")
    case True
    then show ?thesis by (simp add: digits.simps [of n] digit_char)
  next
    case False
    then have "ParseUint 0 (digits (n div 10)) = Inr (n div 10)" using 1 by simp
    moreover have "n div 10 * 10 + n mod 10 = n" by simp
    ultimately have "ParseUint 0 (digits (n div 10) @ [char_of (48 + n mod 10)]) = Inr n"
      using ParseUint_snoc [of 0 "digits (n div 10)" "n div 10" "char_of (48 + n mod 10)" "n mod 10"] 1(2) digit_char [of "n mod 10"]
      by simp
    then show ?thesis using False by (simp add: digits.simps [of n])
  qed
qed

lemma digits_hd: "digits n \<noteq> [] \<and> hd (digits n) \<notin> {CHR ''-'', CHR ''+''}"
proof (induction n rule: digits.induct)
  case (1 n)
  show ?case
  proof (cases "n < 10")
    case True
    then have "char_of (48 + n) \<noteq> CHR ''-''" "char_of (48 + n) \<noteq> CHR ''+''"
      by (auto dest!: arg_cong [where f = "of_char :: char \<Rightarrow> nat"])
    then show ?thesis using True by (simp add: digits.simps [of n])
  next
    case False
    then show ?thesis using 1 by (simp add: digits.simps [of n])
  qed
qed

lemma Atoi_itoa:
  assumes "- (2 ^ 63) \<le> i" and "i < 2 ^ 63"
  shows "Atoi (itoa i) = (i, None)"
proof (cases "i < 0")
  case True
  then have "nat (- i) \<le> 2 ^ 63" using assms(1) by simp
  then have "ParseUint 0 (digits (nat (- i))) = Inr (nat (- i))" by (intro ParseUint_digits) simp
  then show ?thesis using True \<open>nat (- i) \<le> 2 ^ 63\<close> digits_hd [of "nat (- i)"] by (simp add: Atoi_def itoa_def Let_def)
next
  case False
  then have "nat i < 2 ^ 63" using assms(2) by simp
  then have "ParseUint 0 (digits (nat i)) = Inr (nat i)" by (intro ParseUint_digits) simp
  then show ?thesis using False \<open>nat i < 2 ^ 63\<close> digits_hd [of "nat i"] by (simp add: Atoi_def itoa_def Let_def)
qed

lemma itoa_inj:
  assumes "itoa i = itoa j" "- (2 ^ 63) \<le> i" "i < 2 ^ 63" "- (2 ^ 63) \<le> j" "j < 2 ^ 63"
  shows "i = j"
proof -
  have "Atoi (itoa i) = (i, None)" using assms(2,3) by (rule Atoi_itoa)
  moreover have "Atoi (itoa j) = (j, None)" using assms(4,5) by (rule Atoi_itoa)
  ultimately have "(i, None :: NumError option) = (j, None)" unfolding assms(1) by (rule subst)
  then show ?thesis by simp
qed

end
