(* ===== verification/Xman_Log.thy ===== *)
theory Xman_Log
  imports Go_Numbers
begin

text \<open>
  The log files of \<open>logs/xman_log.go\<close>: a log that is renamed to numbered archives when it is too large, or to an
  archive with the date when the day is over.

  The file system is a directory from paths to nodes and a table of their contents, since a file keeps its content when it is renamed.
  Calls that the operating system may refuse ask a record of permissions. The time of day does not
  matter, so the clock is a day; \<open>time.Parse\<close> of \<open>time.Format\<close> is that day. The stamp that \<open>log.Logger\<close> puts before a message
  is given with the message. A goroutine \<open>fileMonitor\<close> does its check and then what follows in two steps, since
  it asks for the mutex between them; every other operation is one step, under the mutex.

  Shown: with numbered archives, nothing that is logged gets lost on the way into the archives, and the archives hold
  the last files in a ring; the files with a date are renamed only when the archive already exists, which is then lost. Both follow
  from \<open>ifExistFile\<close>, which is true for files that do not exist.
\<close>

section \<open>Files\<close>

record Fs =
  dirent :: "bytes \<Rightarrow> nat option"
  nodes :: "bytes list"

record Permit =
  p_stat :: "bytes \<Rightarrow> bool"
  p_open :: "bytes \<Rightarrow> bool"
  p_create :: "bytes \<Rightarrow> bool"
  p_rename :: "bytes \<Rightarrow> bool"
  p_remove :: "bytes \<Rightarrow> bool"

definition all_permitted :: Permit where
  "all_permitted = \<lparr>p_stat = (\<lambda>_. True), p_open = (\<lambda>_. True), p_create = (\<lambda>_. True), p_rename = (\<lambda>_. True), p_remove = (\<lambda>_. True)\<rparr>"

text \<open>What a path holds.\<close>

definition file_at :: "Fs \<Rightarrow> bytes \<Rightarrow> bytes option" where
  "file_at fs path = map_option (\<lambda>n. nodes fs ! n) (dirent fs path)"

definition os_Stat :: "Permit \<Rightarrow> Fs \<Rightarrow> bytes \<Rightarrow> bytes option" where
  "os_Stat perm fs path = (if p_stat perm path then file_at fs path else None)"

definition new_file :: "Fs \<Rightarrow> bytes \<Rightarrow> nat \<times> Fs" where
  "new_file fs path = (length (nodes fs), fs\<lparr>dirent := (dirent fs)(path \<mapsto> length (nodes fs)), nodes := nodes fs @ [[]]\<rparr>)"

text \<open>With the flags \<open>O_RDWR|O_APPEND|O_CREATE\<close>.\<close>

definition os_OpenFile :: "Permit \<Rightarrow> Fs \<Rightarrow> bytes \<Rightarrow> nat option \<times> Fs" where
  "os_OpenFile perm fs path =
     (if \<not> p_open perm path then (None, fs)
      else (case dirent fs path of Some n \<Rightarrow> (Some n, fs) | None \<Rightarrow> map_prod Some id (new_file fs path)))"

definition os_Create :: "Permit \<Rightarrow> Fs \<Rightarrow> bytes \<Rightarrow> nat option \<times> Fs" where
  "os_Create perm fs path =
     (if \<not> p_create perm path then (None, fs)
      else (case dirent fs path of
              Some n \<Rightarrow> (Some n, fs\<lparr>nodes := (nodes fs)[n := []]\<rparr>)
            | None \<Rightarrow> map_prod Some id (new_file fs path)))"

definition os_Rename :: "Permit \<Rightarrow> Fs \<Rightarrow> bytes \<Rightarrow> bytes \<Rightarrow> bool \<times> Fs" where
  "os_Rename perm fs old new =
     (case dirent fs old of
        Some n \<Rightarrow> (if p_rename perm old then (True, fs\<lparr>dirent := (dirent fs)(old := None, new \<mapsto> n)\<rparr>) else (False, fs))
      | None \<Rightarrow> (False, fs))"

definition os_Remove :: "Permit \<Rightarrow> Fs \<Rightarrow> bytes \<Rightarrow> Fs" where
  "os_Remove perm fs path = (if p_remove perm path then fs\<lparr>dirent := (dirent fs)(path := None)\<rparr> else fs)"

text \<open>Writing to a file that could not be opened fails, and the logger does not say so.\<close>

definition file_Write :: "Fs \<Rightarrow> nat option \<Rightarrow> bytes \<Rightarrow> Fs" where
  "file_Write fs h s = (case h of Some n \<Rightarrow> fs\<lparr>nodes := (nodes fs)[n := nodes fs ! n @ s]\<rparr> | None \<Rightarrow> fs)"

section \<open>The state\<close>

definition LOG_DEFAULT :: int where "LOG_DEFAULT = 0"
definition LOG_ERROR :: int where "LOG_ERROR = 1"

definition levels :: "bytes list" where
  "levels = [''[DEFAULT]'', ''[ERROR]'', ''[DEBUG]'', ''[NETWORK]'', ''[ALL]'']"

text \<open>\<open>lg\<close> is \<^term>\<open>None\<close> for a nil logger, and otherwise the file of the logger.\<close>

record LogFileInfo =
  dir :: bytes
  filename :: bytes
  fileSuffix :: int
  fileDate :: "int option"
  logfile :: "nat option"
  lg :: "nat option option"

record LoggerInfo =
  logLevel :: int
  maxFileSize :: int
  maxFileCount :: int
  dailyRolling :: bool
  RollingFile :: bool
  logObj :: "LogFileInfo option"

text \<open>The variable \<open>LogInfo\<close>, the files, the clock, and for each \<open>fileMonitor\<close> whether its check has said that it must rename.\<close>

record LogState =
  LogInfo :: LoggerInfo
  files :: Fs
  today :: int
  monitors :: "bool list"

definition log_init :: "LoggerInfo" where
  "log_init = \<lparr>logLevel = LOG_DEFAULT, maxFileSize = 0, maxFileCount = 0, dailyRolling = True, RollingFile = False, logObj = None\<rparr>"

definition SetLogLevel :: "int \<Rightarrow> LogState \<Rightarrow> LogState" where
  "SetLogLevel level st = st\<lparr>LogInfo := (LogInfo st)\<lparr>logLevel := level\<rparr>\<rparr>"

section \<open>Renaming\<close>

definition base_path :: "LogFileInfo \<Rightarrow> bytes" where
  "base_path l = dir l @ ''/'' @ filename l"

definition archive_path :: "LogFileInfo \<Rightarrow> int \<Rightarrow> bytes" where
  "archive_path l i = base_path l @ ''.'' @ itoa i"

definition getFileSize :: "Permit \<Rightarrow> Fs \<Rightarrow> bytes \<Rightarrow> int" where
  "getFileSize perm fs path = (case os_Stat perm fs path of None \<Rightarrow> 0 | Some s \<Rightarrow> int (length s))"

text \<open>\<open>err != nil || os.IsExist(err)\<close>; \<open>os.IsExist(nil)\<close> is false.\<close>

definition ifExistFile :: "Permit \<Rightarrow> Fs \<Rightarrow> bytes \<Rightarrow> bool" where
  "ifExistFile perm fs path \<longleftrightarrow> os_Stat perm fs path = None"

text \<open>\<^term>\<open>None\<close> is the nil dereference of \<open>fileDate\<close>.\<close>

definition ifMustRename :: "Permit \<Rightarrow> LogState \<Rightarrow> LogFileInfo \<Rightarrow> bool option" where
  "ifMustRename perm st l =
     (if dailyRolling (LogInfo st) then map_option (\<lambda>d. today st > d) (fileDate l)
      else Some (maxFileCount (LogInfo st) > 1 \<and> getFileSize perm (files st) (base_path l) \<ge> maxFileSize (LogInfo st)))"

definition set_log :: "LogFileInfo \<Rightarrow> Fs \<Rightarrow> LogState \<Rightarrow> LogState" where
  "set_log l fs st = st\<lparr>LogInfo := (LogInfo st)\<lparr>logObj := Some l\<rparr>, files := fs\<rparr>"

text \<open>The remainder by zero panics.\<close>

definition nextSuffix :: "LogState \<Rightarrow> LogFileInfo \<Rightarrow> int option" where
  "nextSuffix st l = (let n = maxFileCount (LogInfo st) in if n = 0 then None else Some (fileSuffix l smod n + 1))"

definition coverNextOne :: "Permit \<Rightarrow> LogFileInfo \<Rightarrow> LogState \<Rightarrow> LogState option" where
  "coverNextOne perm l st =
     do { suffix \<leftarrow> nextSuffix st l;
          let l = l\<lparr>fileSuffix := suffix\<rparr>; fs = files st;
              newFileName = archive_path l suffix;
              fs = (if ifExistFile perm fs newFileName then os_Remove perm fs newFileName else fs);
              fs = snd (os_Rename perm fs (base_path l) newFileName);
              (f, fs) = os_Create perm fs (base_path l)
          in Some (set_log (l\<lparr>logfile := f, lg := Some f\<rparr>) fs st) }"

text \<open>\<open>date\<close> formats a day. A message that the renaming failed goes to the logger of the closed file and is lost.\<close>

definition rename :: "Permit \<Rightarrow> (int \<Rightarrow> bytes) \<Rightarrow> LogFileInfo \<Rightarrow> LogState \<Rightarrow> LogState option" where
  "rename perm date l st =
     (if dailyRolling (LogInfo st) then
        do { d \<leftarrow> fileDate l;
             let fn = base_path l @ ''.'' @ date d;
             must \<leftarrow> ifMustRename perm st l;
             Some (if \<not> ifExistFile perm (files st) fn \<and> must then
                     (let fs = snd (os_Rename perm (files st) (base_path l) fn);
                          l = l\<lparr>fileDate := Some (today st)\<rparr>;
                          (f, fs) = os_Create perm fs (base_path l)
                      in set_log (l\<lparr>logfile := f, lg := Some f\<rparr>) fs st)
                   else st) }
      else coverNextOne perm l st)"

text \<open>The two steps of \<open>fileCheck\<close>; a panic of the first is recovered.\<close>

definition check_test :: "Permit \<Rightarrow> LogState \<Rightarrow> bool" where
  "check_test perm st = (case logObj (LogInfo st) of None \<Rightarrow> False | Some l \<Rightarrow> ifMustRename perm st l = Some True)"

definition check_act :: "Permit \<Rightarrow> (int \<Rightarrow> bytes) \<Rightarrow> LogState \<Rightarrow> LogState" where
  "check_act perm date st =
     (case logObj (LogInfo st) of None \<Rightarrow> st
      | Some l \<Rightarrow> (case rename perm date l st of None \<Rightarrow> st | Some st \<Rightarrow> st))"

definition fileCheck :: "Permit \<Rightarrow> (int \<Rightarrow> bytes) \<Rightarrow> LogState \<Rightarrow> LogState" where
  "fileCheck perm date st = (if check_test perm st then check_act perm date st else st)"

section \<open>Setting up and logging\<close>

fun count_suffix :: "Permit \<Rightarrow> Fs \<Rightarrow> LogFileInfo \<Rightarrow> int \<Rightarrow> nat \<Rightarrow> int" where
  "count_suffix perm fs l i 0 = fileSuffix l"
| "count_suffix perm fs l i (Suc n) =
     (if ifExistFile perm fs (archive_path l i) then count_suffix perm fs (l\<lparr>fileSuffix := i\<rparr>) (i + 1) n else fileSuffix l)"

definition open_or_rename :: "Permit \<Rightarrow> (int \<Rightarrow> bytes) \<Rightarrow> LogFileInfo \<Rightarrow> LogState \<Rightarrow> LogState option" where
  "open_or_rename perm date l st =
     do { must \<leftarrow> ifMustRename perm st l;
          if \<not> must then
            (let (f, fs) = os_OpenFile perm (files st) (base_path l) in Some (set_log (l\<lparr>logfile := f, lg := Some f\<rparr>) fs st))
          else rename perm date l (set_log l (files st) st) }"

text \<open>\<open>unit\<close> is 1 shifted to the left by 10, 20, 30 or 40.\<close>

definition SetRollingFile :: "Permit \<Rightarrow> (int \<Rightarrow> bytes) \<Rightarrow> bytes \<Rightarrow> bytes \<Rightarrow> int \<Rightarrow> int \<Rightarrow> int \<Rightarrow> LogState \<Rightarrow> LogState option" where
  "SetRollingFile perm date fileDir fileName maxCount maxSize unit st =
     (let st = st\<lparr>LogInfo := (LogInfo st)\<lparr>maxFileCount := maxCount, maxFileSize := wrap64 (maxSize * unit), RollingFile := True,
                                           dailyRolling := False\<rparr>\<rparr>;
          l = \<lparr>dir = fileDir, filename = fileName, fileSuffix = 0, fileDate = None, logfile = None, lg = None\<rparr>;
          l = l\<lparr>fileSuffix := count_suffix perm (files st) l 1 (nat maxCount)\<rparr>
      in do { st \<leftarrow> open_or_rename perm date l st; Some (st\<lparr>monitors := monitors st @ [False]\<rparr>) })"

definition SetRollingDaily :: "Permit \<Rightarrow> (int \<Rightarrow> bytes) \<Rightarrow> bytes \<Rightarrow> bytes \<Rightarrow> LogState \<Rightarrow> LogState option" where
  "SetRollingDaily perm date fileDir fileName st =
     (let st = st\<lparr>LogInfo := (LogInfo st)\<lparr>RollingFile := False, dailyRolling := True\<rparr>\<rparr>
      in open_or_rename perm date
           \<lparr>dir = fileDir, filename = fileName, fileSuffix = 0, fileDate = Some (today st), logfile = None, lg = None\<rparr> st)"

text \<open>
  Both \<open>Log\<close> and \<open>Logf\<close>. Without a log object they panic; a level that is not in the table panics too, but that is recovered.
\<close>

definition log_message :: "Permit \<Rightarrow> (int \<Rightarrow> bytes) \<Rightarrow> int \<Rightarrow> (bytes \<Rightarrow> bytes) \<Rightarrow> bytes \<Rightarrow> LogState \<Rightarrow> LogState option" where
  "log_message perm date level text stamp st =
     do { l \<leftarrow> logObj (LogInfo st);
          if lg l = None then Some st
          else do { let st = (if dailyRolling (LogInfo st) then fileCheck perm date st else st);
                    l \<leftarrow> logObj (LogInfo st);
                    Some (case idx levels level of
                            Some lv \<Rightarrow>
                              (if logLevel (LogInfo st) \<ge> level then
                                 (case lg l of
                                    Some h \<Rightarrow> (let s = stamp @ text lv in st\<lparr>files := file_Write (files st) h (if s \<noteq> [] \<and> last s = CHR 0x0A then s else s @ nl)\<rparr>)
                                  | None \<Rightarrow> st)
                               else st)
                          | None \<Rightarrow> st) } }"

text \<open>\<open>v\<close> is the text of the arguments as \<open>fmt.Sprint\<close> writes the slice that holds them.\<close>

definition Log :: "Permit \<Rightarrow> (int \<Rightarrow> bytes) \<Rightarrow> int \<Rightarrow> bytes \<Rightarrow> bytes \<Rightarrow> LogState \<Rightarrow> LogState option" where
  "Log perm date level v stamp st = log_message perm date level (\<lambda>lv. lv @ v) stamp st"

definition Logf :: "Permit \<Rightarrow> (int \<Rightarrow> bytes) \<Rightarrow> (bytes \<Rightarrow> 'a list \<Rightarrow> bytes) \<Rightarrow> int \<Rightarrow> bytes \<Rightarrow> 'a list \<Rightarrow> bytes \<Rightarrow> LogState \<Rightarrow> LogState option" where
  "Logf perm date Sprintf level format a stamp st = log_message perm date level (\<lambda>lv. Sprintf (lv @ format) a) stamp st"

text \<open>What can happen to a log.\<close>

datatype LogEvent = Logged int bytes bytes | Tested nat | Acted nat | Midnight

fun log_step :: "Permit \<Rightarrow> (int \<Rightarrow> bytes) \<Rightarrow> LogEvent \<Rightarrow> LogState \<Rightarrow> LogState option" where
  "log_step perm date (Logged level v stamp) st = Log perm date level v stamp st"
| "log_step perm date (Tested k) st = Some (st\<lparr>monitors := (monitors st)[k := check_test perm st]\<rparr>)"
| "log_step perm date (Acted k) st =
     Some (if k < length (monitors st) \<and> monitors st ! k then (check_act perm date st)\<lparr>monitors := (monitors st)[k := False]\<rparr> else st)"
| "log_step perm date Midnight st = Some (st\<lparr>today := today st + 1\<rparr>)"

fun log_run :: "Permit \<Rightarrow> (int \<Rightarrow> bytes) \<Rightarrow> LogEvent list \<Rightarrow> LogState \<Rightarrow> LogState option" where
  "log_run perm date [] st = Some st"
| "log_run perm date (ev # evs) st = do { st \<leftarrow> log_step perm date ev st; log_run perm date evs st }"


section \<open>Laws of the files\<close>

definition fs_ok :: "Fs \<Rightarrow> bool" where
  "fs_ok fs \<longleftrightarrow> (\<forall>p n. dirent fs p = Some n \<longrightarrow> n < length (nodes fs)) \<and> (\<forall>p q n. dirent fs p = Some n \<and> dirent fs q = Some n \<longrightarrow> p = q)"

lemma fs_okD: "fs_ok fs \<Longrightarrow> dirent fs p = Some n \<Longrightarrow> n < length (nodes fs)"
  "fs_ok fs \<Longrightarrow> dirent fs p = Some n \<Longrightarrow> dirent fs q = Some n \<Longrightarrow> p = q"
  unfolding fs_ok_def by blast+

lemma permitted [simp]: "os_Stat all_permitted fs p = file_at fs p" "p_open all_permitted p" "p_create all_permitted p"
  "p_rename all_permitted p" "p_remove all_permitted p"
  by (simp_all add: os_Stat_def all_permitted_def)

lemma file_at_None [simp]: "file_at fs p = None \<longleftrightarrow> dirent fs p = None"
  by (simp add: file_at_def)

lemma new_file_spec:
  assumes "fs_ok fs" "dirent fs b = None" "new_file fs b = (f, fs')"
  shows "fs_ok fs'" "dirent fs' b = Some f" "file_at fs' b = Some []" "p \<noteq> b \<Longrightarrow> file_at fs' p = file_at fs p"
proof -
  have n: "dirent fs q = Some k \<Longrightarrow> k < length (nodes fs)" for q k by (rule fs_okD(1) [OF assms(1)])
  then have n': "dirent fs q \<noteq> Some (length (nodes fs))" for q by blast
  show "fs_ok fs'" using assms n n' by (auto simp: fs_ok_def new_file_def less_Suc_eq split: if_splits)
  show "dirent fs' b = Some f" "file_at fs' b = Some []" using assms by (auto simp: new_file_def file_at_def)
  show "file_at fs' p = file_at fs p" if "p \<noteq> b"
    using that assms(3) n [of p] by (cases "dirent fs p") (auto simp: new_file_def file_at_def nth_append)
qed

lemma Write_spec:
  assumes "fs_ok fs" "dirent fs b = Some h"
  shows "fs_ok (file_Write fs (Some h) s)" "file_at (file_Write fs (Some h) s) b = map_option (\<lambda>c. c @ s) (file_at fs b)"
    "p \<noteq> b \<Longrightarrow> file_at (file_Write fs (Some h) s) p = file_at fs p" "dirent (file_Write fs (Some h) s) = dirent fs"
proof -
  show "fs_ok (file_Write fs (Some h) s)" using assms(1) by (simp add: fs_ok_def file_Write_def)
  show "file_at (file_Write fs (Some h) s) b = map_option (\<lambda>c. c @ s) (file_at fs b)"
    using assms fs_okD(1) [OF assms] by (simp add: file_at_def file_Write_def)
  show "file_at (file_Write fs (Some h) s) p = file_at fs p" if "p \<noteq> b"
  proof -
    have "dirent fs p \<noteq> Some h" using that fs_okD(2) [OF assms(1)] assms(2) by blast
    then show ?thesis by (cases "dirent fs p") (auto simp: file_at_def file_Write_def)
  qed
qed (simp add: file_Write_def)

text \<open>Renaming the log to an archive and creating it again.\<close>

lemma roll_files:
  assumes ok: "fs_ok fs" and b: "dirent fs b = Some h" and ab: "a \<noteq> b" and c: "os_Create all_permitted (snd (os_Rename all_permitted fs b a)) b = (f, fs')"
  shows "fs_ok fs'" "f \<noteq> None" "dirent fs' b = f" "file_at fs' b = Some []" "file_at fs' a = file_at fs b"
    "p \<noteq> a \<Longrightarrow> p \<noteq> b \<Longrightarrow> file_at fs' p = file_at fs p"
proof -
  let ?g = "fs\<lparr>dirent := (dirent fs)(b := None, a \<mapsto> h)\<rparr>"
  have g: "snd (os_Rename all_permitted fs b a) = ?g" using b by (simp add: os_Rename_def)
  have "dirent fs p \<noteq> Some h" if "p \<noteq> b" for p using fs_okD(2) [OF ok] b that by blast
  then have gok: "fs_ok ?g" using ok b ab unfolding fs_ok_def by (auto split: if_splits)
  have gb: "dirent ?g b = None" using ab by simp
  obtain n fs'' where n: "new_file ?g b = (n, fs'')" by fastforce
  have "f = Some n" "fs' = fs''" using c n gb unfolding g os_Create_def by auto
  with new_file_spec [OF gok gb n] show "fs_ok fs'" "f \<noteq> None" "dirent fs' b = f" "file_at fs' b = Some []" by simp_all
  note same = new_file_spec(4) [OF gok gb n, folded \<open>fs' = fs''\<close>]
  show "file_at fs' a = file_at fs b" using same [OF ab] b by (simp add: file_at_def)
  show "file_at fs' p = file_at fs p" if "p \<noteq> a" "p \<noteq> b" using same [OF that(2)] that by (simp add: file_at_def)
qed

lemma open_spec:
  assumes "fs_ok fs" "os_OpenFile all_permitted fs b = (f, fs')"
  shows "fs_ok fs'" "f \<noteq> None" "dirent fs' b = f" "file_at fs' b = Some (case file_at fs b of None \<Rightarrow> [] | Some c \<Rightarrow> c)"
    "p \<noteq> b \<Longrightarrow> file_at fs' p = file_at fs p"
proof -
  let ?c = "case file_at fs b of None \<Rightarrow> [] | Some c \<Rightarrow> c"
  have "fs_ok fs' \<and> f \<noteq> None \<and> dirent fs' b = f \<and> file_at fs' b = Some ?c \<and> (\<forall>p. p \<noteq> b \<longrightarrow> file_at fs' p = file_at fs p)"
  proof (cases "dirent fs b")
    case None
    obtain n fs'' where n: "new_file fs b = (n, fs'')" by fastforce
    then have eq: "f = Some n" "fs' = fs''" using assms(2) None by (auto simp: os_OpenFile_def)
    have "?c = []" using None by (simp add: file_at_def)
    then show ?thesis using new_file_spec [OF assms(1) None n] eq by simp
  next
    case (Some n)
    then have "f = Some n" "fs' = fs" using assms(2) by (auto simp: os_OpenFile_def)
    then show ?thesis using Some assms(1) by (simp add: file_at_def)
  qed
  then show "fs_ok fs'" "f \<noteq> None" "dirent fs' b = f" "file_at fs' b = Some ?c" "p \<noteq> b \<Longrightarrow> file_at fs' p = file_at fs p" by blast+
qed

section \<open>Archives with a number\<close>

text \<open>What a message adds to the log.\<close>

definition message :: "int \<Rightarrow> LogEvent \<Rightarrow> bytes" where
  "message threshold ev =
     (case ev of
        Logged level v stamp \<Rightarrow>
          (case idx levels level of
             Some lv \<Rightarrow> (if threshold \<ge> level then (let s = stamp @ lv @ v in if s \<noteq> [] \<and> last s = CHR 0x0A then s else s @ nl) else [])
           | None \<Rightarrow> [])
      | _ \<Rightarrow> [])"

text \<open>
  The abstract log: the files that have been rolled, in order, the current one, and what the check has said. \<open>n\<close> is the number of
  archives, \<open>m\<close> the largest size.
\<close>

fun roll_spec :: "int \<Rightarrow> int \<Rightarrow> int \<Rightarrow> LogEvent \<Rightarrow> bytes list \<times> bytes \<times> bool \<Rightarrow> bytes list \<times> bytes \<times> bool" where
  "roll_spec threshold n m (Logged level v stamp) (rolled, cur, must) = (rolled, cur @ message threshold (Logged level v stamp), must)"
| "roll_spec threshold n m (Tested k) (rolled, cur, must) = (rolled, cur, if k = 0 then n > 1 \<and> int (length cur) \<ge> m else must)"
| "roll_spec threshold n m (Acted k) (rolled, cur, must) = (if k = 0 \<and> must then (rolled @ [cur], [], False) else (rolled, cur, must))"
| "roll_spec threshold n m Midnight s = s"

text \<open>The number of the archive for the roll \<open>j\<close>, and the suffix after \<open>k\<close> rolls.\<close>

definition slot :: "int \<Rightarrow> int \<Rightarrow> nat \<Rightarrow> int" where
  "slot n s0 j = (s0 + int j) mod n + 1"

definition suffix_after :: "int \<Rightarrow> int \<Rightarrow> nat \<Rightarrow> int" where
  "suffix_after n s0 k = (if k = 0 then s0 else slot n s0 (k - 1))"

lemma slot_range: "n > 0 \<Longrightarrow> 1 \<le> slot n s0 j \<and> slot n s0 j \<le> n"
proof -
  assume n: "n > 0"
  have "0 \<le> (s0 + int j) mod n" "(s0 + int j) mod n < n" using n by (rule pos_mod_sign, rule pos_mod_bound)
  then show ?thesis unfolding slot_def by linarith
qed

lemma next_slot: "n > 0 \<Longrightarrow> 0 \<le> s0 \<Longrightarrow> suffix_after n s0 k smod n + 1 = slot n s0 k"
proof (cases k)
  case (Suc j)
  assume n: "n > 0" and "0 \<le> s0"
  have "0 \<le> slot n s0 j" using slot_range [OF n, of s0 j] by simp
  then have "slot n s0 j smod n = ((s0 + int j) mod n + 1) mod n" using n by (simp add: smod_nonneg slot_def)
  also have "\<dots> = (s0 + int k) mod n" using mod_add_left_eq [of "s0 + int j" n 1] by (simp add: Suc add.commute add.left_commute)
  finally show ?thesis by (simp add: suffix_after_def Suc slot_def)
qed (simp add: suffix_after_def slot_def smod_nonneg)

lemma slot_differs:
  assumes "j < k" and "k < j + nat n" and "n > 0"
  shows "slot n s0 j \<noteq> slot n s0 k"
proof
  assume "slot n s0 j = slot n s0 k"
  then have "(s0 + int j) mod n = (s0 + int k) mod n" by (simp add: slot_def)
  then have "n dvd int k - int j" by (metis add_diff_cancel_left mod_eq_dvd_iff)
  then show False using assms zdvd_imp_le [of n "int k - int j"] by linarith
qed

lemma base_path_upd [simp]: "base_path (l\<lparr>fileSuffix := i\<rparr>) = base_path l" "base_path (l\<lparr>logfile := f\<rparr>) = base_path l"
  "base_path (l\<lparr>lg := g\<rparr>) = base_path l" "base_path (l\<lparr>fileDate := d\<rparr>) = base_path l"
  "archive_path (l\<lparr>fileSuffix := i\<rparr>) k = archive_path l k" "archive_path (l\<lparr>logfile := f\<rparr>) k = archive_path l k"
  "archive_path (l\<lparr>lg := g\<rparr>) k = archive_path l k"
  by (simp_all add: base_path_def archive_path_def)

lemma archive_not_base [simp]: "archive_path l i \<noteq> base_path l" "base_path l \<noteq> archive_path l i"
  by (simp_all add: archive_path_def)

lemma archive_inj: "archive_path l i = archive_path l k \<Longrightarrow> 0 \<le> i \<Longrightarrow> i < 2 ^ 31 \<Longrightarrow> 0 \<le> k \<Longrightarrow> k < 2 ^ 31 \<Longrightarrow> i = k"
  using itoa_inj [of i k] by (simp add: archive_path_def)

text \<open>How the log stands to the abstract one.\<close>

definition rolling :: "int \<Rightarrow> int \<Rightarrow> int \<Rightarrow> bytes \<Rightarrow> int \<Rightarrow> LogState \<Rightarrow> bytes list \<times> bytes \<times> bool \<Rightarrow> bool" where
  "rolling threshold n m base s0 st = (\<lambda>(rolled, cur, must).
     (\<exists>l h. LogInfo st = \<lparr>logLevel = threshold, maxFileSize = m, maxFileCount = n, dailyRolling = False, RollingFile = True, logObj = Some l\<rparr> \<and>
        base_path l = base \<and> lg l = Some (Some h) \<and> fileSuffix l = suffix_after n s0 (length rolled) \<and> fs_ok (files st) \<and>
        dirent (files st) base = Some h \<and> file_at (files st) base = Some cur \<and> monitors st = [must] \<and> (must \<longrightarrow> n > 1 \<and> int (length cur) \<ge> m) \<and> 0 \<le> s0 \<and>
        n < 2 ^ 31 \<and> (\<forall>j < length rolled. int (length (rolled ! j)) \<ge> m \<and>
           (length rolled \<le> j + nat n \<longrightarrow> file_at (files st) (archive_path l (slot n s0 j)) = Some (rolled ! j)))))"

lemma rolling_Logged:
  assumes "rolling threshold n m base s0 st (rolled, cur, must)"
  shows "\<exists>st'. Log perm date level v stamp st = Some st' \<and>
    rolling threshold n m base s0 st' (rolled, cur @ message threshold (Logged level v stamp), must)"
proof -
  obtain l h where l: "LogInfo st = \<lparr>logLevel = threshold, maxFileSize = m, maxFileCount = n, dailyRolling = False, RollingFile = True, logObj = Some l\<rparr>"
    "base_path l = base" "lg l = Some (Some h)" "fs_ok (files st)" "dirent (files st) base = Some h" "file_at (files st) base = Some cur"
    "fileSuffix l = suffix_after n s0 (length rolled)" "monitors st = [must]" "0 \<le> s0" "n < 2 ^ 31" "must \<longrightarrow> n > 1 \<and> int (length cur) \<ge> m"
    and old: "\<And>j. j < length rolled \<Longrightarrow> int (length (rolled ! j)) \<ge> m"
      "\<And>j. j < length rolled \<Longrightarrow> length rolled \<le> j + nat n \<Longrightarrow> file_at (files st) (archive_path l (slot n s0 j)) = Some (rolled ! j)"
    using assms by (auto simp: rolling_def)
  define s where "s = message threshold (Logged level v stamp)"
  have eq: "Log perm date level v stamp st = Some (st\<lparr>files := file_Write (files st) (Some h) s\<rparr>)"
  proof (cases "\<exists>lv. idx levels level = Some lv \<and> threshold \<ge> level")
    case True
    then show ?thesis using l by (auto simp: Log_def log_message_def s_def message_def Let_def)
  next
    case False
    then have "s = []" by (auto simp: s_def message_def split: option.splits)
    moreover have "file_Write (files st) (Some h) [] = files st" by (simp add: file_Write_def)
    ultimately show ?thesis using False l by (auto simp: Log_def log_message_def split: option.splits)
  qed
  note w = Write_spec [OF l(4,5), where s = s]
  have ab: "archive_path l i \<noteq> base" for i using l(2) archive_not_base(1) [of l i] by simp
  have "rolling threshold n m base s0 (st\<lparr>files := file_Write (files st) (Some h) s\<rparr>) (rolled, cur @ s, must)"
    unfolding rolling_def prod.case
    by (intro exI [of _ l] exI [of _ h] conjI allI impI) (use l w old ab in simp_all)
  then show ?thesis using eq unfolding s_def by blast
qed

lemma rolling_Tested:
  assumes "rolling threshold n m base s0 st (rolled, cur, must)"
  shows "rolling threshold n m base s0 (st\<lparr>monitors := (monitors st)[k := check_test all_permitted st]\<rparr>)
    (roll_spec threshold n m (Tested k) (rolled, cur, must))"
proof (cases k)
  case 0
  have "check_test all_permitted st \<longleftrightarrow> n > 1 \<and> int (length cur) \<ge> m"
    using assms by (auto simp: rolling_def check_test_def ifMustRename_def getFileSize_def)
  then show ?thesis using assms 0 by (auto simp: rolling_def)
next
  case (Suc k')
  then show ?thesis using assms by (auto simp: rolling_def)
qed

lemma rolling_Acted:
  assumes r: "rolling threshold n m base s0 st (rolled, cur, True)"
  shows "rolling threshold n m base s0 ((check_act all_permitted date st)\<lparr>monitors := [False]\<rparr>) (rolled @ [cur], [], False)"
proof -
  obtain l h where l: "LogInfo st = \<lparr>logLevel = threshold, maxFileSize = m, maxFileCount = n, dailyRolling = False, RollingFile = True, logObj = Some l\<rparr>"
    "base_path l = base" "lg l = Some (Some h)" "fileSuffix l = suffix_after n s0 (length rolled)" "fs_ok (files st)"
    "dirent (files st) base = Some h" "file_at (files st) base = Some cur" "n > 1" "0 \<le> s0" "n < 2 ^ 31" "int (length cur) \<ge> m"
    and old: "\<And>j. j < length rolled \<Longrightarrow> int (length (rolled ! j)) \<ge> m"
      "\<And>j. j < length rolled \<Longrightarrow> length rolled \<le> j + nat n \<Longrightarrow> file_at (files st) (archive_path l (slot n s0 j)) = Some (rolled ! j)"
    using r by (auto simp: rolling_def)
  let ?a = "archive_path l (slot n s0 (length rolled))"
  let ?l = "l\<lparr>fileSuffix := slot n s0 (length rolled)\<rparr>"
  have nxt: "nextSuffix st l = Some (slot n s0 (length rolled))" using l next_slot [of n s0 "length rolled"] by (simp add: nextSuffix_def Let_def)
  obtain f fs where c: "os_Create all_permitted (snd (os_Rename all_permitted (files st) base ?a)) base = (f, fs)" by fastforce
  have ab: "?a \<noteq> base" using l(2) archive_not_base(1) [of l] by simp
  note s = roll_files [OF l(5,6) ab c]
  have removed: "ifExistFile all_permitted (files st) ?a \<Longrightarrow> os_Remove all_permitted (files st) ?a = files st"
    by (simp add: ifExistFile_def os_Remove_def fun_upd_idem)
  have "coverNextOne all_permitted l st = Some (set_log (?l\<lparr>logfile := f, lg := Some f\<rparr>) fs st)"
    using nxt c l(2) by (simp add: coverNextOne_def Let_def removed)
  then have eq: "check_act all_permitted date st = set_log (?l\<lparr>logfile := f, lg := Some f\<rparr>) fs st"
    using l(1) by (simp add: check_act_def rename_def)
  obtain g where g: "f = Some g" using s(2) by blast
  have arch: "file_at fs (archive_path l (slot n s0 j)) = Some ((rolled @ [cur]) ! j)"
    if j: "j < length (rolled @ [cur])" "length (rolled @ [cur]) \<le> j + nat n" for j
  proof (cases "j = length rolled")
    case True
    then show ?thesis using s(5) l(7) by simp
  next
    case False
    then have j': "j < length rolled" "length rolled < j + nat n" using j by auto
    have "slot n s0 j \<noteq> slot n s0 (length rolled)" using j' l(8) by (intro slot_differs) auto
    then have "archive_path l (slot n s0 j) \<noteq> ?a"
      using archive_inj [of l "slot n s0 j" "slot n s0 (length rolled)"] slot_range [of n s0] l(8,10) by (smt (verit))
    then have "file_at fs (archive_path l (slot n s0 j)) = file_at (files st) (archive_path l (slot n s0 j))"
      using l(2) archive_not_base(1) [of l] by (intro s(6)) auto
    then show ?thesis using old(2) [of j] j' by (simp add: nth_append)
  qed
  have len: "int (length ((rolled @ [cur]) ! j)) \<ge> m" if "j < length (rolled @ [cur])" for j
    using that old(1) [of j] l(11) by (auto simp: nth_append less_Suc_eq)
  show ?thesis unfolding rolling_def prod.case
    by (intro exI [of _ "?l\<lparr>logfile := f, lg := Some f\<rparr>"] exI [of _ g] conjI allI impI)
      (use l s g arch len in \<open>simp_all add: eq set_log_def suffix_after_def\<close>)
qed

lemma rolling_step:
  assumes "rolling threshold n m base s0 st s"
  shows "\<exists>st'. log_step all_permitted date ev st = Some st' \<and> rolling threshold n m base s0 st' (roll_spec threshold n m ev s)"
proof -
  obtain rolled cur must where s: "s = (rolled, cur, must)" by (cases s)
  have mon: "monitors st = [must]" using assms by (auto simp: rolling_def s)
  show ?thesis
  proof (cases ev)
    case (Logged level v stamp)
    then show ?thesis using rolling_Logged [OF assms [unfolded s], of all_permitted date level v stamp] by (simp add: s)
  next
    case (Tested k)
    then show ?thesis using rolling_Tested [OF assms [unfolded s], of k] by (simp add: s)
  next
    case (Acted k)
    then show ?thesis using rolling_Acted [of threshold n m base s0 st rolled cur date] assms mon by (cases "k = 0 \<and> must") (auto simp: s)
  next
    case Midnight
    then show ?thesis using assms by (simp add: s rolling_def)
  qed
qed

lemma rolling_run:
  assumes "rolling threshold n m base s0 st s"
  shows "\<exists>st'. log_run all_permitted date evs st = Some st' \<and> rolling threshold n m base s0 st' (fold (roll_spec threshold n m) evs s)"
  using assms
proof (induction evs arbitrary: st s)
  case (Cons ev evs)
  obtain st1 where st1: "log_step all_permitted date ev st = Some st1" "rolling threshold n m base s0 st1 (roll_spec threshold n m ev s)"
    using rolling_step [OF Cons.prems, of date ev] by blast
  from Cons.IH [OF st1(2)] st1(1) show ?case by simp
qed simp

lemma roll_spec_text:
  "concat (fst s) @ fst (snd s) = t \<Longrightarrow> concat (fst (roll_spec threshold n m ev s)) @ fst (snd (roll_spec threshold n m ev s)) = t @ message threshold ev"
  by (cases "(threshold, n, m, ev, s)" rule: roll_spec.cases) (auto simp: message_def)

lemma roll_run_text:
  "concat (fst s) @ fst (snd s) = t \<Longrightarrow>
    concat (fst (fold (roll_spec threshold n m) evs s)) @ fst (snd (fold (roll_spec threshold n m) evs s)) = t @ concat (map (message threshold) evs)"
proof (induction evs arbitrary: s t)
  case (Cons ev evs)
  from Cons.IH [OF roll_spec_text [OF Cons.prems]] show ?case by simp
qed simp

lemma count_suffix_range: "0 \<le> fileSuffix l \<Longrightarrow> fileSuffix l < i \<Longrightarrow> fileSuffix l \<le> count_suffix perm fs l i k \<and> count_suffix perm fs l i k < i + int k"
  by (induction perm fs l i k rule: count_suffix.induct) auto

lemma set_log_set_log [simp]: "set_log l fs (set_log l' fs' st) = set_log l fs st"
  by (simp add: set_log_def)

lemma coverNextOne_cong:
  "coverNextOne perm (l\<lparr>lg := g\<rparr>) ((set_log l' (files st) st)\<lparr>monitors := ms\<rparr>) = map_option (\<lambda>s. s\<lparr>monitors := ms\<rparr>) (coverNextOne perm l st)"
  by (simp add: coverNextOne_def nextSuffix_def Let_def set_log_def base_path_def archive_path_def split: prod.splits)

lemma coverNextOne_Some: "maxFileCount (LogInfo st) \<noteq> 0 \<Longrightarrow> \<exists>st'. coverNextOne perm l st = Some st'"
  by (simp add: coverNextOne_def nextSuffix_def Let_def case_prod_beta)

lemma coverNextOne_monitors: "coverNextOne perm l st = Some st' \<Longrightarrow> monitors st' = monitors st"
  by (auto simp: coverNextOne_def Let_def set_log_def split: Option.bind_splits prod.splits)

text \<open>The content of the log when it is set up.\<close>

definition content_at :: "Fs \<Rightarrow> bytes \<Rightarrow> bytes" where
  "content_at fs p = (case file_at fs p of None \<Rightarrow> [] | Some c \<Rightarrow> c)"

lemma rolling_init:
  assumes ok: "fs_ok (files st)" and mon: "monitors st = []" and m: "m = wrap64 (maxSize * unit)" "0 < m" and n: "n < 2 ^ 31"
    and base: "base = fileDir @ ''/'' @ fileName"
    and s0: "s0 = count_suffix all_permitted (files st) \<lparr>dir = fileDir, filename = fileName, fileSuffix = 0, fileDate = None, logfile = None, lg = None\<rparr> 1 (nat n)"
  shows "\<exists>st' rolled cur. SetRollingFile all_permitted date fileDir fileName n maxSize unit st = Some st' \<and>
    rolling (logLevel (LogInfo st)) n m base s0 st' (rolled, cur, False) \<and> concat rolled @ cur = content_at (files st) base"
proof -
  let ?l = "\<lparr>dir = fileDir, filename = fileName, fileSuffix = s0, fileDate = None, logfile = None, lg = None\<rparr>"
  let ?st = "st\<lparr>LogInfo := (LogInfo st)\<lparr>maxFileCount := n, maxFileSize := m, RollingFile := True, dailyRolling := False\<rparr>\<rparr>"
  have b: "base_path ?l = base" by (simp add: base_path_def base)
  have s: "0 \<le> s0" unfolding s0
    using count_suffix_range [of "\<lparr>dir = fileDir, filename = fileName, fileSuffix = 0, fileDate = None, logfile = None, lg = None\<rparr>" 1] by simp
  have set: "SetRollingFile all_permitted date fileDir fileName n maxSize unit st =
      do { st \<leftarrow> open_or_rename all_permitted date ?l ?st; Some (st\<lparr>monitors := monitors st @ [False]\<rparr>) }"
    by (simp add: SetRollingFile_def Let_def s0 m)
  have must: "ifMustRename all_permitted ?st ?l = Some (n > 1 \<and> int (length (content_at (files st) base)) \<ge> m)"
    using m(2) by (auto simp: ifMustRename_def getFileSize_def content_at_def b simp del: file_at_None split: option.splits)
  show ?thesis
  proof (cases "n > 1 \<and> int (length (content_at (files st) base)) \<ge> m")
    case False
    obtain f fs where f: "os_OpenFile all_permitted (files st) base = (f, fs)" by fastforce
    note o = open_spec [OF ok f]
    obtain h where h: "f = Some h" using o(2) by blast
    have o2: "open_or_rename all_permitted date ?l ?st = Some (set_log (?l\<lparr>logfile := f, lg := Some f\<rparr>) fs ?st)"
      using False f by (auto simp: open_or_rename_def must b simp del: LoggerInfo.update_convs)
    have "rolling (logLevel (LogInfo st)) n m base s0 ((set_log (?l\<lparr>logfile := f, lg := Some f\<rparr>) fs ?st)\<lparr>monitors := [False]\<rparr>)
        ([], content_at (files st) base, False)"
      unfolding rolling_def prod.case
      by (intro exI [of _ "?l\<lparr>logfile := f, lg := Some f\<rparr>"] exI [of _ h] conjI allI impI)
        (use o h s n base in \<open>simp_all add: set_log_def suffix_after_def content_at_def base_path_def\<close>)
    then show ?thesis using o2 mon by (force simp: set set_log_def)
  next
    case True
    then have "content_at (files st) base \<noteq> []" using m(2) by auto
    then obtain c where c: "file_at (files st) base = Some c" "content_at (files st) base = c"
      by (cases "file_at (files st) base") (auto simp: content_at_def simp del: file_at_None)
    then obtain h where h: "dirent (files st) base = Some h" "file_at (files st) base = Some (content_at (files st) base)"
      by (cases "dirent (files st) base") (auto simp: file_at_def)
    let ?l1 = "?l\<lparr>lg := Some (Some h)\<rparr>"
    let ?st1 = "(set_log ?l1 (files st) ?st)\<lparr>monitors := [True]\<rparr>"
    have "rolling (logLevel (LogInfo st)) n m base s0 ?st1 ([], content_at (files st) base, True)"
      unfolding rolling_def prod.case
      by (intro exI [of _ ?l1] exI [of _ h] conjI allI impI) (use True h s n base ok in \<open>simp_all add: set_log_def suffix_after_def base_path_def\<close>)
    note r = rolling_Acted [OF this, of date]
    have n0: "n \<noteq> 0" using True by auto
    obtain st2 where st2: "coverNextOne all_permitted ?l ?st = Some st2"
      using coverNextOne_Some [of ?st all_permitted ?l] n0 by auto
    have "(set_log ?l (files ?st) ?st)\<lparr>monitors := monitors ?st\<rparr> = set_log ?l (files ?st) ?st" by (simp add: set_log_def)
    then have "coverNextOne all_permitted ?l (set_log ?l (files ?st) ?st) = Some st2"
      using coverNextOne_cong [where perm = all_permitted and l = ?l and g = None and l' = ?l and st = ?st and ms = "monitors ?st"] st2 coverNextOne_monitors [OF st2] by simp
    then have o2: "open_or_rename all_permitted date ?l ?st = Some st2"
      using True must by (simp add: open_or_rename_def rename_def set_log_def)
    have "coverNextOne all_permitted ?l1 ?st1 = Some (st2\<lparr>monitors := [True]\<rparr>)"
      using coverNextOne_cong [where perm = all_permitted and l = ?l and g = "Some (Some h)" and l' = ?l1 and st = ?st and ms = "[True]"] st2 by simp
    then have "check_act all_permitted date ?st1 = st2\<lparr>monitors := [True]\<rparr>" by (simp add: check_act_def rename_def set_log_def)
    with r have "rolling (logLevel (LogInfo st)) n m base s0 (st2\<lparr>monitors := [False]\<rparr>) ([content_at (files st) base], [], False)" by simp
    moreover have "monitors st2 = []" using coverNextOne_monitors [OF st2] mon by simp
    ultimately show ?thesis using o2 by (force simp: set)
  qed
qed


text \<open>
  C17. The log with numbered archives keeps everything. If the operating system permits everything and rolling by a positive size
  into \<open>n < 2\<^sup>3\<^sup>1\<close> archives is set up once, whatever is logged and whenever the monitor looks, the files that have been rolled and the current file hold, in order, what the log held at first
  and every message of a level that is let through; each rolled file has at least the maximal size; and the last \<open>n\<close> rolled files are in
  the archives, which are used in turn. The first archive used is the one after \<open>s0\<close>, which is 0, whatever other archives there are,
  when there is an archive 1.
\<close>

theorem size_rolling_keeps_everything:
  assumes "fs_ok (files st)" and "monitors st = []" and "m = wrap64 (maxSize * unit)" and "0 < m" and "n < 2 ^ 31"
    and "SetRollingFile all_permitted date fileDir fileName n maxSize unit st = Some st1"
  shows "\<exists>st' rolled cur s0.
    log_run all_permitted date evs st1 = Some st' \<and> file_at (files st') (fileDir @ ''/'' @ fileName) = Some cur \<and>
    concat rolled @ cur = content_at (files st) (fileDir @ ''/'' @ fileName) @ concat (map (message (logLevel (LogInfo st))) evs) \<and>
    0 \<le> s0 \<and> (file_at (files st) (fileDir @ ''/'' @ fileName @ ''.1'') \<noteq> None \<longrightarrow> s0 = 0) \<and>
    (\<forall>j < length rolled. int (length (rolled ! j)) \<ge> m \<and>
      (length rolled \<le> j + nat n \<longrightarrow>
        file_at (files st') (fileDir @ ''/'' @ fileName @ ''.'' @ itoa ((s0 + int j) mod n + 1)) = Some (rolled ! j)))"
proof -
  let ?base = "fileDir @ ''/'' @ fileName"
  let ?l = "\<lparr>dir = fileDir, filename = fileName, fileSuffix = 0, fileDate = None, logfile = None, lg = None\<rparr>"
  define s0 where "s0 = count_suffix all_permitted (files st) ?l 1 (nat n)"
  obtain st2 rolled0 cur0 where 2: "SetRollingFile all_permitted date fileDir fileName n maxSize unit st = Some st2"
    "rolling (logLevel (LogInfo st)) n m ?base s0 st2 (rolled0, cur0, False)" "concat rolled0 @ cur0 = content_at (files st) ?base"
    using rolling_init [OF assms(1-5) refl s0_def, of date] by blast
  have "st2 = st1" using 2(1) assms(6) by simp
  note 0 = 2(2,3) [unfolded this]
  obtain rolled cur must where fin: "fold (roll_spec (logLevel (LogInfo st)) n m) evs (rolled0, cur0, False) = (rolled, cur, must)"
    using prod_cases3 by blast
  obtain st' where st': "log_run all_permitted date evs st1 = Some st'" "rolling (logLevel (LogInfo st)) n m ?base s0 st' (rolled, cur, must)"
    using rolling_run [OF 0(1), of date evs] unfolding fin by blast
  have whole: "concat rolled @ cur = content_at (files st) ?base @ concat (map (message (logLevel (LogInfo st))) evs)"
    using roll_run_text [of "(rolled0, cur0, False)" _ "logLevel (LogInfo st)" n m evs] 0(2) fin by simp
  obtain l where l: "base_path l = ?base" "file_at (files st') ?base = Some cur" "0 \<le> s0"
    "\<forall>j < length rolled. int (length (rolled ! j)) \<ge> m \<and>
      (length rolled \<le> j + nat n \<longrightarrow> file_at (files st') (archive_path l (slot n s0 j)) = Some (rolled ! j))"
    using st'(2) by (auto simp: rolling_def)
  have "archive_path l i = ?base @ ''.'' @ itoa i" for i by (simp add: archive_path_def l(1))
  note arch = l(4) [unfolded this slot_def, simplified]
  have "itoa 1 = ''1''" by code_simp
  then have one: "archive_path ?l 1 = fileDir @ ''/'' @ fileName @ ''.1''" by (simp add: archive_path_def base_path_def)
  have "s0 = 0" if "file_at (files st) (fileDir @ ''/'' @ fileName @ ''.1'') \<noteq> None"
  proof -
    have "\<not> ifExistFile all_permitted (files st) (archive_path ?l 1)" using that unfolding ifExistFile_def one permitted .
    then show ?thesis unfolding s0_def by (cases "nat n") simp_all
  qed
  then show ?thesis using st'(1) l(2,3) whole arch by (intro exI [of _ st'] exI [of _ rolled] exI [of _ cur] exI [of _ s0]) auto
qed

text \<open>The state of the witnesses: an empty file system and no log.\<close>

definition log_start :: LogState where
  "log_start = \<lparr>LogInfo = log_init, files = \<lparr>dirent = (\<lambda>_. None), nodes = []\<rparr>, today = 0, monitors = []\<rparr>"

theorem size_rolling_keeps_everything_witness:
  "\<exists>st1 st' rolled cur. SetRollingFile all_permitted (\<lambda>_. ''day'') ''logs'' ''a'' 2 1 16 log_start = Some st1 \<and>
    log_run all_permitted (\<lambda>_. ''day'') [Logged 0 ''one'' [], Tested 0, Acted 0, Logged 0 ''two'' []] st1 = Some st' \<and>
    file_at (files st') ''logs/a'' = Some cur \<and> concat rolled @ cur = ''[DEFAULT]one'' @ nl @ ''[DEFAULT]two'' @ nl"
proof -
  have ok: "fs_ok (files log_start)" "monitors log_start = []" by (simp_all add: log_start_def fs_ok_def)
  have m: "16 = wrap64 (1 * 16)" by (simp add: wrap64_id)
  have c: "content_at (files log_start) p = []" for p by (simp add: log_start_def content_at_def file_at_def)
  have msgs: "concat (map (message (logLevel (LogInfo log_start))) [Logged 0 ''one'' [], Tested 0, Acted 0, Logged 0 ''two'' []]) =
      ''[DEFAULT]one'' @ nl @ ''[DEFAULT]two'' @ nl"
    by (simp add: message_def log_start_def log_init_def LOG_DEFAULT_def levels_def idx_def nl_def)
  obtain st1 where st1: "SetRollingFile all_permitted (\<lambda>_. ''day'') ''logs'' ''a'' 2 1 16 log_start = Some st1"
    using rolling_init [OF ok m _ _ refl refl, of 2 "\<lambda>_. ''day''" "''logs''" "''a''"] by auto
  from size_rolling_keeps_everything [OF ok m _ _ st1, where evs = "[Logged 0 ''one'' [], Tested 0, Acted 0, Logged 0 ''two'' []]"]
  obtain st' rolled cur where
    "log_run all_permitted (\<lambda>_. ''day'') [Logged 0 ''one'' [], Tested 0, Acted 0, Logged 0 ''two'' []] st1 = Some st'"
    "file_at (files st') (''logs'' @ ''/'' @ ''a'') = Some cur"
    "concat rolled @ cur = content_at (files log_start) (''logs'' @ ''/'' @ ''a'') @
      concat (map (message (logLevel (LogInfo log_start))) [Logged 0 ''one'' [], Tested 0, Acted 0, Logged 0 ''two'' []])"
    by auto
  with st1 show ?thesis unfolding c msgs by auto
qed

section \<open>Archives with a date\<close>

definition daily :: "int \<Rightarrow> bytes \<Rightarrow> int \<Rightarrow> Fs \<Rightarrow> LogState \<Rightarrow> bytes \<Rightarrow> bool" where
  "daily threshold base d fs0 st cur \<longleftrightarrow>
     (\<exists>l h. dailyRolling (LogInfo st) \<and> logLevel (LogInfo st) = threshold \<and> logObj (LogInfo st) = Some l \<and>
        base_path l = base \<and> fileDate l = Some d \<and> lg l = Some (Some h) \<and> fs_ok (files st) \<and> dirent (files st) base = Some h \<and>
        file_at (files st) base = Some cur \<and> (\<forall>p. p \<noteq> base \<longrightarrow> file_at (files st) p = file_at fs0 p))"

text \<open>Nothing is renamed as long as it is the same day or there is no archive yet.\<close>

lemma daily_no_check:
  assumes "daily threshold base d fs0 st cur" and "today st \<le> d \<or> file_at fs0 (base @ ''.'' @ date d) = None"
  shows "check_act all_permitted date st = st" "fileCheck all_permitted date st = st"
proof -
  obtain l where l: "dailyRolling (LogInfo st)" "logObj (LogInfo st) = Some l" "base_path l = base" "fileDate l = Some d"
    "\<forall>p. p \<noteq> base \<longrightarrow> file_at (files st) p = file_at fs0 p" using assms(1) by (auto simp: daily_def)
  have "file_at (files st) (base @ ''.'' @ date d) = file_at fs0 (base @ ''.'' @ date d)" using l(5) by simp
  then have "rename all_permitted date l st = Some st"
    using assms(2) l by (auto simp: rename_def ifMustRename_def ifExistFile_def simp del: file_at_None)
  then show "check_act all_permitted date st = st" using l(2) by (simp add: check_act_def)
  then show "fileCheck all_permitted date st = st" by (simp add: fileCheck_def)
qed

lemma daily_Logged:
  assumes d: "daily threshold base d fs0 st cur" and c: "fileCheck all_permitted date st = st"
  shows "\<exists>st'. Log all_permitted date level v stamp st = Some st' \<and> daily threshold base d fs0 st' (cur @ message threshold (Logged level v stamp)) \<and>
    today st' = today st"
proof -
  obtain l h where l: "dailyRolling (LogInfo st)" "logLevel (LogInfo st) = threshold" "logObj (LogInfo st) = Some l" "base_path l = base"
    "fileDate l = Some d" "lg l = Some (Some h)" "fs_ok (files st)" "dirent (files st) base = Some h" "file_at (files st) base = Some cur"
    "\<forall>p. p \<noteq> base \<longrightarrow> file_at (files st) p = file_at fs0 p" using d by (auto simp: daily_def)
  define s where "s = message threshold (Logged level v stamp)"
  have eq: "Log all_permitted date level v stamp st = Some (st\<lparr>files := file_Write (files st) (Some h) s\<rparr>)"
  proof (cases "\<exists>lv. idx levels level = Some lv \<and> threshold \<ge> level")
    case True
    then show ?thesis using l c by (auto simp: Log_def log_message_def s_def message_def Let_def)
  next
    case False
    then have "s = []" by (auto simp: s_def message_def split: option.splits)
    moreover have "file_Write (files st) (Some h) [] = files st" by (simp add: file_Write_def)
    ultimately show ?thesis using False l c by (auto simp: Log_def log_message_def split: option.splits)
  qed
  note w = Write_spec [OF l(7,8), where s = s]
  have "daily threshold base d fs0 (st\<lparr>files := file_Write (files st) (Some h) s\<rparr>) (cur @ s)"
    unfolding daily_def by (intro exI [of _ l] exI [of _ h] conjI allI impI) (use l w in simp_all)
  then show ?thesis using eq by (simp add: s_def)
qed

lemma daily_run:
  assumes "daily threshold base d fs0 st cur"
    and "file_at fs0 (base @ ''.'' @ date d) = None \<or> today st \<le> d \<and> Midnight \<notin> set evs"
  shows "\<exists>st'. log_run all_permitted date evs st = Some st' \<and> daily threshold base d fs0 st' (cur @ concat (map (message threshold) evs)) \<and>
    (Midnight \<notin> set evs \<longrightarrow> today st' = today st)"
  using assms
proof (induction evs arbitrary: st cur)
  case (Cons ev evs)
  have q: "today st \<le> d \<or> file_at fs0 (base @ ''.'' @ date d) = None" using Cons.prems(2) by auto
  note c = daily_no_check [where date = date, OF Cons.prems(1) q]
  have "\<exists>st1. log_step all_permitted date ev st = Some st1 \<and> daily threshold base d fs0 st1 (cur @ message threshold ev) \<and>
      (ev \<noteq> Midnight \<longrightarrow> today st1 = today st)"
  proof (cases ev)
    case (Logged level v stamp)
    then show ?thesis using daily_Logged [OF Cons.prems(1) c(2), of level v stamp] by simp
  qed (use Cons.prems(1) c(1) in \<open>auto simp: daily_def message_def\<close>)
  then obtain st1 where st1: "log_step all_permitted date ev st = Some st1" "daily threshold base d fs0 st1 (cur @ message threshold ev)"
    "ev \<noteq> Midnight \<Longrightarrow> today st1 = today st" by blast
  have "file_at fs0 (base @ ''.'' @ date d) = None \<or> today st1 \<le> d \<and> Midnight \<notin> set evs" using Cons.prems(2) st1(3) by auto
  from Cons.IH [OF st1(2) this] st1 show ?case by auto
qed simp

lemma daily_roll:
  assumes d: "daily threshold base d fs0 st cur" and t: "today st > d" and a: "file_at fs0 (base @ ''.'' @ date d) \<noteq> None"
  shows "\<exists>fs1 st'. Log all_permitted date level v stamp st = Some st' \<and> daily threshold base (today st) fs1 st' (message threshold (Logged level v stamp)) \<and>
    file_at fs1 (base @ ''.'' @ date d) = Some cur"
proof -
  obtain l h where l: "dailyRolling (LogInfo st)" "logLevel (LogInfo st) = threshold" "logObj (LogInfo st) = Some l" "base_path l = base"
    "fileDate l = Some d" "lg l = Some (Some h)" "fs_ok (files st)" "dirent (files st) base = Some h" "file_at (files st) base = Some cur"
    "\<forall>p. p \<noteq> base \<longrightarrow> file_at (files st) p = file_at fs0 p" using d by (auto simp: daily_def)
  let ?a = "base @ ''.'' @ date d"
  obtain f fs where c: "os_Create all_permitted (snd (os_Rename all_permitted (files st) base ?a)) base = (f, fs)" by fastforce
  have ab: "?a \<noteq> base" by simp
  note s = roll_files [OF l(7,8) ab c]
  obtain g where g: "f = Some g" using s(2) by blast
  let ?l = "l\<lparr>fileDate := Some (today st), logfile := f, lg := Some f\<rparr>"
  have "\<not> ifExistFile all_permitted (files st) ?a" using a l(10) ab by (simp add: ifExistFile_def del: file_at_None)
  then have "rename all_permitted date l st = Some (set_log ?l fs st)" using l t c by (simp add: rename_def ifMustRename_def Let_def)
  then have f: "fileCheck all_permitted date st = set_log ?l fs st"
    using l t by (simp add: fileCheck_def check_test_def check_act_def ifMustRename_def)
  have new: "daily threshold base (today st) fs (set_log ?l fs st) []"
    unfolding daily_def by (intro exI [of _ ?l] exI [of _ g] conjI allI impI) (use l s g in \<open>simp_all add: set_log_def\<close>)
  have "today (set_log ?l fs st) = today st" by (simp add: set_log_def)
  with daily_no_check(2) [OF new] have again: "fileCheck all_permitted date (set_log ?l fs st) = set_log ?l fs st" by simp
  have same: "Log all_permitted date level v stamp st = Log all_permitted date level v stamp (set_log ?l fs st)"
    using l f again by (simp add: Log_def log_message_def) (simp add: set_log_def)
  show ?thesis using daily_Logged [OF new again, of level v stamp] s(5) l(9) unfolding same by auto
qed

lemma daily_init:
  assumes ok: "fs_ok (files st)" and set: "SetRollingDaily all_permitted date fileDir fileName st = Some st1"
  shows "daily (logLevel (LogInfo st)) (fileDir @ ''/'' @ fileName) (today st) (files st) st1 (content_at (files st) (fileDir @ ''/'' @ fileName)) \<and>
    today st1 = today st"
proof -
  let ?base = "fileDir @ ''/'' @ fileName"
  let ?l = "\<lparr>dir = fileDir, filename = fileName, fileSuffix = 0, fileDate = Some (today st), logfile = None, lg = None\<rparr>"
  obtain f fs where f: "os_OpenFile all_permitted (files st) ?base = (f, fs)" by fastforce
  note o = open_spec [OF ok f]
  obtain h where h: "f = Some h" using o(2) by blast
  have st1: "st1 = set_log (?l\<lparr>logfile := f, lg := Some f\<rparr>) fs (st\<lparr>LogInfo := (LogInfo st)\<lparr>RollingFile := False, dailyRolling := True\<rparr>\<rparr>)"
    using set f by (simp add: SetRollingDaily_def open_or_rename_def ifMustRename_def base_path_def)
  have "daily (logLevel (LogInfo st)) ?base (today st) (files st) st1 (content_at (files st) ?base)"
    unfolding daily_def st1 by (intro exI [of _ "?l\<lparr>logfile := f, lg := Some f\<rparr>"] exI [of _ h] conjI allI impI)
      (use o h in \<open>simp_all add: set_log_def base_path_def content_at_def\<close>)
  then show ?thesis by (simp add: st1 set_log_def)
qed

text \<open>
  The log with dated archives. As long as there is no archive with the date of the first day, which is the normal case, the log is
  never renamed: whatever happens, on however many days, everything goes to the one file, and no other file
  changes. Only when that archive exists already, the first message of a later day renames the log: the archive then holds the log of
  the first day, and what it held before is gone.
\<close>

theorem daily_rolling:
  assumes "fs_ok (files st)" and "SetRollingDaily all_permitted date fileDir fileName st = Some st1"
    and "base = fileDir @ ''/'' @ fileName"
  shows "if file_at (files st) (base @ ''.'' @ date (today st)) = None
    then \<exists>st'. log_run all_permitted date evs st1 = Some st' \<and>
      file_at (files st') base = Some (content_at (files st) base @ concat (map (message (logLevel (LogInfo st))) evs)) \<and>
      (\<forall>p. p \<noteq> base \<longrightarrow> file_at (files st') p = file_at (files st) p)
    else Midnight \<notin> set evs \<longrightarrow>
      (\<exists>st'. log_run all_permitted date (evs @ [Midnight, Logged level v stamp]) st1 = Some st' \<and>
        file_at (files st') (base @ ''.'' @ date (today st)) = Some (content_at (files st) base @ concat (map (message (logLevel (LogInfo st))) evs)) \<and>
        file_at (files st') base = Some (message (logLevel (LogInfo st)) (Logged level v stamp)))"
proof -
  let ?t = "logLevel (LogInfo st)"
  let ?a = "base @ ''.'' @ date (today st)"
  note d = daily_init [OF assms(1,2), folded assms(3)]
  show ?thesis
  proof (cases "file_at (files st) ?a = None")
    case True
    then show ?thesis using daily_run [OF d [THEN conjunct1], of date evs] by (auto simp: daily_def simp del: file_at_None)
  next
    case False
    have "\<exists>st'. log_run all_permitted date (evs @ [Midnight, Logged level v stamp]) st1 = Some st' \<and>
        file_at (files st') ?a = Some (content_at (files st) base @ concat (map (message ?t) evs)) \<and>
        file_at (files st') base = Some (message ?t (Logged level v stamp))" if nm: "Midnight \<notin> set evs"
    proof -
      obtain st2 where st2: "log_run all_permitted date evs st1 = Some st2"
        "daily ?t base (today st) (files st) st2 (content_at (files st) base @ concat (map (message ?t) evs))" "today st2 = today st"
      proof -
        have "file_at (files st) ?a = None \<or> today st1 \<le> today st \<and> Midnight \<notin> set evs" using d nm by simp
        from daily_run [where date = date, OF d [THEN conjunct1] this] d nm obtain st2 where
          "log_run all_permitted date evs st1 = Some st2 \<and> daily ?t base (today st) (files st) st2 (content_at (files st) base @ concat (map (message ?t) evs)) \<and>
            today st2 = today st" by auto
        then show ?thesis by (auto intro: that)
      qed
      let ?st3 = "st2\<lparr>today := today st2 + 1\<rparr>"
      have 3: "daily ?t base (today st) (files st) ?st3 (content_at (files st) base @ concat (map (message ?t) evs))"
        using st2(2) by (simp add: daily_def)
      obtain fs1 st' where st': "Log all_permitted date level v stamp ?st3 = Some st'"
        "daily ?t base (today ?st3) fs1 st' (message ?t (Logged level v stamp))"
        "file_at fs1 ?a = Some (content_at (files st) base @ concat (map (message ?t) evs))"
        using daily_roll [where date = date, OF 3 _ False, of level v stamp] st2(3) by auto
      have app: "log_run perm date (xs @ ys) s = do { s \<leftarrow> log_run perm date xs s; log_run perm date ys s }" for perm xs ys s
        by (induction xs arbitrary: s) (simp_all split: Option.bind_splits)
      have "?a \<noteq> base" by simp
      then show ?thesis using st2(1) st' by (auto simp: app daily_def)
    qed
    then show ?thesis unfolding if_not_P [OF False] by blast
  qed
qed

theorem daily_rolling_witness:
  "\<exists>st1 st'. SetRollingDaily all_permitted (\<lambda>_. ''day'') ''logs'' ''a'' log_start = Some st1 \<and>
    log_run all_permitted (\<lambda>_. ''day'') [Logged 0 ''one'' [], Midnight, Midnight, Logged 0 ''two'' []] st1 = Some st' \<and>
    file_at (files st') ''logs/a'' = Some (''[DEFAULT]one'' @ nl @ ''[DEFAULT]two'' @ nl) \<and> file_at (files st') ''logs/a.day'' = None"
proof -
  have ok: "fs_ok (files log_start)" by (simp add: log_start_def fs_ok_def)
  have none: "file_at (files log_start) p = None" for p by (simp add: log_start_def)
  have c: "content_at (files log_start) p = []" for p by (simp add: log_start_def content_at_def file_at_def)
  have msgs: "concat (map (message (logLevel (LogInfo log_start))) [Logged 0 ''one'' [], Midnight, Midnight, Logged 0 ''two'' []]) =
      ''[DEFAULT]one'' @ nl @ ''[DEFAULT]two'' @ nl"
    by (simp add: message_def log_start_def log_init_def LOG_DEFAULT_def levels_def idx_def nl_def)
  have "\<exists>st1. SetRollingDaily all_permitted (\<lambda>_. ''day'') ''logs'' ''a'' log_start = Some st1"
    by (simp add: SetRollingDaily_def open_or_rename_def ifMustRename_def case_prod_beta)
  then obtain st1 where st1: "SetRollingDaily all_permitted (\<lambda>_. ''day'') ''logs'' ''a'' log_start = Some st1" by blast
  from daily_rolling [OF ok st1 refl, of "[Logged 0 ''one'' [], Midnight, Midnight, Logged 0 ''two'' []]" 0 "[]" "[]"]
  obtain st' where
    "log_run all_permitted (\<lambda>_. ''day'') [Logged 0 ''one'' [], Midnight, Midnight, Logged 0 ''two'' []] st1 = Some st'"
    "file_at (files st') (''logs'' @ ''/'' @ ''a'') = Some (''[DEFAULT]one'' @ nl @ ''[DEFAULT]two'' @ nl)"
    "\<forall>p. p \<noteq> ''logs'' @ ''/'' @ ''a'' \<longrightarrow> file_at (files st') p = None"
    unfolding msgs c none if_P [OF refl] by (auto simp del: log_run.simps file_at_None)
  with st1 show ?thesis by (auto simp del: log_run.simps file_at_None)
qed

section \<open>A refused call\<close>

text \<open>
  When the operating system refuses to rename the log, but not to create files, the check of the monitor empties the log: what it held is in no file any
  more, and no error is reported.
\<close>

theorem refused_rename_loses_log:
  assumes "fs_ok (files st)" and "logObj (LogInfo st) = Some l" and "\<not> dailyRolling (LogInfo st)" and "maxFileCount (LogInfo st) > 0"
    and "p_create perm (base_path l)" and "\<not> p_rename perm (base_path l)" and "dirent (files st) (base_path l) = Some h"
  shows "\<exists>l'. logObj (LogInfo (check_act perm date st)) = Some l' \<and> lg l' = Some (Some h) \<and>
    file_at (files (check_act perm date st)) (base_path l) = Some [] \<and>
    (\<forall>p. p \<noteq> base_path l \<longrightarrow> file_at (files (check_act perm date st)) p \<in> {file_at (files st) p, None})"
proof -
  let ?s = "fileSuffix l smod maxFileCount (LogInfo st) + 1"
  define g where "g = (if ifExistFile perm (files st) (archive_path l ?s) then os_Remove perm (files st) (archive_path l ?s) else files st)"
  have fs: "dirent g (base_path l) = Some h" "nodes g = nodes (files st)" "\<And>p. dirent g p \<in> {dirent (files st) p, None}"
    using assms(7) by (auto simp: g_def os_Remove_def)
  have ren: "snd (os_Rename perm g (base_path l) (archive_path l ?s)) = g" using fs(1) assms(6) by (simp add: os_Rename_def)
  have cre: "os_Create perm g (base_path l) = (Some h, g\<lparr>nodes := (nodes g)[h := []]\<rparr>)" using fs(1) assms(5) by (simp add: os_Create_def)
  have nxt: "nextSuffix st l = Some ?s" using assms(4) by (simp add: nextSuffix_def Let_def)
  let ?fs' = "g\<lparr>nodes := (nodes g)[h := []]\<rparr>"
  have "coverNextOne perm l st = Some (set_log (l\<lparr>fileSuffix := ?s, logfile := Some h, lg := Some (Some h)\<rparr>) ?fs' st)"
    unfolding coverNextOne_def nxt bind.bind_lunit Let_def base_path_upd g_def [symmetric] ren cre prod.case by (rule refl)
  then have eq: "check_act perm date st = set_log (l\<lparr>fileSuffix := ?s, logfile := Some h, lg := Some (Some h)\<rparr>) ?fs' st"
    using assms(2,3) by (simp add: check_act_def rename_def)
  have h: "h < length (nodes (files st))" by (rule fs_okD(1) [OF assms(1,7)])
  have "file_at ?fs' (base_path l) = Some []" using fs(1,2) h by (simp add: file_at_def)
  moreover have "file_at ?fs' p \<in> {file_at (files st) p, None}" if "p \<noteq> base_path l" for p
  proof -
    have "dirent (files st) p \<noteq> Some h" using fs_okD(2) [OF assms(1)] assms(7) that by blast
    then show ?thesis using fs(2) fs(3) [of p] by (cases "dirent (files st) p") (auto simp: file_at_def)
  qed
  ultimately show ?thesis unfolding eq by (simp add: set_log_def)
qed

definition example_log :: LogState where
  "example_log = log_start\<lparr>LogInfo := log_init\<lparr>dailyRolling := False, maxFileCount := 2,
       logObj := Some \<lparr>dir = ''d'', filename = ''a'', fileSuffix = 0, fileDate = None, logfile = Some 0, lg = Some (Some 0)\<rparr>\<rparr>,
     files := \<lparr>dirent = [''d/a'' \<mapsto> 0], nodes = [''lost'']\<rparr>\<rparr>"

theorem refused_rename_loses_log_witness:
  "file_at (files example_log) ''d/a'' = Some ''lost'' \<and>
    file_at (files (check_act (all_permitted\<lparr>p_rename := \<lambda>_. False\<rparr>) (\<lambda>_. []) example_log)) ''d/a'' = Some []"
proof -
  let ?l = "\<lparr>dir = ''d'', filename = ''a'', fileSuffix = 0, fileDate = None, logfile = Some 0, lg = Some (Some 0)\<rparr>"
  let ?perm = "all_permitted\<lparr>p_rename := \<lambda>_. False\<rparr>"
  have "fs_ok (files example_log)" by (simp add: example_log_def fs_ok_def)
  moreover have "logObj (LogInfo example_log) = Some ?l" "\<not> dailyRolling (LogInfo example_log)" "maxFileCount (LogInfo example_log) > 0"
    by (simp_all add: example_log_def)
  moreover have b: "base_path ?l = ''d/a''" by (simp add: base_path_def)
  moreover have "p_create ?perm (base_path ?l)" "\<not> p_rename ?perm (base_path ?l)" by (simp_all add: all_permitted_def)
  moreover have "dirent (files example_log) (base_path ?l) = Some 0" unfolding b by (simp add: example_log_def)
  ultimately have "file_at (files (check_act ?perm (\<lambda>_. []) example_log)) (base_path ?l) = Some []"
    using refused_rename_loses_log [of example_log ?l ?perm 0 "\<lambda>_. []"] by blast
  then show ?thesis unfolding b by (simp add: example_log_def file_at_def)
qed

section \<open>The console\<close>

text \<open>
  The flag for a copy on the console, which nothing else looks at, extends the record. A message comes with the place that logged it; the loop that looks for the last slash of the
  file does not look at its first character.
\<close>

record ConsoleLogger = LoggerInfo +
  ifConsoleShow :: bool

definition SetConsoleShow :: "bool \<Rightarrow> ConsoleLogger \<Rightarrow> ConsoleLogger" where
  "SetConsoleShow ifConsole info = info\<lparr>ifConsoleShow := ifConsole\<rparr>"

fun short_from :: "bytes \<Rightarrow> nat \<Rightarrow> bytes" where
  "short_from path 0 = path"
| "short_from path (Suc i) = (if path ! Suc i = CHR ''/'' then drop (Suc i + 1) path else short_from path i)"

definition short_name :: "bytes \<Rightarrow> bytes" where
  "short_name path = short_from path (length path - 1)"

definition console :: "ConsoleLogger \<Rightarrow> bytes \<Rightarrow> int \<Rightarrow> bytes \<Rightarrow> bytes option" where
  "console info path line s = (if ifConsoleShow info then Some (short_name path @ '':'' @ itoa line @ '' '' @ s) else None)"

definition consoleF :: "(bytes \<Rightarrow> 'a list \<Rightarrow> bytes) \<Rightarrow> ConsoleLogger \<Rightarrow> bytes \<Rightarrow> int \<Rightarrow> bytes \<Rightarrow> 'a list \<Rightarrow> bytes option" where
  "consoleF Sprintf info path line format a =
     (if ifConsoleShow info then Some (Sprintf (short_name path @ '':'' @ itoa line @ format) a) else None)"

text \<open>\<^term>\<open>None\<close> is the panic of a log that has not been set up.\<close>

definition GetLogger :: "LoggerInfo \<Rightarrow> nat option option option" where
  "GetLogger info = map_option lg (logObj info)"

lemma short_from_base: "CHR ''/'' \<notin> set f \<Longrightarrow> d \<noteq> [] \<Longrightarrow> k \<le> length f \<Longrightarrow> short_from (d @ CHR ''/'' # f) (length d + k) = f"
proof (induction k)
  case 0
  then show ?case by (cases d) (auto simp: nth_append)
next
  case (Suc k)
  then have "f ! k \<noteq> CHR ''/''" by (metis Suc_le_lessD nth_mem)
  then show ?case using Suc by (simp add: nth_append)
qed

lemma short_name_base: "CHR ''/'' \<notin> set f \<Longrightarrow> d \<noteq> [] \<Longrightarrow> short_name (d @ CHR ''/'' # f) = f"
  using short_from_base [of f d "length f"] by (simp add: short_name_def)

end
