(* ===== verification/Xman_Session.thy ===== *)
theory Xman_Session
  imports Timing_Wheel
begin

text \<open>
  The sessions of the TCP server (\<open>xman/xman_session.go\<close>) and the loop that accepts them (\<open>xman/xman_tcp_srv.go\<close>).

  A session has three goroutines: one reads from the connection and puts packages into a channel, one takes messages from a channel
  and writes them, one takes packages and starts their handlers. Each is described by where it stands; a step relation
  lets them, the users of the session and the clock go on in any order. Channels are lists with the
  capacity \<open>chanSize\<close>, and a send into a full channel is a step that is not possible; with the capacity 0, sending and receiving are one step. The
  handler \<open>unpack\<close>, which belongs to the user, gives the packages that it puts into the channel and the bytes that it keeps. The clock
  of \<open>time.Now\<close> may show any time; the ticks of the timing wheel are steps. \<open>accepted\<close>, \<open>sent\<close>,
  \<open>unpacked\<close> and \<open>handled\<close> record what has passed the ends of the channels, and \<open>waited\<close> the ticks since the sending goroutine began to wait.

  Shown: nothing panics, in particular the stop channel is closed once; messages are written and packages handled in order, without
  loss or repetition before the end; what is sent after the end is lost without an error; the time of the last reading is looked at exactly when nothing was sent
  for eleven ticks; and a reader that waits for a full channel when the session ends waits for ever.
\<close>

section \<open>The session\<close>

definition sessionCheck :: int where "sessionCheck = 10"
definition sessionTimeout :: int where "sessionTimeout = 120"
definition Second :: int where "Second = 10 ^ 9"

datatype 'p RecvLoop = NoRecv | Reading bytes | Delivering "'p list" bytes | RecvDone
datatype SendLoop = NoSend | Selecting nat | Writing bytes | SendDone
datatype PkgLoop = NoPkg | Taking | PkgDone

record 'p TCPSession =
  s_closed :: int
  conn_open :: bool
  stop_closed :: bool
  pkgChan :: "'p list"
  sendChan :: "bytes list"
  chanSize :: nat
  lastRecvUnixTime :: int
  tw :: TimingWheel
  recvLoop :: "'p RecvLoop"
  sendLoop :: SendLoop
  pkgChanLoop :: PkgLoop
  accepted :: "bytes list"
  sent :: "bytes list"
  unpacked :: "'p list"
  handled :: "'p list"
  waited :: nat

definition NewSession :: "nat \<Rightarrow> int \<Rightarrow> TimingWheel \<Rightarrow> 'p TCPSession" where
  "NewSession sendChanSize now w =
     \<lparr>s_closed = -1, conn_open = True, stop_closed = False, pkgChan = [], sendChan = [], chanSize = sendChanSize, lastRecvUnixTime = now,
      tw = w, recvLoop = NoRecv, sendLoop = NoSend, pkgChanLoop = NoPkg, accepted = [], sent = [], unpacked = [], handled = [], waited = 0\<rparr>"

text \<open>Closing the stop channel twice would panic.\<close>

definition Session_Close :: "'p TCPSession \<Rightarrow> 'p TCPSession option" where
  "Session_Close s =
     (if s_closed s = 0 then
        (if stop_closed s then None else Some (s\<lparr>s_closed := 1, conn_open := False, stop_closed := True\<rparr>))
      else Some s)"

text \<open>The select of the sending goroutine asks the timing wheel for a new channel each time.\<close>

definition select_send :: "'p TCPSession \<Rightarrow> 'p TCPSession option" where
  "select_send s = do { c \<leftarrow> TimingWheel_After (tw s) (sessionCheck * Second); Some (s\<lparr>sendLoop := Selecting c, waited := 0\<rparr>) }"

definition Session_Start :: "'p TCPSession \<Rightarrow> 'p TCPSession option" where
  "Session_Start s =
     (if s_closed s = -1 then select_send (s\<lparr>s_closed := 0, recvLoop := Reading [], pkgChanLoop := Taking\<rparr>) else Some s)"

datatype SessionErr = ErrStopped | ErrSendChanFull

text \<open>The results that the select of \<open>AsyncSend\<close> can choose. Without a buffer the message goes straight to the sending goroutine, if that waits.\<close>

definition AsyncSend :: "bytes \<Rightarrow> 'p TCPSession \<Rightarrow> (SessionErr option \<times> 'p TCPSession) list" where
  "AsyncSend b s =
     (let queued = (if length (sendChan s) < chanSize s then [(None, s\<lparr>sendChan := sendChan s @ [b], accepted := accepted s @ [b]\<rparr>)] else []);
          taken = (if chanSize s = 0 \<and> (\<exists>c. sendLoop s = Selecting c) then [(None, s\<lparr>sendLoop := Writing b, accepted := accepted s @ [b]\<rparr>)] else []);
          stopped = (if stop_closed s then [(Some ErrStopped, s)] else [])
      in if queued @ taken @ stopped = [] then [(Some ErrSendChanFull, s)] else queued @ taken @ stopped)"

inductive session_step :: "(bytes \<Rightarrow> 'p list \<times> bytes) \<Rightarrow> 'p TCPSession \<Rightarrow> 'p TCPSession \<Rightarrow> bool" for unpack where
  start: "Session_Start s = Some s' \<Longrightarrow> session_step unpack s s'"
| user_close: "Session_Close s = Some s' \<Longrightarrow> session_step unpack s s'"
| async_send: "(r, s') \<in> set (AsyncSend b s) \<Longrightarrow> session_step unpack s s'"
| read: "recvLoop s = Reading buf \<Longrightarrow> conn_open s \<Longrightarrow> unpack (buf @ d) = (ps, rest) \<Longrightarrow>
    session_step unpack s (s\<lparr>lastRecvUnixTime := now, recvLoop := Delivering ps rest, unpacked := unpacked s @ ps\<rparr>)"
| deliver: "recvLoop s = Delivering (p # ps) rest \<Longrightarrow> length (pkgChan s) < chanSize s \<Longrightarrow>
    session_step unpack s (s\<lparr>recvLoop := Delivering ps rest, pkgChan := pkgChan s @ [p]\<rparr>)"
| hand_over: "recvLoop s = Delivering (p # ps) rest \<Longrightarrow> chanSize s = 0 \<Longrightarrow> pkgChanLoop s = Taking \<Longrightarrow>
    session_step unpack s (s\<lparr>recvLoop := Delivering ps rest, handled := handled s @ [p]\<rparr>)"
| delivered: "recvLoop s = Delivering [] rest \<Longrightarrow> session_step unpack s (s\<lparr>recvLoop := Reading rest\<rparr>)"
| read_error: "recvLoop s = Reading buf \<Longrightarrow> Session_Close s = Some s' \<Longrightarrow> session_step unpack s (s'\<lparr>recvLoop := RecvDone\<rparr>)"
| take_message: "sendLoop s = Selecting c \<Longrightarrow> sendChan s = b # bs \<Longrightarrow> session_step unpack s (s\<lparr>sendLoop := Writing b, sendChan := bs\<rparr>)"
| written: "sendLoop s = Writing b \<Longrightarrow> conn_open s \<Longrightarrow> select_send (s\<lparr>sent := sent s @ [b]\<rparr>) = Some s' \<Longrightarrow> session_step unpack s s'"
| write_error: "sendLoop s = Writing b \<Longrightarrow> Session_Close s = Some s' \<Longrightarrow> session_step unpack s (s'\<lparr>sendLoop := SendDone\<rparr>)"
| in_time: "sendLoop s = Selecting c \<Longrightarrow> c \<in> closed (tw s) \<Longrightarrow> now - lastRecvUnixTime s \<le> sessionTimeout \<Longrightarrow> select_send s = Some s' \<Longrightarrow>
    session_step unpack s s'"
| timed_out: "sendLoop s = Selecting c \<Longrightarrow> c \<in> closed (tw s) \<Longrightarrow> now - lastRecvUnixTime s > sessionTimeout \<Longrightarrow> Session_Close s = Some s' \<Longrightarrow>
    session_step unpack s (s'\<lparr>sendLoop := SendDone\<rparr>)"
| send_stopped: "sendLoop s = Selecting c \<Longrightarrow> stop_closed s \<Longrightarrow> Session_Close s = Some s' \<Longrightarrow> session_step unpack s (s'\<lparr>sendLoop := SendDone\<rparr>)"
| handle: "pkgChanLoop s = Taking \<Longrightarrow> pkgChan s = p # ps \<Longrightarrow> session_step unpack s (s\<lparr>pkgChan := ps, handled := handled s @ [p]\<rparr>)"
| pkg_stopped: "pkgChanLoop s = Taking \<Longrightarrow> stop_closed s \<Longrightarrow> session_step unpack s (s\<lparr>pkgChanLoop := PkgDone\<rparr>)"
| tick: "TimingWheel_onTicker (tw s) = Some w \<Longrightarrow> session_step unpack s (s\<lparr>tw := w, waited := waited s + 1\<rparr>)"

section \<open>The invariant\<close>

text \<open>The wheel of a server, \<open>NewTimingWheel(1*time.Second, 3600)\<close>, after any number of ticks.\<close>

definition server_wheel :: "TimingWheel \<Rightarrow> bool" where
  "server_wheel w \<longleftrightarrow> wheel_inv w \<and> interval w = Second \<and> maxTimeout w = 3600 * Second \<and> length (cs w) = 3600"

lemma server_wheel_New: "NewTimingWheel Second 3600 = Some w \<Longrightarrow> server_wheel w"
  using wheel_inv_New [of 3600 Second w] by (auto simp: server_wheel_def NewTimingWheel_def Second_def wrap64_id)

lemma server_wheel_tick: "server_wheel w \<Longrightarrow> TimingWheel_onTicker w = Some w' \<Longrightarrow> server_wheel w'"
  unfolding server_wheel_def using wheel_inv_onTicker onTicker_frame by metis

lemma ticks_last: "ticks (Suc n) w = do { w \<leftarrow> ticks n w; TimingWheel_onTicker w }"
proof (induction n arbitrary: w)
  case (Suc n)
  have "ticks (Suc (Suc n)) w = do { w \<leftarrow> TimingWheel_onTicker w; ticks (Suc n) w }" by (simp split: option.splits)
  also have "\<dots> = do { w \<leftarrow> do { w \<leftarrow> TimingWheel_onTicker w; ticks n w }; TimingWheel_onTicker w }" unfolding Suc.IH by simp
  also have "do { w \<leftarrow> TimingWheel_onTicker w; ticks n w } = ticks (Suc n) w" by (simp split: option.splits)
  finally show ?case .
qed (simp split: option.splits)

text \<open>A channel that was handed out \<open>n\<close> ticks ago.\<close>

definition waiting :: "TimingWheel \<Rightarrow> nat \<Rightarrow> nat \<Rightarrow> bool" where
  "waiting w c n \<longleftrightarrow> (\<exists>w0. server_wheel w0 \<and> c = ahead w0 10 \<and> ticks n w0 = Some w)"

lemma waiting_closed:
  assumes "waiting w c n"
  shows "c \<in> closed w \<longleftrightarrow> n > 10"
proof -
  obtain w0 where w0: "server_wheel w0" "c = ahead w0 10" "ticks n w0 = Some w" using assms by (auto simp: waiting_def)
  then have "ahead w0 10 \<in> closed w \<longleftrightarrow> 10 < n" using ticks_ahead_closed [of w0 n w 10] by (simp add: server_wheel_def)
  then show ?thesis using w0 by simp
qed

lemma select_send_Some:
  assumes "server_wheel (tw s)"
  shows "\<exists>c. select_send s = Some (s\<lparr>sendLoop := Selecting c, waited := 0\<rparr>) \<and> waiting (tw s) c 0"
proof -
  have "TimingWheel_After (tw s) (sessionCheck * Second) = Some (ahead (tw s) 10)"
    using assms After_eq_ahead [of "tw s" "sessionCheck * Second"] by (simp add: server_wheel_def Second_def sessionCheck_def)
  then show ?thesis using assms by (auto simp: select_send_def waiting_def)
qed

definition in_write :: "SendLoop \<Rightarrow> bytes list" where
  "in_write l = (case l of Writing b \<Rightarrow> [b] | _ \<Rightarrow> [])"

definition in_delivery :: "'p RecvLoop \<Rightarrow> 'p list" where
  "in_delivery l = (case l of Delivering ps rest \<Rightarrow> ps | _ \<Rightarrow> [])"

definition session_ok :: "'p TCPSession \<Rightarrow> bool" where
  "session_ok s \<longleftrightarrow> server_wheel (tw s) \<and> length (sendChan s) \<le> chanSize s \<and> length (pkgChan s) \<le> chanSize s \<and>
     (if s_closed s = -1 then conn_open s \<and> \<not> stop_closed s \<and> recvLoop s = NoRecv \<and> sendLoop s = NoSend \<and> pkgChanLoop s = NoPkg
      else if s_closed s = 0 then conn_open s \<and> \<not> stop_closed s \<and> recvLoop s \<notin> {NoRecv, RecvDone} \<and> sendLoop s \<notin> {NoSend, SendDone} \<and> pkgChanLoop s = Taking
      else s_closed s = 1 \<and> \<not> conn_open s \<and> stop_closed s \<and> recvLoop s \<noteq> NoRecv \<and> sendLoop s \<noteq> NoSend \<and> pkgChanLoop s \<noteq> NoPkg) \<and>
     (\<forall>c. sendLoop s = Selecting c \<longrightarrow> waiting (tw s) c (waited s)) \<and>
     (\<exists>lost. accepted s = sent s @ lost @ sendChan s \<and> (if sendLoop s = SendDone then length lost \<le> 1 else lost = in_write (sendLoop s))) \<and>
     unpacked s = handled s @ pkgChan s @ in_delivery (recvLoop s)"

lemma session_ok_wheel: "session_ok s \<Longrightarrow> server_wheel (tw s)"
  by (simp add: session_ok_def)

lemma Session_Close_eq:
  "session_ok s \<Longrightarrow>
    Session_Close s = Some (if s_closed s = 0 then s\<lparr>s_closed := 1, conn_open := False, stop_closed := True\<rparr> else s)"
  by (auto simp: Session_Close_def session_ok_def)

lemma close_ok:
  assumes ok: "session_ok s" and c: "Session_Close s = Some s'"
  shows "session_ok s'" "s_closed s \<noteq> -1 \<Longrightarrow> s_closed s' = 1" "recvLoop s' = recvLoop s" "sendLoop s' = sendLoop s" "pkgChanLoop s' = pkgChanLoop s"
    "accepted s' = accepted s" "sent s' = sent s" "unpacked s' = unpacked s" "handled s' = handled s" "stop_closed s \<Longrightarrow> stop_closed s'"
proof -
  note eq = Session_Close_eq [OF ok]
  show "session_ok s'"
  proof (cases "s_closed s = 0")
    case True
    then have "s' = s\<lparr>s_closed := 1, conn_open := False, stop_closed := True\<rparr>" using eq c by simp
    then show ?thesis using ok True unfolding session_ok_def by auto
  qed (use eq c ok in simp)
  show "s_closed s \<noteq> -1 \<Longrightarrow> s_closed s' = 1" using eq c ok by (auto simp: session_ok_def split: if_splits)
qed (use Session_Close_eq [OF ok] c in \<open>auto split: if_splits\<close>)

lemma running: "session_ok s \<Longrightarrow> recvLoop s \<noteq> NoRecv \<or> sendLoop s \<noteq> NoSend \<or> pkgChanLoop s \<noteq> NoPkg \<Longrightarrow> s_closed s \<noteq> -1"
  by (auto simp: session_ok_def)

lemma recv_done_ok: "session_ok s \<Longrightarrow> s_closed s = 1 \<Longrightarrow> in_delivery (recvLoop s) = [] \<Longrightarrow> session_ok (s\<lparr>recvLoop := RecvDone\<rparr>)"
  by (auto simp: session_ok_def in_delivery_def)

lemma send_done_ok: "session_ok s \<Longrightarrow> s_closed s = 1 \<Longrightarrow> session_ok (s\<lparr>sendLoop := SendDone\<rparr>)"
  by (auto simp: session_ok_def in_write_def split: SendLoop.splits if_splits)

lemma selecting_ok:
  assumes ok: "session_ok s" and l: "sendLoop s \<notin> {NoSend, SendDone}" and a: "accepted s = sent s' @ sendChan s"
    and s': "s' = s\<lparr>sent := x\<rparr>" and sel: "select_send s' = Some s''"
  shows "session_ok s''"
proof -
  obtain c where c: "s'' = s'\<lparr>sendLoop := Selecting c, waited := 0\<rparr>" "waiting (tw s') c 0"
    using select_send_Some [of s'] ok sel s' by (auto simp: session_ok_def)
  show ?thesis using ok l a c unfolding session_ok_def s' by (auto simp: in_write_def split: if_splits)
qed

lemma async_cases:
  assumes "(r, s') \<in> set (AsyncSend b s)"
  obtains "r = None" "length (sendChan s) < chanSize s" "s' = s\<lparr>sendChan := sendChan s @ [b], accepted := accepted s @ [b]\<rparr>"
  | "r = Some ErrStopped" "stop_closed s" "s' = s"
  | c where "r = None" "chanSize s = 0" "sendLoop s = Selecting c" "s' = s\<lparr>sendLoop := Writing b, accepted := accepted s @ [b]\<rparr>"
  | "r = Some ErrSendChanFull" "\<not> stop_closed s" "\<not> length (sendChan s) < chanSize s" "s' = s"
  using assms by (auto simp: AsyncSend_def Let_def split: if_splits)

lemma session_step_ok:
  assumes "session_step unpack s s'" and ok: "session_ok s"
  shows "session_ok s'"
  using assms(1)
proof cases
  case start
  show ?thesis
  proof (cases "s_closed s = -1")
    case True
    let ?s = "s\<lparr>s_closed := 0, recvLoop := Reading [], pkgChanLoop := Taking\<rparr>"
    obtain c where "s' = ?s\<lparr>sendLoop := Selecting c, waited := 0\<rparr>" "waiting (tw s) c 0"
      using select_send_Some [of ?s] start True session_ok_wheel [OF ok] by (auto simp: Session_Start_def)
    then show ?thesis using ok True by (auto simp: session_ok_def in_write_def in_delivery_def)
  qed (use start ok in \<open>simp add: Session_Start_def\<close>)
next
  case user_close
  then show ?thesis using close_ok(1) [OF ok] by blast
next
  case (async_send r b)
  from async_send show ?thesis
  proof (cases rule: async_cases)
    case 1
    then show ?thesis using ok by (auto simp: session_ok_def)
  next
    case (3 c)
    then show ?thesis using ok by (auto simp: session_ok_def in_write_def split: if_splits)
  qed (use ok in simp_all)
next
  case (read buf d ps rest now)
  then show ?thesis using ok by (auto simp: session_ok_def in_delivery_def split: if_splits)
next
  case (deliver p ps rest)
  then show ?thesis using ok by (auto simp: session_ok_def in_delivery_def split: if_splits)
next
  case (hand_over p ps rest)
  then show ?thesis using ok by (auto simp: session_ok_def in_delivery_def split: if_splits)
next
  case (delivered rest)
  then show ?thesis using ok by (auto simp: session_ok_def in_delivery_def split: if_splits)
next
  case (read_error buf s1)
  then show ?thesis using close_ok [OF ok read_error(3)] running [OF ok] by (auto intro: recv_done_ok simp: in_delivery_def)
next
  case (take_message c b bs)
  then show ?thesis using ok by (auto simp: session_ok_def in_write_def split: if_splits)
next
  case (written b)
  have "accepted s = sent (s\<lparr>sent := sent s @ [b]\<rparr>) @ sendChan s" using ok written(1) by (auto simp: session_ok_def in_write_def)
  then show ?thesis using selecting_ok [OF ok _ _ refl written(3)] written(1) by simp
next
  case (write_error b s1)
  then show ?thesis using close_ok [OF ok write_error(3)] running [OF ok] by (auto intro: send_done_ok)
next
  case (in_time c now)
  have "accepted s = sent (s\<lparr>sent := sent s\<rparr>) @ sendChan s" using ok in_time(1) by (auto simp: session_ok_def in_write_def)
  then show ?thesis using selecting_ok [OF ok, of "s\<lparr>sent := sent s\<rparr>" "sent s" s'] in_time(1,4) by simp
next
  case (timed_out c now s1)
  then show ?thesis using close_ok [OF ok timed_out(5)] running [OF ok] by (auto intro: send_done_ok)
next
  case (send_stopped c s1)
  then show ?thesis using close_ok [OF ok send_stopped(4)] running [OF ok] by (auto intro: send_done_ok)
next
  case (handle p ps)
  then show ?thesis using ok by (auto simp: session_ok_def)
next
  case pkg_stopped
  then show ?thesis using ok by (auto simp: session_ok_def split: if_splits)
next
  case (tick w)
  have "waiting (tw s) c n \<Longrightarrow> waiting w c (Suc n)" for c n
    using tick(2) unfolding waiting_def by (auto simp: ticks_last simp del: ticks.simps)
  then show ?thesis using ok tick server_wheel_tick [OF session_ok_wheel [OF ok] tick(2)] by (auto simp: session_ok_def)
qed

lemma NewSession_ok: "server_wheel w \<Longrightarrow> session_ok (NewSession n now w)"
  by (simp add: session_ok_def NewSession_def in_write_def in_delivery_def)

lemma session_reachable_ok: "(session_step unpack)\<^sup>*\<^sup>* (NewSession n now w) s \<Longrightarrow> server_wheel w \<Longrightarrow> session_ok s"
  by (induction rule: rtranclp_induct) (auto intro: NewSession_ok session_step_ok)


section \<open>After the end\<close>

lemma stopped_step:
  assumes "session_step unpack s s'" and ok: "session_ok s" and stop: "stop_closed s"
  shows "stop_closed s' \<and> sent s' = sent s \<and> unpacked s' = unpacked s \<and> (\<exists>bs. accepted s' = accepted s @ bs) \<and> chanSize s' = chanSize s \<and>
    (pkgChanLoop s = PkgDone \<longrightarrow> pkgChanLoop s' = PkgDone \<and> length (pkgChan s) \<le> length (pkgChan s') \<and>
      (length (pkgChan s) = chanSize s \<and> (\<exists>p ps rest. recvLoop s = Delivering (p # ps) rest) \<longrightarrow> recvLoop s' = recvLoop s \<and> pkgChan s' = pkgChan s))"
proof -
  have c: "s_closed s = 1" "\<not> conn_open s" using ok stop by (auto simp: session_ok_def split: if_splits)
  then have close: "Session_Close s = Some s" "Session_Start s = Some s" by (simp_all add: Session_Close_def Session_Start_def)
  have sel: "sent s2 = sent s \<and> unpacked s2 = unpacked s \<and> accepted s2 = accepted s \<and> chanSize s2 = chanSize s \<and> stop_closed s2 \<and>
      pkgChanLoop s2 = pkgChanLoop s \<and> pkgChan s2 = pkgChan s \<and> recvLoop s2 = recvLoop s" if "select_send s = Some s2" for s2
    using that stop by (auto simp: select_send_def split: Option.bind_splits)
  show ?thesis using assms(1)
  proof cases
    case (async_send r b)
    from async_send show ?thesis by (cases rule: async_cases) (use stop in auto)
  next
    case (in_time cc now)
    then show ?thesis using sel by simp
  qed (use c close stop in auto)
qed

lemma stopped_steps:
  assumes "(session_step unpack)\<^sup>*\<^sup>* s s'" and "session_ok s" and "stop_closed s"
  shows "session_ok s' \<and> stop_closed s' \<and> sent s' = sent s \<and> unpacked s' = unpacked s \<and> (\<exists>bs. accepted s' = accepted s @ bs) \<and> chanSize s' = chanSize s \<and>
    (pkgChanLoop s = PkgDone \<and> length (pkgChan s) = chanSize s \<and> (\<exists>p ps rest. recvLoop s = Delivering (p # ps) rest) \<longrightarrow>
      pkgChanLoop s' = PkgDone \<and> recvLoop s' = recvLoop s \<and> pkgChan s' = pkgChan s)"
  using assms(1)
proof (induction rule: rtranclp_induct)
  case base
  then show ?case using assms by simp
next
  case (step s1 s2)
  then have ok: "session_ok s1" "stop_closed s1" by simp_all
  from stopped_step [OF step(2) ok] session_step_ok [OF step(2) ok(1)] step(3) show ?case by auto
qed

text \<open>
  A session that has been closed still accepts messages. While the channel has room, \<open>AsyncSend\<close> may report success (its select chooses among the
  cases that are ready); but no message is written any more, and none that was accepted comes out.
\<close>

theorem closed_session_accepts:
  assumes "(session_step unpack)\<^sup>*\<^sup>* (NewSession n now w) s" and "server_wheel w" and "stop_closed s" and "length (sendChan s) < chanSize s"
  shows "\<exists>s1. (None, s1) \<in> set (AsyncSend b s) \<and> session_step unpack s s1 \<and>
    (\<forall>s2. (session_step unpack)\<^sup>*\<^sup>* s1 s2 \<longrightarrow> sent s2 = sent s \<and> (\<exists>bs. accepted s2 = accepted s @ b # bs))"
proof -
  let ?s1 = "s\<lparr>sendChan := sendChan s @ [b], accepted := accepted s @ [b]\<rparr>"
  have ok: "session_ok s" by (rule session_reachable_ok [OF assms(1,2)])
  have in1: "(None, ?s1) \<in> set (AsyncSend b s)" using assms(4) by (auto simp: AsyncSend_def Let_def)
  have st: "session_step unpack s ?s1" by (rule async_send [OF in1])
  have "sent s2 = sent s \<and> (\<exists>bs. accepted s2 = accepted s @ b # bs)" if "(session_step unpack)\<^sup>*\<^sup>* ?s1 s2" for s2
    using stopped_steps [OF that session_step_ok [OF st ok]] assms(3) by auto
  then show ?thesis using in1 st by blast
qed

text \<open>
  A goroutine that never ends. When a session ends while its reader waits for room in the full channel of packages, and the goroutine that takes packages has
  ended too, then no step lets the reader go on: it waits for ever.
\<close>

theorem reader_waits_for_ever:
  assumes "(session_step unpack)\<^sup>*\<^sup>* (NewSession n now w) s" and "server_wheel w" and "pkgChanLoop s = PkgDone"
    and "recvLoop s = Delivering (p # ps) rest" and "length (pkgChan s) = chanSize s"
  shows "\<forall>s'. (session_step unpack)\<^sup>*\<^sup>* s s' \<longrightarrow> recvLoop s' = Delivering (p # ps) rest"
proof -
  have ok: "session_ok s" by (rule session_reachable_ok [OF assms(1,2)])
  then have stop: "stop_closed s" using assms(3) by (auto simp: session_ok_def split: if_splits)
  have "recvLoop s' = recvLoop s" if "(session_step unpack)\<^sup>*\<^sup>* s s'" for s'
    using stopped_steps [OF that ok stop] assms(3-5) by auto
  then show ?thesis using assms(4) by simp
qed

section \<open>The timeout\<close>

text \<open>
  C37. When the session looks for a timeout. While the sending goroutine waits, its channel of the timing wheel is closed if and only if there have
  been more than ten ticks since the last message was written or the last look; then, if nothing was read for more than 120 seconds, it
  can end the session. So a session that writes a message at least every ten ticks is never ended for a silent client.
\<close>

theorem timeout_after_quiet_ticks:
  assumes "(session_step unpack)\<^sup>*\<^sup>* (NewSession n now w) s" and "server_wheel w" and "sendLoop s = Selecting c"
  shows "(c \<in> closed (tw s) \<longleftrightarrow> waited s > 10) \<and>
    (waited s > 10 \<and> t - lastRecvUnixTime s > sessionTimeout \<longrightarrow>
      (\<exists>s'. session_step unpack s s' \<and> stop_closed s' \<and> \<not> conn_open s' \<and> sendLoop s' = SendDone))"
proof -
  have ok: "session_ok s" by (rule session_reachable_ok [OF assms(1,2)])
  then have c: "c \<in> closed (tw s) \<longleftrightarrow> waited s > 10" using assms(3) by (intro waiting_closed) (simp add: session_ok_def)
  have "\<exists>s'. session_step unpack s s' \<and> stop_closed s' \<and> \<not> conn_open s' \<and> sendLoop s' = SendDone"
    if "waited s > 10" "t - lastRecvUnixTime s > sessionTimeout"
  proof -
    obtain s1 where s1: "Session_Close s = Some s1" using Session_Close_eq [OF ok] by blast
    note st = timed_out [where unpack = unpack and now = t, OF assms(3) _ that(2) s1]
    have "s_closed s1 = 1" using close_ok(2) [OF ok s1] running [OF ok] assms(3) by simp
    then show ?thesis using st c that(1) close_ok(1) [OF ok s1] by (fastforce simp: session_ok_def)
  qed
  then show ?thesis using c by blast
qed

section \<open>An example\<close>

definition example_unpack :: "bytes \<Rightarrow> bytes list \<times> bytes" where
  "example_unpack b = ([''x'', ''y''], [])"

lemma example_session:
  "\<exists>w s c. NewTimingWheel Second 3600 = Some w \<and> server_wheel w \<and> (session_step example_unpack)\<^sup>*\<^sup>* (NewSession 1 0 w) s \<and> pkgChanLoop s = PkgDone \<and>
    recvLoop s = Delivering [''y''] [] \<and> pkgChan s = [''x''] \<and> chanSize s = 1 \<and> sendChan s = [] \<and> stop_closed s \<and> sendLoop s = Selecting c"
proof -
  obtain w where w: "NewTimingWheel Second 3600 = Some w" by (simp add: NewTimingWheel_def Second_def)
  note sw = server_wheel_New [OF w]
  let ?s0 = "(NewSession 1 0 w :: bytes TCPSession)\<lparr>s_closed := 0, recvLoop := Reading [], pkgChanLoop := Taking\<rparr>"
  obtain c where c: "select_send ?s0 = Some (?s0\<lparr>sendLoop := Selecting c, waited := 0\<rparr>)"
    using select_send_Some [of ?s0] sw by (auto simp: NewSession_def)
  define s1 where "s1 = ?s0\<lparr>sendLoop := Selecting c, waited := 0\<rparr>"
  define s2 where "s2 = s1\<lparr>lastRecvUnixTime := 5, recvLoop := Delivering [''x'', ''y''] [], unpacked := unpacked s1 @ [''x'', ''y'']\<rparr>"
  define s3 where "s3 = s2\<lparr>recvLoop := Delivering [''y''] [], pkgChan := pkgChan s2 @ [''x'']\<rparr>"
  define s4 where "s4 = s3\<lparr>s_closed := 1, conn_open := False, stop_closed := True\<rparr>"
  define s5 where "s5 = s4\<lparr>pkgChanLoop := PkgDone\<rparr>"
  note defs = s5_def s4_def s3_def s2_def s1_def NewSession_def
  have "session_step example_unpack (NewSession 1 0 w) s1"
    using c by (intro start) (simp add: Session_Start_def s1_def NewSession_def)
  moreover have "session_step example_unpack s1 s2" unfolding s2_def
    by (rule read [where buf = "[]" and d = "''d''"]) (simp_all add: defs example_unpack_def)
  moreover have "session_step example_unpack s2 s3" unfolding s3_def by (rule deliver) (simp_all add: defs)
  moreover have "session_step example_unpack s3 s4" by (rule user_close) (simp add: Session_Close_def defs)
  moreover have "session_step example_unpack s4 s5" unfolding s5_def by (rule pkg_stopped) (simp_all add: defs)
  ultimately have "(session_step example_unpack)\<^sup>*\<^sup>* (NewSession 1 0 w) s5" by (meson rtranclp.rtrancl_into_rtrancl rtranclp.rtrancl_refl)
  then show ?thesis using w sw by (intro exI [of _ w] exI [of _ s5] exI [of _ c]) (simp add: defs)
qed


theorem closed_session_accepts_witness:
  "\<exists>w s s1. (session_step example_unpack)\<^sup>*\<^sup>* (NewSession 1 0 w) s \<and> stop_closed s \<and> (None, s1) \<in> set (AsyncSend ''m'' s) \<and>
    (\<forall>s2. (session_step example_unpack)\<^sup>*\<^sup>* s1 s2 \<longrightarrow> sent s2 = sent s)"
proof -
  obtain w s where e: "server_wheel w" "(session_step example_unpack)\<^sup>*\<^sup>* (NewSession 1 0 w) s" "stop_closed s" "sendChan s = []" "chanSize s = 1"
    using example_session by blast
  then have "length (sendChan s) < chanSize s" by simp
  from closed_session_accepts [OF e(2,1,3) this, of "''m''"] e show ?thesis by blast
qed

theorem reader_waits_for_ever_witness:
  "\<exists>w s. (session_step example_unpack)\<^sup>*\<^sup>* (NewSession 1 0 w) s \<and>
    (\<forall>s'. (session_step example_unpack)\<^sup>*\<^sup>* s s' \<longrightarrow> recvLoop s' = Delivering [''y''] [])"
proof -
  obtain w s where e: "server_wheel w" "(session_step example_unpack)\<^sup>*\<^sup>* (NewSession 1 0 w) s" "pkgChanLoop s = PkgDone"
    "recvLoop s = Delivering [''y''] []" "pkgChan s = [''x'']" "chanSize s = 1"
    using example_session by blast
  then have "length (pkgChan s) = chanSize s" by simp
  from reader_waits_for_ever [OF e(2,1,3,4) this] e(2) show ?thesis by blast
qed

theorem timeout_after_quiet_ticks_witness:
  "\<exists>w s c. (session_step example_unpack)\<^sup>*\<^sup>* (NewSession 1 0 w) s \<and> sendLoop s = Selecting c \<and> (c \<in> closed (tw s) \<longleftrightarrow> waited s > 10)"
proof -
  obtain w s c where e: "server_wheel w" "(session_step example_unpack)\<^sup>*\<^sup>* (NewSession 1 0 w) s" "sendLoop s = Selecting c"
    using example_session by blast
  then show ?thesis using timeout_after_quiet_ticks [OF e(2,1,3)] by blast
qed

section \<open>The server\<close>

text \<open>Of the handlers the server keeps whether they are set. A connection is accepted at a time.\<close>

record TCPServer =
  listening :: bool
  sendChanSize :: int
  protoUnpackHandler :: bool
  packageHandler :: bool
  srv_tw :: TimingWheel

definition NewTCPServer :: "bool \<Rightarrow> bool \<Rightarrow> int \<Rightarrow> TCPServer option" where
  "NewTCPServer unpackHandler pkgHandler chan_size =
     do { w \<leftarrow> NewTimingWheel (1 * Second) 3600;
          Some \<lparr>listening = True, sendChanSize = chan_size, protoUnpackHandler = unpackHandler, packageHandler = pkgHandler, srv_tw = w\<rparr> }"

text \<open>\<open>net.Listen\<close> may fail.\<close>

definition RegisterTCPServer :: "bytes option \<Rightarrow> bool \<Rightarrow> bool \<Rightarrow> int \<Rightarrow> (bytes + TCPServer) option" where
  "RegisterTCPServer listen_error unpackHandler pkgHandler chan_size =
     (case listen_error of Some err \<Rightarrow> Some (Inl err) | None \<Rightarrow> map_option Inr (NewTCPServer unpackHandler pkgHandler chan_size))"

definition SetProtoUnpackHandler :: "bool \<Rightarrow> TCPServer \<Rightarrow> TCPServer" where
  "SetProtoUnpackHandler h srv = srv\<lparr>protoUnpackHandler := h\<rparr>"

definition SetPackageHandler :: "bool \<Rightarrow> TCPServer \<Rightarrow> TCPServer" where
  "SetPackageHandler h srv = srv\<lparr>packageHandler := h\<rparr>"

definition TCPServer_Close :: "TCPServer \<Rightarrow> TCPServer" where
  "TCPServer_Close srv = srv\<lparr>listening := False\<rparr>"

datatype Accepted = Connection int | TemporaryError | AcceptError bytes

text \<open>The loop, for a sequence of results of \<open>Accept\<close> (a channel of a negative size panics): the sessions that were started, and the error that ended it.\<close>

fun accept_loop :: "TCPServer \<Rightarrow> Accepted list \<Rightarrow> 'p TCPSession list \<Rightarrow> ('p TCPSession list \<times> bytes option) option" where
  "accept_loop srv [] ss = Some (ss, None)"
| "accept_loop srv (Connection now # rs) ss =
     (if sendChanSize srv < 0 then None
      else do { s \<leftarrow> Session_Start (NewSession (nat (sendChanSize srv)) now (srv_tw srv)); accept_loop srv rs (ss @ [s]) })"
| "accept_loop srv (TemporaryError # rs) ss = accept_loop srv rs ss"
| "accept_loop srv (AcceptError err # rs) ss = Some (ss, Some err)"

definition AcceptLoop :: "TCPServer \<Rightarrow> Accepted list \<Rightarrow> ('p TCPSession list \<times> bytes option \<times> TCPServer) option" where
  "AcceptLoop srv rs =
     (if \<not> protoUnpackHandler srv \<or> \<not> packageHandler srv then None
      else do { (ss, err) \<leftarrow> accept_loop srv rs []; Some (ss, err, if err = None then srv else TCPServer_Close srv) })"

text \<open>Each connection before the first error that is not temporary gets a session, and all of them run.\<close>

definition connections :: "Accepted list \<Rightarrow> Accepted list" where
  "connections rs = filter (\<lambda>r. r \<noteq> TemporaryError) (takeWhile (\<lambda>r. \<forall>err. r \<noteq> AcceptError err) rs)"

lemma Session_Start_new:
  assumes "server_wheel w"
  shows "\<exists>s :: 'p TCPSession. Session_Start (NewSession n now w) = Some s \<and> session_ok s \<and> s_closed s = 0"
proof -
  obtain c where c: "Session_Start (NewSession n now w :: 'p TCPSession) =
      Some ((NewSession n now w :: 'p TCPSession)\<lparr>s_closed := 0, recvLoop := Reading [], pkgChanLoop := Taking, sendLoop := Selecting c, waited := 0\<rparr>)"
    using select_send_Some [of "(NewSession n now w :: 'p TCPSession)\<lparr>s_closed := 0, recvLoop := Reading [], pkgChanLoop := Taking\<rparr>"] assms
    by (auto simp: Session_Start_def NewSession_def)
  then have "session_step (\<lambda>_. ([], [])) (NewSession n now w :: 'p TCPSession) (the (Session_Start (NewSession n now w)))"
    by (intro start) simp
  from session_step_ok [OF this NewSession_ok [OF assms]] c show ?thesis by simp
qed

lemma accept_loop_sessions:
  assumes "server_wheel (srv_tw srv)" and n: "0 \<le> sendChanSize srv"
  shows "\<exists>ts err. accept_loop srv rs ss = Some (ss @ ts, err) \<and> length ts = length (connections rs) \<and>
    (\<forall>s \<in> set ts. session_ok s \<and> s_closed s = 0) \<and> (err = None \<longleftrightarrow> (\<forall>err. AcceptError err \<notin> set rs))"
proof (induction rs arbitrary: ss)
  case (Cons r rs)
  show ?case
  proof (cases r)
    case (Connection now)
    obtain s :: "'a TCPSession" where s: "Session_Start (NewSession (nat (sendChanSize srv)) now (srv_tw srv)) = Some s" "session_ok s" "s_closed s = 0"
      using Session_Start_new [OF assms(1)] by blast
    from Cons.IH [of "ss @ [s]"] obtain ts err where "accept_loop srv rs (ss @ [s]) = Some ((ss @ [s]) @ ts, err) \<and>
      length ts = length (connections rs) \<and> (\<forall>s \<in> set ts. session_ok s \<and> s_closed s = 0) \<and> (err = None \<longleftrightarrow> (\<forall>err. AcceptError err \<notin> set rs))"
      by (elim exE)
    then show ?thesis using s Connection n by (intro exI [of _ "s # ts"] exI [of _ err]) (auto simp: connections_def)
  next
    case TemporaryError
    then show ?thesis using Cons.IH [of ss] by (auto simp: connections_def)
  next
    case (AcceptError err)
    then show ?thesis by (auto simp: connections_def)
  qed
qed (simp add: connections_def)

end
