(* ===== verification/Xman_Servers.thy ===== *)
theory Xman_Servers
  imports Xman_Config_File Go_Numbers Xman_Session Xman_Remote
begin

text \<open>
  The servers and connections of a configuration (\<open>xman/xman_global_config.go\<close>) and the UDP server
  (\<open>xman/xman_udp_srv.go\<close>).

  The variable \<open>XMANConfig\<close> is a record; its maps hold the servers themselves, since no one else points to them, and the
  positions of the connection managers of \<open>Xman_Remote\<close>. The configuration is the one of \<open>Xman_Config\<close>. Whether an address can be listened to or dialled
  is a parameter, asked for each section. Of a handler the model keeps whether it is set. Messages to the log and to the terminal are left out (the log must
  have been set up). \<^term>\<open>None\<close> is a panic, the exit of the process when a connection cannot be dialled, or a configuration that stays locked.
  A channel that does not fit the memory is not modelled. \<open>InitFromConfig\<close> registers no UDP connection, so the branch of
  \<open>SetConnHandler\<close> for these is left out.

  Shown: a configuration that is accepted has given every server of its sections and every TCP connection; every server needs its
  handlers set before the servers run, or the process ends; and what the UDP server hands to its handler.
\<close>

section \<open>The UDP server\<close>

definition RecvReqBufLen :: nat where "RecvReqBufLen = 1024"

record UDPServer =
  udp_addr :: bytes
  udp_open :: bool
  us_unpackHandler :: bool
  us_packageHandler :: bool

record UDPSession =
  udpServer :: UDPServer
  remoteAddr :: bytes

text \<open>The errors of \<open>net.ResolveUDPAddr\<close> and of \<open>net.ListenUDP\<close>.\<close>

definition RegisterUDPServer :: "bytes option \<Rightarrow> bytes option \<Rightarrow> bytes \<Rightarrow> bytes + UDPServer" where
  "RegisterUDPServer resolve_error listen_error addrStr =
     (case resolve_error of
        Some err \<Rightarrow> Inl err
      | None \<Rightarrow>
          (case listen_error of
             Some err \<Rightarrow> Inl err
           | None \<Rightarrow> Inr \<lparr>udp_addr = addrStr, udp_open = True, us_unpackHandler = False, us_packageHandler = False\<rparr>))"

definition UDPServer_Close :: "UDPServer \<Rightarrow> UDPServer" where
  "UDPServer_Close us = us\<lparr>udp_open := False\<rparr>"

definition UDP_SetUnpackHandler :: "bool \<Rightarrow> UDPServer \<Rightarrow> UDPServer" where
  "UDP_SetUnpackHandler h us = us\<lparr>us_unpackHandler := h\<rparr>"

definition UDP_SetPackageHandler :: "bool \<Rightarrow> UDPServer \<Rightarrow> UDPServer" where
  "UDP_SetPackageHandler h us = us\<lparr>us_packageHandler := h\<rparr>"

text \<open>What \<open>ReadFromUDP\<close> gives: a datagram, cut to the buffer, and its sender, or an error.\<close>

datatype UDPRead = Datagram bytes bytes | ReadError

fun udp_loop :: "(bytes \<Rightarrow> bytes + 'p) \<Rightarrow> UDPServer \<Rightarrow> UDPRead list \<Rightarrow> (UDPSession \<times> 'p) list" where
  "udp_loop unpack us [] = []"
| "udp_loop unpack us (ReadError # rs) = udp_loop unpack us rs"
| "udp_loop unpack us (Datagram d remote # rs) =
     (case unpack (take RecvReqBufLen d) of
        Inl err \<Rightarrow> udp_loop unpack us rs
      | Inr pkg \<Rightarrow> (\<lparr>udpServer = us, remoteAddr = remote\<rparr>, pkg) # udp_loop unpack us rs)"

text \<open>The loop does not end: the calls of the package handler for what has been read so far.\<close>

definition RunUDPServer :: "(bytes \<Rightarrow> bytes + 'p) \<Rightarrow> UDPServer \<Rightarrow> UDPRead list \<Rightarrow> (UDPSession \<times> 'p) list option" where
  "RunUDPServer unpack us rs = (if \<not> us_unpackHandler us \<or> \<not> us_packageHandler us then None else Some (udp_loop unpack us rs))"

text \<open>What is sent, and to whom.\<close>

definition SendToClientUDP :: "UDPSession \<Rightarrow> bytes \<Rightarrow> (bytes \<times> bytes) list" where
  "SendToClientUDP session msg = (if udp_open (udpServer session) then [(msg, remoteAddr session)] else [])"

section \<open>The state\<close>

datatype SrvVal = TCPSrv TCPServer | UDPSrv UDPServer

record XMANGlobalConfig =
  srvNum :: int
  connNum :: int
  srvMap :: "bytes \<Rightarrow> SrvVal option"
  connMap :: "bytes \<Rightarrow> nat option"
  httpAddr :: bytes
  reloadHandler :: bool
  g_config :: "Configuration option"

definition global_init :: XMANGlobalConfig where
  "global_init = \<lparr>srvNum = 0, connNum = 0, srvMap = (\<lambda>_. None), connMap = (\<lambda>_. None), httpAddr = [], reloadHandler = False, g_config = None\<rparr>"

record ServerInfo =
  si_network :: bytes
  si_address :: bytes
  si_maxReq :: int
  si_connProxy :: bytes

record ConnInfo =
  ci_network :: bytes
  ci_address :: bytes
  ci_maxReq :: int
  ci_CMD :: "32 word"

datatype InitErr = NoSection bytes | BadNumber NumError | ErrNoServer | ErrSrvSection | ErrSrvStart | ErrUnknowNetwork

text \<open>What the network says to the server or connection with a number.\<close>

record NetEnv =
  net_Listen :: "int \<Rightarrow> bytes \<Rightarrow> bytes option"
  net_ResolveUDPAddr :: "int \<Rightarrow> bytes \<Rightarrow> bytes option"
  net_ListenUDP :: "int \<Rightarrow> bytes \<Rightarrow> bytes option"
  net_Dial :: "int \<Rightarrow> bytes \<Rightarrow> bool"

section \<open>Reading the configuration\<close>

definition ParseToINT :: "bytes \<Rightarrow> int \<times> NumError option" where
  "ParseToINT src = (let (val, err) = Atoi src in if err \<noteq> None then (0, err) else (val, err))"

definition getServerInfo :: "Section \<Rightarrow> ServerInfo" where
  "getServerInfo s =
     \<lparr>si_network = ValueOf s ''Network'', si_address = ValueOf s ''Address'', si_maxReq = fst (Atoi (ValueOf s ''MaxReq'')),
      si_connProxy = ValueOf s ''ConnProxy''\<rparr>"

text \<open>The conversion to \<open>int32\<close> keeps the low bits.\<close>

definition getConnInfo :: "Section \<Rightarrow> ConnInfo" where
  "getConnInfo s =
     \<lparr>ci_network = ValueOf s ''Network'', ci_address = ValueOf s ''Address'', ci_maxReq = fst (Atoi (ValueOf s ''MaxReq'')),
      ci_CMD = word_of_int (fst (Atoi (ValueOf s ''CMD'')))\<rparr>"

definition init_server :: "NetEnv \<Rightarrow> int \<Rightarrow> ServerInfo \<Rightarrow> (InitErr + SrvVal) option" where
  "init_server env i info =
     (if si_network info = ''tcp'' then
        do { r \<leftarrow> RegisterTCPServer (net_Listen env i (si_address info)) False False (si_maxReq info);
             Some (case r of Inl err \<Rightarrow> Inl ErrSrvStart | Inr srv \<Rightarrow> Inr (TCPSrv srv)) }
      else if si_network info = ''udp'' then
        Some (case RegisterUDPServer (net_ResolveUDPAddr env i (si_address info)) (net_ListenUDP env i (si_address info)) (si_address info) of
                Inl err \<Rightarrow> Inl ErrSrvStart
              | Inr srv \<Rightarrow> Inr (UDPSrv srv))
      else Some (Inl ErrUnknowNetwork))"

fun init_servers :: "NetEnv \<Rightarrow> Configuration \<Rightarrow> int \<Rightarrow> nat \<Rightarrow> XMANGlobalConfig \<Rightarrow> (InitErr option \<times> XMANGlobalConfig) option" where
  "init_servers env c i 0 g = Some (None, g)"
| "init_servers env c i (Suc n) g =
     (let srvSectionStr = ''Server'' @ itoa i
      in do { r \<leftarrow> Configuration_Section c srvSectionStr;
              case r of
                Inl err \<Rightarrow> Some (Some ErrSrvSection, g)
              | Inr p \<Rightarrow>
                  do { r \<leftarrow> init_server env i (getServerInfo (section_at c p));
                       case r of
                         Inl err \<Rightarrow> Some (Some err, g)
                       | Inr v \<Rightarrow> init_servers env c (i + 1) n (g\<lparr>srvMap := (srvMap g)(srvSectionStr \<mapsto> v)\<rparr>) } })"

text \<open>A channel of a negative size panics.\<close>

fun init_conns ::
  "NetEnv \<Rightarrow> Configuration \<Rightarrow> int \<Rightarrow> nat \<Rightarrow> XMANGlobalConfig \<Rightarrow> World \<Rightarrow> (InitErr option \<times> XMANGlobalConfig \<times> World) option"
where
  "init_conns env c i 0 g w = Some (None, g, w)"
| "init_conns env c i (Suc n) g w =
     (let connSectionStr = ''Conn'' @ itoa i
      in do { r \<leftarrow> Configuration_Section c connSectionStr;
              case r of
                Inl err \<Rightarrow> Some (Some ErrSrvSection, g, w)
              | Inr p \<Rightarrow>
                  (let info = getConnInfo (section_at c p)
                   in if ci_CMD info \<noteq> 0 \<and> ci_network info = ''tcp'' then
                        (if ci_maxReq info < 0 then None
                         else do { (m, w) \<leftarrow> RegisterTCPConn (ci_CMD info) None False (net_Dial env i (ci_address info)) w;
                                   init_conns env c (i + 1) n (g\<lparr>connMap := (connMap g)(connSectionStr \<mapsto> m)\<rparr>) w })
                      else init_conns env c (i + 1) n g w) })"

text \<open>The error of \<open>ConnNum\<close> is not looked at.\<close>

definition InitFromConfig ::
  "NetEnv \<Rightarrow> Configuration \<Rightarrow> XMANGlobalConfig \<Rightarrow> World \<Rightarrow> (InitErr option \<times> XMANGlobalConfig \<times> World) option"
where
  "InitFromConfig env c g w =
     (let g = g\<lparr>g_config := Some c\<rparr>
      in do { r \<leftarrow> Configuration_Section c ''ServerConfig'';
              case r of
                Inl err \<Rightarrow> Some (Some (NoSection err), g, w)
              | Inr p \<Rightarrow>
                  (let s = section_at c p; (num, err) = ParseToINT (ValueOf s ''SrvNum'')
                   in case err of
                        Some err \<Rightarrow> Some (Some (BadNumber err), g, w)
                      | None \<Rightarrow>
                          (let g = g\<lparr>srvNum := num\<rparr>
                           in if srvNum g = 0 then Some (Some ErrNoServer, g, w)
                              else (let g = g\<lparr>connNum := fst (ParseToINT (ValueOf s ''ConnNum'')), httpAddr := ValueOf s ''HttpAddr''\<rparr>
                                    in do { (err, g) \<leftarrow> init_servers env c 1 (nat (srvNum g)) g;
                                            if err \<noteq> None then Some (err, g, w)
                                            else init_conns env c 1 (nat (connNum g)) g w }))) })"

section \<open>Handlers\<close>

text \<open>The argument of type \<open>interface{}\<close>; a type assertion that fails panics.\<close>

datatype Handlers =
    TCPServerHandlers bool bool
  | UDPServerHandlers bool bool
  | TCPConnHandlers "(32 word \<Rightarrow> bytes) option" bool
  | OtherHandlers

definition SetSrvHandler :: "bytes \<Rightarrow> Handlers \<Rightarrow> XMANGlobalConfig \<Rightarrow> (bool \<times> XMANGlobalConfig) option" where
  "SetSrvHandler name handlers g =
     (case srvMap g name of
        None \<Rightarrow> Some (False, g)
      | Some (TCPSrv srv) \<Rightarrow>
          (case handlers of
             TCPServerHandlers u p \<Rightarrow>
               Some (True, g\<lparr>srvMap := (srvMap g)(name \<mapsto> TCPSrv (SetPackageHandler p (SetProtoUnpackHandler u srv)))\<rparr>)
           | _ \<Rightarrow> None)
      | Some (UDPSrv srv) \<Rightarrow>
          (case handlers of
             UDPServerHandlers u p \<Rightarrow>
               Some (True, g\<lparr>srvMap := (srvMap g)(name \<mapsto> UDPSrv (UDP_SetPackageHandler p (UDP_SetUnpackHandler u srv)))\<rparr>)
           | _ \<Rightarrow> None))"

definition SetConnHandler :: "bytes \<Rightarrow> Handlers \<Rightarrow> XMANGlobalConfig \<Rightarrow> World \<Rightarrow> (bool \<times> World) option" where
  "SetConnHandler name handlers g w =
     (case connMap g name of
        None \<Rightarrow> Some (False, w)
      | Some m \<Rightarrow>
          (case handlers of
             TCPConnHandlers pack unpack \<Rightarrow> do { w \<leftarrow> SetPackHandler m pack w; Some (True, SetUnpackHandler m unpack w) }
           | _ \<Rightarrow> None))"

definition SetReloadHandler :: "bool \<Rightarrow> XMANGlobalConfig \<Rightarrow> XMANGlobalConfig" where
  "SetReloadHandler h g = g\<lparr>reloadHandler := h\<rparr>"

section \<open>Running\<close>

text \<open>The goroutines that \<open>RunServer\<close> starts, for the order \<open>names\<close> in which the range visits the map; it then waits for ever.\<close>

datatype Goroutine = Accepting TCPServer | Receiving UDPServer | Serving bytes

definition StartHTTPSrv :: "XMANGlobalConfig \<Rightarrow> XMANGlobalConfig" where
  "StartHTTPSrv g = (if httpAddr g = [] then g\<lparr>httpAddr := '':8080''\<rparr> else g)"

definition RunServer :: "bytes list \<Rightarrow> XMANGlobalConfig \<Rightarrow> Goroutine list" where
  "RunServer names g =
     concat (map (\<lambda>name. case srvMap g name of
                           Some (TCPSrv srv) \<Rightarrow> [Accepting srv]
                         | Some (UDPSrv srv) \<Rightarrow> [Receiving srv]
                         | None \<Rightarrow> []) names) @ [Serving (httpAddr (StartHTTPSrv g))]"

text \<open>The text that is sent back, and the configuration that the handler gets.\<close>

definition Reload :: "Opener \<Rightarrow> XMANGlobalConfig \<Rightarrow> (bytes \<times> Configuration option) option" where
  "Reload open g =
     (if \<not> reloadHandler g then Some (''ReloadHandler is nil, cannot reload config.'', None)
      else do { c \<leftarrow> g_config g;
                case Read open (cf_filePath c) of
                  Inl err \<Rightarrow> Some (''config read error, '' @ cf_filePath c, None)
                | Inr config \<Rightarrow> Some (''Reload config success.'', Some config) })"


section \<open>What a configuration gives\<close>

text \<open>The server of a section, with its timing wheel and no handlers.\<close>

definition server_of :: "Section \<Rightarrow> SrvVal \<Rightarrow> bool" where
  "server_of s v \<longleftrightarrow>
     (case v of
        TCPSrv srv \<Rightarrow> ValueOf s ''Network'' = ''tcp'' \<and> listening srv \<and> sendChanSize srv = fst (Atoi (ValueOf s ''MaxReq'')) \<and>
          \<not> protoUnpackHandler srv \<and> \<not> packageHandler srv \<and> server_wheel (srv_tw srv)
      | UDPSrv us \<Rightarrow> ValueOf s ''Network'' = ''udp'' \<and> udp_addr us = ValueOf s ''Address'' \<and> udp_open us \<and>
          \<not> us_unpackHandler us \<and> \<not> us_packageHandler us)"

lemma Atoi_range: "fst (Atoi s) < 2 ^ 63"
  by (auto simp: Atoi_def Let_def split: sum.splits NumError.splits)

lemma ParseToINT_range: "fst (ParseToINT s) < 2 ^ 63"
  using Atoi_range [of s] by (auto simp: ParseToINT_def split: prod.splits)

lemma numbered_inj: "1 \<le> i \<Longrightarrow> i < 2 ^ 63 \<Longrightarrow> 1 \<le> j \<Longrightarrow> j < 2 ^ 63 \<Longrightarrow> (p :: bytes) @ itoa i = p @ itoa j \<longleftrightarrow> i = j"
  using itoa_inj [of i j] by auto

lemma numbered_next: "1 \<le> i \<Longrightarrow> i + int (Suc n) \<le> 2 ^ 63 \<Longrightarrow> i + 1 \<le> j \<and> j < i + 1 + int n \<longrightarrow> (p :: bytes) @ itoa i \<noteq> p @ itoa j"
  using itoa_inj [of i j] by auto

lemma init_server_of:
  assumes "init_server env i (getServerInfo s) = Some (Inr v)"
  shows "server_of s v"
proof -
  have wheel: "NewTimingWheel (1 * Second) 3600 = Some w \<Longrightarrow> server_wheel w" for w using server_wheel_New by simp
  show ?thesis using assms wheel
    by (auto simp: init_server_def getServerInfo_def server_of_def RegisterTCPServer_def NewTCPServer_def RegisterUDPServer_def
        split: if_splits option.splits sum.splits Option.bind_splits)
qed

lemma init_servers_spec:
  assumes "init_servers env c i n g = Some (None, g')" and "1 \<le> i" and "i + int n \<le> 2 ^ 63"
  shows "g' = g\<lparr>srvMap := srvMap g'\<rparr> \<and>
    (\<forall>j. i \<le> j \<and> j < i + int n \<longrightarrow> (\<exists>p v. Configuration_Section c (''Server'' @ itoa j) = Some (Inr p) \<and>
      srvMap g' (''Server'' @ itoa j) = Some v \<and> server_of (section_at c p) v)) \<and>
    (\<forall>name. (\<forall>j. i \<le> j \<and> j < i + int n \<longrightarrow> name \<noteq> ''Server'' @ itoa j) \<longrightarrow> srvMap g' name = srvMap g name)"
  using assms
proof (induction n arbitrary: i g)
  case 0
  then show ?case by auto
next
  case (Suc n)
  obtain p v where p: "Configuration_Section c (''Server'' @ itoa i) = Some (Inr p)" "init_server env i (getServerInfo (section_at c p)) = Some (Inr v)"
    "init_servers env c (i + 1) n (g\<lparr>srvMap := (srvMap g)(''Server'' @ itoa i \<mapsto> v)\<rparr>) = Some (None, g')"
    using Suc.prems(1) by (auto simp: Let_def split: Option.bind_splits sum.splits)
  note IH = Suc.IH [OF p(3)]
  have IH: "g' = g\<lparr>srvMap := srvMap g'\<rparr>"
    "\<And>j. i + 1 \<le> j \<Longrightarrow> j < i + 1 + int n \<Longrightarrow> \<exists>p v. Configuration_Section c (''Server'' @ itoa j) = Some (Inr p) \<and>
      srvMap g' (''Server'' @ itoa j) = Some v \<and> server_of (section_at c p) v"
    "\<And>name. (\<forall>j. i + 1 \<le> j \<and> j < i + 1 + int n \<longrightarrow> name \<noteq> ''Server'' @ itoa j) \<Longrightarrow>
      srvMap g' name = ((srvMap g)(''Server'' @ itoa i \<mapsto> v)) name"
    using IH Suc.prems(2,3) by simp_all
  have "srvMap g' (''Server'' @ itoa i) = Some v"
    using IH(3) [OF allI [OF numbered_next [OF Suc.prems(2,3)]]] by simp
  moreover have "server_of (section_at c p) v" by (rule init_server_of [OF p(2)])
  ultimately have first: "\<exists>p v. Configuration_Section c (''Server'' @ itoa i) = Some (Inr p) \<and>
      srvMap g' (''Server'' @ itoa i) = Some v \<and> server_of (section_at c p) v" using p(1) by blast
  have "\<exists>p v. Configuration_Section c (''Server'' @ itoa j) = Some (Inr p) \<and> srvMap g' (''Server'' @ itoa j) = Some v \<and> server_of (section_at c p) v"
    if "i \<le> j" "j < i + int (Suc n)" for j using first IH(2) [of j] that by (cases "j = i") auto
  moreover have "srvMap g' name = srvMap g name" if "\<forall>j. i \<le> j \<and> j < i + int (Suc n) \<longrightarrow> name \<noteq> ''Server'' @ itoa j" for name
    using IH(3) [of name] that by simp
  ultimately show ?case using IH(1) by blast
qed

section \<open>Connections stay registered\<close>

text \<open>A connection manager that the registry finds under a tag.\<close>

definition registered :: "World \<Rightarrow> 32 word \<Rightarrow> nat \<Rightarrow> bool" where
  "registered w tag m \<longleftrightarrow> m < length (w_mgrs w) \<and>
     (\<exists>info k p. RemoteSrvChanList w tag = Some info \<and> k < allSrvNum info \<and> srvInfos info ! k = Some p \<and> p < length (w_srvs w) \<and>
       connMgr (w_srvs w ! p) = TCPMgr m \<and> srvInfo (w_mgrs w ! m) = Some p)"

lemma register_result:
  assumes "world_ok w" and "register tag h w = Some (p, w1)"
  shows "p = length (w_srvs w) \<and> w_mgrs w1 = w_mgrs w \<and> (\<exists>s. w_srvs w1 = w_srvs w @ [s]) \<and>
    (\<exists>info k. RemoteSrvChanList w1 tag = Some info \<and> k < allSrvNum info \<and> srvInfos info ! k = Some p) \<and>
    (\<forall>tag' info k q. RemoteSrvChanList w tag' = Some info \<and> k < allSrvNum info \<and> srvInfos info ! k = Some q \<longrightarrow>
      (\<exists>info'. RemoteSrvChanList w1 tag' = Some info' \<and> k < allSrvNum info' \<and> srvInfos info' ! k = Some q))"
proof (cases "RemoteSrvChanList w tag")
  case None
  then show ?thesis using assms(2) by (auto simp: register_def Let_def maxRemoteSrvIP_def)
next
  case (Some info)
  have i: "info_ok w info" by (rule world_okD(1) [OF assms(1) Some])
  have lt: "allSrvNum info < maxRemoteSrvIP" using assms(2) Some by (auto simp: register_def Let_def split: if_splits)
  then have p: "p = length (w_srvs w)" and w1: "w_mgrs w1 = w_mgrs w" "\<exists>s. w_srvs w1 = w_srvs w @ [s]"
    "RemoteSrvChanList w1 = (RemoteSrvChanList w)(tag \<mapsto> info\<lparr>srvInfos := (srvInfos info)[allSrvNum info := Some p], allSrvNum := allSrvNum info + 1\<rparr>)"
    using assms(2) Some by (auto simp: register_def Let_def)
  have len: "allSrvNum info < length (srvInfos info)" using i lt by (simp add: info_ok_def)
  then have "(srvInfos info)[allSrvNum info := Some p] ! allSrvNum info = Some p" by simp
  then have "\<exists>info k. RemoteSrvChanList w1 tag = Some info \<and> k < allSrvNum info \<and> srvInfos info ! k = Some p"
    unfolding w1(3)
    by (intro exI [of _ "info\<lparr>srvInfos := (srvInfos info)[allSrvNum info := Some p], allSrvNum := allSrvNum info + 1\<rparr>"] exI [of _ "allSrvNum info"]) simp
  moreover have "\<exists>info'. RemoteSrvChanList w1 tag' = Some info' \<and> k < allSrvNum info' \<and> srvInfos info' ! k = Some q"
    if "RemoteSrvChanList w tag' = Some info'' \<and> k < allSrvNum info'' \<and> srvInfos info'' ! k = Some q" for tag' info'' k q
    using that len Some unfolding w1(3) by (cases "tag' = tag") (auto simp: nth_list_update)
  ultimately show ?thesis using p w1(1,2) by blast
qed

lemma RegisterTCPConn_registers:
  assumes ok: "world_ok w" and r: "RegisterTCPConn tag h u dialled w = Some (m, w')"
  shows "registered w' tag m \<and> (\<forall>tag' m'. registered w tag' m' \<longrightarrow> registered w' tag' m')"
proof -
  obtain p w1 w2 where s: "register tag h w = Some (p, w1)" "TCPConnHandler u dialled w1 = Some (m, w2)"
    "w' = go_start m (upd_srv p (\<lambda>s. s\<lparr>connMgr := TCPMgr m\<rparr>) (upd_mgr m (\<lambda>t. t\<lparr>srvInfo := Some p\<rparr>) w2))"
    using r by (auto simp: RegisterTCPConn_def Let_def split: Option.bind_splits)
  note reg = register_result [OF ok s(1)]
  then obtain s0 where s0: "w_srvs w1 = w_srvs w @ [s0]" "p = length (w_srvs w)" "w_mgrs w1 = w_mgrs w" by blast
  obtain t0 where w2: "m = length (w_mgrs w1)" "w_mgrs w2 = w_mgrs w1 @ [t0]" "w_srvs w2 = w_srvs w1" "RemoteSrvChanList w2 = RemoteSrvChanList w1"
    using s(2) by (auto simp: TCPConnHandler_def new_conn_obj_def new_pause_def Let_def split: if_splits)
  have w': "w_srvs w' = w_srvs w @ [s0\<lparr>connMgr := TCPMgr m\<rparr>]" "w_mgrs w' = w_mgrs w @ [t0\<lparr>srvInfo := Some p\<rparr>]" "RemoteSrvChanList w' = RemoteSrvChanList w1"
    "m = length (w_mgrs w)"
    using s0 w2 unfolding s(3) by (simp_all add: go_start_def)
  obtain info k where "RemoteSrvChanList w1 tag = Some info" "k < allSrvNum info" "srvInfos info ! k = Some p" using reg by blast
  then have "registered w' tag m" unfolding registered_def w' s0(2)
    by (intro conjI exI [of _ info] exI [of _ k] exI [of _ "length (w_srvs w)"]) (simp_all add: s0(2) nth_append)
  moreover have "registered w' tag' m'" if old: "registered w tag' m'" for tag' m'
  proof -
    obtain info k q where q: "m' < length (w_mgrs w)" "RemoteSrvChanList w tag' = Some info" "k < allSrvNum info" "srvInfos info ! k = Some q"
      "q < length (w_srvs w)" "connMgr (w_srvs w ! q) = TCPMgr m'" "srvInfo (w_mgrs w ! m') = Some q"
      using old unfolding registered_def by blast
    then obtain info' where "RemoteSrvChanList w1 tag' = Some info'" "k < allSrvNum info'" "srvInfos info' ! k = Some q" using reg by blast
    then show ?thesis using q unfolding registered_def w'
      by (intro conjI exI [of _ info'] exI [of _ k] exI [of _ q]) (simp_all add: nth_append)
  qed
  ultimately show ?thesis by blast
qed

text \<open>What the section of a connection gives: a registered manager if it has a command and is a TCP connection, otherwise nothing.\<close>

definition conn_of :: "Section \<Rightarrow> nat option \<Rightarrow> World \<Rightarrow> nat option \<Rightarrow> bool" where
  "conn_of s before w after \<longleftrightarrow>
     (if ci_CMD (getConnInfo s) \<noteq> 0 \<and> ci_network (getConnInfo s) = ''tcp''
      then \<exists>m. after = Some m \<and> registered w (ci_CMD (getConnInfo s)) m
      else after = before)"

lemma init_conns_spec:
  assumes "init_conns env c i n g w = Some (None, g', w')" and "1 \<le> i" and "i + int n \<le> 2 ^ 63" and "reach w"
  shows "g' = g\<lparr>connMap := connMap g'\<rparr> \<and> reach w' \<and> (\<forall>tag m. registered w tag m \<longrightarrow> registered w' tag m) \<and>
    (\<forall>j. i \<le> j \<and> j < i + int n \<longrightarrow> (\<exists>p. Configuration_Section c (''Conn'' @ itoa j) = Some (Inr p) \<and>
      conn_of (section_at c p) (connMap g (''Conn'' @ itoa j)) w' (connMap g' (''Conn'' @ itoa j)))) \<and>
    (\<forall>name. (\<forall>j. i \<le> j \<and> j < i + int n \<longrightarrow> name \<noteq> ''Conn'' @ itoa j) \<longrightarrow> connMap g' name = connMap g name)"
  using assms
proof (induction n arbitrary: i g w)
  case 0
  then show ?case by auto
next
  case (Suc n)
  obtain p where p: "Configuration_Section c (''Conn'' @ itoa i) = Some (Inr p)"
    using Suc.prems(1) by (auto simp: Let_def split: Option.bind_splits sum.splits)
  let ?info = "getConnInfo (section_at c p)"
  let ?n = "''Conn'' @ itoa i"
  have "\<exists>g1 w1. init_conns env c (i + 1) n g1 w1 = Some (None, g', w') \<and> reach w1 \<and> (\<forall>tag m. registered w tag m \<longrightarrow> registered w1 tag m) \<and>
    conn_of (section_at c p) (connMap g ?n) w1 (connMap g1 ?n) \<and> g1 = g\<lparr>connMap := connMap g1\<rparr> \<and> (\<forall>name. name \<noteq> ?n \<longrightarrow> connMap g1 name = connMap g name)"
  proof (cases "ci_CMD ?info \<noteq> 0 \<and> ci_network ?info = ''tcp''")
    case True
    then obtain m w1 where r: "RegisterTCPConn (ci_CMD ?info) None False (net_Dial env i (ci_address ?info)) w = Some (m, w1)"
      "init_conns env c (i + 1) n (g\<lparr>connMap := (connMap g)(?n \<mapsto> m)\<rparr>) w1 = Some (None, g', w')"
      using Suc.prems(1) p by (auto simp: Let_def split: Option.bind_splits if_splits)
    then show ?thesis using r_tcp [OF Suc.prems(4) r(1)] RegisterTCPConn_registers [OF reach_ok [OF Suc.prems(4)] r(1)] True
      by (intro exI [of _ "g\<lparr>connMap := (connMap g)(?n \<mapsto> m)\<rparr>"] exI [of _ w1]) (auto simp: conn_of_def)
  next
    case False
    then have "init_conns env c (i + 1) n g w = Some (None, g', w')" using Suc.prems(1) p by (auto simp: Let_def)
    then show ?thesis using Suc.prems(4) False by (intro exI [of _ g] exI [of _ w]) (auto simp: conn_of_def)
  qed
  then obtain g1 w1 where 1: "init_conns env c (i + 1) n g1 w1 = Some (None, g', w')" "reach w1" "\<And>tag m. registered w tag m \<Longrightarrow> registered w1 tag m"
    "conn_of (section_at c p) (connMap g ?n) w1 (connMap g1 ?n)" "g1 = g\<lparr>connMap := connMap g1\<rparr>" "\<And>name. name \<noteq> ?n \<Longrightarrow> connMap g1 name = connMap g name"
    by blast
  have IH: "g' = g1\<lparr>connMap := connMap g'\<rparr>" "reach w'" "\<And>tag m. registered w1 tag m \<Longrightarrow> registered w' tag m"
    "\<And>j. i + 1 \<le> j \<Longrightarrow> j < i + 1 + int n \<Longrightarrow> \<exists>p. Configuration_Section c (''Conn'' @ itoa j) = Some (Inr p) \<and>
      conn_of (section_at c p) (connMap g1 (''Conn'' @ itoa j)) w' (connMap g' (''Conn'' @ itoa j))"
    "\<And>name. (\<forall>j. i + 1 \<le> j \<and> j < i + 1 + int n \<longrightarrow> name \<noteq> ''Conn'' @ itoa j) \<Longrightarrow> connMap g' name = connMap g1 name"
    using Suc.IH [OF 1(1) _ _ 1(2)] Suc.prems(2,3) by simp_all
  have "connMap g' ?n = connMap g1 ?n" by (rule IH(5) [OF allI [OF numbered_next [OF Suc.prems(2,3)]]])
  then have first: "conn_of (section_at c p) (connMap g ?n) w' (connMap g' ?n)" using 1(4) IH(3) by (auto simp: conn_of_def split: if_splits)
  have "\<exists>p. Configuration_Section c (''Conn'' @ itoa j) = Some (Inr p) \<and>
      conn_of (section_at c p) (connMap g (''Conn'' @ itoa j)) w' (connMap g' (''Conn'' @ itoa j))"
    if "i \<le> j" "j < i + int (Suc n)" for j
  proof (cases "j = i")
    case False
    then have "''Conn'' @ itoa j \<noteq> ?n" using numbered_inj [of j i "''Conn''"] that Suc.prems(2,3) by simp
    then have "connMap g1 (''Conn'' @ itoa j) = connMap g (''Conn'' @ itoa j)" by (rule 1(6))
    then show ?thesis using IH(4) [of j] that False by simp
  qed (use p first in blast)
  moreover have "connMap g' name = connMap g name" if "\<forall>j. i \<le> j \<and> j < i + int (Suc n) \<longrightarrow> name \<noteq> ''Conn'' @ itoa j" for name
  proof -
    have "connMap g' name = connMap g1 name" using that by (intro IH(5)) simp
    moreover have "name \<noteq> ?n" using that by simp
    ultimately show ?thesis using 1(6) by simp
  qed
  moreover have "g' = g\<lparr>connMap := connMap g'\<rparr>"
  proof -
    have "g' = (g\<lparr>connMap := connMap g1\<rparr>)\<lparr>connMap := connMap g'\<rparr>" using IH(1) 1(5) by metis
    then show ?thesis by simp
  qed
  ultimately show ?case using IH(2,3) 1(3) by blast
qed


lemma only_srvMap: "g' = g\<lparr>srvMap := m\<rparr> \<Longrightarrow> srvNum g' = srvNum g \<and> connNum g' = connNum g \<and> connMap g' = connMap g"
  by simp

lemma only_connMap: "g' = g\<lparr>connMap := m\<rparr> \<Longrightarrow> srvNum g' = srvNum g \<and> connNum g' = connNum g \<and> srvMap g' = srvMap g"
  by simp

lemma InitFromConfig_steps:
  assumes "InitFromConfig env c g w = Some (None, g', w')" and "reach w"
  shows "\<exists>g0 g1. srvMap g0 = srvMap g \<and> connMap g0 = connMap g \<and> srvNum g0 \<noteq> 0 \<and> srvNum g0 < 2 ^ 63 \<and> connNum g0 < 2 ^ 63 \<and>
    init_servers env c 1 (nat (srvNum g0)) g0 = Some (None, g1) \<and> g1 = g0\<lparr>srvMap := srvMap g1\<rparr> \<and>
    init_conns env c 1 (nat (connNum g0)) g1 w = Some (None, g', w') \<and> g' = g1\<lparr>connMap := connMap g'\<rparr>"
proof -
  obtain p where p: "Configuration_Section c ''ServerConfig'' = Some (Inr p)"
    using assms(1) by (auto simp: InitFromConfig_def Let_def split: Option.bind_splits sum.splits)
  obtain num err where num: "ParseToINT (ValueOf (section_at c p) ''SrvNum'') = (num, err)" by fastforce
  then have "num < 2 ^ 63" using ParseToINT_range [of "ValueOf (section_at c p) ''SrvNum''"] by simp
  define g0 where "g0 = g\<lparr>g_config := Some c, srvNum := num, connNum := fst (ParseToINT (ValueOf (section_at c p) ''ConnNum'')),
    httpAddr := ValueOf (section_at c p) ''HttpAddr''\<rparr>"
  obtain g1 where g1: "num \<noteq> 0" "init_servers env c 1 (nat num) g0 = Some (None, g1)" "init_conns env c 1 (nat (connNum g1)) g1 w = Some (None, g', w')"
    using assms(1) p num unfolding g0_def
    by (auto simp: InitFromConfig_def Let_def split: Option.bind_splits sum.splits option.splits if_splits)
  have 0: "srvNum g0 = num" "connNum g0 < 2 ^ 63" using ParseToINT_range by (simp_all add: g0_def)
  have 1: "g1 = g0\<lparr>srvMap := srvMap g1\<rparr>" using init_servers_spec [OF g1(2)] \<open>num < 2 ^ 63\<close> by simp
  have conn: "connNum g1 = connNum g0" using only_srvMap [OF 1] by simp
  then have "g' = g1\<lparr>connMap := connMap g'\<rparr>" using init_conns_spec [OF g1(3) _ _ assms(2)] 0 by simp
  then show ?thesis using g1 0 1 \<open>num < 2 ^ 63\<close> conn by (intro exI [of _ g0] exI [of _ g1]) (simp add: g0_def)
qed

text \<open>
  C18. What an accepted configuration gives. When \<open>InitFromConfig\<close> returns no error, each section \<open>Server1\<close>, \<open>Server2\<close> and so on up to \<open>SrvNum\<close>
  exists, and there is a server of its network, address and size under its name; each section \<open>Conn1\<close> and so on up to \<open>ConnNum\<close> exists, and gives a connection manager
  that the registry holds under the section's command, if the command is not 0 and the network is \<open>tcp\<close>, and nothing otherwise, in particular
  for a connection with the network \<open>udp\<close>; other names are left alone; and the registry keeps its invariants.
\<close>

theorem accepted_configuration:
  assumes "InitFromConfig env c g w = Some (None, g', w')" and "reach w"
  shows "srvNum g' \<noteq> 0 \<and> reach w' \<and>
    (\<forall>i. 1 \<le> i \<and> i \<le> srvNum g' \<longrightarrow>
      (\<exists>p v. Configuration_Section c (''Server'' @ itoa i) = Some (Inr p) \<and> srvMap g' (''Server'' @ itoa i) = Some v \<and> server_of (section_at c p) v)) \<and>
    (\<forall>name. (\<forall>i. 1 \<le> i \<and> i \<le> srvNum g' \<longrightarrow> name \<noteq> ''Server'' @ itoa i) \<longrightarrow> srvMap g' name = srvMap g name) \<and>
    (\<forall>i. 1 \<le> i \<and> i \<le> connNum g' \<longrightarrow>
      (\<exists>p. Configuration_Section c (''Conn'' @ itoa i) = Some (Inr p) \<and>
        conn_of (section_at c p) (connMap g (''Conn'' @ itoa i)) w' (connMap g' (''Conn'' @ itoa i)))) \<and>
    (\<forall>name. (\<forall>i. 1 \<le> i \<and> i \<le> connNum g' \<longrightarrow> name \<noteq> ''Conn'' @ itoa i) \<longrightarrow> connMap g' name = connMap g name)"
proof -
  obtain g0 g1 where s: "srvMap g0 = srvMap g" "connMap g0 = connMap g" "srvNum g0 \<noteq> 0" "srvNum g0 < 2 ^ 63" "connNum g0 < 2 ^ 63"
    "init_servers env c 1 (nat (srvNum g0)) g0 = Some (None, g1)" "g1 = g0\<lparr>srvMap := srvMap g1\<rparr>"
    "init_conns env c 1 (nat (connNum g0)) g1 w = Some (None, g', w')" "g' = g1\<lparr>connMap := connMap g'\<rparr>"
    using InitFromConfig_steps [OF assms] by blast
  have nums: "srvNum g' = srvNum g0" "connNum g' = connNum g0" "srvMap g' = srvMap g1" "connMap g1 = connMap g"
    using s(2) only_srvMap [OF s(7)] only_connMap [OF s(9)] by simp_all
  have upto: "1 \<le> i \<and> i < 1 + int (nat n) \<longleftrightarrow> 1 \<le> i \<and> i \<le> n" for i n :: int by auto
  note servers = init_servers_spec [OF s(6), unfolded upto s(1)]
  note conns = init_conns_spec [OF s(8) _ _ assms(2), unfolded upto nums(4)]
  show ?thesis using servers conns s(3-5) unfolding nums by simp
qed

section \<open>Handlers before the servers run\<close>

fun set_handlers :: "(bytes \<times> Handlers) list \<Rightarrow> XMANGlobalConfig \<Rightarrow> XMANGlobalConfig option" where
  "set_handlers [] g = Some g"
| "set_handlers ((name, h) # hs) g = do { (found, g) \<leftarrow> SetSrvHandler name h g; set_handlers hs g }"

definition complete :: "Handlers \<Rightarrow> bool" where
  "complete h \<longleftrightarrow> h = TCPServerHandlers True True \<or> h = UDPServerHandlers True True"

definition ready :: "SrvVal \<Rightarrow> bool" where
  "ready v = (case v of TCPSrv srv \<Rightarrow> protoUnpackHandler srv \<and> packageHandler srv | UDPSrv us \<Rightarrow> us_unpackHandler us \<and> us_packageHandler us)"

text \<open>Whether a goroutine gets past the test of its handlers; a panic of a goroutine ends the process.\<close>

definition goroutine_starts :: "Goroutine \<Rightarrow> bool" where
  "goroutine_starts go =
     (case go of
        Accepting srv \<Rightarrow> (AcceptLoop srv [] :: (bytes TCPSession list \<times> bytes option \<times> TCPServer) option) \<noteq> None
      | Receiving us \<Rightarrow> (RunUDPServer Inr us [] :: (UDPSession \<times> bytes) list option) \<noteq> None
      | Serving addr \<Rightarrow> True)"

lemma SetSrvHandler_ready:
  assumes "SetSrvHandler n h g = Some (found, g')" and "complete h"
  shows "(srvMap g' name = None \<longleftrightarrow> srvMap g name = None) \<and>
    (\<forall>v'. srvMap g' name = Some v' \<longrightarrow> (ready v' \<longleftrightarrow> name = n \<or> (\<exists>v. srvMap g name = Some v \<and> ready v)))"
proof (cases "srvMap g n")
  case None
  then show ?thesis using assms(1) by (auto simp: SetSrvHandler_def)
next
  case (Some v)
  obtain v' where "g' = g\<lparr>srvMap := (srvMap g)(n \<mapsto> v')\<rparr>" "ready v'"
    using assms Some by (cases v)
      (auto simp: SetSrvHandler_def complete_def ready_def SetPackageHandler_def SetProtoUnpackHandler_def UDP_SetPackageHandler_def UDP_SetUnpackHandler_def)
  then show ?thesis using Some by auto
qed

lemma set_handlers_ready:
  assumes "set_handlers hs g = Some g'" and "\<forall>(n, h) \<in> set hs. complete h"
  shows "(srvMap g' name = None \<longleftrightarrow> srvMap g name = None) \<and>
    (\<forall>v'. srvMap g' name = Some v' \<longrightarrow> (ready v' \<longleftrightarrow> name \<in> fst ` set hs \<or> (\<exists>v. srvMap g name = Some v \<and> ready v)))"
  using assms
proof (induction hs arbitrary: g)
  case (Cons nh hs)
  obtain n h where nh: "nh = (n, h)" by fastforce
  then obtain found g1 where 1: "SetSrvHandler n h g = Some (found, g1)" "set_handlers hs g1 = Some g'"
    using Cons.prems(1) by (auto split: Option.bind_splits)
  have h: "complete h" "\<forall>(n, h) \<in> set hs. complete h" using Cons.prems(2) nh by auto
  show ?case using Cons.IH [OF 1(2) h(2)] SetSrvHandler_ready [OF 1(1) h(1), of name] nh
    by (cases "srvMap g1 name") auto
qed simp

lemma goroutines_start:
  assumes "set names = dom (srvMap g)"
  shows "(\<forall>go \<in> set (RunServer names g). goroutine_starts go) \<longleftrightarrow> (\<forall>name v. srvMap g name = Some v \<longrightarrow> ready v)"
proof -
  have one: "(\<forall>go \<in> set (case srvMap g name of Some (TCPSrv srv) \<Rightarrow> [Accepting srv] | Some (UDPSrv srv) \<Rightarrow> [Receiving srv] | None \<Rightarrow> []). goroutine_starts go) \<longleftrightarrow>
    (\<forall>v. srvMap g name = Some v \<longrightarrow> ready v)" for name
  proof (cases "srvMap g name")
    case (Some v)
    then show ?thesis by (cases v) (simp_all add: goroutine_starts_def AcceptLoop_def RunUDPServer_def ready_def)
  qed simp
  have "goroutine_starts (Serving a)" for a by (simp add: goroutine_starts_def)
  then have "(\<forall>go \<in> set (RunServer names g). goroutine_starts go) \<longleftrightarrow> (\<forall>name \<in> set names. \<forall>v. srvMap g name = Some v \<longrightarrow> ready v)"
    unfolding RunServer_def by (simp add: one [symmetric])
  then show ?thesis using assms by (auto simp: dom_def)
qed

text \<open>
  C40. Every server needs its handlers. After a configuration has been accepted, and handlers have been set with \<open>SetSrvHandler\<close> (without a panic, and both handlers each
  time), the servers that \<open>RunServer\<close> starts run if and only if the handlers of each server \<open>Server1\<close> up to \<open>SrvNum\<close> have been set; otherwise a goroutine panics and the
  process ends.
\<close>

theorem servers_need_handlers:
  assumes "InitFromConfig env c global_init w = Some (None, g1, w1)" and "reach w" and "set_handlers hs g1 = Some g2"
    and "\<forall>(name, h) \<in> set hs. complete h" and "set names = dom (srvMap g2)"
  shows "(\<forall>go \<in> set (RunServer names g2). goroutine_starts go) \<longleftrightarrow>
    (\<forall>i. 1 \<le> i \<and> i \<le> srvNum g1 \<longrightarrow> ''Server'' @ itoa i \<in> fst ` set hs)"
proof -
  obtain g0 g' where s: "srvMap g0 = (\<lambda>_. None)" "srvNum g0 < 2 ^ 63" "init_servers env c 1 (nat (srvNum g0)) g0 = Some (None, g')"
    "g' = g0\<lparr>srvMap := srvMap g'\<rparr>" "g1 = g'\<lparr>connMap := connMap g1\<rparr>"
    using InitFromConfig_steps [OF assms(1,2)] by (auto simp: global_init_def)
  have g1: "srvNum g1 = srvNum g0" "srvMap g1 = srvMap g'"
    using only_srvMap [OF s(4)] only_connMap [OF s(5)] by simp_all
  have upto: "1 \<le> i \<and> i < 1 + int (nat n) \<longleftrightarrow> 1 \<le> i \<and> i \<le> n" for i n :: int by auto
  have servers: "\<And>i. 1 \<le> i \<Longrightarrow> i \<le> srvNum g1 \<Longrightarrow> \<exists>v. srvMap g1 (''Server'' @ itoa i) = Some v"
    "\<And>name v. srvMap g1 name = Some v \<Longrightarrow> \<exists>i. 1 \<le> i \<and> i \<le> srvNum g1 \<and> name = ''Server'' @ itoa i \<and> \<not> ready v"
  proof -
    have "1 + int (nat (srvNum g1)) \<le> 2 ^ 63" using s(2) g1(1) by simp
    note spec = init_servers_spec [OF s(3), unfolded upto s(1), folded g1, OF order_refl this]
    show "\<exists>v. srvMap g1 (''Server'' @ itoa i) = Some v" if "1 \<le> i" "i \<le> srvNum g1" for i using spec that by blast
    show "\<exists>i. 1 \<le> i \<and> i \<le> srvNum g1 \<and> name = ''Server'' @ itoa i \<and> \<not> ready v" if v: "srvMap g1 name = Some v" for name v
    proof -
      have "\<not> (\<forall>i. 1 \<le> i \<and> i \<le> srvNum g1 \<longrightarrow> name \<noteq> ''Server'' @ itoa i)"
      proof
        assume "\<forall>i. 1 \<le> i \<and> i \<le> srvNum g1 \<longrightarrow> name \<noteq> ''Server'' @ itoa i"
        with spec have "srvMap g1 name = None" by blast
        then show False using v by simp
      qed
      then obtain i where i: "1 \<le> i" "i \<le> srvNum g1" "name = ''Server'' @ itoa i" by blast
      with spec obtain p v' where "srvMap g1 name = Some v'" "server_of (section_at c p) v'" by blast
      then have "\<not> ready v" using v by (auto simp: server_of_def ready_def split: SrvVal.splits)
      then show ?thesis using i by blast
    qed
  qed
  note ready = set_handlers_ready [OF assms(3,4)]
  have "(\<forall>name v. srvMap g2 name = Some v \<longrightarrow> ready v) \<longleftrightarrow> (\<forall>name. srvMap g1 name \<noteq> None \<longrightarrow> name \<in> fst ` set hs)"
    using ready servers(2) by (metis not_None_eq)
  also have "\<dots> \<longleftrightarrow> (\<forall>i. 1 \<le> i \<and> i \<le> srvNum g1 \<longrightarrow> ''Server'' @ itoa i \<in> fst ` set hs)"
    using servers by (metis not_None_eq)
  finally show ?thesis unfolding goroutines_start [OF assms(5)] .
qed

section \<open>An example\<close>

definition example_section :: "bytes \<Rightarrow> (bytes \<times> bytes) list \<Rightarrow> Section" where
  "example_section n kvs = \<lparr>fqn = n, options = map_of kvs, orderedOptions = map fst kvs\<rparr>"

definition example_servers :: Configuration where
  "example_servers =
     \<lparr>cf_filePath = ''srv.ini'',
      cf_sections = [''ServerConfig'' \<mapsto> [0], ''Server1'' \<mapsto> [1], ''Server2'' \<mapsto> [2], ''Conn1'' \<mapsto> [3], ''Conn2'' \<mapsto> [4]],
      cf_orderedSections = [''ServerConfig'', ''Server1'', ''Server2'', ''Conn1'', ''Conn2''], cf_locked = False,
      cf_heap =
        [example_section ''ServerConfig'' [(''SrvNum'', ''2''), (''ConnNum'', ''2'')],
         example_section ''Server1'' [(''Network'', ''tcp''), (''Address'', '':7000''), (''MaxReq'', ''10'')],
         example_section ''Server2'' [(''Network'', ''udp''), (''Address'', '':7001'')],
         example_section ''Conn1'' [(''Network'', ''tcp''), (''Address'', '':7002''), (''MaxReq'', ''10''), (''CMD'', ''5'')],
         example_section ''Conn2'' [(''Network'', ''udp''), (''Address'', '':7003''), (''MaxReq'', ''10''), (''CMD'', ''6'')]]\<rparr>"

definition example_net :: NetEnv where
  "example_net = \<lparr>net_Listen = (\<lambda>_ _. None), net_ResolveUDPAddr = (\<lambda>_ _. None), net_ListenUDP = (\<lambda>_ _. None), net_Dial = (\<lambda>_ _. True)\<rparr>"

lemma example_itoa: "itoa 1 = ''1''" "itoa 2 = ''2''" "itoa 5 = ''5''" "itoa 6 = ''6''" "itoa 10 = ''10''"
  by code_simp+

lemma example_numbers: "Atoi ''2'' = (2, None)" "Atoi ''10'' = (10, None)" "Atoi ''5'' = (5, None)" "Atoi ''6'' = (6, None)" "fst (Atoi []) = 0"
  using Atoi_itoa [of 2] Atoi_itoa [of 10] Atoi_itoa [of 5] Atoi_itoa [of 6] by (simp_all add: example_itoa) (simp add: Atoi_def)

lemma example_sections:
  "Configuration_Section example_servers ''ServerConfig'' = Some (Inr 0)"
  "Configuration_Section example_servers ''Server1'' = Some (Inr (Suc 0))" "Configuration_Section example_servers ''Server2'' = Some (Inr (Suc (Suc 0)))"
  "Configuration_Section example_servers ''Conn1'' = Some (Inr (Suc (Suc (Suc 0))))" "Configuration_Section example_servers ''Conn2'' = Some (Inr (Suc (Suc (Suc (Suc 0)))))"
  by (simp_all add: Configuration_Section_def locking_def example_servers_def)

lemma example_values:
  "ParseToINT (ValueOf (section_at example_servers 0) ''SrvNum'') = (2, None)" "ParseToINT (ValueOf (section_at example_servers 0) ''ConnNum'') = (2, None)"
  "getServerInfo (section_at example_servers (Suc 0)) = \<lparr>si_network = ''tcp'', si_address = '':7000'', si_maxReq = 10, si_connProxy = []\<rparr>"
  "getServerInfo (section_at example_servers (Suc (Suc 0))) = \<lparr>si_network = ''udp'', si_address = '':7001'', si_maxReq = 0, si_connProxy = []\<rparr>"
  "getConnInfo (section_at example_servers (Suc (Suc (Suc 0)))) = \<lparr>ci_network = ''tcp'', ci_address = '':7002'', ci_maxReq = 10, ci_CMD = 5\<rparr>"
  "getConnInfo (section_at example_servers (Suc (Suc (Suc (Suc 0))))) = \<lparr>ci_network = ''udp'', ci_address = '':7003'', ci_maxReq = 10, ci_CMD = 6\<rparr>"
  by (simp_all add: ParseToINT_def getServerInfo_def getConnInfo_def section_at_def ValueOf_def example_servers_def example_section_def example_numbers)

lemma example_accepted:
  "\<exists>g w. InitFromConfig example_net example_servers global_init w_init = Some (None, g, w) \<and> srvNum g = 2 \<and> connNum g = 2 \<and>
    (\<exists>g2. set_handlers [(''Server1'', TCPServerHandlers True True)] g = Some g2 \<and> dom (srvMap g2) = {''Server1'', ''Server2''})"
proof -
  obtain wheel where wheel: "NewTimingWheel (1 * Second) 3600 = Some wheel" by (simp add: NewTimingWheel_def Second_def)
  define srv where "srv = \<lparr>listening = True, sendChanSize = 10, protoUnpackHandler = False, packageHandler = False, srv_tw = wheel\<rparr>"
  have 1: "init_server example_net 1 \<lparr>si_network = ''tcp'', si_address = '':7000'', si_maxReq = 10, si_connProxy = []\<rparr> = Some (Inr (TCPSrv srv))"
    unfolding srv_def by (simp add: init_server_def RegisterTCPServer_def NewTCPServer_def wheel [simplified] example_net_def)
  obtain us where 2: "init_server example_net 2 \<lparr>si_network = ''udp'', si_address = '':7001'', si_maxReq = 0, si_connProxy = []\<rparr> = Some (Inr (UDPSrv us))"
    by (simp add: init_server_def RegisterUDPServer_def example_net_def)
  obtain m w where 3: "RegisterTCPConn 5 None False True w_init = Some (m, w)" by (simp add: register_defs Let_def)
  have two: "init_servers e c i 2 g = init_servers e c i (Suc (Suc 0)) g" "init_conns e c i 2 g w = init_conns e c i (Suc (Suc 0)) g w" for e c i g w
    by (simp_all add: numeral_2_eq_2 del: init_servers.simps init_conns.simps)
  have "net_Dial example_net i a" for i a by (simp add: example_net_def)
  then obtain g where g: "InitFromConfig example_net example_servers global_init w_init = Some (None, g, w)" "srvNum g = 2" "connNum g = 2"
    "srvMap g = [''Server1'' \<mapsto> TCPSrv srv, ''Server2'' \<mapsto> UDPSrv us]"
    by (simp add: InitFromConfig_def Let_def example_sections example_values example_itoa 1 2 3 two global_init_def)
  have "set_handlers [(''Server1'', TCPServerHandlers True True)] g =
      Some (g\<lparr>srvMap := (srvMap g)(''Server1'' \<mapsto> TCPSrv (SetPackageHandler True (SetProtoUnpackHandler True srv)))\<rparr>)"
    using g(4) by (simp add: SetSrvHandler_def)
  then show ?thesis using g by auto
qed

theorem accepted_configuration_witness:
  "\<exists>g w. InitFromConfig example_net example_servers global_init w_init = Some (None, g, w) \<and> reach w \<and>
    (\<exists>v. srvMap g (''Server'' @ itoa 1) = Some v) \<and> connMap g (''Conn'' @ itoa 2) = None"
proof -
  obtain g w where g: "InitFromConfig example_net example_servers global_init w_init = Some (None, g, w)" "srvNum g = 2" "connNum g = 2"
    using example_accepted by (elim exE conjE)
  note acc = accepted_configuration [OF g(1) r_init]
  have "\<exists>v. srvMap g (''Server'' @ itoa 1) = Some v"
    using acc [THEN conjunct2, THEN conjunct2, THEN conjunct1, rule_format, of 1] g(2) by auto
  moreover have "\<exists>p. Configuration_Section example_servers (''Conn'' @ itoa 2) = Some (Inr p) \<and>
    conn_of (section_at example_servers p) (connMap global_init (''Conn'' @ itoa 2)) w (connMap g (''Conn'' @ itoa 2))"
    using acc [THEN conjunct2, THEN conjunct2, THEN conjunct2, THEN conjunct2, THEN conjunct1, rule_format, of 2] g(3) by simp
  then have "connMap g (''Conn'' @ itoa 2) = None"
    by (simp add: example_itoa example_sections example_values conn_of_def global_init_def)
  ultimately show ?thesis using g(1) acc by blast
qed

theorem servers_need_handlers_witness:
  "\<exists>g w g2. InitFromConfig example_net example_servers global_init w_init = Some (None, g, w) \<and>
    set_handlers [(''Server1'', TCPServerHandlers True True)] g = Some g2 \<and>
    \<not> (\<forall>go \<in> set (RunServer [''Server1'', ''Server2''] g2). goroutine_starts go)"
proof -
  obtain g w g2 where g: "InitFromConfig example_net example_servers global_init w_init = Some (None, g, w)" "srvNum g = 2"
    "set_handlers [(''Server1'', TCPServerHandlers True True)] g = Some g2" "dom (srvMap g2) = {''Server1'', ''Server2''}"
    using example_accepted by (elim exE conjE)
  have "(\<forall>go \<in> set (RunServer [''Server1'', ''Server2''] g2). goroutine_starts go) \<longleftrightarrow>
    (\<forall>i. 1 \<le> i \<and> i \<le> srvNum g \<longrightarrow> ''Server'' @ itoa i \<in> fst ` set [(''Server1'', TCPServerHandlers True True)])"
    by (rule servers_need_handlers [OF g(1) r_init g(3)]) (use g(4) in \<open>simp_all add: complete_def\<close>)
  moreover have "\<not> (\<forall>i. 1 \<le> i \<and> i \<le> srvNum g \<longrightarrow> ''Server'' @ itoa i \<in> fst ` set [(''Server1'', TCPServerHandlers True True)])"
    using g(2) by (intro notI) (drule spec [of _ 2], simp add: example_itoa)
  ultimately show ?thesis using g by blast
qed

end
