(* ===== verification/Xman_Streams.thy ===== *)
theory Xman_Streams
  imports Xman_Session Xman_Requests "HOL-Library.Sublist"
begin

text \<open>
  The bytes between the two ends of a connection: the goroutines that send and receive for a connection to a remote server
  (\<open>xman/xman_conn_proxy.go\<close>), and what a session of the TCP server makes of the same bytes.

  A \<open>Read\<close> gives some bytes or an error, a \<open>Write\<close> says how many bytes it wrote. The unpacking handler belongs to the user of
  the package. It is called with the bytes it has left and those just read, so it works only if it does not matter how the stream is cut: \<open>streaming\<close> is
  that contract.

  Shown: with such a handler, whatever the sizes of the reads, the server handles the packages that were sent, in order, and the responses are those of the
  whole stream.
\<close>

section \<open>The goroutines of a connection\<close>

definition recvChanBufLen :: nat where "recvChanBufLen = 1024"

datatype ConnRead = ReadBytes bytes | EndOfFile | ReadFailed

text \<open>
  The handler for TCP enters responses into a map; here it gives them in the order of its writes. \<open>tcpRecvHandler\<close> gives the maps it sends to \<open>recvChan\<close> and
  whether it has ended; a nil handler panics.
\<close>

type_synonym 'p Unpack = "bytes \<Rightarrow> (32 word \<times> 'p) list \<times> bytes"

definition seqMap :: "(32 word \<times> 'p) list \<Rightarrow> (32 word \<Rightarrow> 'p option)" where
  "seqMap ws = fold (\<lambda>(seq, pkg) m. m(seq \<mapsto> pkg)) ws (\<lambda>_. None)"

fun tcpRecvHandler :: "'p Unpack option \<Rightarrow> bytes \<Rightarrow> ConnRead list \<Rightarrow> ((32 word \<Rightarrow> 'p option) list \<times> bool) option" where
  "tcpRecvHandler handler tmpbuf [] = Some ([], False)"
| "tcpRecvHandler handler tmpbuf (ReadBytes buf # rs) =
     (if buf = [] then Some ([], True)
      else case handler of
             None \<Rightarrow> None
           | Some unpack \<Rightarrow>
               (let (ws, tmpbuf) = unpack (tmpbuf @ buf)
                in do { (ms, ended) \<leftarrow> tcpRecvHandler handler tmpbuf rs; Some (if length ws > 0 then seqMap ws # ms else ms, ended) }))"
| "tcpRecvHandler handler tmpbuf (EndOfFile # rs) = Some ([], True)"
| "tcpRecvHandler handler tmpbuf (ReadFailed # rs) = Some ([], True)"

text \<open>
  The sending goroutine goes on after a message that was not written in full. The first part of the result is what went out on the connection, the second whether the goroutine has
  ended.
\<close>

datatype SendEvent = Message bytes nat | Paused

fun tcpSendHandler :: "SendEvent list \<Rightarrow> bytes \<times> bool" where
  "tcpSendHandler [] = ([], False)"
| "tcpSendHandler (Message data wlen # es) = (let (out, ended) = tcpSendHandler es in (take wlen data @ out, ended))"
| "tcpSendHandler (Paused # es) = ([], True)"

text \<open>For UDP, errors are skipped: the messages written, and those received, a datagram being cut to the buffer.\<close>

fun udpSendHandler :: "(bytes \<times> bool) list \<Rightarrow> bytes list" where
  "udpSendHandler [] = []"
| "udpSendHandler ((data, written) # ds) = (if written then data # udpSendHandler ds else udpSendHandler ds)"

fun udpRecvHandler :: "ConnRead list \<Rightarrow> bytes list" where
  "udpRecvHandler [] = []"
| "udpRecvHandler (ReadBytes d # rs) = (if take recvChanBufLen d = [] then udpRecvHandler rs else take recvChanBufLen d # udpRecvHandler rs)"
| "udpRecvHandler (EndOfFile # rs) = udpRecvHandler rs"
| "udpRecvHandler (ReadFailed # rs) = udpRecvHandler rs"

section \<open>Handlers for streams\<close>

definition streaming :: "(bytes \<Rightarrow> 'r list \<times> bytes) \<Rightarrow> bool" where
  "streaming f \<longleftrightarrow> f [] = ([], []) \<and> (\<forall>s t. f (s @ t) = (fst (f s) @ fst (f (snd (f s) @ t)), snd (f (snd (f s) @ t))))"

lemma streaming_Nil: "streaming f \<Longrightarrow> f [] = ([], [])"
  by (simp add: streaming_def)

lemma streaming_append: "streaming f \<Longrightarrow> f (s @ t) = (fst (f s) @ fst (f (snd (f s) @ t)), snd (f (snd (f s) @ t)))"
  unfolding streaming_def by (elim conjE) (erule allE [of _ s], erule allE [of _ t])

lemma streaming_prefix:
  assumes "streaming f" and "prefix s t"
  shows "prefix (fst (f s)) (fst (f t))"
proof -
  obtain u where "t = s @ u" using assms(2) by (auto elim: prefixE)
  then show ?thesis using streaming_append [OF assms(1), of s u] by simp
qed

lemma streaming_packages:
  assumes "streaming f" and "\<forall>p \<in> set ps. f (pack p) = ([p], [])"
  shows "f (concat (map pack ps)) = (ps, [])"
  using assms(2)
proof (induction ps)
  case (Cons p ps)
  then show ?case using streaming_append [OF assms(1), of "pack p" "concat (map pack ps)"] by simp
qed (simp add: streaming_Nil [OF assms(1)])

section \<open>From the stream to the session\<close>

text \<open>The steps of a session, with the bytes that it has read so far.\<close>

inductive session_run :: "(bytes \<Rightarrow> 'p list \<times> bytes) \<Rightarrow> bytes \<Rightarrow> 'p TCPSession \<Rightarrow> 'p TCPSession \<Rightarrow> bool" for unpack where
  run_refl: "session_run unpack [] s s"
| run_read: "session_run unpack D s s1 \<Longrightarrow> recvLoop s1 = Reading buf \<Longrightarrow> conn_open s1 \<Longrightarrow> unpack (buf @ d) = (ps, rest) \<Longrightarrow>
    session_run unpack (D @ d) s (s1\<lparr>lastRecvUnixTime := now, recvLoop := Delivering ps rest, unpacked := unpacked s1 @ ps\<rparr>)"
| run_step: "session_run unpack D s s1 \<Longrightarrow> session_step unpack s1 s2 \<Longrightarrow> \<not> (\<exists>buf ps rest. recvLoop s1 = Reading buf \<and> recvLoop s2 = Delivering ps rest) \<Longrightarrow>
    session_run unpack D s s2"

lemma session_run_steps: "session_run unpack D s s' \<Longrightarrow> (session_step unpack)\<^sup>*\<^sup>* s s'"
proof (induction rule: session_run.induct)
  case (run_read D s s1 buf d ps rest now)
  then show ?case using session_step.read [of s1 buf unpack d ps rest now] by (meson rtranclp.rtrancl_into_rtrancl)
qed (auto intro: rtranclp.rtrancl_into_rtrancl)

text \<open>The bytes that wait to be unpacked.\<close>

definition left_over :: "'p RecvLoop \<Rightarrow> bytes option" where
  "left_over l = (case l of NoRecv \<Rightarrow> Some [] | Reading buf \<Rightarrow> Some buf | Delivering ps rest \<Rightarrow> Some rest | RecvDone \<Rightarrow> None)"

lemma other_step:
  assumes "session_step unpack s s'" and "\<not> (\<exists>buf ps rest. recvLoop s = Reading buf \<and> recvLoop s' = Delivering ps rest)" and ok: "session_ok s"
  shows "unpacked s' = unpacked s \<and> (left_over (recvLoop s') = left_over (recvLoop s) \<or> left_over (recvLoop s') = None)"
  using assms(1,2)
proof cases
  case start
  then show ?thesis using ok
    by (auto simp: Session_Start_def select_send_def left_over_def session_ok_def split: if_splits Option.bind_splits)
next
  case (async_send r b)
  then show ?thesis by (auto simp: AsyncSend_def Let_def split: if_splits)
qed (auto simp: Session_Close_def select_send_def left_over_def split: if_splits Option.bind_splits)

lemma session_run_unpacked:
  assumes "session_run unpack D s0 s" and "streaming unpack" and "server_wheel w" and "s0 = NewSession n now w"
  shows "unpacked s = fst (unpack D) \<and> (\<forall>buf. left_over (recvLoop s) = Some buf \<longrightarrow> buf = snd (unpack D))"
  using assms(1,4)
proof (induction rule: session_run.induct)
  case (run_refl s)
  then show ?case using streaming_Nil [OF assms(2)] by (simp add: NewSession_def left_over_def)
next
  case (run_read D s s1 buf d ps rest now')
  then have "buf = snd (unpack D)" "unpacked s1 = fst (unpack D)" by (simp_all add: left_over_def)
  then show ?case using streaming_append [OF assms(2), of D d] run_read.hyps(4) by (simp add: left_over_def)
next
  case (run_step D s s1 s2)
  have "session_ok s1" using session_reachable_ok session_run_steps [OF run_step.hyps(1)] run_step.prems assms(3) by blast
  then show ?case using other_step [OF run_step.hyps(2,3)] run_step.IH [OF run_step.prems] by auto
qed

lemma tcpSendHandler_all: "fst (tcpSendHandler (map (\<lambda>d. Message d (length d)) ds)) = concat ds"
  by (induction ds) (auto split: prod.splits)

text \<open>
  C5. From the sender to the handler. If the server's unpacking handler works on streams and gives a package back for its bytes, then, when a connection writes
  packages in full and any part of these bytes from the start has reached a session, cut into reads in any way, the packages the session has handled, those in its
  channel and those being delivered are the first of the packages sent, in order; when all bytes have been read they are all of them.
\<close>

theorem packages_reach_the_session:
  assumes "streaming unpack" and "\<forall>p \<in> set ps. unpack (pack p) = ([p], [])"
    and "prefix D (fst (tcpSendHandler (map (\<lambda>p. Message (pack p) (length (pack p))) ps)))"
    and "session_run unpack D (NewSession n now w) s" and "server_wheel w"
  shows "\<exists>rest. ps = handled s @ pkgChan s @ in_delivery (recvLoop s) @ rest \<and>
    (D = fst (tcpSendHandler (map (\<lambda>p. Message (pack p) (length (pack p))) ps)) \<longrightarrow> rest = [])"
proof -
  have out: "fst (tcpSendHandler (map (\<lambda>p. Message (pack p) (length (pack p))) ps)) = concat (map pack ps)"
    using tcpSendHandler_all [of "map pack ps"] by (simp add: comp_def)
  have all: "unpack (concat (map pack ps)) = (ps, [])" by (rule streaming_packages [OF assms(1,2)])
  have "session_ok s" by (rule session_reachable_ok [OF session_run_steps [OF assms(4)] assms(5)])
  then have "unpacked s = handled s @ pkgChan s @ in_delivery (recvLoop s)" by (simp add: session_ok_def)
  moreover have "unpacked s = fst (unpack D)" using session_run_unpacked [OF assms(4,1,5) refl] by simp
  moreover have "prefix (fst (unpack D)) ps" using streaming_prefix [OF assms(1), of D "concat (map pack ps)"] assms(3) out all by simp
  moreover have "D = concat (map pack ps) \<Longrightarrow> fst (unpack D) = ps" using all by simp
  ultimately show ?thesis unfolding out by (auto elim!: prefixE)
qed

lemma tcpRecvHandler_chunks:
  assumes "streaming unpack" and "\<forall>b \<in> set bs. b \<noteq> []" and "snd (unpack s) = buf"
  shows "\<exists>wss. tcpRecvHandler (Some unpack) buf (map ReadBytes bs @ [EndOfFile]) = Some (map seqMap wss, True) \<and> [] \<notin> set wss \<and>
    fst (unpack (s @ concat bs)) = fst (unpack s) @ concat wss"
  using assms(2,3)
proof (induction bs arbitrary: s buf)
  case (Cons b bs)
  obtain ws rest where u: "unpack (buf @ b) = (ws, rest)" by fastforce
  then have sb: "fst (unpack (s @ b)) = fst (unpack s) @ ws" "snd (unpack (s @ b)) = rest"
    using streaming_append [OF assms(1), of s b] Cons.prems(2) by simp_all
  obtain wss where "tcpRecvHandler (Some unpack) rest (map ReadBytes bs @ [EndOfFile]) = Some (map seqMap wss, True)" "[] \<notin> set wss"
    "fst (unpack ((s @ b) @ concat bs)) = fst (unpack (s @ b)) @ concat wss"
    using Cons.IH [OF _ sb(2)] Cons.prems(1) by auto
  then show ?case using u sb(1) Cons.prems(1) by (intro exI [of _ "(if ws = [] then [] else [ws]) @ wss"]) auto
qed (auto intro: exI [of _ "[]"])

text \<open>What is in the maps of a stream that was cut into parts.\<close>

lemma seqMap_map_of: "seqMap ws = map_of (rev ws)"
proof -
  have "fold (\<lambda>(seq, pkg) m. m(seq \<mapsto> pkg)) ws m = m ++ map_of (rev ws)" for m
    by (induction ws arbitrary: m) (auto simp: map_add_assoc)
  from this [of "\<lambda>_. None"] show ?thesis unfolding seqMap_def by (simp add: empty_map_add)
qed

lemma seqMap_append: "seqMap (ws @ ws') = seqMap ws ++ seqMap ws'"
  by (simp add: seqMap_map_of)

lemma seqMap_empty: "seqMap ws = Map.empty \<longleftrightarrow> ws = []"
  by (cases ws rule: rev_cases) (auto simp: seqMap_map_of)

lemma merge_seqMap: "foldl (++) m (map seqMap wss) = m ++ seqMap (concat wss)"
  by (induction wss arbitrary: m) (auto simp: seqMap_append map_add_assoc, simp add: seqMap_def)

lemma seqMap_distinct: "distinct (map fst ws) \<Longrightarrow> seqMap ws seq = Some p \<longleftrightarrow> (seq, p) \<in> set ws"
  by (simp add: seqMap_map_of rev_map [symmetric])

lemma seqMap_None: "seqMap ws seq = None \<longleftrightarrow> seq \<notin> fst ` set ws"
  by (simp add: seqMap_map_of map_of_eq_None_iff)

definition in_one_map :: "(32 word \<Rightarrow> 'p option) list \<Rightarrow> (32 word \<times> 'p) list \<Rightarrow> (nat \<Rightarrow> nat) \<Rightarrow> bool" where
  "in_one_map ms rs f \<longleftrightarrow>
     (\<forall>i < length rs. f i < length ms \<and> (ms ! f i) (fst (rs ! i)) = Some (snd (rs ! i)) \<and>
        (\<forall>j < length ms. (ms ! j) (fst (rs ! i)) \<noteq> None \<longrightarrow> j = f i)) \<and>
     (\<forall>i j. i \<le> j \<and> j < length rs \<longrightarrow> f i \<le> f j)"

lemma in_one_map_Cons:
  assumes d: "distinct (map fst (ws @ rs))" and f: "in_one_map ms rs f" and ms: "\<forall>m \<in> set ms. dom m \<subseteq> fst ` set rs"
  shows "in_one_map (seqMap ws # ms) (ws @ rs) (\<lambda>i. if i < length ws then 0 else Suc (f (i - length ws)))"
proof -
  have first: "seqMap ws (fst (ws ! i)) = Some (snd (ws ! i))" if "i < length ws" for i
    using seqMap_distinct [of ws "fst (ws ! i)"] d that by simp
  have other: "(ms ! j) (fst (ws ! i)) = None" if "i < length ws" "j < length ms" for i j
  proof -
    have "fst (ws ! i) \<in> fst ` set ws" using that(1) by simp
    then have "fst (ws ! i) \<notin> fst ` set rs" using d by auto
    then show ?thesis using ms that(2) by (meson domIff nth_mem subsetD)
  qed
  have rest: "seqMap ws (fst (rs ! i)) = None" if "i < length rs" for i
  proof -
    have "fst (rs ! i) \<in> fst ` set rs" using that by simp
    then show ?thesis using d by (auto simp: seqMap_None)
  qed
  have "(\<forall>i < length (ws @ rs). let k = (if i < length ws then 0 else Suc (f (i - length ws))) in
     k < length (seqMap ws # ms) \<and> ((seqMap ws # ms) ! k) (fst ((ws @ rs) ! i)) = Some (snd ((ws @ rs) ! i)) \<and>
        (\<forall>j < length (seqMap ws # ms). ((seqMap ws # ms) ! j) (fst ((ws @ rs) ! i)) \<noteq> None \<longrightarrow> j = k))"
  proof (intro allI impI)
    fix i
    assume i: "i < length (ws @ rs)"
    show "let k = (if i < length ws then 0 else Suc (f (i - length ws))) in
     k < length (seqMap ws # ms) \<and> ((seqMap ws # ms) ! k) (fst ((ws @ rs) ! i)) = Some (snd ((ws @ rs) ! i)) \<and>
        (\<forall>j < length (seqMap ws # ms). ((seqMap ws # ms) ! j) (fst ((ws @ rs) ! i)) \<noteq> None \<longrightarrow> j = k)"
    proof (cases "i < length ws")
      case True
      then show ?thesis using first other by (auto simp: nth_append nth_Cons split: nat.splits)
    next
      case False
      then have "i - length ws < length rs" using i by simp
      then show ?thesis using False f rest [of "i - length ws"]
        by (auto simp: in_one_map_def nth_append nth_Cons split: nat.splits)
    qed
  qed
  moreover have "(if i < length ws then 0 else Suc (f (i - length ws))) \<le> (if j < length ws then 0 else Suc (f (j - length ws)))"
    if "i \<le> j" "j < length (ws @ rs)" for i j
  proof -
    have "i - length ws \<le> j - length ws" using that(1) by simp
    then show ?thesis using that f unfolding in_one_map_def by auto
  qed
  ultimately show ?thesis unfolding in_one_map_def Let_def by blast
qed

lemma maps_in_order:
  assumes "distinct (map fst (concat wss))"
  shows "\<exists>f. in_one_map (map seqMap wss) (concat wss) f"
  using assms
proof (induction wss)
  case (Cons ws wss)
  then obtain f where f: "in_one_map (map seqMap wss) (concat wss) f" by auto
  have "\<forall>m \<in> set (map seqMap wss). dom m \<subseteq> fst ` set (concat wss)"
    by (auto simp: seqMap_map_of dest!: map_of_SomeD) (force)
  from in_one_map_Cons [OF _ f this, of ws] Cons.prems show ?case by auto
next
  case Nil
  show ?case by (rule exI [of _ id]) (simp add: in_one_map_def)
qed

text \<open>
  C21. From the stream to the responses. If the unpacking handler of a connection works on streams and no read is empty, then, whatever the sizes of the reads, \<open>tcpRecvHandler\<close>
  does not panic and ends with the stream. It passes on nonempty maps with nothing but responses of the stream; merged in order they give, for each number, the last
  response of the stream with that number. An earlier one with the same number is lost if both come with one read. If no number comes twice in the stream, each response
  is in exactly one map, and the maps follow the order of the stream.
\<close>

theorem responses_do_not_depend_on_reads:
  assumes "streaming unpack" and "\<forall>b \<in> set bs. b \<noteq> []" and "rs = fst (unpack (concat bs))"
  shows "\<exists>ms. tcpRecvHandler (Some unpack) [] (map ReadBytes bs @ [EndOfFile]) = Some (ms, True) \<and>
    (\<forall>m \<in> set ms. m \<noteq> Map.empty \<and> (\<forall>seq p. m seq = Some p \<longrightarrow> (seq, p) \<in> set rs)) \<and>
    foldl (++) Map.empty ms = seqMap rs \<and>
    (distinct (map fst rs) \<longrightarrow>
      (\<exists>f. (\<forall>i < length rs. f i < length ms \<and> (ms ! f i) (fst (rs ! i)) = Some (snd (rs ! i)) \<and>
              (\<forall>j < length ms. (ms ! j) (fst (rs ! i)) \<noteq> None \<longrightarrow> j = f i)) \<and>
           (\<forall>i j. i \<le> j \<and> j < length rs \<longrightarrow> f i \<le> f j)))"
proof -
  obtain wss where w: "tcpRecvHandler (Some unpack) [] (map ReadBytes bs @ [EndOfFile]) = Some (map seqMap wss, True)"
    "[] \<notin> set wss" "concat wss = rs"
    using tcpRecvHandler_chunks [OF assms(1,2), of "[]" "[]"] streaming_Nil [OF assms(1)] assms(3) by auto
  have "foldl (++) Map.empty (map seqMap wss) = seqMap rs" by (simp add: merge_seqMap w(3))
  moreover have "\<forall>m \<in> set (map seqMap wss). m \<noteq> Map.empty \<and> (\<forall>seq p. m seq = Some p \<longrightarrow> (seq, p) \<in> set rs)"
    using w(2) by (auto simp: seqMap_empty seqMap_map_of w(3) [symmetric] dest!: map_of_SomeD)
  moreover have "distinct (map fst rs) \<Longrightarrow> \<exists>f. in_one_map (map seqMap wss) rs f"
    using maps_in_order [of wss] unfolding w(3) .
  ultimately show ?thesis unfolding in_one_map_def using w(1) by blast
qed

section \<open>An example: packages behind their length\<close>

function frames :: "bytes \<Rightarrow> bytes list \<times> bytes" where
  "frames s =
     (if s = [] then ([], [])
      else let n = of_char (hd s)
           in if n \<le> length (tl s) then apfst (\<lambda>ps. take n (tl s) # ps) (frames (drop n (tl s))) else ([], s))"
  by pat_completeness auto
termination
  by (relation "measure length") (auto simp: neq_Nil_conv)

declare frames.simps [simp del]

definition frame :: "bytes \<Rightarrow> bytes" where
  "frame p = char_of (length p) # p"

lemma frames_Cons: "frames (c # s) = (if of_char c \<le> length s then apfst (\<lambda>ps. take (of_char c) s # ps) (frames (drop (of_char c) s)) else ([], c # s))"
  by (subst frames.simps) (simp add: Let_def)

lemma frames_append: "frames (s @ t) = (fst (frames s) @ fst (frames (snd (frames s) @ t)), snd (frames (snd (frames s) @ t)))"
proof (induction s rule: frames.induct)
  case (1 s)
  show ?case
  proof (cases s)
    case Nil
    then show ?thesis by (simp add: frames.simps [of "[]"])
  next
    case (Cons c r)
    then show ?thesis using 1 by (cases "of_char c \<le> length r") (simp_all add: frames_Cons)
  qed
qed

lemma streaming_frames: "streaming frames"
  unfolding streaming_def by (intro conjI allI frames_append) (simp add: frames.simps [of "[]"])

lemma char_codes: "char_of (1 :: nat) = CHR 0x01" "char_of (Suc (Suc 0)) = CHR 0x02"
  by code_simp+

lemma frames_frame: "length p < 256 \<Longrightarrow> frames (frame p) = ([p], [])"
  by (simp add: frame_def frames_Cons frames.simps [of "[]"])

text \<open>A message of which only a part is written makes the server take what follows for its rest.\<close>

lemma partial_write_misreads:
  "frames (fst (tcpSendHandler [Message (frame ''ab'') 2, Message (frame ''c'') 2])) = ([[CHR ''a'', CHR 0x01]], ''c'')"
  by (simp add: frame_def frames_Cons frames.simps [of "[]"] char_codes [simplified])

lemma example_run:
  assumes "server_wheel w"
  shows "\<exists>s. session_run frames (frame ''hi'' @ [CHR 0x02]) (NewSession 1 0 w) s \<and> recvLoop s = Delivering [''hi''] [CHR 0x02] \<and> pkgChan s = [] \<and> handled s = []"
proof -
  obtain s1 :: "bytes TCPSession" where s1: "Session_Start (NewSession 1 0 w) = Some s1" "recvLoop s1 = Reading []" "pkgChan s1 = []" "handled s1 = []" "conn_open s1"
  proof -
    let ?s = "(NewSession 1 0 w :: bytes TCPSession)\<lparr>s_closed := 0, recvLoop := Reading [], pkgChanLoop := Taking\<rparr>"
    obtain c where "select_send ?s = Some (?s\<lparr>sendLoop := Selecting c, waited := 0\<rparr>)"
      using select_send_Some [of ?s] assms by (auto simp: NewSession_def)
    then show thesis by (intro that [of "?s\<lparr>sendLoop := Selecting c, waited := 0\<rparr>"]) (simp_all add: Session_Start_def NewSession_def)
  qed
  have run: "session_run frames [] (NewSession 1 0 w) s1"
    by (rule run_step [OF run_refl start [OF s1(1)]]) (simp add: NewSession_def)
  have "frames ([] @ frame ''hi'' @ [CHR 0x02]) = ([''hi''], [CHR 0x02])" by (simp add: frame_def frames_Cons frames.simps [of "[]"])
  from run_read [OF run s1(2,5) this, of 0] s1 show ?thesis by auto
qed

theorem packages_reach_the_session_witness:
  "\<exists>w s rest. session_run frames (frame ''hi'' @ [CHR 0x02]) (NewSession 1 0 w) s \<and> [''hi'', ''yo''] = handled s @ pkgChan s @ in_delivery (recvLoop s) @ rest"
proof -
  obtain w where w: "NewTimingWheel Second 3600 = Some w" by (simp add: NewTimingWheel_def Second_def)
  note sw = server_wheel_New [OF w]
  obtain s where s: "session_run frames (frame ''hi'' @ [CHR 0x02]) (NewSession 1 0 w) s" using example_run [OF sw] by blast
  have f: "\<forall>p \<in> set [''hi'', ''yo'']. frames (frame p) = ([p], [])" using frames_frame [of "''hi''"] frames_frame [of "''yo''"] by simp
  have pre: "prefix (frame ''hi'' @ [CHR 0x02]) (fst (tcpSendHandler (map (\<lambda>p. Message (frame p) (length (frame p))) [''hi'', ''yo''])))"
    by (simp add: frame_def char_codes [simplified])
  show ?thesis using packages_reach_the_session [OF streaming_frames f pre s sw] s by blast
qed

definition numbered :: "bytes \<Rightarrow> (32 word \<times> bytes) list \<times> bytes" where
  "numbered s = apfst (map (\<lambda>p. (of_nat (of_char (hd p)), tl p))) (frames s)"

lemma streaming_numbered: "streaming numbered"
proof -
  have "numbered (u @ v) = (fst (numbered u) @ fst (numbered (snd (numbered u) @ v)), snd (numbered (snd (numbered u) @ v)))" for u v
    unfolding numbered_def using frames_append [of u v] by simp
  moreover have "numbered [] = ([], [])" by (simp add: numbered_def frames.simps [of "[]"])
  ultimately show ?thesis unfolding streaming_def by blast
qed

theorem responses_do_not_depend_on_reads_witness:
  "\<exists>ms f. tcpRecvHandler (Some numbered) [] (map ReadBytes [[CHR 0x02, CHR 0x07], ''x'' @ [CHR 0x02, CHR 0x08], ''y''] @ [EndOfFile]) = Some (ms, True) \<and>
    foldl (++) Map.empty ms = seqMap [(7, ''x''), (8, ''y'')] \<and>
    (ms ! f (0 :: nat)) 7 = Some ''x'' \<and> (ms ! f 1) 8 = Some ''y'' \<and> f 0 \<le> f 1 \<and> f 1 < length ms"
proof -
  define bs where "bs = [[CHR 0x02, CHR 0x07], ''x'' @ [CHR 0x02, CHR 0x08], ''y'']"
  define rs :: "(32 word \<times> bytes) list" where "rs = [(7, ''x''), (8, ''y'')]"
  have u: "rs = fst (numbered (concat bs))"
    by (simp add: bs_def rs_def numbered_def frames_Cons frames.simps [of "[]"])
  have b: "\<forall>b \<in> set bs. b \<noteq> []" by (simp add: bs_def)
  have d: "distinct (map fst rs)" by (simp add: rs_def)
  obtain ms f where
    m: "tcpRecvHandler (Some numbered) [] (map ReadBytes bs @ [EndOfFile]) = Some (ms, True)" "foldl (++) Map.empty ms = seqMap rs" and
    f: "\<forall>i < length rs. f i < length ms \<and> (ms ! f i) (fst (rs ! i)) = Some (snd (rs ! i))" "\<forall>i j. i \<le> j \<and> j < length rs \<longrightarrow> f i \<le> f j"
    using responses_do_not_depend_on_reads [OF streaming_numbered b u] d by blast
  have "(ms ! f 0) 7 = Some ''x''" "(ms ! f 1) 8 = Some ''y''" "f 1 < length ms"
    using f(1) [rule_format, of 0] f(1) [rule_format, of 1] by (simp_all add: rs_def)
  moreover have "f 0 \<le> f 1" using f(2) [rule_format, of 0 1] by (simp add: rs_def)
  ultimately show ?thesis using m unfolding bs_def rs_def by (intro exI [of _ ms] exI [of _ f]) (simp only: simp_thms)
qed

text \<open>Two responses with one number: in one read the second takes the place of the first, in two reads both are passed on.\<close>

lemma same_number_twice:
  "tcpRecvHandler (Some numbered) [] [ReadBytes [CHR 0x02, CHR 0x07, CHR ''x'', CHR 0x02, CHR 0x07, CHR ''y''], EndOfFile] =
     Some ([[7 \<mapsto> ''y'']], True)"
  "tcpRecvHandler (Some numbered) [] [ReadBytes [CHR 0x02, CHR 0x07, CHR ''x''], ReadBytes [CHR 0x02, CHR 0x07, CHR ''y''], EndOfFile] =
     Some ([[7 \<mapsto> ''x''], [7 \<mapsto> ''y'']], True)"
  by (simp_all add: numbered_def frames_Cons frames.simps [of "[]"] seqMap_def)

end
