(* ===== verification/Xman_Redis.thy ===== *)
theory Xman_Redis
  imports Go_Base
begin

text \<open>
  The Redis wrapper (\<open>db/xman_redis.go\<close>). The package \<open>redigo\<close> and the server behind it are a parameter: a value of the type \<open>'r\<close> is
  their state, \<open>'v\<close> the type of replies, and the record \<open>Redis\<close> says whether the pool has an idle connection, whether the server can be dialled, and what the
  commands and conversions give. \<^term>\<open>None\<close> is a panic.

  Shown: when the server cannot be dialled every operation panics; and, for a server that does what its manual says, what \<open>ClearAll\<close> removes.
\<close>

section \<open>The pool\<close>

datatype RedisArg = Str bytes | Num int | Flag bool

record ('r, 'v) Redis =
  rd_idle :: "'r \<Rightarrow> bool"
  rd_reachable :: "'r \<Rightarrow> bytes \<Rightarrow> bool"
  rd_select :: "'r \<Rightarrow> int \<Rightarrow> bytes option"
  rd_Do :: "'r \<Rightarrow> bytes \<Rightarrow> RedisArg list \<Rightarrow> (bytes + 'v) \<times> 'r"
  rd_Bool :: "'v \<Rightarrow> bytes + bool"
  rd_Strings :: "'v \<Rightarrow> bytes + bytes list"

definition DefaultKey :: bytes where "DefaultKey = ''XMANRedis''"
definition ErrNoConnKey :: bytes where "ErrNoConnKey = ''redis has no conn key.''"

record RedisController =
  pool :: bool
  rc_key :: bytes
  conninfo :: bytes
  dbNum :: int

definition NewRedisController :: RedisController where
  "NewRedisController = \<lparr>pool = False, rc_key = DefaultKey, conninfo = [], dbNum = 0\<rparr>"

text \<open>
  The function \<open>Dial\<close> of the pool does not look at the error of \<open>redis.Dial\<close>: without a connection, the \<open>Do\<close> on it panics. An error of the
  \<open>SELECT\<close> is returned.
\<close>

definition Dial :: "('r, 'v) Redis \<Rightarrow> RedisController \<Rightarrow> 'r \<Rightarrow> (bytes option) option" where
  "Dial env rc st = (if \<not> rd_reachable env st (conninfo rc) then None else Some (rd_select env st (dbNum rc)))"

text \<open>\<open>p.Get\<close> takes an idle connection or dials; a connection that could not be made has the error for every use. A nil pool panics.\<close>

definition pool_Get :: "('r, 'v) Redis \<Rightarrow> RedisController \<Rightarrow> 'r \<Rightarrow> (bytes option) option" where
  "pool_Get env rc st = (if \<not> pool rc then None else if rd_idle env st then Some None else Dial env rc st)"

definition InitRedis :: "('r, 'v) Redis \<Rightarrow> bytes \<Rightarrow> bytes \<Rightarrow> int \<Rightarrow> RedisController \<Rightarrow> 'r \<Rightarrow> (bytes option \<times> RedisController) option" where
  "InitRedis env key info num rc st =
     (if info = [] then Some (Some ErrNoConnKey, rc)
      else (let rc = \<lparr>pool = True, rc_key = (if key = [] then DefaultKey else key), conninfo = info, dbNum = num\<rparr>
            in do { err \<leftarrow> pool_Get env rc st; Some (err, rc) }))"

definition redis_do :: "('r, 'v) Redis \<Rightarrow> RedisController \<Rightarrow> bytes \<Rightarrow> RedisArg list \<Rightarrow> 'r \<Rightarrow> ((bytes + 'v) \<times> 'r) option" where
  "redis_do env rc cmd args st =
     do { err \<leftarrow> pool_Get env rc st;
          Some (case err of Some err \<Rightarrow> (Inl err, st) | None \<Rightarrow> rd_Do env st cmd args) }"

section \<open>Operations\<close>

definition err_of :: "bytes + 'a \<Rightarrow> bytes option" where
  "err_of r = (case r of Inl err \<Rightarrow> Some err | Inr v \<Rightarrow> None)"

definition Redis_Get :: "('r, 'v) Redis \<Rightarrow> RedisController \<Rightarrow> bytes \<Rightarrow> 'r \<Rightarrow> ('v option \<times> 'r) option" where
  "Redis_Get env rc key st =
     do { (r, st) \<leftarrow> redis_do env rc ''GET'' [Str key] st; Some (case r of Inl err \<Rightarrow> None | Inr v \<Rightarrow> Some v, st) }"

definition Put :: "('r, 'v) Redis \<Rightarrow> RedisController \<Rightarrow> bytes \<Rightarrow> RedisArg \<Rightarrow> int \<Rightarrow> 'r \<Rightarrow> (bytes option \<times> 'r) option" where
  "Put env rc key val timeout st =
     do { (r, st) \<leftarrow> redis_do env rc ''SETEX'' [Str key, Num timeout, val] st;
          case r of
            Inl err \<Rightarrow> Some (Some err, st)
          | Inr v \<Rightarrow> do { (r, st) \<leftarrow> redis_do env rc ''HSET'' [Str (rc_key rc), Str key, Flag True] st; Some (err_of r, st) } }"

definition Redis_Delete :: "('r, 'v) Redis \<Rightarrow> RedisController \<Rightarrow> bytes \<Rightarrow> 'r \<Rightarrow> (bytes option \<times> 'r) option" where
  "Redis_Delete env rc key st =
     do { (r, st) \<leftarrow> redis_do env rc ''DEL'' [Str key] st;
          case r of
            Inl err \<Rightarrow> Some (Some err, st)
          | Inr v \<Rightarrow> do { (r, st) \<leftarrow> redis_do env rc ''HDEL'' [Str (rc_key rc), Str key] st; Some (err_of r, st) } }"

text \<open>The conversions of a reply pass an error on.\<close>

definition convert :: "('v \<Rightarrow> bytes + 'a) \<Rightarrow> bytes + 'v \<Rightarrow> bytes + 'a" where
  "convert f r = (case r of Inl err \<Rightarrow> Inl err | Inr v \<Rightarrow> f v)"

definition IsExist :: "('r, 'v) Redis \<Rightarrow> RedisController \<Rightarrow> bytes \<Rightarrow> 'r \<Rightarrow> (bool \<times> 'r) option" where
  "IsExist env rc key st =
     do { (r, st) \<leftarrow> redis_do env rc ''EXISTS'' [Str key] st;
          case convert (rd_Bool env) r of
            Inl err \<Rightarrow> Some (False, st)
          | Inr True \<Rightarrow> Some (True, st)
          | Inr False \<Rightarrow> do { (r, st) \<leftarrow> redis_do env rc ''HDEL'' [Str (rc_key rc), Str key] st; Some (False, st) } }"

definition Incr :: "('r, 'v) Redis \<Rightarrow> RedisController \<Rightarrow> bytes \<Rightarrow> 'r \<Rightarrow> (bytes option \<times> 'r) option" where
  "Incr env rc key st = do { (r, st) \<leftarrow> redis_do env rc ''INCRBY'' [Str key, Num 1] st; Some (err_of (convert (rd_Bool env) r), st) }"

definition Decr :: "('r, 'v) Redis \<Rightarrow> RedisController \<Rightarrow> bytes \<Rightarrow> 'r \<Rightarrow> (bytes option \<times> 'r) option" where
  "Decr env rc key st = do { (r, st) \<leftarrow> redis_do env rc ''INCRBY'' [Str key, Num (-1)] st; Some (err_of (convert (rd_Bool env) r), st) }"

fun clear_keys :: "('r, 'v) Redis \<Rightarrow> RedisController \<Rightarrow> bytes list \<Rightarrow> 'r \<Rightarrow> (bytes option \<times> 'r) option" where
  "clear_keys env rc [] st = do { (r, st) \<leftarrow> redis_do env rc ''DEL'' [Str (rc_key rc)] st; Some (err_of r, st) }"
| "clear_keys env rc (str # strs) st =
     do { (r, st) \<leftarrow> redis_do env rc ''DEL'' [Str str] st;
          case r of Inl err \<Rightarrow> Some (Some err, st) | Inr v \<Rightarrow> clear_keys env rc strs st }"

definition ClearAll :: "('r, 'v) Redis \<Rightarrow> RedisController \<Rightarrow> 'r \<Rightarrow> (bytes option \<times> 'r) option" where
  "ClearAll env rc st =
     do { (r, st) \<leftarrow> redis_do env rc ''HKEYS'' [Str (rc_key rc)] st;
          case convert (rd_Strings env) r of Inl err \<Rightarrow> Some (Some err, st) | Inr cachedKeys \<Rightarrow> clear_keys env rc cachedKeys st }"

section \<open>A server that cannot be dialled\<close>

lemma unreachable_do:
  assumes "\<not> rd_idle env st" and "\<not> rd_reachable env st (conninfo rc)"
  shows "redis_do env rc cmd args st = None"
  using assms by (simp add: redis_do_def pool_Get_def Dial_def)

text \<open>
  A server that cannot be dialled. If the pool has no idle connection and the server cannot be dialled, then no operation returns an error: \<open>InitRedis\<close> and every
  other operation panics.
\<close>

theorem unreachable_server_panics:
  assumes "\<not> rd_idle env st" and "\<not> rd_reachable env st (conninfo rc)" and "conninfo rc \<noteq> []"
  shows "InitRedis env key (conninfo rc) num rc' st = None \<and> Redis_Get env rc key st = None \<and> Put env rc key val timeout st = None \<and>
    Redis_Delete env rc key st = None \<and> IsExist env rc key st = None \<and> Incr env rc key st = None \<and> Decr env rc key st = None \<and> ClearAll env rc st = None"
  using assms unreachable_do [OF assms(1,2)]
  by (simp add: InitRedis_def pool_Get_def Dial_def Redis_Get_def Put_def Redis_Delete_def IsExist_def Incr_def Decr_def ClearAll_def Let_def)

section \<open>What is removed\<close>

text \<open>
  What the manual says of the commands, on the keys that the server holds and the fields of the hash under the key of the controller; keys may expire with every
  command.
\<close>

definition redis_server :: "('r, 'v) Redis \<Rightarrow> bytes \<Rightarrow> ('r \<Rightarrow> bytes set) \<Rightarrow> ('r \<Rightarrow> bytes set) \<Rightarrow> bool" where
  "redis_server env h keys members \<longleftrightarrow>
     (\<forall>st v st'. rd_Do env st ''HKEYS'' [Str h] = (Inr v, st') \<longrightarrow>
        keys st' \<subseteq> keys st \<and> members st' = members st \<and> (\<forall>ks. rd_Strings env v = Inr ks \<longrightarrow> set ks = members st)) \<and>
     (\<forall>st k v st'. rd_Do env st ''DEL'' [Str k] = (Inr v, st') \<longrightarrow> keys st' \<subseteq> keys st - {k})"

lemma redis_do_Inr: "redis_do env rc cmd args st = Some (Inr v, st') \<Longrightarrow> rd_Do env st cmd args = (Inr v, st')"
  by (auto simp: redis_do_def split: Option.bind_splits option.splits)

lemma clear_keys_keys:
  assumes "redis_server env h keys members" and "clear_keys env rc ks st = Some (None, st')"
  shows "keys st' \<subseteq> keys st - set ks - {rc_key rc}"
  using assms(2)
proof (induction ks arbitrary: st)
  case Nil
  then obtain v where "redis_do env rc ''DEL'' [Str (rc_key rc)] st = Some (Inr v, st')"
    by (auto simp: err_of_def split: Option.bind_splits sum.splits)
  then show ?case using assms(1) redis_do_Inr unfolding redis_server_def by fastforce
next
  case (Cons k ks)
  then obtain v st1 where d: "redis_do env rc ''DEL'' [Str k] st = Some (Inr v, st1)" "clear_keys env rc ks st1 = Some (None, st')"
    by (auto split: Option.bind_splits sum.splits)
  have "keys st1 \<subseteq> keys st - {k}" using assms(1) redis_do_Inr [OF d(1)] unfolding redis_server_def by blast
  then show ?case using Cons.IH [OF d(2)] by auto
qed

text \<open>
  C39. What \<open>ClearAll\<close> removes. When it returns no error, none of the keys that were in the hash of the controller is left on the server, nor the hash, and no key
  has been added.
\<close>

theorem ClearAll_clears:
  assumes "redis_server env (rc_key rc) keys members" and "ClearAll env rc st = Some (None, st')"
  shows "keys st' \<subseteq> keys st - members st - {rc_key rc}"
proof -
  obtain v st1 ks where c: "redis_do env rc ''HKEYS'' [Str (rc_key rc)] st = Some (Inr v, st1)" "rd_Strings env v = Inr ks"
    "clear_keys env rc ks st1 = Some (None, st')"
    using assms(2) by (auto simp: ClearAll_def convert_def split: Option.bind_splits sum.splits)
  have "keys st1 \<subseteq> keys st" "set ks = members st" using assms(1) redis_do_Inr [OF c(1)] c(2) unfolding redis_server_def by blast+
  then show ?thesis using clear_keys_keys [OF assms(1) c(3)] by auto
qed

section \<open>An example server\<close>

text \<open>The state is the list of keys and that of the fields of the hash.\<close>

definition example_redis :: "bool \<Rightarrow> (bytes list \<times> bytes list, bytes list) Redis" where
  "example_redis up =
     \<lparr>rd_idle = (\<lambda>_. False), rd_reachable = (\<lambda>_ _. up), rd_select = (\<lambda>_ _. None),
      rd_Do = (\<lambda>st cmd args.
        if cmd = ''HKEYS'' then (Inr (snd st), st)
        else case args of [Str k] \<Rightarrow> (Inr [], (filter (\<lambda>x. x \<noteq> k) (fst st), snd st)) | _ \<Rightarrow> (Inl ''ERR'', st)),
      rd_Bool = (\<lambda>_. Inl ''ERR''), rd_Strings = Inr\<rparr>"

definition example_controller :: RedisController where
  "example_controller = \<lparr>pool = True, rc_key = DefaultKey, conninfo = '':6379'', dbNum = 0\<rparr>"

theorem unreachable_server_panics_witness:
  "InitRedis (example_redis False) [] '':6379'' 0 NewRedisController ([], []) = None \<and> ClearAll (example_redis False) example_controller ([], []) = None"
  using unreachable_server_panics [of "example_redis False" "([], [])" example_controller "[]" 0 NewRedisController]
  by (simp add: example_redis_def example_controller_def)

theorem ClearAll_clears_witness:
  "\<exists>st. ClearAll (example_redis True) example_controller ([''a'', ''b'', DefaultKey], [''a'']) = Some (None, st) \<and> set (fst st) \<subseteq> {''b''}"
proof -
  let ?st = "([''a'', ''b'', DefaultKey], [''a''])"
  have s: "redis_server (example_redis True) (rc_key example_controller) (\<lambda>st. set (fst st)) (\<lambda>st. set (snd st))"
    unfolding redis_server_def example_redis_def by (auto split: if_splits)
  have c: "ClearAll (example_redis True) example_controller ?st = Some (None, ([''b''], [''a'']))"
    by (simp add: ClearAll_def redis_do_def pool_Get_def Dial_def convert_def err_of_def example_redis_def example_controller_def DefaultKey_def)
  show ?thesis using ClearAll_clears [OF s c] c by (auto simp: example_controller_def)
qed

end
