(* ===== verification/Xman_Daemonize.thy ===== *)
theory Xman_Daemonize
  imports Go_Base
begin

text \<open>
  Turning the process into a daemon (\<open>utils/xman_daemonize.go\<close>). What the system calls give is a record of parameters, and the function gives the calls it makes,
  in order, and its result; \<^term>\<open>None\<close> is the end of the process. The system call \<open>fork\<close> gives two unsigned words and an error number.

  Shown: what the parent and the child do.
\<close>

record Sys =
  sys_darwin :: bool
  sys_getppid :: int
  sys_fork :: "nat \<times> nat \<times> nat"
  sys_setsid :: "int \<times> nat"
  sys_open_null :: "int option"

datatype SysCall = Fork | Exit int | Umask int | Setsid | Chdir bytes | OpenFile bytes | Dup2 int int

text \<open>The part that the child does. The standard streams have the numbers 0, 1 and 2.\<close>

definition daemon_child :: "Sys \<Rightarrow> int \<Rightarrow> int \<Rightarrow> SysCall list \<times> int option" where
  "daemon_child sys nochdir noclose =
     (let (s_ret, s_errno) = sys_setsid sys
      in if s_ret < 0 then ([Umask 0, Setsid], Some (-1))
         else ([Umask 0, Setsid] @ (if nochdir = 0 then [Chdir ''/''] else []) @
               (if noclose = 0 then
                  OpenFile ''/dev/null'' # (case sys_open_null sys of None \<Rightarrow> [] | Some fd \<Rightarrow> [Dup2 fd 0, Dup2 fd 1, Dup2 fd 2])
                else []),
               Some 0))"

text \<open>The test whether the second word of \<open>fork\<close> is negative can never hold, since it is unsigned.\<close>

definition Daemonize :: "Sys \<Rightarrow> int \<Rightarrow> int \<Rightarrow> SysCall list \<times> int option" where
  "Daemonize sys nochdir noclose =
     (if sys_getppid sys = 1 then ([], Some 0)
      else (let (ret, ret2, err) = sys_fork sys
            in if err \<noteq> 0 then ([Fork], Some (-1))
               else (let ret = (if sys_darwin sys \<and> ret2 = 1 then 0 else ret)
                     in if ret > 0 then ([Fork, Exit 0], None)
                        else apfst (\<lambda>cs. Fork # cs) (daemon_child sys nochdir noclose))))"

text \<open>The process ends exactly in the parent of a fork; a result 0 means that the process has the session leader's place or was a daemon before.\<close>

lemma Daemonize_ends:
  "snd (Daemonize sys nochdir noclose) = None \<longleftrightarrow>
    sys_getppid sys \<noteq> 1 \<and> snd (snd (sys_fork sys)) = 0 \<and> fst (sys_fork sys) > 0 \<and> \<not> (sys_darwin sys \<and> fst (snd (sys_fork sys)) = 1)"
  by (auto simp: Daemonize_def daemon_child_def Let_def split: prod.splits)

lemma Daemonize_detached:
  "snd (Daemonize sys nochdir noclose) = Some 0 \<Longrightarrow> sys_getppid sys \<noteq> 1 \<Longrightarrow>
    [Fork, Umask 0, Setsid] = take 3 (fst (Daemonize sys nochdir noclose)) \<and>
    (nochdir = 0 \<longrightarrow> Chdir ''/'' \<in> set (fst (Daemonize sys nochdir noclose))) \<and>
    (noclose = 0 \<and> sys_open_null sys = Some fd \<longrightarrow> {Dup2 fd 0, Dup2 fd 1, Dup2 fd 2} \<subseteq> set (fst (Daemonize sys nochdir noclose)))"
  by (auto simp: Daemonize_def daemon_child_def Let_def split: prod.splits if_splits)

end
