(* ===== verification/Go_Json.thy ===== *)
theory Go_Json
  imports Go_Utf8 Go_Numbers
begin

text \<open>
  What the program uses of \<open>encoding/json\<close>: the text that \<open>Marshal\<close> gives for a value, and the value that \<open>Unmarshal\<close>
  finds in a text. Numbers are kept as their text. Shown: a text that is marshalled from strings in UTF-8 is read back as the same value.
\<close>

datatype json = JNull | JBool bool | JNum bytes | JStr bytes | JArr "json list" | JObj "(bytes \<times> json) list"

section \<open>Writing\<close>

definition hex :: "nat \<Rightarrow> char" where
  "hex n = ''0123456789abcdef'' ! n"

text \<open>The characters \<open><\<close>, \<open>>\<close> and \<open>&\<close> are written as escapes too.\<close>

definition escape_byte :: "char \<Rightarrow> bytes" where
  "escape_byte b =
     (if b = CHR 0x22 \<or> b = CHR 0x5C then [CHR 0x5C, b]
      else if b = CHR 0x0A then [CHR 0x5C, CHR ''n'']
      else if b = CHR 0x0D then [CHR 0x5C, CHR ''r'']
      else if b = CHR 0x09 then [CHR 0x5C, CHR ''t'']
      else if of_char b < (0x20 :: nat) \<or> b \<in> {CHR ''<'', CHR ''>'', CHR ''&''}
        then [CHR 0x5C, CHR ''u'', CHR ''0'', CHR ''0'', hex (of_char b div 16), hex (of_char b mod 16)]
      else [b])"

function escape :: "bytes \<Rightarrow> bytes" where
  "escape s =
     (if s = [] then []
      else (let (r, n) = decode_rune s
            in (if r < 0x80 then escape_byte (hd s)
                else if (r, n) = (0xFFFD, 1) then CHR 0x5C # ''ufffd''
                else if r = 0x2028 then CHR 0x5C # ''u2028''
                else if r = 0x2029 then CHR 0x5C # ''u2029''
                else take n s) @ escape (drop n s)))"
  by pat_completeness auto
termination
proof (relation "measure length", simp, goal_cases)
  case (1 s p r n)
  then have "1 \<le> n" using decode_rune_size [of s] by (metis snd_conv)
  then show ?case using 1 by simp
qed

declare escape.simps [simp del]

definition quote :: "bytes \<Rightarrow> bytes" where
  "quote s = CHR 0x22 # escape s @ [CHR 0x22]"

fun commas :: "bytes list \<Rightarrow> bytes" where
  "commas [] = []"
| "commas [x] = x"
| "commas (x # y # xs) = x @ '','' @ commas (y # xs)"

fun Marshal :: "json \<Rightarrow> bytes" where
  "Marshal JNull = ''null''"
| "Marshal (JBool b) = (if b then ''true'' else ''false'')"
| "Marshal (JNum t) = t"
| "Marshal (JStr s) = quote s"
| "Marshal (JArr vs) = ''['' @ commas (map Marshal vs) @ '']''"
| "Marshal (JObj kvs) = ''{'' @ commas (map (\<lambda>(k, v). quote k @ '':'' @ Marshal v) kvs) @ ''}''"

section \<open>Reading\<close>

definition skip_ws :: "bytes \<Rightarrow> bytes" where
  "skip_ws s = dropWhile (\<lambda>c. c \<in> {CHR 0x20, CHR 0x09, CHR 0x0A, CHR 0x0D}) s"

definition unhex :: "char \<Rightarrow> nat option" where
  "unhex c =
     (let n = of_char c
      in if 48 \<le> n \<and> n \<le> 57 then Some (n - 48)
         else if 97 \<le> n \<and> n \<le> 102 then Some (n - 87)
         else if 65 \<le> n \<and> n \<le> 70 then Some (n - 55)
         else None)"

fun hex4 :: "bytes \<Rightarrow> nat option" where
  "hex4 (a # b # c # d # s) =
     do { a \<leftarrow> unhex a; b \<leftarrow> unhex b; c \<leftarrow> unhex c; d \<leftarrow> unhex d; Some (a * 4096 + b * 256 + c * 16 + d) }"
| "hex4 s = None"

definition unescape :: "char \<Rightarrow> bytes option" where
  "unescape c =
     (if c \<in> {CHR 0x22, CHR 0x5C, CHR ''/''} then Some [c]
      else if c = CHR ''b'' then Some [CHR 0x08]
      else if c = CHR ''f'' then Some [CHR 0x0C]
      else if c = CHR ''n'' then Some [CHR 0x0A]
      else if c = CHR ''r'' then Some [CHR 0x0D]
      else if c = CHR ''t'' then Some [CHR 0x09]
      else None)"

text \<open>The character of \<open>\u\<close> with the number \<open>r\<close>, and whether a second escape that follows belongs to it.\<close>

definition surrogates :: "nat \<Rightarrow> bytes \<Rightarrow> nat \<times> bool" where
  "surrogates r s =
     (if 0xD800 \<le> r \<and> r \<le> 0xDFFF then
        (case s of
           a # b # s' \<Rightarrow>
             (case (if a = CHR 0x5C \<and> b = CHR ''u'' then hex4 s' else None) of
                Some r2 \<Rightarrow> (if r \<le> 0xDBFF \<and> 0xDC00 \<le> r2 \<and> r2 \<le> 0xDFFF then (0x10000 + (r - 0xD800) * 1024 + (r2 - 0xDC00), True) else (0xFFFD, False))
              | None \<Rightarrow> (0xFFFD, False))
         | _ \<Rightarrow> (0xFFFD, False))
      else (r, False))"

text \<open>A string after its first quote: its value and what follows the second one.\<close>

function scan_str :: "bytes \<Rightarrow> (bytes \<times> bytes) option" where
  "scan_str s =
     (if s = [] \<or> of_char (hd s) < (0x20 :: nat) then None
      else if hd s = CHR 0x22 then Some ([], tl s)
      else if hd s = CHR 0x5C then
        (if tl s = [] then None
         else if hd (tl s) = CHR ''u'' then
           do { r \<leftarrow> hex4 (drop 2 s);
                let (r, both) = surrogates r (drop 6 s);
                (v, rest) \<leftarrow> scan_str (drop (if both then 12 else 6) s);
                Some (encode_rune r @ v, rest) }
         else do { c \<leftarrow> unescape (hd (tl s)); (v, rest) \<leftarrow> scan_str (drop 2 s); Some (c @ v, rest) })
      else (let n = snd (decode_rune s); c = (if decode_rune s = (0xFFFD, 1) then encode_rune 0xFFFD else take n s)
            in do { (v, rest) \<leftarrow> scan_str (drop n s); Some (c @ v, rest) }))"
  by pat_completeness auto
termination
proof (relation "measure length", simp, goal_cases)
  case (1 s r x r' both)
  then show ?case by (cases s) auto
next
  case (2 s c)
  then show ?case by (cases s) auto
next
  case (3 s n c)
  then have "1 \<le> snd (decode_rune s)" using decode_rune_size [of s] by simp
  then show ?case using 3 by simp
qed

declare scan_str.simps [simp del]

definition is_digit :: "char \<Rightarrow> bool" where
  "is_digit c \<longleftrightarrow> 48 \<le> (of_char c :: nat) \<and> of_char c \<le> (57 :: nat)"

text \<open>A number: its text and the rest.\<close>

definition scan_digits :: "bytes \<Rightarrow> (bytes \<times> bytes) option" where
  "scan_digits s = (case takeWhile is_digit s of [] \<Rightarrow> None | ds \<Rightarrow> Some (ds, dropWhile is_digit s))"

definition scan_int :: "bytes \<Rightarrow> (bytes \<times> bytes) option" where
  "scan_int s = (case s of c # r \<Rightarrow> (if c = CHR ''0'' then Some ([c], r) else scan_digits s) | [] \<Rightarrow> None)"

definition scan_frac :: "bytes \<Rightarrow> (bytes \<times> bytes) option" where
  "scan_frac s =
     (case s of
        c # r \<Rightarrow> (if c = CHR ''.'' then map_option (apfst (\<lambda>ds. c # ds)) (scan_digits r) else Some ([], s))
      | [] \<Rightarrow> Some ([], s))"

definition scan_exp :: "bytes \<Rightarrow> (bytes \<times> bytes) option" where
  "scan_exp s =
     (case s of
        c # r \<Rightarrow>
          (if c \<in> {CHR ''e'', CHR ''E''} then
             (case r of
                d # r' \<Rightarrow> (if d \<in> {CHR ''+'', CHR ''-''} then map_option (apfst (\<lambda>ds. c # d # ds)) (scan_digits r')
                           else map_option (apfst (\<lambda>ds. c # ds)) (scan_digits r))
              | [] \<Rightarrow> None)
           else Some ([], s))
      | [] \<Rightarrow> Some ([], s))"

definition scan_num :: "bytes \<Rightarrow> (bytes \<times> bytes) option" where
  "scan_num s =
     (let (sign, s) = (if s \<noteq> [] \<and> hd s = CHR ''-'' then ([hd s], tl s) else ([], s))
      in do { (a, s) \<leftarrow> scan_int s; (b, s) \<leftarrow> scan_frac s; (c, s) \<leftarrow> scan_exp s; Some (sign @ a @ b @ c, s) })"

text \<open>Values, the elements of an array and the members of an object; the number is the fuel.\<close>

fun parse_value :: "nat \<Rightarrow> bytes \<Rightarrow> (json \<times> bytes) option"
  and parse_elems :: "nat \<Rightarrow> bytes \<Rightarrow> (json list \<times> bytes) option"
  and parse_members :: "nat \<Rightarrow> bytes \<Rightarrow> ((bytes \<times> json) list \<times> bytes) option"
where
  "parse_value 0 s = None"
| "parse_value (Suc n) s =
     (case skip_ws s of
        [] \<Rightarrow> None
      | c # r \<Rightarrow>
          (if c = CHR ''{'' then
             (if HasPrefix (skip_ws r) ''}'' then Some (JObj [], tl (skip_ws r)) else map_option (apfst JObj) (parse_members n r))
           else if c = CHR ''['' then
             (if HasPrefix (skip_ws r) '']'' then Some (JArr [], tl (skip_ws r)) else map_option (apfst JArr) (parse_elems n r))
           else if c = CHR 0x22 then map_option (apfst JStr) (scan_str r)
           else if HasPrefix (c # r) ''null'' then Some (JNull, drop 3 r)
           else if HasPrefix (c # r) ''true'' then Some (JBool True, drop 3 r)
           else if HasPrefix (c # r) ''false'' then Some (JBool False, drop 4 r)
           else map_option (apfst JNum) (scan_num (c # r))))"
| "parse_elems 0 s = None"
| "parse_elems (Suc n) s =
     do { (v, r) \<leftarrow> parse_value n s;
          (case skip_ws r of
             [] \<Rightarrow> None
           | c # r \<Rightarrow>
               (if c = CHR '','' then do { (vs, r) \<leftarrow> parse_elems n r; Some (v # vs, r) }
                else if c = CHR '']'' then Some ([v], r)
                else None)) }"
| "parse_members 0 s = None"
| "parse_members (Suc n) s =
     (case skip_ws s of
        [] \<Rightarrow> None
      | c # r \<Rightarrow>
          (if c \<noteq> CHR 0x22 then None
           else do { (k, r) \<leftarrow> scan_str r;
                     (case skip_ws r of
                        [] \<Rightarrow> None
                      | c # r \<Rightarrow>
                          (if c \<noteq> CHR '':'' then None
                           else do { (v, r) \<leftarrow> parse_value n r;
                                     (case skip_ws r of
                                        [] \<Rightarrow> None
                                      | c # r \<Rightarrow>
                                          (if c = CHR '','' then do { (kvs, r) \<leftarrow> parse_members n r; Some ((k, v) # kvs, r) }
                                           else if c = CHR ''}'' then Some ([(k, v)], r)
                                           else None)) })) }))"

text \<open>An element of an array takes two calls, so this fuel is enough.\<close>

definition parse_json :: "bytes \<Rightarrow> json option" where
  "parse_json s =
     do { (v, r) \<leftarrow> parse_value (2 * length s + 2) s; if skip_ws r = [] then Some v else None }"


section \<open>What is written is read back\<close>

lemma unhex_hex: "n < 16 \<Longrightarrow> unhex (hex n) = Some n"
proof -
  have "\<forall>n \<in> set [0..<16]. unhex (hex n) = Some n" by code_simp
  then show "n < 16 \<Longrightarrow> unhex (hex n) = Some n" by simp
qed

lemma hex4_byte: "hex4 (CHR ''0'' # CHR ''0'' # hex (of_char b div 16) # hex (of_char b mod 16) # x) = Some (of_char b)"
proof -
  have "of_char b div 16 < (16 :: nat)" by (rule less_mult_imp_div_less) simp
  moreover have "unhex (CHR ''0'') = Some 0" by code_simp
  ultimately show ?thesis by (simp add: unhex_hex)
qed

lemma scan_escape_byte:
  assumes "of_char b < (0x80 :: nat)"
  shows "scan_str (escape_byte b @ x) = map_option (apfst (\<lambda>v. b # v)) (scan_str x)"
proof -
  have dec: "decode_rune (b # x) = (of_char b, 1)" using assms by (rule decode_rune_ascii)
  consider (special) "b \<in> {CHR 0x22, CHR 0x5C, CHR 0x0A, CHR 0x0D, CHR 0x09}"
    | (hexed) "b \<notin> {CHR 0x22, CHR 0x5C, CHR 0x0A, CHR 0x0D, CHR 0x09}" "of_char b < (0x20 :: nat) \<or> b \<in> {CHR ''<'', CHR ''>'', CHR ''&''}"
    | (plain) "b \<notin> {CHR 0x22, CHR 0x5C, CHR 0x0A, CHR 0x0D, CHR 0x09}" "\<not> (of_char b < (0x20 :: nat) \<or> b \<in> {CHR ''<'', CHR ''>'', CHR ''&''})"
    by blast
  then show ?thesis
  proof cases
    case special
    then obtain c where "escape_byte b = [CHR 0x5C, c]" "unescape c = Some [b]" "c \<noteq> CHR ''u''"
      by (auto simp: escape_byte_def unescape_def)
    then show ?thesis by (cases "scan_str x"; subst scan_str.simps) (simp_all split: prod.splits)
  next
    case hexed
    then have e: "escape_byte b = [CHR 0x5C, CHR ''u'', CHR ''0'', CHR ''0'', hex (of_char b div 16), hex (of_char b mod 16)]"
      by (auto simp: escape_byte_def)
    have s: "surrogates (of_char b) x = (of_char b, False)" using assms by (simp add: surrogates_def)
    have r: "encode_rune (of_char b) = [b]" using assms by (simp add: encode_rune_def)
    show ?thesis unfolding e
      by (cases "scan_str x"; subst scan_str.simps) (simp_all add: s r hex4_byte del: hex4.simps split: prod.splits)
  next
    case plain
    then have "escape_byte b = [b]" by (auto simp: escape_byte_def)
    moreover have "\<not> of_char b < (0x20 :: nat)" "b \<noteq> CHR 0x22" "b \<noteq> CHR 0x5C" using plain by blast+
    moreover have "of_char b \<noteq> (0xFFFD :: nat)" using assms by simp
    ultimately show ?thesis using dec
      by (cases "scan_str x"; subst scan_str.simps) (simp_all split: prod.splits)
  qed
qed

lemma line_separators:
  assumes "s \<noteq> []" and "decode_rune s = (r, n)" and "r = 0x2028 \<or> r = 0x2029"
  shows "take n s = encode_rune r"
proof -
  obtain b bs where s: "s = b # bs" using assms(1) by (cases s) auto
  have r: "decode_rune (b # bs) = (r, n)" "decode_rune (b # bs) \<noteq> (0xFFFD, 1)" using assms s by auto
  from r(2) show ?thesis
  proof (cases rule: decode_rune_cases)
    case one
    then show ?thesis using r(1) assms(3) by (auto simp: decode_rune_def)
  next
    case (two c x)
    then have "r = (of_char b - 0xC0) * 64 + (of_char c - 0x80)" using r(1) by (simp add: decode_rune_def Let_def)
    then show ?thesis using two(3,5) assms(3) by linarith
  next
    case (three c d x)
    then have n: "r = (of_char b - 0xE0) * 4096 + (of_char c - 0x80) * 64 + (of_char d - 0x80)" "n = 3"
      using r(1) by (simp_all add: decode_rune_def Let_def split: if_splits)
    have c: "0x80 \<le> (of_char c :: nat)" "of_char c \<le> (0xBF :: nat)" using three(4,5) by (auto split: if_splits)
    obtain B C D :: nat where B: "of_char b = 0xE0 + B" "of_char c = 0x80 + C" "of_char d = 0x80 + D"
      using three(2,6) c(1) by (metis le_iff_add)
    then have "r = B * 4096 + C * 64 + D" "C \<le> 63" "D \<le> 63" using n(1) c(2) three(7) by simp_all
    note r = this
    have "B = 2" using r assms(3) by linarith
    moreover have "C = 0" using r \<open>B = 2\<close> assms(3) by linarith
    ultimately have "B = 2" "C = 0" "D = r - 0x2000" using r(1) by simp_all
    then have "of_char b = (0xE2 :: nat)" "of_char c = (0x80 :: nat)" "of_char d = (r - 0x2028 + 0xA8 :: nat)"
      using B assms(3) by auto
    then have "b = char_of (0xE2 :: nat)" "c = char_of (0x80 :: nat)" "d = char_of (r - 0x2028 + 0xA8)" by (metis char_of_char)+
    then show ?thesis using assms(3) n(2) three(1) unfolding s by (auto simp: encode_rune_def)
  next
    case (four c d e x)
    then have n: "r = (of_char b - 0xF0) * 262144 + (of_char c - 0x80) * 4096 + (of_char d - 0x80) * 64 + (of_char e - 0x80)"
      using r(1) by (simp add: decode_rune_def Let_def split: if_splits)
    have "r \<ge> 0x10000"
    proof (cases "of_char b = (0xF0 :: nat)")
      case True
      then have "(of_char c :: nat) \<ge> 0x90" using four(4) by simp
      then show ?thesis using n by linarith
    next
      case False
      then show ?thesis using n four(2) by linarith
    qed
    then show ?thesis using assms(3) by auto
  qed
qed

lemma scan_escape: "valid_utf8 s \<Longrightarrow> scan_str (escape s @ CHR 0x22 # x) = Some (s, x)"
proof (induction s rule: valid_utf8.induct)
  case (1 s)
  show ?case
  proof (cases "s = []")
    case True
    then show ?thesis by (simp add: escape.simps [of "[]"]) (simp add: scan_str.simps [of "CHR 0x22 # x"])
  next
    case False
    obtain r n where d: "decode_rune s = (r, n)" by fastforce
    have ok: "decode_rune s \<noteq> (0xFFFD, 1)" "valid_utf8 (drop n s)" using 1(2) False d by (simp_all add: valid_utf8.simps [of s] split: if_splits)
    have IH: "scan_str (escape (drop n s) @ CHR 0x22 # x) = Some (drop n s, x)" using 1(1) False ok d by simp
    have n: "1 \<le> n" "n \<le> length s" using decode_rune_size [OF False] decode_rune_le [OF False] d by simp_all
    obtain b bs where s: "s = b # bs" using False by (cases s) auto
    let ?y = "escape (drop n s) @ CHR 0x22 # x"
    show ?thesis
    proof (cases "r < 0x80")
      case True
      then have b: "of_char b < (0x80 :: nat)" using d decode_rune_multi [of b bs] s by fastforce
      then have "r = of_char b" "n = 1" using d s by (simp_all add: decode_rune_ascii)
      then have "escape s = escape_byte b @ escape (drop n s)" using True d unfolding s by (simp add: escape.simps [of "b # bs"])
      then show ?thesis using scan_escape_byte [OF b, of ?y] IH s \<open>n = 1\<close> by simp
    next
      case False
      show ?thesis
      proof (cases "r = 0x2028 \<or> r = 0x2029")
        case True
        then have "take n s = encode_rune r" using line_separators d \<open>s \<noteq> []\<close> by blast
        then have t: "encode_rune r @ drop n s = s" by (metis append_take_drop_id)
        define u where "u = (if r = 0x2028 then ''2028'' else ''2029'')"
        have e: "escape s = CHR 0x5C # CHR ''u'' # u @ escape (drop n s)" using True d \<open>s \<noteq> []\<close> by (auto simp: escape.simps [of s] u_def)
        have "hex4 (''2028'' @ ?y) = Some 0x2028" "hex4 (''2029'' @ ?y) = Some 0x2029" by (simp_all add: unhex_def)
        then have "hex4 (u @ ?y) = Some r" "length u = 4" using True by (auto simp: u_def)
        moreover have "surrogates r ?y = (r, False)" using True by (auto simp: surrogates_def)
        ultimately have "scan_str (CHR 0x5C # CHR ''u'' # u @ ?y) = Some (encode_rune r @ drop n s, x)"
          using IH by (subst scan_str.simps) simp
        then show ?thesis using e t by simp
      next
        case plain: False
        then have e: "escape s = take n s @ escape (drop n s)" using ok d False \<open>s \<noteq> []\<close> by (auto simp: escape.simps [of s])
        have m: "0x80 \<le> (of_char b :: nat)" using False d s decode_rune_ascii [of b bs] by fastforce
        have "take n s \<noteq> []" "decode_rune (take n s) = (r, n)" using n \<open>s \<noteq> []\<close> decode_rune_take [OF \<open>s \<noteq> []\<close> ok(1)] d by auto
        then have dec: "decode_rune (take n s @ ?y) = (r, n)" using decode_rune_append [of "take n s" ?y] ok(1) d by simp
        have hd: "hd (take n s @ ?y) = b" "take n s @ ?y \<noteq> []" using s n by (cases n; simp)+
        have "b \<noteq> CHR 0x22" "b \<noteq> CHR 0x5C" using m by auto
        then have "scan_str (take n s @ ?y) = Some (take n s @ drop n s, x)"
          using m IH ok(1) d n by (subst scan_str.simps) (auto simp: hd dec simp del: append_take_drop_id)
        then show ?thesis using e by simp
      qed
    qed
  qed
qed


text \<open>The values whose text is read back: strings in UTF-8, and integers.\<close>

fun json_ok :: "json \<Rightarrow> bool" where
  "json_ok (JNum t) = (\<exists>i. t = itoa i)"
| "json_ok (JStr s) = valid_utf8 s"
| "json_ok (JArr vs) = (\<forall>v \<in> set vs. json_ok v)"
| "json_ok (JObj kvs) = (\<forall>kv \<in> set kvs. valid_utf8 (fst kv) \<and> json_ok (snd kv))"
| "json_ok v = True"

text \<open>What can follow a value.\<close>

definition delim :: "bytes \<Rightarrow> bool" where
  "delim s \<longleftrightarrow> s = [] \<or> hd s \<in> {CHR '','', CHR '']'', CHR ''}''}"

lemma is_digit_char: "(d :: nat) < 10 \<Longrightarrow> is_digit (char_of (48 + d))"
  by (simp add: is_digit_def)

lemma digits_are: "list_all is_digit (digits n) \<and> digits n \<noteq> [] \<and> (hd (digits n) = CHR ''0'' \<longrightarrow> n = 0)"
proof (induction n rule: digits.induct)
  case (1 n)
  show ?case
  proof (cases "n < 10")
    case True
    then have "char_of (48 + n) = CHR ''0'' \<Longrightarrow> n = 0" by (auto dest!: arg_cong [where f = "of_char :: char \<Rightarrow> nat"])
    then show ?thesis using True by (simp add: digits.simps [of n] is_digit_char)
  next
    case False
    then have "n div 10 \<noteq> 0" by simp
    then show ?thesis using 1 False by (simp add: digits.simps [of n] is_digit_char)
  qed
qed

lemma digit_delims: "is_digit (CHR '','') = False" "is_digit (CHR '']'') = False" "is_digit (CHR ''}'') = False" "is_digit (CHR ''0'') = True" "is_digit (CHR ''-'') = False"
  by (simp_all add: is_digit_def)

lemma scan_digits_append:
  assumes "list_all is_digit ds" and "ds \<noteq> []" and "delim r"
  shows "scan_digits (ds @ r) = Some (ds, r)"
proof -
  have "takeWhile is_digit r = []" "dropWhile is_digit r = r" using assms(3) by (cases r; auto simp: delim_def digit_delims)+
  moreover have "\<And>x. x \<in> set ds \<Longrightarrow> is_digit x" using assms(1) by (simp add: list_all_iff)
  ultimately have "takeWhile is_digit (ds @ r) = ds" "dropWhile is_digit (ds @ r) = r" by (simp_all add: takeWhile_append2 dropWhile_append2)
  then show ?thesis using assms(2) by (cases ds) (simp_all add: scan_digits_def)
qed

lemma scan_int_digits: "delim r \<Longrightarrow> scan_int (digits n @ r) = Some (digits n, r)"
proof -
  assume r: "delim r"
  obtain c ds where cs: "digits n = c # ds" using digits_are [of n] by (cases "digits n") auto
  show ?thesis
  proof (cases "c = CHR ''0''")
    case True
    then have "n = 0" using digits_are [of n] cs by simp
    moreover have "digits 0 = ''0''" by code_simp
    ultimately have "digits n = ''0''" by simp
    then show ?thesis by (simp add: scan_int_def)
  next
    case False
    then show ?thesis using scan_digits_append [of "digits n" r] digits_are [of n] r cs by (simp add: scan_int_def)
  qed
qed

lemma scan_num_itoa:
  assumes "delim r"
  shows "scan_num (itoa i @ r) = Some (itoa i, r)"
proof -
  have rest: "scan_frac r = Some ([], r)" "scan_exp r = Some ([], r)" using assms by (cases r; auto simp: scan_frac_def scan_exp_def delim_def)+
  have hd: "digits n \<noteq> [] \<and> hd (digits n) \<noteq> CHR ''-''" for n using digits_hd [of n] by simp
  show ?thesis using hd scan_int_digits [OF assms] rest by (simp add: scan_num_def itoa_def hd_append)
qed

lemma itoa_hd: "itoa i \<noteq> [] \<and> (is_digit (hd (itoa i)) \<or> hd (itoa i) = CHR ''-'')"
  using digits_are [of "nat i"] by (cases "digits (nat i)") (auto simp: itoa_def)

lemma Marshal_hd: "json_ok v \<Longrightarrow> Marshal v \<noteq> [] \<and> hd (Marshal v) \<notin> {CHR 0x20, CHR 0x09, CHR 0x0A, CHR 0x0D, CHR '']'', CHR ''}''}"
proof (cases v)
  case (JNum t)
  assume "json_ok v"
  then obtain i where "t = itoa i" using JNum by auto
  then show ?thesis using itoa_hd [of i] JNum by (auto simp: is_digit_def)
qed (auto simp: quote_def)

lemma skip_ws_id: "s = [] \<or> hd s \<notin> {CHR 0x20, CHR 0x09, CHR 0x0A, CHR 0x0D} \<Longrightarrow> skip_ws s = s"
  by (cases s) (auto simp: skip_ws_def)

text \<open>Reading a value back, given fuel for its text.\<close>

definition reads_back :: "json \<Rightarrow> bool" where
  "reads_back v \<longleftrightarrow> (\<forall>n r. 2 * length (Marshal v) + 1 \<le> n \<and> delim r \<longrightarrow> parse_value n (Marshal v @ r) = Some (v, r))"

lemma parse_elems_back:
  assumes "\<forall>v \<in> set vs. json_ok v \<and> reads_back v" and "vs \<noteq> []" and "2 * length (commas (map Marshal vs)) + 2 \<le> n"
  shows "parse_elems n (commas (map Marshal vs) @ '']'' @ r) = Some (vs, r)"
  using assms
proof (induction vs arbitrary: n)
  case (Cons v vs)
  obtain m where n: "n = Suc m" using Cons.prems(3) by (cases n) auto
  note v = Cons.prems(1) [rule_format, of v, simplified, unfolded reads_back_def]
  show ?case
  proof (cases vs)
    case Nil
    then have "parse_value m (Marshal v @ '']'' @ r) = Some (v, '']'' @ r)" using v Cons.prems(3) n by (simp add: delim_def)
    then show ?thesis using n Nil by (simp add: skip_ws_id)
  next
    case (Cons w ws)
    let ?rest = "commas (map Marshal vs) @ '']'' @ r"
    have len: "2 * length (Marshal v) + 2 + 2 * length (commas (map Marshal vs)) + 2 \<le> n" using Cons.prems(3) Cons by simp
    have "Marshal v \<noteq> []" using v Marshal_hd by blast
    then have "1 \<le> length (Marshal v)" by (simp add: Suc_le_eq)
    then have "2 * length (Marshal v) + 1 \<le> m" "2 * length (commas (map Marshal vs)) + 2 \<le> m" using len n by auto
    then have "parse_value m (Marshal v @ '','' @ ?rest) = Some (v, '','' @ ?rest)" "parse_elems m ?rest = Some (vs, r)"
      using v Cons.IH [of m] Cons.prems(1) Cons by (simp_all add: delim_def)
    then show ?thesis using n Cons by (simp add: skip_ws_id)
  qed
qed simp

lemma parse_members_back:
  assumes "\<forall>kv \<in> set kvs. valid_utf8 (fst kv) \<and> json_ok (snd kv) \<and> reads_back (snd kv)" and "kvs \<noteq> []"
    and "2 * length (commas (map (\<lambda>(k, v). quote k @ '':'' @ Marshal v) kvs)) + 2 \<le> n"
  shows "parse_members n (commas (map (\<lambda>(k, v). quote k @ '':'' @ Marshal v) kvs) @ ''}'' @ r) = Some (kvs, r)"
  using assms
proof (induction kvs arbitrary: n)
  case (Cons kv kvs)
  obtain k v where kv: "kv = (k, v)" by fastforce
  obtain m where n: "n = Suc m" using Cons.prems(3) by (cases n) auto
  have k: "scan_str (escape k @ CHR 0x22 # x) = Some (k, x)" for x using Cons.prems(1) kv by (simp add: scan_escape)
  have v: "json_ok v" "reads_back v" using Cons.prems(1) kv by simp_all
  let ?f = "\<lambda>(k, v). quote k @ '':'' @ Marshal v"
  show ?case
  proof (cases kvs)
    case Nil
    then have "parse_value m (Marshal v @ ''}'' @ r) = Some (v, ''}'' @ r)" using v Cons.prems(3) n kv by (simp add: delim_def reads_back_def)
    then show ?thesis using n Nil kv k by (simp add: skip_ws_id quote_def)
  next
    case (Cons w ws)
    let ?rest = "commas (map ?f kvs) @ ''}'' @ r"
    have len: "2 * length (quote k) + 2 + 2 * length (Marshal v) + 2 + 2 * length (commas (map ?f kvs)) + 2 \<le> n" using Cons.prems(3) Cons kv by simp
    then have "2 * length (Marshal v) + 1 \<le> m" "2 * length (commas (map ?f kvs)) + 2 \<le> m" using n by auto
    then have "parse_value m (Marshal v @ '','' @ ?rest) = Some (v, '','' @ ?rest)" "parse_members m ?rest = Some (kvs, r)"
      using v Cons.IH [of m] Cons.prems(1) Cons by (simp_all add: delim_def reads_back_def)
    then show ?thesis using n Cons kv k by (simp add: skip_ws_id quote_def)
  qed
qed simp


lemma commas_item: "x \<in> set xs \<Longrightarrow> length x \<le> length (commas xs)"
  by (induction xs rule: commas.induct) auto

lemma Marshal_reads_back: "json_ok v \<Longrightarrow> reads_back v"
proof (induction v)
  case (JNum t)
  then obtain i where t: "t = itoa i" by auto
  obtain c cs where cs: "itoa i = c # cs" "is_digit c \<or> c = CHR ''-''" using itoa_hd [of i] by (cases "itoa i") auto
  then have "c \<noteq> CHR ''{'' \<and> c \<noteq> CHR ''['' \<and> c \<noteq> CHR 0x22 \<and> c \<noteq> CHR ''n'' \<and> c \<noteq> CHR ''t'' \<and> c \<noteq> CHR ''f'' \<and>
      c \<notin> {CHR 0x20, CHR 0x09, CHR 0x0A, CHR 0x0D}" by (auto simp: is_digit_def)
  then have val: "parse_value (Suc n) (itoa i @ r) = map_option (apfst JNum) (scan_num (itoa i @ r))" for n r
    using cs by (simp add: skip_ws_id HasPrefix_def)
  have "parse_value n (Marshal (JNum t) @ r) = Some (JNum t, r)" if len: "2 * length (Marshal (JNum t)) + 1 \<le> n" "delim r" for n r
    using val [of "n - 1" r] len by (cases n) (simp_all add: t scan_num_itoa)
  then show ?case by (simp add: reads_back_def)
next
  case (JStr s)
  then show ?case unfolding reads_back_def by (auto simp: quote_def skip_ws_id scan_escape dest!: Suc_le_D)
next
  case (JArr vs)
  then have vs: "\<forall>v \<in> set vs. json_ok v \<and> reads_back v" by auto
  have "parse_value n (Marshal (JArr vs) @ r) = Some (JArr vs, r)" if len: "2 * length (Marshal (JArr vs)) + 1 \<le> n" for n r
  proof -
    obtain m where m: "n = Suc m" "2 * length (commas (map Marshal vs)) + 2 \<le> m" using len by (cases n) auto
    show ?thesis
    proof (cases "vs = []")
      case False
      then obtain v ws where "vs = v # ws" by (cases vs) auto
      then have "hd (commas (map Marshal vs)) = hd (Marshal v)" "commas (map Marshal vs) \<noteq> []"
        using Marshal_hd [of v] vs by (cases ws; simp)+
      moreover have "hd (Marshal v) \<notin> {CHR 0x20, CHR 0x09, CHR 0x0A, CHR 0x0D, CHR '']''}" using Marshal_hd [of v] vs \<open>vs = v # ws\<close> by auto
      ultimately have "\<not> HasPrefix (skip_ws (commas (map Marshal vs) @ '']'' @ r)) '']''"
        by (cases "commas (map Marshal vs)") (auto simp: skip_ws_id HasPrefix_def)
      then show ?thesis using parse_elems_back [OF vs False m(2), of r] m(1) by (simp add: skip_ws_id)
    qed (use m in \<open>simp add: skip_ws_id HasPrefix_def\<close>)
  qed
  then show ?case by (simp add: reads_back_def)
next
  case (JObj kvs)
  then have kvs: "\<forall>kv \<in> set kvs. valid_utf8 (fst kv) \<and> json_ok (snd kv) \<and> reads_back (snd kv)" by (fastforce simp: snds.simps)
  let ?f = "\<lambda>(k, v). quote k @ '':'' @ Marshal v"
  have "parse_value n (Marshal (JObj kvs) @ r) = Some (JObj kvs, r)" if len: "2 * length (Marshal (JObj kvs)) + 1 \<le> n" for n r
  proof -
    obtain m where m: "n = Suc m" "2 * length (commas (map ?f kvs)) + 2 \<le> m" using len by (cases n) auto
    show ?thesis
    proof (cases "kvs = []")
      case False
      then obtain k v ws where "kvs = (k, v) # ws" by (cases kvs) auto
      then have "\<exists>x. commas (map ?f kvs) = CHR 0x22 # x" by (cases ws) (simp_all add: quote_def)
      then have "\<not> HasPrefix (skip_ws (commas (map ?f kvs) @ ''}'' @ r)) ''}''" by (auto simp: skip_ws_id HasPrefix_def)
      then show ?thesis using parse_members_back [OF kvs False m(2), of r] m(1) by (simp add: skip_ws_id)
    qed (use m in \<open>simp add: skip_ws_id HasPrefix_def\<close>)
  qed
  then show ?case by (simp add: reads_back_def)
next
  case JNull
  have "parse_value n (Marshal JNull @ r) = Some (JNull, r)" if len: "2 * length (Marshal JNull) + 1 \<le> n" for n r
    using len by (cases n) (simp_all add: skip_ws_id HasPrefix_def)
  then show ?case by (simp add: reads_back_def)
next
  case (JBool b)
  have "parse_value n (Marshal (JBool b) @ r) = Some (JBool b, r)" if len: "2 * length (Marshal (JBool b)) + 1 \<le> n" for n r
    using len by (cases n) (simp_all add: skip_ws_id HasPrefix_def)
  then show ?case by (simp add: reads_back_def)
qed

lemma parse_Marshal:
  assumes "json_ok v"
  shows "parse_json (Marshal v) = Some v"
proof -
  have "parse_value (2 * length (Marshal v) + 2) (Marshal v @ []) = Some (v, [])"
    using Marshal_reads_back [OF assms, unfolded reads_back_def, rule_format, of "2 * length (Marshal v) + 2" "[]"]
    by (simp add: delim_def del: parse_value.simps)
  then show ?thesis by (simp add: parse_json_def skip_ws_def)
qed


section \<open>The fuel is enough\<close>

lemma skip_ws_le: "length (skip_ws s) \<le> length s"
  by (simp add: skip_ws_def length_dropWhile_le)

lemma scan_str_shorter: "scan_str s = Some (v, r) \<Longrightarrow> length r < length s"
proof (induction "length s" arbitrary: s v rule: less_induct)
  case less
  have step: "scan_str (drop k s) = Some (x, r) \<Longrightarrow> 1 \<le> k \<Longrightarrow> s \<noteq> [] \<Longrightarrow> length r < length s" for k x
    using less(1) [of "drop k s" x] by (cases s) auto
  have size: "s \<noteq> [] \<Longrightarrow> 1 \<le> snd (decode_rune s)" by (rule decode_rune_size)
  show ?case using less(2) size
    by (subst (asm) scan_str.simps)
      (auto simp: Let_def split: if_splits Option.bind_splits prod.splits dest: step)
qed

lemma scan_digits_shorter: "scan_digits s = Some (v, r) \<Longrightarrow> length r < length s"
proof -
  assume a: "scan_digits s = Some (v, r)"
  then have "takeWhile is_digit s \<noteq> []" "r = dropWhile is_digit s" by (auto simp: scan_digits_def split: list.splits)
  moreover have "length (takeWhile is_digit s) + length (dropWhile is_digit s) = length s" by (metis length_append takeWhile_dropWhile_id)
  ultimately show "length r < length s" by (cases "takeWhile is_digit s") auto
qed

lemma scan_num_shorter: "scan_num s = Some (v, r) \<Longrightarrow> length r < length s"
proof -
  assume a: "scan_num s = Some (v, r)"
  define s1 where "s1 = (if s \<noteq> [] \<and> hd s = CHR ''-'' then tl s else s)"
  obtain a s2 b s3 c where p: "scan_int s1 = Some (a, s2)" "scan_frac s2 = Some (b, s3)" "scan_exp s3 = Some (c, r)"
    using a by (auto simp: scan_num_def s1_def split: if_splits Option.bind_splits)
  have "length s1 \<le> length s" by (simp add: s1_def)
  moreover have "length s2 < length s1" using p(1) by (auto simp: scan_int_def split: list.splits if_splits dest: scan_digits_shorter)
  moreover have "length s3 \<le> length s2" using p(2) scan_digits_shorter by (fastforce simp: scan_frac_def split: list.splits if_splits)
  moreover have "length r \<le> length s3" using p(3) scan_digits_shorter by (fastforce simp: scan_exp_def split: list.splits if_splits)
  ultimately show "length r < length s" by linarith
qed


lemma parse_shorter:
  "parse_value n s = Some (v, r) \<Longrightarrow> length r < length s"
  "parse_elems n s = Some (vs, r) \<Longrightarrow> length r < length s"
  "parse_members n s = Some (kvs, r) \<Longrightarrow> length r < length s"
proof (induction n arbitrary: s v r vs kvs)
  case 0
  {
    case 1
    then show ?case by simp
  next
    case 2
    then show ?case by simp
  next
    case 3
    then show ?case by simp
  }
next
  case (Suc n)
  have cons: "length c < length s" if "skip_ws s = x # c" for s x c using skip_ws_le [of s] that by simp
  {
    case 1
    then obtain c q where cq: "skip_ws s = c # q" by (auto split: list.splits)
    have q: "length q < length s" by (rule cons [OF cq])
    have tl: "length (tl (skip_ws q)) \<le> length q" using skip_ws_le [of q] by simp
    show ?case using 1 cq q tl
      by (auto split: if_splits dest!: Suc.IH(2,3) scan_str_shorter dest: scan_num_shorter)
  next
    case 2
    then show ?case
      by (auto split: Option.bind_splits list.splits if_splits dest!: Suc.IH(1) Suc.IH(2) cons)
  next
    case 3
    then show ?case
      by (auto split: Option.bind_splits list.splits if_splits dest!: Suc.IH(1) Suc.IH(3) scan_str_shorter cons)
  }
qed


lemma bind_cong_Some: "a = b \<Longrightarrow> (\<And>x. b = Some x \<Longrightarrow> f x = g x) \<Longrightarrow> Option.bind a f = Option.bind b g"
  by (cases b) auto

text \<open>More fuel than twice the length gives the same result.\<close>

lemma parse_fuel:
  "2 * length s + 1 \<le> n \<Longrightarrow> n \<le> m \<Longrightarrow> parse_value m s = parse_value n s"
  "2 * length s + 2 \<le> n \<Longrightarrow> n \<le> m \<Longrightarrow> parse_elems m s = parse_elems n s"
  "2 * length s + 1 \<le> n \<Longrightarrow> n \<le> m \<Longrightarrow> parse_members m s = parse_members n s"
proof (induction n arbitrary: s m)
  case 0
  {
    case 1
    then show ?case by simp
  next
    case 2
    then show ?case by simp
  next
    case 3
    then show ?case by simp
  }
next
  case (Suc n)
  have cons: "length q < length s" if "skip_ws s = c # q" for s c q using skip_ws_le [of s] that by simp
  {
    case 1
    obtain m' where m: "m = Suc m'" "n \<le> m'" using 1(2) by (cases m) auto
    show ?case
    proof (cases "skip_ws s")
      case (Cons c q)
      then have "length q < length s" by (rule cons)
      then have "parse_members m' q = parse_members n q" "parse_elems m' q = parse_elems n q" 
        using Suc.IH(3) [of q m'] Suc.IH(2) [of q m'] 1(1) m(2) by simp_all
      then show ?thesis using Cons m(1) by simp
    qed (use m in simp)
  next
    case 2
    obtain m' where m: "m = Suc m'" "n \<le> m'" using 2(2) by (cases m) auto
    have v: "parse_value m' s = parse_value n s" using Suc.IH(1) [of s m'] 2(1) m(2) by simp
    have e: "parse_elems m' r = parse_elems n r" if "parse_value n s = Some (x, q)" "skip_ws q = c # r" for x q c r
      using parse_shorter(1) [OF that(1)] cons [OF that(2)] Suc.IH(2) [of r m'] 2(1) m(2) by simp
    show ?case unfolding m(1) parse_elems.simps v by (intro bind_cong_Some refl) (auto simp: e split: list.splits)
  next
    case 3
    obtain m' where m: "m = Suc m'" "n \<le> m'" using 3(2) by (cases m) auto
    show ?case
    proof (cases "skip_ws s")
      case (Cons c q)
      then have q: "length q < length s" by (rule cons)
      have v: "parse_value m' y = parse_value n y" if "scan_str q = Some (k, x)" "skip_ws x = d # y" for k x d y
        using scan_str_shorter [OF that(1)] cons [OF that(2)] q Suc.IH(1) [of y m'] 3(1) m(2) by simp
      have e: "parse_members m' u = parse_members n u"
        if "scan_str q = Some (k, x)" "skip_ws x = d # y" "parse_value n y = Some (w, z)" "skip_ws z = e # u" for k x d y w z e u
        using scan_str_shorter [OF that(1)] cons [OF that(2)] parse_shorter(1) [OF that(3)] cons [OF that(4)] q Suc.IH(3) [of u m'] 3(1) m(2) by simp
      have member: "(case skip_ws x of [] \<Rightarrow> None
          | d # y \<Rightarrow> (if d \<noteq> CHR '':'' then None
              else do { (v, r) \<leftarrow> parse_value m' y;
                        (case skip_ws r of [] \<Rightarrow> None
                         | e # u \<Rightarrow> (if e = CHR '','' then do { (kvs, r) \<leftarrow> parse_members m' u; Some ((k, v) # kvs, r) }
                                   else if e = CHR ''}'' then Some ([(k, v)], u) else None)) })) =
          (case skip_ws x of [] \<Rightarrow> None
          | d # y \<Rightarrow> (if d \<noteq> CHR '':'' then None
              else do { (v, r) \<leftarrow> parse_value n y;
                        (case skip_ws r of [] \<Rightarrow> None
                         | e # u \<Rightarrow> (if e = CHR '','' then do { (kvs, r) \<leftarrow> parse_members n u; Some ((k, v) # kvs, r) }
                                   else if e = CHR ''}'' then Some ([(k, v)], u) else None)) }))" if k: "scan_str q = Some (k, x)" for k x
      proof (cases "skip_ws x")
        case y: (Cons d y)
        note v [OF k y]
        moreover have "parse_value n y = Some (w, z) \<Longrightarrow> skip_ws z = a # u \<Longrightarrow> parse_members m' u = parse_members n u" for w z a u
          by (rule e [OF k y])
        ultimately show ?thesis using y by (cases "parse_value n y") (auto split: list.splits)
      qed simp
      show ?thesis using Cons m(1) member by (cases "scan_str q") (auto simp: v)
    qed (use m in simp)
  }
qed

section \<open>Into a map of strings\<close>

text \<open>
  \<open>Unmarshal\<close> into an empty variable of type \<open>map[string]string\<close>: \<^term>\<open>None\<close> leaves the nil map. A member that is no string is an error, but its name
  gets the empty string.
\<close>

definition Unmarshal_strings :: "bytes \<Rightarrow> (bytes \<Rightarrow> bytes option) option" where
  "Unmarshal_strings s =
     (case parse_json s of
        Some (JObj kvs) \<Rightarrow> Some (fold (\<lambda>(k, v) m. m(k \<mapsto> (case v of JStr t \<Rightarrow> t | _ \<Rightarrow> []))) kvs (\<lambda>_. None))
      | _ \<Rightarrow> None)"


section \<open>Plain strings, and no markup\<close>

text \<open>A string that can stand between quotes as it is.\<close>

definition plain_json :: "bytes \<Rightarrow> bool" where
  "plain_json v \<longleftrightarrow> valid_utf8 v \<and> (\<forall>c \<in> set v. 0x20 \<le> (of_char c :: nat) \<and> c \<noteq> CHR 0x22 \<and> c \<noteq> CHR 0x5C)"

lemma scan_plain: "plain_json s \<Longrightarrow> scan_str (s @ CHR 0x22 # x) = Some (s, x)"
proof (induction s rule: valid_utf8.induct)
  case (1 s)
  show ?case
  proof (cases "s = []")
    case True
    then show ?thesis by (simp add: scan_str.simps [of "CHR 0x22 # x"])
  next
    case False
    obtain b bs where s: "s = b # bs" using False by (cases s) auto
    obtain r n where d: "decode_rune s = (r, n)" by fastforce
    have ok: "decode_rune s \<noteq> (0xFFFD, 1)" "valid_utf8 (drop n s)"
      using 1(2) False d by (simp_all add: plain_json_def valid_utf8.simps [of s] split: if_splits)
    have "plain_json (drop n s)" using 1(2) ok(2) by (auto simp: plain_json_def dest: in_set_dropD)
    then have IH: "scan_str (drop n s @ CHR 0x22 # x) = Some (drop n s, x)" using 1(1) False ok d by simp
    have n: "n \<le> length s" using decode_rune_le [OF False] d by simp
    have dec: "decode_rune (s @ CHR 0x22 # x) = (r, n)" using decode_rune_append [OF False ok(1)] d by simp
    have hd: "hd (s @ CHR 0x22 # x) = b" "0x20 \<le> (of_char b :: nat)" "b \<noteq> CHR 0x22" "b \<noteq> CHR 0x5C"
      using 1(2) s by (simp_all add: plain_json_def)
    have "scan_str (s @ CHR 0x22 # x) = Some (take n s @ drop n s, x)"
      using hd ok(1) d n IH by (subst scan_str.simps) (auto simp: dec simp del: append_take_drop_id)
    then show ?thesis by simp
  qed
qed

definition markup :: "char \<Rightarrow> bool" where
  "markup c \<longleftrightarrow> c = CHR ''<'' \<or> c = CHR ''>'' \<or> c = CHR ''&''"

lemma decode_rune_first:
  assumes "decode_rune (b # bs) = (r, n)" and "(r, n) \<noteq> (0xFFFD, 1)" and "r \<ge> 0x80"
  shows "\<forall>c \<in> set (take n (b # bs)). 0x80 \<le> (of_char c :: nat)"
proof -
  have "decode_rune (b # bs) \<noteq> (0xFFFD, 1)" using assms by simp
  then show ?thesis
  proof (cases rule: decode_rune_cases)
    case one
    then show ?thesis using assms by (simp add: decode_rune_def)
  next
    case (two c x)
    then show ?thesis using assms(1) by (simp add: decode_rune_def Let_def)
  next
    case (three c d x)
    then have "n = 3" using assms(1) by (simp add: decode_rune_def Let_def split: if_splits)
    then show ?thesis using three by (auto split: if_splits)
  next
    case (four c d e x)
    then have "n = 4" using assms(1) by (simp add: decode_rune_def Let_def split: if_splits)
    then show ?thesis using four by (auto split: if_splits)
  qed
qed

lemma hex_no_markup: "n < 16 \<Longrightarrow> \<not> markup (hex n)"
proof -
  have "\<forall>n \<in> set [0..<16]. \<not> markup (hex n)" by code_simp
  then show "n < 16 \<Longrightarrow> \<not> markup (hex n)" by simp
qed

lemma escape_byte_no_markup: "\<forall>c \<in> set (escape_byte b). \<not> markup c"
proof -
  have "\<not> markup (hex (of_char b div 16))" by (rule hex_no_markup, rule less_mult_imp_div_less) simp
  moreover have "\<not> markup (hex (of_char b mod 16))" by (rule hex_no_markup) simp
  ultimately show ?thesis by (auto simp: escape_byte_def markup_def)
qed

lemma escape_no_markup: "\<forall>c \<in> set (escape s). \<not> markup c"
proof (induction s rule: escape.induct)
  case (1 s)
  show ?case
  proof (cases "s = []")
    case False
    obtain b bs where s: "s = b # bs" using False by (cases s) auto
    obtain r n where d: "decode_rune s = (r, n)" by fastforce
    have IH: "\<forall>c \<in> set (escape (drop n s)). \<not> markup c" using 1 False d by simp
    have "\<forall>c \<in> set (take n s). \<not> markup c" if "r \<ge> 0x80" "(r, n) \<noteq> (0xFFFD, 1)"
      using decode_rune_first [of b bs r n] d s that by (fastforce simp: markup_def)
    moreover have "\<forall>c \<in> set (CHR 0x5C # ''ufffd''). \<not> markup c" "\<forall>c \<in> set (CHR 0x5C # ''u2028''). \<not> markup c"
      "\<forall>c \<in> set (CHR 0x5C # ''u2029''). \<not> markup c" by (simp_all add: markup_def)
    moreover define e where "e = (if r < 0x80 then escape_byte (hd s) else if (r, n) = (0xFFFD, 1) then CHR 0x5C # ''ufffd''
      else if r = 0x2028 then CHR 0x5C # ''u2028'' else if r = 0x2029 then CHR 0x5C # ''u2029'' else take n s)"
    ultimately have "\<forall>c \<in> set e. \<not> markup c" using escape_byte_no_markup [of "hd s"] unfolding e_def by (simp only: not_less split: if_split) blast
    moreover have "escape s = e @ escape (drop n s)" unfolding escape.simps [of s] e_def using d False by simp
    ultimately show ?thesis using IH by (simp only: set_append ball_Un)
  qed (simp add: escape.simps [of "[]"])
qed

lemma commas_no_markup: "\<forall>x \<in> set xs. \<forall>c \<in> set x. \<not> markup c \<Longrightarrow> \<forall>c \<in> set (commas xs). \<not> markup c"
proof (induction xs rule: commas.induct)
  case (3 x y xs)
  then have "\<forall>c \<in> set x. \<not> markup c" "\<forall>c \<in> set (commas (y # xs)). \<not> markup c" by simp_all
  moreover have "\<not> markup (CHR '','')" by (simp add: markup_def)
  ultimately show ?case by (simp add: ball_Un)
qed simp_all

lemma brackets_no_markup: "\<forall>c \<in> set s. \<not> markup c \<Longrightarrow> \<forall>c \<in> set (''['' @ s @ '']''). \<not> markup c"
  "\<forall>c \<in> set s. \<not> markup c \<Longrightarrow> \<forall>c \<in> set (''{'' @ s @ ''}''). \<not> markup c"
  "\<forall>c \<in> set s. \<not> markup c \<Longrightarrow> \<forall>c \<in> set (CHR 0x22 # s @ [CHR 0x22]). \<not> markup c"
  "\<forall>c \<in> set s. \<not> markup c \<Longrightarrow> \<forall>c \<in> set t. \<not> markup c \<Longrightarrow> \<forall>c \<in> set (s @ '':'' @ t). \<not> markup c"
  by (simp_all add: markup_def ball_Un)

lemma quote_no_markup: "\<forall>c \<in> set (quote s). \<not> markup c"
  unfolding quote_def by (rule brackets_no_markup(3) [OF escape_no_markup])

lemma Marshal_no_markup: "json_ok v \<Longrightarrow> \<forall>c \<in> set (Marshal v). \<not> markup c"
proof (induction v)
  case (JNum t)
  then obtain i where "t = itoa i" by auto
  moreover have "\<forall>c \<in> set (digits n). \<not> markup c" for n using digits_are [of n] by (auto simp: list_all_iff is_digit_def markup_def)
  ultimately show ?case by (simp add: itoa_def markup_def)
next
  case (JArr vs)
  have "\<forall>x \<in> set (map Marshal vs). \<forall>c \<in> set x. \<not> markup c" using JArr by simp
  from brackets_no_markup(1) [OF commas_no_markup [OF this]] show ?case by simp
next
  case (JObj kvs)
  let ?f = "\<lambda>(k, v). quote k @ '':'' @ Marshal v"
  have "\<forall>c \<in> set (?f kv). \<not> markup c" if kv: "kv \<in> set kvs" for kv
  proof -
    obtain k v where e: "kv = (k, v)" by fastforce
    then have "\<forall>c \<in> set (Marshal v). \<not> markup c" using JObj kv by (fastforce simp: snds.simps)
    from brackets_no_markup(4) [OF quote_no_markup this] show ?thesis using e by simp
  qed
  then have "\<forall>x \<in> set (map ?f kvs). \<forall>c \<in> set x. \<not> markup c" by simp
  from brackets_no_markup(2) [OF commas_no_markup [OF this]] show ?case by simp
qed (use quote_no_markup in \<open>simp_all add: markup_def\<close>)

end
