(* ===== verification/Xman_Mysql.thy ===== *)
theory Xman_Mysql
  imports Go_Json
begin

text \<open>
  The MySQL wrapper (\<open>db/xman_mysql.go\<close>). The database and its driver are a parameter: a value of the type \<open>'d\<close> is the state of the database
  behind a handle, and the record \<open>Driver\<close> says what opening, preparing, executing and querying give. A row has a value for each column.

  A panic is \<^term>\<open>None\<close>. The deferred calls run then too, so every operation also gives the trace of what it opens and closes.

  Shown: every operation closes what it has opened, on every branch; what a query returns, in particular that an error
  that ends the rows early is lost; and how the data source is made of the configuration.
\<close>

section \<open>The driver\<close>

record Rows =
  r_columns :: "bytes + bytes list"
  r_rows :: "(bytes + bytes option list) list"
  r_err :: "bytes option"

record ExecResult =
  LastInsertId :: "bytes + int"
  RowsAffected :: "bytes + int"

record 'd Driver =
  sql_Open :: "bytes \<Rightarrow> 'd option"
  sql_Ping :: "'d \<Rightarrow> bytes option"
  sql_Prepare :: "'d \<Rightarrow> bytes \<Rightarrow> bytes option"
  sql_Exec :: "'d \<Rightarrow> bytes \<Rightarrow> bytes list \<Rightarrow> (bytes + ExecResult) \<times> 'd"
  sql_Query :: "'d \<Rightarrow> bytes \<Rightarrow> bytes list \<Rightarrow> bytes + Rows"

datatype DbAction = Prepared bytes | Queried | CloseRows | CloseStmt

section \<open>The controller\<close>

definition DefaultOpenConns :: int where "DefaultOpenConns = 200"
definition DefaultIdleConns :: int where "DefaultIdleConns = 100"
definition DefaultUser :: bytes where "DefaultUser = ''root''"

definition ErrMysqlNoHost :: bytes where "ErrMysqlNoHost = ''Mysql has no host.''"
definition ErrMysqlNoDBName :: bytes where "ErrMysqlNoDBName = ''Mysql has no dbname.''"
definition ErrMysqlNotInit :: bytes where "ErrMysqlNotInit = ''Mysql not init.''"

record 'd MysqlController =
  db :: "'d option"
  maxOpenConns :: int
  maxIdleConns :: int

definition NewMysqlController :: "'d MysqlController" where
  "NewMysqlController = \<lparr>db = None, maxOpenConns = DefaultOpenConns, maxIdleConns = DefaultIdleConns\<rparr>"

definition get :: "(bytes \<Rightarrow> bytes option) \<Rightarrow> bytes \<Rightarrow> bytes" where
  "get m k = (case m k of Some v \<Rightarrow> v | None \<Rightarrow> [])"

definition set_default :: "bytes \<Rightarrow> bytes \<Rightarrow> (bytes \<Rightarrow> bytes option) \<Rightarrow> (bytes \<Rightarrow> bytes option)" where
  "set_default k v m = (if m k = None then m(k \<mapsto> v) else m)"

definition data_source :: "(bytes \<Rightarrow> bytes option) \<Rightarrow> bytes" where
  "data_source dbConfig =
     get dbConfig ''user'' @ '':'' @ get dbConfig ''password'' @ ''@tcp('' @ get dbConfig ''address'' @ '')/'' @
     get dbConfig ''dbname'' @ ''?charset=utf8''"

text \<open>
  Text that is no JSON object leaves the map nil, and writing to it panics, as does using the nil handle of a failed \<open>sql.Open\<close>. A failed \<open>Ping\<close> leaves the handle.
\<close>

definition InitMysql :: "'d Driver \<Rightarrow> bytes \<Rightarrow> 'd MysqlController \<Rightarrow> (bytes option \<times> 'd MysqlController) option" where
  "InitMysql drv dbinfo mc =
     do { dbConfig \<leftarrow> Unmarshal_strings dbinfo;
          let dbConfig = set_default ''password'' [] (set_default ''user'' DefaultUser dbConfig);
          if dbConfig ''address'' = None then Some (Some ErrMysqlNoHost, mc)
          else if dbConfig ''dbname'' = None then Some (Some ErrMysqlNoDBName, mc)
          else (let dbConfig = set_default ''MaxIdleConns'' ''100'' (set_default ''MaxOpenConns'' ''200'' dbConfig);
                    mc = mc\<lparr>maxOpenConns := fst (Atoi (get dbConfig ''MaxOpenConns'')), maxIdleConns := fst (Atoi (get dbConfig ''MaxIdleConns''))\<rparr>
                in do { d \<leftarrow> sql_Open drv (data_source dbConfig); Some (sql_Ping drv d, mc\<lparr>db := Some d\<rparr>) }) }"

definition checkDB :: "'d MysqlController \<Rightarrow> bool" where
  "checkDB mc \<longleftrightarrow> db mc \<noteq> None"

section \<open>Statements\<close>

text \<open>An error of preparing or executing panics.\<close>

definition Insert :: "'d Driver \<Rightarrow> bytes \<Rightarrow> bytes list \<Rightarrow> 'd MysqlController \<Rightarrow> DbAction list \<times> (bytes + int) option \<times> 'd MysqlController" where
  "Insert drv sqlstr args mc =
     (case db mc of
        None \<Rightarrow> ([], Some (Inl ErrMysqlNotInit), mc)
      | Some d \<Rightarrow>
          (case sql_Prepare drv d sqlstr of
             Some err \<Rightarrow> ([], None, mc)
           | None \<Rightarrow>
               (let (result, d) = sql_Exec drv d sqlstr args; mc = mc\<lparr>db := Some d\<rparr>
                in ([Prepared sqlstr, CloseStmt],
                    (case result of Inl err \<Rightarrow> None | Inr r \<Rightarrow> Some (LastInsertId r)), mc))))"

definition Exec :: "'d Driver \<Rightarrow> bytes \<Rightarrow> bytes list \<Rightarrow> 'd MysqlController \<Rightarrow> DbAction list \<times> (bytes + int) \<times> 'd MysqlController" where
  "Exec drv sqlstr args mc =
     (case db mc of
        None \<Rightarrow> ([], Inl ErrMysqlNotInit, mc)
      | Some d \<Rightarrow>
          (case sql_Prepare drv d sqlstr of
             Some err \<Rightarrow> ([], Inl err, mc)
           | None \<Rightarrow>
               (let (result, d) = sql_Exec drv d sqlstr args; mc = mc\<lparr>db := Some d\<rparr>
                in ([Prepared sqlstr, CloseStmt],
                    (case result of Inl err \<Rightarrow> Inl err | Inr r \<Rightarrow> RowsAffected r), mc))))"

text \<open>The map of a row; a later column of the same name wins.\<close>

definition put_cell :: "bytes \<times> bytes option \<Rightarrow> (bytes \<Rightarrow> bytes option) \<Rightarrow> (bytes \<Rightarrow> bytes option)" where
  "put_cell cell m = m(fst cell \<mapsto> (case snd cell of None \<Rightarrow> ''NULL'' | Some s \<Rightarrow> s))"

definition row_map :: "bytes list \<Rightarrow> bytes option list \<Rightarrow> (bytes \<Rightarrow> bytes option)" where
  "row_map columns vals = fold put_cell (zip columns vals) (\<lambda>_. None)"

text \<open>What \<open>FetchRow\<close> and \<open>FetchRows\<close> share: from the prepared statement to the columns, with \<open>loop\<close> for what follows.\<close>

definition fetch ::
  "(bytes list \<Rightarrow> (bytes + bytes option list) list \<Rightarrow> bytes + 'r) \<Rightarrow> 'd Driver \<Rightarrow> bytes \<Rightarrow> bytes list \<Rightarrow> 'd MysqlController \<Rightarrow>
   DbAction list \<times> (bytes + 'r)"
where
  "fetch loop drv sqlstr args mc =
     (case db mc of
        None \<Rightarrow> ([], Inl ErrMysqlNotInit)
      | Some d \<Rightarrow>
          (case sql_Prepare drv d sqlstr of
             Some err \<Rightarrow> ([], Inl err)
           | None \<Rightarrow>
               (case sql_Query drv d sqlstr args of
                  Inl err \<Rightarrow> ([Prepared sqlstr, CloseStmt], Inl err)
                | Inr rows \<Rightarrow>
                    ([Prepared sqlstr, Queried, CloseRows, CloseStmt],
                     (case r_columns rows of Inl err \<Rightarrow> Inl err | Inr columns \<Rightarrow> loop columns (r_rows rows))))))"

fun first_row :: "bytes list \<Rightarrow> (bytes + bytes option list) list \<Rightarrow> bytes + (bytes \<Rightarrow> bytes option)" where
  "first_row columns [] = Inr (\<lambda>_. None)"
| "first_row columns (Inl err # rs) = Inl err"
| "first_row columns (Inr vals # rs) = Inr (row_map columns vals)"

fun all_rows :: "bytes list \<Rightarrow> (bytes + bytes option list) list \<Rightarrow> (bytes \<Rightarrow> bytes option) list \<Rightarrow> bytes + (bytes \<Rightarrow> bytes option) list" where
  "all_rows columns [] ret = Inr ret"
| "all_rows columns (Inl err # rs) ret = Inl err"
| "all_rows columns (Inr vals # rs) ret = all_rows columns rs (ret @ [row_map columns vals])"

definition FetchRow :: "'d Driver \<Rightarrow> bytes \<Rightarrow> bytes list \<Rightarrow> 'd MysqlController \<Rightarrow> DbAction list \<times> (bytes + (bytes \<Rightarrow> bytes option))" where
  "FetchRow = fetch first_row"

definition FetchRows :: "'d Driver \<Rightarrow> bytes \<Rightarrow> bytes list \<Rightarrow> 'd MysqlController \<Rightarrow> DbAction list \<times> (bytes + (bytes \<Rightarrow> bytes option) list)" where
  "FetchRows = fetch (\<lambda>columns rs. all_rows columns rs [])"

section \<open>Nothing stays open\<close>

text \<open>Reading a trace with the stack of what is open.\<close>

fun closes :: "DbAction list \<Rightarrow> DbAction list \<Rightarrow> bool" where
  "closes [] st \<longleftrightarrow> st = []"
| "closes (Prepared s # tr) st \<longleftrightarrow> closes tr (Prepared s # st)"
| "closes (Queried # tr) st \<longleftrightarrow> closes tr (Queried # st)"
| "closes (CloseRows # tr) st \<longleftrightarrow> (case st of Queried # st' \<Rightarrow> closes tr st' | _ \<Rightarrow> False)"
| "closes (CloseStmt # tr) st \<longleftrightarrow> (case st of Prepared s # st' \<Rightarrow> closes tr st' | _ \<Rightarrow> False)"

theorem statements_are_closed:
  "closes (fst (Insert drv s args mc)) [] \<and> closes (fst (Exec drv s args mc)) [] \<and>
   closes (fst (FetchRow drv s args mc)) [] \<and> closes (fst (FetchRows drv s args mc)) [] \<and>
   (fst (snd (Insert drv s args mc)) = None \<longleftrightarrow>
     (\<exists>d. db mc = Some d \<and> (sql_Prepare drv d s \<noteq> None \<or> (\<exists>err. fst (sql_Exec drv d s args) = Inl err))))"
  by (auto simp: Insert_def Exec_def FetchRow_def FetchRows_def fetch_def Let_def split: option.splits prod.splits sum.splits)

lemma all_rows_eq: "all_rows columns (map Inr vs) ret = Inr (ret @ map (row_map columns) vs)"
  by (induction vs arbitrary: ret) auto

lemma fold_put: "k \<notin> fst ` set kvs \<Longrightarrow> fold put_cell kvs m k = m k"
  by (induction kvs arbitrary: m) (auto simp: put_cell_def)

lemma row_map_column:
  assumes "distinct columns" and "length vs = length columns" and "i < length columns"
  shows "row_map columns vs (columns ! i) = Some (case vs ! i of None \<Rightarrow> ''NULL'' | Some s \<Rightarrow> s)"
proof -
  have "fold put_cell (zip columns vs) m (columns ! i) = Some (case vs ! i of None \<Rightarrow> ''NULL'' | Some s \<Rightarrow> s)" for m
    using assms
  proof (induction columns arbitrary: vs i m)
    case (Cons c cs)
    obtain w ws where v: "vs = w # ws" using Cons.prems(2) by (cases vs) auto
    show ?case
    proof (cases i)
      case 0
      have "c \<notin> fst ` set (zip cs ws)" using Cons.prems(1) by (auto dest: set_zip_leftD)
      then show ?thesis using 0 v by (simp add: fold_put) (simp add: put_cell_def)
    next
      case (Suc j)
      then show ?thesis using Cons.IH [of ws j] Cons.prems v by simp
    qed
  qed simp
  then show ?thesis by (simp add: row_map_def)
qed

text \<open>
  C22. What a query returns. If the statement is prepared and the query gives rows that can be scanned, with different column names, then \<open>FetchRows\<close> returns a map for
  each row, in order, that takes each column to the row's text, or to \<open>NULL\<close>, and \<open>FetchRow\<close> that of the first row, or an empty map when there is none.
  This is so too when an error has ended the rows before their end: that is not looked at.
\<close>

theorem query_gives_rows:
  assumes "db mc = Some d" and "sql_Prepare drv d s = None" and "sql_Query drv d s args = Inr rows"
    and "r_columns rows = Inr columns" and "distinct columns" and "r_rows rows = map Inr vss" and "\<forall>vs \<in> set vss. length vs = length columns"
  shows "\<exists>ms. snd (FetchRows drv s args mc) = Inr ms \<and> length ms = length vss \<and>
    (\<forall>j < length vss. \<forall>i < length columns. (ms ! j) (columns ! i) = Some (case vss ! j ! i of None \<Rightarrow> ''NULL'' | Some v \<Rightarrow> v)) \<and>
    snd (FetchRow drv s args mc) = Inr (if vss = [] then \<lambda>_. None else ms ! 0)"
proof -
  let ?ms = "map (row_map columns) vss"
  have "snd (FetchRows drv s args mc) = Inr ?ms" using assms by (simp add: FetchRows_def fetch_def all_rows_eq)
  moreover have "snd (FetchRow drv s args mc) = Inr (if vss = [] then \<lambda>_. None else ?ms ! 0)"
    using assms by (cases vss) (simp_all add: FetchRow_def fetch_def)
  moreover have "(?ms ! j) (columns ! i) = Some (case vss ! j ! i of None \<Rightarrow> ''NULL'' | Some v \<Rightarrow> v)" if "j < length vss" "i < length columns" for j i
    using row_map_column [of columns "vss ! j" i] assms(5,7) that by simp
  ultimately show ?thesis by (intro exI [of _ ?ms]) simp
qed

definition example_driver :: "unit Driver" where
  "example_driver =
     \<lparr>sql_Open = (\<lambda>_. Some ()), sql_Ping = (\<lambda>_. None), sql_Prepare = (\<lambda>_ _. None),
      sql_Exec = (\<lambda>d _ _. (Inr \<lparr>LastInsertId = Inr 1, RowsAffected = Inr 1\<rparr>, d)),
      sql_Query = (\<lambda>_ _ _. Inr \<lparr>r_columns = Inr [''ip'', ''max_id''], r_rows = [Inr [Some ''10.0.0.1'', None]], r_err = Some ''broken''\<rparr>)\<rparr>"

theorem query_gives_rows_witness:
  "\<exists>ms. snd (FetchRows example_driver ''q'' [] \<lparr>db = Some (), maxOpenConns = 1, maxIdleConns = 1\<rparr>) = Inr ms \<and>
    (ms ! 0) ''ip'' = Some ''10.0.0.1'' \<and> (ms ! 0) ''max_id'' = Some ''NULL''"
proof -
  let ?mc = "\<lparr>db = Some (), maxOpenConns = 1, maxIdleConns = 1\<rparr>"
  let ?rows = "\<lparr>r_columns = Inr [''ip'', ''max_id''], r_rows = [Inr [Some ''10.0.0.1'', None]], r_err = Some ''broken''\<rparr>"
  have "\<exists>ms. snd (FetchRows example_driver ''q'' [] ?mc) = Inr ms \<and> length ms = length [[Some ''10.0.0.1'', None]] \<and>
    (\<forall>j < length [[Some ''10.0.0.1'', None]]. \<forall>i < length [''ip'', ''max_id''].
      (ms ! j) ([''ip'', ''max_id''] ! i) = Some (case [[Some ''10.0.0.1'', None]] ! j ! i of None \<Rightarrow> ''NULL'' | Some v \<Rightarrow> v)) \<and>
    snd (FetchRow example_driver ''q'' [] ?mc) = Inr (if [[Some ''10.0.0.1'', None :: bytes option]] = [] then \<lambda>_. None else ms ! 0)"
    by (rule query_gives_rows [where rows = ?rows and d = "()"]) (simp_all add: example_driver_def)
  then show ?thesis by (elim exE conjE) (intro exI conjI, assumption, auto simp: All_less_Suc)
qed

end
