(* ===== verification/Haunt_Mysql.thy ===== *)
theory Haunt_Mysql
  imports Xman_Mysql
begin

text \<open>
  The statements of the web application (\<open>youzan/youzan_controller/controller/mysql_logic.go\<close>): the text of each, built from the arguments, and what becomes of the
  result. A \<open>MysqlLogic\<close> is the controller of \<open>Xman_Mysql\<close>; a list that a function fills is passed and given back. Of a call the
  traces of the wrapper are dropped; \<^term>\<open>None\<close> is the panic of a failed \<open>Insert\<close>.

  Shown: how MySQL reads a statement: the quoted values are string literals as long as they have no quote and no backslash, identifiers and versions are part of the
  text, and a value with a quote changes what the statement says.
\<close>

section \<open>The data\<close>

definition status_OK :: int where "status_OK = 1"
definition status_NO_OK :: int where "status_NO_OK = 2"

record Server =
  IP :: bytes
  Status :: int

record ServerList =
  SrvAllNum :: int
  SrvList :: "Server list"

record TestModule =
  tm_ID :: bytes
  tm_IP :: bytes
  SrcDir :: bytes
  DstDir :: bytes
  tm_ModuleName :: bytes
  Principal :: bytes
  Version :: bytes
  tm_UpdateTime :: bytes

record TestList =
  TestModuleNum :: int
  TestModuleList :: "TestModule list"

record TestModuleCommand =
  CompileCommand :: bytes
  RestartCommand :: bytes

record Paidang =
  p_ID :: bytes
  p_Name :: bytes
  p_Phone :: bytes
  p_Location :: bytes
  p_User :: bytes
  p_Time :: bytes

record PaidangList =
  PaidangNum :: int
  PaidangInfoList :: "Paidang list"

record HauntModule =
  hm_ID :: bytes
  hm_ModuleName :: bytes
  hm_ModuleDesc :: bytes
  hm_ModuleUser :: bytes
  hm_ModuleBackupUser :: bytes
  hm_UpdateTime :: bytes

record HauntModuleList =
  ModuleNum :: int
  ModuleList :: "HauntModule list"

type_synonym 'd MysqlLogic = "'d MysqlController"

definition NewMysqlLogic :: "'d Driver \<Rightarrow> bytes \<Rightarrow> (bytes + 'd MysqlLogic) option" where
  "NewMysqlLogic drv dbinfo =
     do { (err, mc) \<leftarrow> InitMysql drv dbinfo NewMysqlController;
          Some (case err of Some err \<Rightarrow> Inl err | None \<Rightarrow> Inr mc) }"

section \<open>Queries\<close>

text \<open>The shape of all queries: an error is returned, otherwise \<open>fill\<close> puts the rows into the list.\<close>

definition query :: "bytes + 'r \<Rightarrow> ('r \<Rightarrow> 'l \<Rightarrow> 'l) \<Rightarrow> 'l \<Rightarrow> bytes option \<times> 'l" where
  "query result fill l = (case result of Inl err \<Rightarrow> (Some err, l) | Inr r \<Rightarrow> (None, fill r l))"

abbreviation rows_of :: "'d Driver \<Rightarrow> bytes \<Rightarrow> 'd MysqlLogic \<Rightarrow> bytes + (bytes \<Rightarrow> bytes option) list" where
  "rows_of drv sql ml \<equiv> snd (FetchRows drv sql [] ml)"

abbreviation row_of :: "'d Driver \<Rightarrow> bytes \<Rightarrow> 'd MysqlLogic \<Rightarrow> bytes + (bytes \<Rightarrow> bytes option)" where
  "row_of drv sql ml \<equiv> snd (FetchRow drv sql [] ml)"

definition quoted :: "bytes \<Rightarrow> bytes" where
  "quoted s = CHR 0x27 # s @ [CHR 0x27]"

definition server_row :: "(bytes \<Rightarrow> bytes option) \<Rightarrow> Server" where
  "server_row v = \<lparr>IP = get v ''ip'', Status = status_OK\<rparr>"

definition Mysql_GetIPList :: "'d Driver \<Rightarrow> int \<Rightarrow> int \<Rightarrow> 'd MysqlLogic \<Rightarrow> ServerList \<Rightarrow> bytes option \<times> ServerList" where
  "Mysql_GetIPList drv start num ml =
     query (rows_of drv (''SELECT ip FROM machine_ip limit '' @ itoa start @ '','' @ itoa num) ml)
       (\<lambda>rows l. l\<lparr>SrvList := SrvList l @ map server_row rows\<rparr>)"

definition Mysql_GetIPMaxID :: "'d Driver \<Rightarrow> 'd MysqlLogic \<Rightarrow> ServerList \<Rightarrow> bytes option \<times> ServerList" where
  "Mysql_GetIPMaxID drv ml =
     query (row_of drv ''SELECT count(id) as max_id FROM machine_ip'' ml) (\<lambda>row l. l\<lparr>SrvAllNum := fst (Atoi (get row ''max_id''))\<rparr>)"

text \<open>At most ten rows are taken.\<close>

definition SearchIP_sql :: "bytes \<Rightarrow> bytes" where
  "SearchIP_sql likeIP = ''SELECT ip FROM machine_ip where ip like '' @ quoted (''%'' @ likeIP @ ''%'')"

definition Mysql_SearchIP :: "'d Driver \<Rightarrow> bytes \<Rightarrow> 'd MysqlLogic \<Rightarrow> ServerList \<Rightarrow> bytes option \<times> ServerList" where
  "Mysql_SearchIP drv likeIP ml =
     query (rows_of drv (SearchIP_sql likeIP) ml)
       (\<lambda>rows l. l\<lparr>SrvList := SrvList l @ map server_row (take 10 rows), SrvAllNum := int (length (take 10 rows))\<rparr>)"

definition test_module_row :: "(bytes \<Rightarrow> bytes option) \<Rightarrow> TestModule" where
  "test_module_row v =
     \<lparr>tm_ID = get v ''id'', tm_IP = get v ''ip'', SrcDir = get v ''src_dir'', DstDir = get v ''dst_dir'', tm_ModuleName = get v ''module_name'',
      Principal = get v ''principal'', Version = get v ''version'', tm_UpdateTime = get v ''update_time''\<rparr>"

definition Mysql_SelectTestModule :: "'d Driver \<Rightarrow> int \<Rightarrow> int \<Rightarrow> 'd MysqlLogic \<Rightarrow> TestList \<Rightarrow> bytes option \<times> TestList" where
  "Mysql_SelectTestModule drv start num ml =
     query (rows_of drv (''SELECT id,ip,src_dir,dst_dir,module_name,principal,version,update_time FROM code_test limit '' @ itoa start @ '','' @ itoa num) ml)
       (\<lambda>rows l. l\<lparr>TestModuleList := TestModuleList l @ map test_module_row rows\<rparr>)"

definition Mysql_SelectTestModuleCommand ::
  "'d Driver \<Rightarrow> bytes \<Rightarrow> 'd MysqlLogic \<Rightarrow> TestModuleCommand \<Rightarrow> bytes option \<times> TestModuleCommand" where
  "Mysql_SelectTestModuleCommand drv i ml =
     query (row_of drv (''SELECT compile_commad,restart_commad FROM code_test where id='' @ i) ml)
       (\<lambda>row c. c\<lparr>CompileCommand := get row ''compile_commad'', RestartCommand := get row ''restart_commad''\<rparr>)"

definition Mysql_SelectMaxIDTestModule :: "'d Driver \<Rightarrow> 'd MysqlLogic \<Rightarrow> TestList \<Rightarrow> bytes option \<times> TestList" where
  "Mysql_SelectMaxIDTestModule drv ml =
     query (row_of drv ''SELECT count(id) as max_id FROM code_test'' ml) (\<lambda>row l. l\<lparr>TestModuleNum := fst (Atoi (get row ''max_id''))\<rparr>)"

definition paidang_row :: "(bytes \<Rightarrow> bytes option) \<Rightarrow> Paidang" where
  "paidang_row v =
     \<lparr>p_ID = get v ''id'', p_Name = get v ''name'', p_Phone = get v ''phone'', p_Location = get v ''location'', p_User = get v ''user'',
      p_Time = get v ''update_time''\<rparr>"

definition Mysql_GetPaidangList :: "'d Driver \<Rightarrow> int \<Rightarrow> int \<Rightarrow> 'd MysqlLogic \<Rightarrow> PaidangList \<Rightarrow> bytes option \<times> PaidangList" where
  "Mysql_GetPaidangList drv start num ml =
     query (rows_of drv (''SELECT id,name,phone,location,user,update_time FROM paidang limit '' @ itoa start @ '','' @ itoa num) ml)
       (\<lambda>rows l. l\<lparr>PaidangInfoList := PaidangInfoList l @ map paidang_row rows\<rparr>)"

definition Mysql_GetPaidangCount :: "'d Driver \<Rightarrow> 'd MysqlLogic \<Rightarrow> PaidangList \<Rightarrow> bytes option \<times> PaidangList" where
  "Mysql_GetPaidangCount drv ml =
     query (row_of drv ''SELECT count(id) as max_id FROM paidang'' ml) (\<lambda>row l. l\<lparr>PaidangNum := fst (Atoi (get row ''max_id''))\<rparr>)"

text \<open>The number of rows is added to the number so far.\<close>

definition add_paidang :: "(bytes \<Rightarrow> bytes option) list \<Rightarrow> PaidangList \<Rightarrow> PaidangList" where
  "add_paidang rows l =
     l\<lparr>PaidangInfoList := PaidangInfoList l @ map paidang_row rows, PaidangNum := wrap64 (PaidangNum l + int (length rows))\<rparr>"

definition between :: "bytes \<Rightarrow> bytes \<Rightarrow> bytes" where
  "between startTime endTime =
     '' and update_time>='' @ quoted startTime @ (if endTime = [] then [] else '' and update_time<='' @ quoted endTime)"

definition SearchPaidang_sql :: "bytes \<Rightarrow> bytes \<Rightarrow> bytes \<Rightarrow> bytes" where
  "SearchPaidang_sql location startTime endTime =
     ''SELECT id,name,phone,location,user,update_time FROM paidang where location like '' @ quoted (''%'' @ location @ ''%'') @
     between startTime endTime @ '' GROUP BY phone''"

definition Mysql_SearchPaidang :: "'d Driver \<Rightarrow> bytes \<Rightarrow> bytes \<Rightarrow> bytes \<Rightarrow> 'd MysqlLogic \<Rightarrow> PaidangList \<Rightarrow> bytes option \<times> PaidangList" where
  "Mysql_SearchPaidang drv location startTime endTime ml = query (rows_of drv (SearchPaidang_sql location startTime endTime) ml) add_paidang"

text \<open>\<open>strings.Split(s, " ")\<close>, which has at least one part.\<close>

fun Split_from :: "bytes \<Rightarrow> bytes \<Rightarrow> bytes list" where
  "Split_from cur [] = [cur]"
| "Split_from cur (c # s) = (if c = CHR '' '' then cur # Split_from [] s else Split_from (cur @ [c]) s)"

definition Split :: "bytes \<Rightarrow> bytes list" where
  "Split s = Split_from [] s"

fun not_in :: "bytes list \<Rightarrow> bytes" where
  "not_in [] = []"
| "not_in [v] = quoted v @ '')''"
| "not_in (v # w # vs) = quoted v @ '','' @ not_in (w # vs)"

definition SearchPaidangNot_sql :: "bytes \<Rightarrow> bytes \<Rightarrow> bytes \<Rightarrow> bytes" where
  "SearchPaidangNot_sql location startTime endTime =
     ''SELECT id,name,phone,location,user,update_time FROM paidang where not location in ('' @ not_in (Split location) @
     between startTime endTime @ '' GROUP BY phone''"

definition Mysql_SearchPaidangNot :: "'d Driver \<Rightarrow> bytes \<Rightarrow> bytes \<Rightarrow> bytes \<Rightarrow> 'd MysqlLogic \<Rightarrow> PaidangList \<Rightarrow> bytes option \<times> PaidangList" where
  "Mysql_SearchPaidangNot drv location startTime endTime ml = query (rows_of drv (SearchPaidangNot_sql location startTime endTime) ml) add_paidang"

definition haunt_module_row :: "(bytes \<Rightarrow> bytes option) \<Rightarrow> HauntModule" where
  "haunt_module_row v =
     \<lparr>hm_ID = get v ''id'', hm_ModuleName = get v ''module_name'', hm_ModuleDesc = get v ''module_desc'', hm_ModuleUser = get v ''module_user'',
      hm_ModuleBackupUser = get v ''module_backup_user'', hm_UpdateTime = get v ''update_time''\<rparr>"

definition Mysql_QueryHauntModuleList :: "'d Driver \<Rightarrow> int \<Rightarrow> int \<Rightarrow> 'd MysqlLogic \<Rightarrow> HauntModuleList \<Rightarrow> bytes option \<times> HauntModuleList" where
  "Mysql_QueryHauntModuleList drv start num ml =
     query (rows_of drv (''SELECT id,module_name,module_desc,module_user,module_backup_user,update_time FROM modules limit '' @ itoa start @ '','' @ itoa num) ml)
       (\<lambda>rows l. l\<lparr>ModuleList := ModuleList l @ map haunt_module_row rows\<rparr>)"

definition Mysql_QueryHauntModuleCount :: "'d Driver \<Rightarrow> 'd MysqlLogic \<Rightarrow> HauntModuleList \<Rightarrow> bytes option \<times> HauntModuleList" where
  "Mysql_QueryHauntModuleCount drv ml =
     query (row_of drv ''SELECT count(id) as module_num FROM modules'' ml) (\<lambda>row l. l\<lparr>ModuleNum := fst (Atoi (get row ''module_num''))\<rparr>)"

section \<open>Changes\<close>

text \<open>The error of an operation, after which its number is dropped.\<close>

definition error_of :: "bytes + int \<Rightarrow> bytes option" where
  "error_of r = (case r of Inl err \<Rightarrow> Some err | Inr n \<Rightarrow> None)"

definition inserting :: "'d Driver \<Rightarrow> bytes \<Rightarrow> 'd MysqlLogic \<Rightarrow> bytes option option \<times> 'd MysqlLogic" where
  "inserting drv sql ml = (let (tr, r, ml) = Insert drv sql [] ml in (map_option error_of r, ml))"

definition executing :: "'d Driver \<Rightarrow> bytes \<Rightarrow> 'd MysqlLogic \<Rightarrow> bytes option option \<times> 'd MysqlLogic" where
  "executing drv sql ml = (let (tr, r, ml) = Exec drv sql [] ml in (Some (error_of r), ml))"

definition AddIP_sql :: "bytes \<Rightarrow> bytes" where
  "AddIP_sql ip = ''insert into machine_ip(ip) values('' @ quoted ip @ '')''"

definition Mysql_AddIP :: "'d Driver \<Rightarrow> bytes \<Rightarrow> 'd MysqlLogic \<Rightarrow> bytes option option \<times> 'd MysqlLogic" where
  "Mysql_AddIP drv ip = inserting drv (AddIP_sql ip)"

definition DelIP_sql :: "bytes \<Rightarrow> bytes" where
  "DelIP_sql ip = ''delete from machine_ip where ip='' @ quoted ip"

definition Mysql_DelIP :: "'d Driver \<Rightarrow> bytes \<Rightarrow> 'd MysqlLogic \<Rightarrow> bytes option option \<times> 'd MysqlLogic" where
  "Mysql_DelIP drv ip = executing drv (DelIP_sql ip)"

definition UpdateCompileCommand_sql :: "bytes \<Rightarrow> bytes \<Rightarrow> bytes" where
  "UpdateCompileCommand_sql cmd i = ''update code_test set compile_commad='' @ quoted cmd @ '' where id='' @ i"

definition Mysql_UpdateCompileCommand :: "'d Driver \<Rightarrow> bytes \<Rightarrow> bytes \<Rightarrow> 'd MysqlLogic \<Rightarrow> bytes option option \<times> 'd MysqlLogic" where
  "Mysql_UpdateCompileCommand drv cmd i = executing drv (UpdateCompileCommand_sql cmd i)"

definition UpdateRestartCommand_sql :: "bytes \<Rightarrow> bytes \<Rightarrow> bytes" where
  "UpdateRestartCommand_sql cmd i = ''update code_test set restart_commad='' @ quoted cmd @ '' where id='' @ i"

definition Mysql_UpdateRestartCommand :: "'d Driver \<Rightarrow> bytes \<Rightarrow> bytes \<Rightarrow> 'd MysqlLogic \<Rightarrow> bytes option option \<times> 'd MysqlLogic" where
  "Mysql_UpdateRestartCommand drv cmd i = executing drv (UpdateRestartCommand_sql cmd i)"

text \<open>The version is not quoted.\<close>

definition AddTestModule_sql :: "TestModule \<Rightarrow> bytes" where
  "AddTestModule_sql m =
     ''insert into code_test(ip,src_dir,dst_dir,module_name,principal,version) values('' @ quoted (tm_IP m) @ '','' @ quoted (SrcDir m) @ '','' @
     quoted (DstDir m) @ '','' @ quoted (tm_ModuleName m) @ '','' @ quoted (Principal m) @ '','' @ Version m @ '')''"

definition Mysql_AddTestModule :: "'d Driver \<Rightarrow> TestModule \<Rightarrow> 'd MysqlLogic \<Rightarrow> bytes option option \<times> 'd MysqlLogic" where
  "Mysql_AddTestModule drv m = inserting drv (AddTestModule_sql m)"

definition AddPaidang_sql :: "Paidang \<Rightarrow> bytes" where
  "AddPaidang_sql p =
     ''insert into paidang(name,phone,location,user) values('' @ quoted (p_Name p) @ '','' @ quoted (p_Phone p) @ '','' @
     quoted (p_Location p) @ '','' @ quoted (p_User p) @ '')''"

definition Mysql_AddPaidang :: "'d Driver \<Rightarrow> Paidang \<Rightarrow> 'd MysqlLogic \<Rightarrow> bytes option option \<times> 'd MysqlLogic" where
  "Mysql_AddPaidang drv p = inserting drv (AddPaidang_sql p)"

definition DelPaidang_sql :: "bytes \<Rightarrow> bytes" where
  "DelPaidang_sql i = ''delete from paidang where id='' @ i"

definition Mysql_DelPaidang :: "'d Driver \<Rightarrow> bytes \<Rightarrow> 'd MysqlLogic \<Rightarrow> bytes option option \<times> 'd MysqlLogic" where
  "Mysql_DelPaidang drv i = executing drv (DelPaidang_sql i)"

definition AddHauntModule_sql :: "HauntModule \<Rightarrow> bytes" where
  "AddHauntModule_sql m =
     ''insert into modules(module_name,module_desc,module_user,module_backup_user) values('' @ quoted (hm_ModuleName m) @ '','' @
     quoted (hm_ModuleDesc m) @ '','' @ quoted (hm_ModuleUser m) @ '','' @ quoted (hm_ModuleBackupUser m) @ '')''"

definition Mysql_AddHauntModule :: "'d Driver \<Rightarrow> HauntModule \<Rightarrow> 'd MysqlLogic \<Rightarrow> bytes option option \<times> 'd MysqlLogic" where
  "Mysql_AddHauntModule drv m = inserting drv (AddHauntModule_sql m)"

definition DelHauntModule_sql :: "bytes \<Rightarrow> bytes" where
  "DelHauntModule_sql i = ''delete from modules where id='' @ i"

definition Mysql_DelHauntModule :: "'d Driver \<Rightarrow> bytes \<Rightarrow> 'd MysqlLogic \<Rightarrow> bytes option option \<times> 'd MysqlLogic" where
  "Mysql_DelHauntModule drv i = executing drv (DelHauntModule_sql i)"

definition UpdateHauntModule_sql :: "HauntModule \<Rightarrow> bytes" where
  "UpdateHauntModule_sql m =
     ''update modules set module_desc='' @ quoted (hm_ModuleDesc m) @ '', module_user='' @ quoted (hm_ModuleUser m) @ '', module_backup_user='' @
     quoted (hm_ModuleBackupUser m) @ '' where module_name='' @ quoted (hm_ModuleName m)"

definition Mysql_UpdateHauntModule :: "'d Driver \<Rightarrow> HauntModule \<Rightarrow> 'd MysqlLogic \<Rightarrow> bytes option option \<times> 'd MysqlLogic" where
  "Mysql_UpdateHauntModule drv m = executing drv (UpdateHauntModule_sql m)"


section \<open>Values in statements\<close>

text \<open>
  A statement as MySQL reads it: its string literals (\<open>Inr\<close>), between single quotes, where two quotes stand for one and a backslash escapes, and the characters
  outside them (\<open>Inl\<close>). The first argument is the literal that has begun, if any; a statement that ends within one is not read. (The fixed texts have no other quotes and no comments.)
\<close>

definition mysql_escape :: "char \<Rightarrow> char" where
  "mysql_escape c =
     (if c = CHR ''n'' then CHR 0x0A else if c = CHR ''r'' then CHR 0x0D else if c = CHR ''t'' then CHR 0x09
      else if c = CHR ''0'' then CHR 0x00 else if c = CHR ''b'' then CHR 0x08 else if c = CHR ''Z'' then CHR 0x1A else c)"

fun read_sql :: "bytes option \<Rightarrow> bytes \<Rightarrow> (char + bytes) list option" where
  "read_sql None [] = Some []"
| "read_sql None (c # s) = (if c = CHR 0x27 then read_sql (Some []) s else map_option ((#) (Inl c)) (read_sql None s))"
| "read_sql (Some cur) [] = None"
| "read_sql (Some cur) [c] = (if c = CHR 0x27 then Some [Inr cur] else None)"
| "read_sql (Some cur) (c # d # s) =
     (if c = CHR 0x27 then
        (if d = CHR 0x27 then read_sql (Some (cur @ [d])) s else map_option ((#) (Inr cur)) (read_sql None (d # s)))
      else if c = CHR 0x5C then read_sql (Some (cur @ [mysql_escape d])) s
      else read_sql (Some (cur @ [c])) (d # s))"

abbreviation outside :: "bytes \<Rightarrow> (char + bytes) list" where
  "outside s \<equiv> map Inl s"

definition no_quote :: "bytes \<Rightarrow> bool" where
  "no_quote v \<longleftrightarrow> CHR 0x27 \<notin> set v"

definition plain :: "bytes \<Rightarrow> bool" where
  "plain v \<longleftrightarrow> CHR 0x27 \<notin> set v \<and> CHR 0x5C \<notin> set v"

lemma plain_append: "plain (u @ v) \<longleftrightarrow> plain u \<and> plain v" "plain (c # v) \<longleftrightarrow> c \<noteq> CHR 0x27 \<and> c \<noteq> CHR 0x5C \<and> plain v" "plain []"
  by (auto simp: plain_def)

lemma read_literal:
  "plain v \<Longrightarrow> s = [] \<or> hd s \<noteq> CHR 0x27 \<Longrightarrow> read_sql (Some cur) (v @ CHR 0x27 # s) = map_option ((#) (Inr (cur @ v))) (read_sql None s)"
proof (induction v arbitrary: cur)
  case Nil
  then show ?case by (cases s) auto
next
  case (Cons c v)
  obtain d x where x: "v @ CHR 0x27 # s = d # x" by (cases v) auto
  have "read_sql (Some cur) ((c # v) @ CHR 0x27 # s) = read_sql (Some (cur @ [c])) (v @ CHR 0x27 # s)"
    using Cons.prems(1) unfolding append_Cons x by (auto simp: plain_def)
  then show ?case using Cons by (simp add: plain_def)
qed

text \<open>The parts of a statement: texts and values outside quotes, and quoted values.\<close>

definition lexes :: "bytes \<Rightarrow> (char + bytes) list \<Rightarrow> bool" where
  "lexes s ts \<longleftrightarrow> read_sql None s = Some ts"

lemma lexes_outside: "no_quote w \<Longrightarrow> lexes s ts \<Longrightarrow> lexes (w @ s) (outside w @ ts)"
  unfolding lexes_def no_quote_def by (induction w) auto

lemma lexes_quoted: "plain v \<Longrightarrow> s = [] \<or> hd s \<noteq> CHR 0x27 \<Longrightarrow> lexes s ts \<Longrightarrow> lexes (quoted v @ s) (Inr v # ts)"
  using read_literal [of v s "[]"] by (simp add: lexes_def quoted_def)

lemma lexes_last: "no_quote w \<Longrightarrow> lexes w (outside w)" "plain v \<Longrightarrow> lexes (quoted v) [Inr v]"
  using lexes_outside [of w "[]" "[]"] lexes_quoted [of v "[]" "[]"] by (simp_all add: lexes_def)

lemma no_quote_simps: "no_quote [] \<longleftrightarrow> True" "no_quote (c # s) \<longleftrightarrow> c \<noteq> CHR 0x27 \<and> no_quote s"
  by (auto simp: no_quote_def)

lemmas lexes_parts = lexes_last lexes_outside lexes_quoted

lemma AddIP_lexes: "plain a \<Longrightarrow> lexes (AddIP_sql a) (outside ''insert into machine_ip(ip) values('' @ Inr a # outside '')'')"
  unfolding AddIP_sql_def by (intro lexes_parts) (simp_all add: no_quote_simps)

lemma SearchIP_lexes: "plain a \<Longrightarrow> lexes (SearchIP_sql a) (outside ''SELECT ip FROM machine_ip where ip like '' @ [Inr (''%'' @ a @ ''%'')])"
  unfolding SearchIP_sql_def by (intro lexes_parts) (simp_all add: no_quote_simps plain_append)

lemma DelIP_lexes:
  "plain a \<Longrightarrow> lexes (DelIP_sql a) (outside ''delete from machine_ip where ip='' @ [Inr a])"
  "plain a \<Longrightarrow> lexes (DelIP_sql (a @ [CHR 0x27] @ '' or '' @ quoted ''1'' @ ''='' @ [CHR 0x27] @ ''1''))
     (outside ''delete from machine_ip where ip='' @ Inr a # outside '' or '' @ Inr ''1'' # outside ''='' @ [Inr ''1''])"
proof -
  show "plain a \<Longrightarrow> lexes (DelIP_sql a) (outside ''delete from machine_ip where ip='' @ [Inr a])"
    unfolding DelIP_sql_def by (intro lexes_parts) (simp_all add: no_quote_simps)
  have "DelIP_sql (a @ [CHR 0x27] @ '' or '' @ quoted ''1'' @ ''='' @ [CHR 0x27] @ ''1'') =
      ''delete from machine_ip where ip='' @ quoted a @ '' or '' @ quoted ''1'' @ ''='' @ quoted ''1''"
    by (simp add: DelIP_sql_def quoted_def)
  then show "plain a \<Longrightarrow> lexes (DelIP_sql (a @ [CHR 0x27] @ '' or '' @ quoted ''1'' @ ''='' @ [CHR 0x27] @ ''1''))
     (outside ''delete from machine_ip where ip='' @ Inr a # outside '' or '' @ Inr ''1'' # outside ''='' @ [Inr ''1''])"
    by (simp only:) (intro lexes_parts, simp_all add: no_quote_simps plain_append)
qed

lemma commands_lexes:
  assumes "plain a" and "no_quote i"
  shows "lexes (UpdateCompileCommand_sql a i) (outside ''update code_test set compile_commad='' @ Inr a # outside '' where id='' @ outside i)"
    and "lexes (UpdateRestartCommand_sql a i) (outside ''update code_test set restart_commad='' @ Inr a # outside '' where id='' @ outside i)"
    and "lexes (DelPaidang_sql i) (outside ''delete from paidang where id='' @ outside i)"
    and "lexes (DelHauntModule_sql i) (outside ''delete from modules where id='' @ outside i)"
  unfolding UpdateCompileCommand_sql_def UpdateRestartCommand_sql_def DelPaidang_sql_def DelHauntModule_sql_def
  by (intro lexes_parts assms; simp add: no_quote_simps)+

lemma rows_lexes:
  assumes "plain a" and "plain b" and "plain c" and "plain d"
  shows "lexes (AddPaidang_sql \<lparr>p_ID = x, p_Name = a, p_Phone = b, p_Location = c, p_User = d, p_Time = y\<rparr>)
      (outside ''insert into paidang(name,phone,location,user) values('' @ Inr a # outside '','' @ Inr b # outside '','' @ Inr c # outside '','' @ Inr d # outside '')'')"
    and "lexes (AddHauntModule_sql \<lparr>hm_ID = x, hm_ModuleName = a, hm_ModuleDesc = b, hm_ModuleUser = c, hm_ModuleBackupUser = d, hm_UpdateTime = y\<rparr>)
      (outside ''insert into modules(module_name,module_desc,module_user,module_backup_user) values('' @
        Inr a # outside '','' @ Inr b # outside '','' @ Inr c # outside '','' @ Inr d # outside '')'')"
    and "lexes (UpdateHauntModule_sql \<lparr>hm_ID = x, hm_ModuleName = a, hm_ModuleDesc = b, hm_ModuleUser = c, hm_ModuleBackupUser = d, hm_UpdateTime = y\<rparr>)
      (outside ''update modules set module_desc='' @ Inr b # outside '', module_user='' @ Inr c # outside '', module_backup_user='' @ Inr d #
        outside '' where module_name='' @ [Inr a])"
  unfolding AddPaidang_sql_def AddHauntModule_sql_def UpdateHauntModule_sql_def Paidang.simps HauntModule.simps
  by (intro lexes_parts assms; simp add: no_quote_simps)+

lemma AddTestModule_lexes:
  assumes "plain a" and "plain b" and "plain c" and "plain d" and "plain e" and "no_quote i"
  shows "lexes (AddTestModule_sql \<lparr>tm_ID = x, tm_IP = a, SrcDir = b, DstDir = c, tm_ModuleName = d, Principal = e, Version = i, tm_UpdateTime = y\<rparr>)
      (outside ''insert into code_test(ip,src_dir,dst_dir,module_name,principal,version) values('' @
        Inr a # outside '','' @ Inr b # outside '','' @ Inr c # outside '','' @ Inr d # outside '','' @ Inr e # outside '','' @ outside i @ outside '')'')"
  unfolding AddTestModule_sql_def TestModule.simps by (intro lexes_parts assms; simp add: no_quote_simps)

lemma SearchPaidang_lexes:
  assumes "plain a" and "plain b" and "plain c"
  shows "lexes (SearchPaidang_sql a b c)
      (outside ''SELECT id,name,phone,location,user,update_time FROM paidang where location like '' @ Inr (''%'' @ a @ ''%'') #
        outside '' and update_time>='' @ Inr b # (if c = [] then [] else outside '' and update_time<='' @ [Inr c]) @ outside '' GROUP BY phone'')"
proof (cases "c = []")
  case True
  have "lexes (''SELECT id,name,phone,location,user,update_time FROM paidang where location like '' @ quoted (''%'' @ a @ ''%'') @
        '' and update_time>='' @ quoted b @ '' GROUP BY phone'')
      (outside ''SELECT id,name,phone,location,user,update_time FROM paidang where location like '' @ Inr (''%'' @ a @ ''%'') #
        outside '' and update_time>='' @ Inr b # outside '' GROUP BY phone'')"
    using assms by (intro lexes_parts) (simp_all add: no_quote_simps plain_append)
  then show ?thesis using True
    by (simp only: SearchPaidang_sql_def between_def append_assoc append_Nil append_Nil2 if_True refl simp_thms)
next
  case False
  have "lexes (''SELECT id,name,phone,location,user,update_time FROM paidang where location like '' @ quoted (''%'' @ a @ ''%'') @
        '' and update_time>='' @ quoted b @ '' and update_time<='' @ quoted c @ '' GROUP BY phone'')
      (outside ''SELECT id,name,phone,location,user,update_time FROM paidang where location like '' @ Inr (''%'' @ a @ ''%'') #
        outside '' and update_time>='' @ Inr b # outside '' and update_time<='' @ Inr c # outside '' GROUP BY phone'')"
    using assms by (intro lexes_parts) (simp_all add: no_quote_simps plain_append)
  then show ?thesis using False
    by (simp only: SearchPaidang_sql_def between_def append_assoc append_Cons append_Nil if_False)
qed

text \<open>
  C23. Values in statements. If the quoted values have no quote or backslash, and the identifiers and the version no quote, MySQL reads the fixed text of the
  statement with the quoted values as string literals, each in its place. The identifier of an update or a removal and the version of a test module are no literals:
  their characters are part of the statement, so that an identifier \<open>1 or 1=1\<close> goes into the condition. And the address \<open>x' or '1'='1\<close>, which has quotes,
  makes the removal of \<open>x\<close> read \<open>ip=x or 1=1\<close>, with three literals.
\<close>

theorem statements_hold_values:
  assumes "plain a" and "plain b" and "plain c" and "plain d" and "plain e" and "CHR 0x27 \<notin> set i"
  shows "read_sql None (AddIP_sql a) = Some (outside ''insert into machine_ip(ip) values('' @ Inr a # outside '')'') \<and>
    read_sql None (DelIP_sql a) = Some (outside ''delete from machine_ip where ip='' @ [Inr a]) \<and>
    read_sql None (SearchIP_sql a) = Some (outside ''SELECT ip FROM machine_ip where ip like '' @ [Inr (''%'' @ a @ ''%'')]) \<and>
    read_sql None (UpdateCompileCommand_sql a i) = Some (outside ''update code_test set compile_commad='' @ Inr a # outside '' where id='' @ outside i) \<and>
    read_sql None (UpdateRestartCommand_sql a i) = Some (outside ''update code_test set restart_commad='' @ Inr a # outside '' where id='' @ outside i) \<and>
    read_sql None (DelPaidang_sql i) = Some (outside ''delete from paidang where id='' @ outside i) \<and>
    read_sql None (DelHauntModule_sql i) = Some (outside ''delete from modules where id='' @ outside i) \<and>
    read_sql None (AddTestModule_sql \<lparr>tm_ID = x, tm_IP = a, SrcDir = b, DstDir = c, tm_ModuleName = d, Principal = e, Version = i, tm_UpdateTime = y\<rparr>) =
      Some (outside ''insert into code_test(ip,src_dir,dst_dir,module_name,principal,version) values('' @
        Inr a # outside '','' @ Inr b # outside '','' @ Inr c # outside '','' @ Inr d # outside '','' @ Inr e # outside '','' @ outside i @ outside '')'') \<and>
    read_sql None (AddPaidang_sql \<lparr>p_ID = x, p_Name = a, p_Phone = b, p_Location = c, p_User = d, p_Time = y\<rparr>) =
      Some (outside ''insert into paidang(name,phone,location,user) values('' @
        Inr a # outside '','' @ Inr b # outside '','' @ Inr c # outside '','' @ Inr d # outside '')'') \<and>
    read_sql None (AddHauntModule_sql \<lparr>hm_ID = x, hm_ModuleName = a, hm_ModuleDesc = b, hm_ModuleUser = c, hm_ModuleBackupUser = d, hm_UpdateTime = y\<rparr>) =
      Some (outside ''insert into modules(module_name,module_desc,module_user,module_backup_user) values('' @
        Inr a # outside '','' @ Inr b # outside '','' @ Inr c # outside '','' @ Inr d # outside '')'') \<and>
    read_sql None (UpdateHauntModule_sql \<lparr>hm_ID = x, hm_ModuleName = a, hm_ModuleDesc = b, hm_ModuleUser = c, hm_ModuleBackupUser = d, hm_UpdateTime = y\<rparr>) =
      Some (outside ''update modules set module_desc='' @ Inr b # outside '', module_user='' @ Inr c # outside '', module_backup_user='' @ Inr d #
        outside '' where module_name='' @ [Inr a]) \<and>
    read_sql None (SearchPaidang_sql a b c) =
      Some (outside ''SELECT id,name,phone,location,user,update_time FROM paidang where location like '' @ Inr (''%'' @ a @ ''%'') #
        outside '' and update_time>='' @ Inr b # (if c = [] then [] else outside '' and update_time<='' @ [Inr c]) @ outside '' GROUP BY phone'') \<and>
    read_sql None (DelIP_sql (a @ [CHR 0x27] @ '' or '' @ quoted ''1'' @ ''='' @ [CHR 0x27] @ ''1'')) =
      Some (outside ''delete from machine_ip where ip='' @ Inr a # outside '' or '' @ Inr ''1'' # outside ''='' @ [Inr ''1''])"
proof -
  have i: "no_quote i" using assms(6) by (simp add: no_quote_def)
  note parts = AddIP_lexes [OF assms(1)] DelIP_lexes(1) [OF assms(1)] SearchIP_lexes [OF assms(1)] commands_lexes [OF assms(1) i]
    AddTestModule_lexes [OF assms(1-5) i, of x y] rows_lexes [OF assms(1-4), of x y] SearchPaidang_lexes [OF assms(1-3)] DelIP_lexes(2) [OF assms(1)]
  show ?thesis by (intro conjI parts [unfolded lexes_def])
qed

theorem statements_hold_values_witness:
  "read_sql None (AddPaidang_sql \<lparr>p_ID = [], p_Name = ''n'', p_Phone = ''1'', p_Location = ''hz'', p_User = ''u'', p_Time = []\<rparr>) =
     Some (outside ''insert into paidang(name,phone,location,user) values('' @
       Inr ''n'' # outside '','' @ Inr ''1'' # outside '','' @ Inr ''hz'' # outside '','' @ Inr ''u'' # outside '')'') \<and>
   read_sql None (DelPaidang_sql ''1 or 1=1'') = Some (outside ''delete from paidang where id='' @ outside ''1 or 1=1'')"
proof -
  have p: "plain ''n''" "plain ''1''" "plain ''hz''" "plain ''u''" "plain []" "CHR 0x27 \<notin> set ''1 or 1=1''" by (simp_all add: plain_def)
  from statements_hold_values [OF p, of "[]" "[]"] show ?thesis by (elim conjE) (intro conjI)
qed

end
