(* ===== verification/Haunt_Http.thy ===== *)
theory Haunt_Http
  imports Haunt_Mysql Xman_Config_File
begin

text \<open>
  The web application (\<open>youzan/youzan_controller/controller\<close>): the handlers of \<open>http_handler.go\<close>, \<open>logic_process.go\<close> and \<open>haunt_endpoint.go\<close>, and its start
  from a configuration file (\<open>config.go\<close>).

  A handler gets the parsed form and the state, the variable \<open>mysqlHander\<close>, and gives what it writes; \<^term>\<open>None\<close> is a panic, after which the HTTP server
  closes the connection without a reply. What lies outside is a parameter: the database driver, which addresses can be dialled, the shell, the etcd client, and
  the error of an HTTP request. Marshalling these types cannot fail, so that branch of the handlers is left out.

  Shown: a list is answered with the rows of the table; what becomes of a refused statement; and what connection a configuration gives.
\<close>

section \<open>Requests and replies\<close>

type_synonym Form = "bytes \<Rightarrow> bytes list option"
type_synonym 'd WebState = "'d MysqlLogic option"

text \<open>\<open>r.Form[k][0]\<close> panics when there is no such value.\<close>

definition arg :: "Form \<Rightarrow> bytes \<Rightarrow> bytes option" where
  "arg form k = (case form k of Some (v # vs) \<Rightarrow> Some v | _ \<Rightarrow> None)"

definition FormValue :: "Form \<Rightarrow> bytes \<Rightarrow> bytes" where
  "FormValue form k = (case form k of Some (v # vs) \<Rightarrow> v | _ \<Rightarrow> [])"

definition reply :: "Form \<Rightarrow> bytes \<Rightarrow> bytes" where
  "reply form msg = FormValue form ''callback'' @ ''('' @ msg @ '')''"

definition answer :: "Form \<Rightarrow> bytes \<Rightarrow> bytes \<Rightarrow> bytes option \<Rightarrow> bytes" where
  "answer form ok bad err = reply form (if err \<noteq> None then bad else ok)"

text \<open>The shape of the handlers that change the database; \<open>op\<close> is \<^term>\<open>None\<close> when a value is missing. A nil \<open>mysqlHander\<close> panics.\<close>

definition changing ::
  "('d MysqlLogic \<Rightarrow> bytes option option \<times> 'd MysqlLogic) option \<Rightarrow> Form \<Rightarrow> bytes \<Rightarrow> bytes \<Rightarrow> 'd WebState \<Rightarrow> bytes option \<times> 'd WebState"
where
  "changing op form ok bad st =
     (case (op, st) of
        (Some f, Some ml) \<Rightarrow> (let (r, ml) = f ml in (map_option (answer form ok bad) r, Some ml))
      | _ \<Rightarrow> (None, st))"

section \<open>Values as JSON\<close>

definition Server_json :: "Server \<Rightarrow> json" where
  "Server_json s = JObj [(''IP'', JStr (IP s)), (''Status'', JNum (itoa (Status s)))]"

definition ServerList_json :: "ServerList \<Rightarrow> json" where
  "ServerList_json l = JObj [(''SrvAllNum'', JNum (itoa (SrvAllNum l))), (''SrvList'', JArr (map Server_json (SrvList l)))]"

definition TestModule_json :: "TestModule \<Rightarrow> json" where
  "TestModule_json m =
     JObj [(''ID'', JStr (tm_ID m)), (''IP'', JStr (tm_IP m)), (''SrcDir'', JStr (SrcDir m)), (''DstDir'', JStr (DstDir m)),
           (''ModuleName'', JStr (tm_ModuleName m)), (''Principal'', JStr (Principal m)), (''Version'', JStr (Version m)),
           (''UpdateTime'', JStr (tm_UpdateTime m))]"

definition TestList_json :: "TestList \<Rightarrow> json" where
  "TestList_json l = JObj [(''TestModuleNum'', JNum (itoa (TestModuleNum l))), (''TestModuleList'', JArr (map TestModule_json (TestModuleList l)))]"

definition TestModuleCommand_json :: "TestModuleCommand \<Rightarrow> json" where
  "TestModuleCommand_json c = JObj [(''CompileCommand'', JStr (CompileCommand c)), (''RestartCommand'', JStr (RestartCommand c))]"

definition Paidang_json :: "Paidang \<Rightarrow> json" where
  "Paidang_json p =
     JObj [(''ID'', JStr (p_ID p)), (''Name'', JStr (p_Name p)), (''Phone'', JStr (p_Phone p)), (''Location'', JStr (p_Location p)),
           (''User'', JStr (p_User p)), (''Time'', JStr (p_Time p))]"

definition PaidangList_json :: "PaidangList \<Rightarrow> json" where
  "PaidangList_json l = JObj [(''PaidangNum'', JNum (itoa (PaidangNum l))), (''PaidangInfoList'', JArr (map Paidang_json (PaidangInfoList l)))]"

definition HauntModule_json :: "HauntModule \<Rightarrow> json" where
  "HauntModule_json m =
     JObj [(''ID'', JStr (hm_ID m)), (''ModuleName'', JStr (hm_ModuleName m)), (''ModuleDesc'', JStr (hm_ModuleDesc m)),
           (''ModuleUser'', JStr (hm_ModuleUser m)), (''ModuleBackupUser'', JStr (hm_ModuleBackupUser m)), (''UpdateTime'', JStr (hm_UpdateTime m))]"

definition HauntModuleList_json :: "HauntModuleList \<Rightarrow> json" where
  "HauntModuleList_json l = JObj [(''ModuleNum'', JNum (itoa (ModuleNum l))), (''ModuleList'', JArr (map HauntModule_json (ModuleList l)))]"

section \<open>Servers\<close>

text \<open>The connections that could be dialled are never closed; the second part is their number.\<close>

definition CheckIPAlive :: "(bytes \<Rightarrow> bool) \<Rightarrow> ServerList \<Rightarrow> ServerList \<times> nat" where
  "CheckIPAlive alive l =
     (l\<lparr>SrvList := map (\<lambda>v. if alive (IP v @ '':22'') then v else v\<lparr>Status := status_NO_OK\<rparr>) (SrvList l)\<rparr>,
      length (filter (\<lambda>v. alive (IP v @ '':22'')) (SrvList l)))"

text \<open>The errors of the queries are not looked at.\<close>

definition GetSrvList :: "'d Driver \<Rightarrow> (bytes \<Rightarrow> bool) \<Rightarrow> Form \<Rightarrow> 'd WebState \<Rightarrow> bytes option" where
  "GetSrvList drv alive form st =
     do { start \<leftarrow> arg form ''start''; num \<leftarrow> arg form ''num''; ml \<leftarrow> st;
          let (err, l) = Mysql_GetIPMaxID drv ml \<lparr>SrvAllNum = 0, SrvList = []\<rparr>;
          let (err, l) = Mysql_GetIPList drv (fst (Atoi start)) (fst (Atoi num)) ml l;
          Some (reply form (Marshal (ServerList_json (fst (CheckIPAlive alive l))))) }"

definition SearchIP :: "'d Driver \<Rightarrow> (bytes \<Rightarrow> bool) \<Rightarrow> Form \<Rightarrow> 'd WebState \<Rightarrow> bytes option" where
  "SearchIP drv alive form st =
     do { ip \<leftarrow> arg form ''searchip''; ml \<leftarrow> st;
          let (err, l) = Mysql_SearchIP drv ip ml \<lparr>SrvAllNum = 0, SrvList = []\<rparr>;
          Some (reply form (Marshal (ServerList_json (fst (CheckIPAlive alive l))))) }"

definition AddMachine :: "'d Driver \<Rightarrow> Form \<Rightarrow> 'd WebState \<Rightarrow> bytes option \<times> 'd WebState" where
  "AddMachine drv form =
     changing (map_option (Mysql_AddIP drv) (arg form ''ip'')) form
       ''{\"result\": \"Add IP OK\"}'' ''{\"result\": \"Add IP Error.\"}''"

definition DelMachine :: "'d Driver \<Rightarrow> Form \<Rightarrow> 'd WebState \<Rightarrow> bytes option \<times> 'd WebState" where
  "DelMachine drv form =
     changing (map_option (Mysql_DelIP drv) (arg form ''ip'')) form
       ''{\"result\": \"Delete IP OK\"}'' ''{\"result\": \"Delete IP Error.\"}''"

section \<open>Test modules\<close>

definition GetTestModuleList :: "'d Driver \<Rightarrow> Form \<Rightarrow> 'd WebState \<Rightarrow> bytes option" where
  "GetTestModuleList drv form st =
     do { start \<leftarrow> arg form ''start''; num \<leftarrow> arg form ''num''; ml \<leftarrow> st;
          let (err, l) = Mysql_SelectMaxIDTestModule drv ml \<lparr>TestModuleNum = 0, TestModuleList = []\<rparr>;
          let (err, l) = Mysql_SelectTestModule drv (fst (Atoi start)) (fst (Atoi num)) ml l;
          Some (reply form (Marshal (TestList_json l))) }"

definition AddTestModule :: "'d Driver \<Rightarrow> Form \<Rightarrow> 'd WebState \<Rightarrow> bytes option \<times> 'd WebState" where
  "AddTestModule drv form =
     changing
       (do { ip \<leftarrow> arg form ''ip''; src \<leftarrow> arg form ''srcdir''; dst \<leftarrow> arg form ''dstdir''; name \<leftarrow> arg form ''modulename''; user \<leftarrow> arg form ''user'';
             Some (Mysql_AddTestModule drv
               \<lparr>tm_ID = [], tm_IP = ip, SrcDir = src, DstDir = dst, tm_ModuleName = name, Principal = user, Version = itoa 1, tm_UpdateTime = []\<rparr>) }) form
       ''{\"result\": \"Add TestModule OK\"}'' ''{\"result\": \"Add TestModule Error.\"}''"

text \<open>What the shell gives for a command: the text of an error, or the output.\<close>

type_synonym Shell = "bytes \<Rightarrow> bytes + bytes"

definition SyncTestCode :: "Shell \<Rightarrow> Form \<Rightarrow> bytes option" where
  "SyncTestCode sh form =
     do { srcDir \<leftarrow> arg form ''srcdir''; dstDir \<leftarrow> arg form ''dstdir'';
          let ccc = ''ansible test -m copy -a \"src='' @ srcDir @ '' dest='' @ dstDir @ ''\" -i /Users/reezhou/Desktop/youzan/ssh/REE -u zhoulindong'';
          Some (reply form
            (case sh ccc of
               Inl err \<Rightarrow> ''{\"result\": \"SyncTestCode error, '' @ err @ ''.\"}''
             | Inr out \<Rightarrow> ''{\"result\": \"SyncTestCode OK.\"}'')) }"

text \<open>\<open>base64.StdEncoding\<close>.\<close>

definition base64_digit :: "nat \<Rightarrow> char" where
  "base64_digit n = ''ABCDEFGHIJKLMNOPQRSTUVWXYZabcdefghijklmnopqrstuvwxyz0123456789+/'' ! n"

fun base64 :: "bytes \<Rightarrow> bytes" where
  "base64 [] = []"
| "base64 [a] = (let n = of_char a * 65536 in [base64_digit (n div 262144), base64_digit (n div 4096 mod 64), CHR ''='', CHR ''=''])"
| "base64 [a, b] =
     (let n = of_char a * 65536 + of_char b * 256
      in [base64_digit (n div 262144), base64_digit (n div 4096 mod 64), base64_digit (n div 64 mod 64), CHR ''=''])"
| "base64 (a # b # c # s) =
     (let n = of_char a * 65536 + of_char b * 256 + of_char c
      in [base64_digit (n div 262144), base64_digit (n div 4096 mod 64), base64_digit (n div 64 mod 64), base64_digit (n mod 64)] @ base64 s)"

definition ExecRemoteCommand :: "Shell \<Rightarrow> Form \<Rightarrow> bytes option" where
  "ExecRemoteCommand sh form =
     do { cmd \<leftarrow> arg form ''command'';
          let ccc = ''ansible test -m shell -a \"'' @ cmd @ ''\" -i /Users/reezhou/Desktop/youzan/ssh/REE -u zhoulindong'';
          Some (reply form
            (case sh ccc of
               Inl err \<Rightarrow> ''{\"result\": \"ExecRemoteCommand error, '' @ err @ ''.\"}''
             | Inr out \<Rightarrow> ''{\"result\": \"ExecRemoteCommand OK.\", \"msg\": \"'' @ base64 out @ ''\"}'')) }"

definition SelectCommands :: "'d Driver \<Rightarrow> Form \<Rightarrow> 'd WebState \<Rightarrow> bytes option" where
  "SelectCommands drv form st =
     do { i \<leftarrow> arg form ''id''; ml \<leftarrow> st;
          let (err, c) = Mysql_SelectTestModuleCommand drv i ml \<lparr>CompileCommand = [], RestartCommand = []\<rparr>;
          Some (reply form (Marshal (TestModuleCommand_json c))) }"

definition UpdateCompileCommand :: "'d Driver \<Rightarrow> Form \<Rightarrow> 'd WebState \<Rightarrow> bytes option \<times> 'd WebState" where
  "UpdateCompileCommand drv form =
     changing (do { cmd \<leftarrow> arg form ''cmd''; i \<leftarrow> arg form ''id''; Some (Mysql_UpdateCompileCommand drv cmd i) }) form
       ''{\"result\": \"UpdateCompileCommand OK\"}'' ''{\"result\": \"UpdateCompileCommand Error.\"}''"

definition UpdateRestartCommand :: "'d Driver \<Rightarrow> Form \<Rightarrow> 'd WebState \<Rightarrow> bytes option \<times> 'd WebState" where
  "UpdateRestartCommand drv form =
     changing (do { cmd \<leftarrow> arg form ''cmd''; i \<leftarrow> arg form ''id''; Some (Mysql_UpdateRestartCommand drv cmd i) }) form
       ''{\"result\": \"UpdateRestartCommand OK\"}'' ''{\"result\": \"UpdateRestartCommand Error.\"}''"

section \<open>Paidang\<close>

definition no_paidang :: PaidangList where
  "no_paidang = \<lparr>PaidangNum = 0, PaidangInfoList = []\<rparr>"

definition GetPaidangList :: "'d Driver \<Rightarrow> Form \<Rightarrow> 'd WebState \<Rightarrow> bytes option" where
  "GetPaidangList drv form st =
     do { start \<leftarrow> arg form ''start''; num \<leftarrow> arg form ''num''; ml \<leftarrow> st;
          let (err, l) = Mysql_GetPaidangCount drv ml no_paidang;
          let (err, l) = Mysql_GetPaidangList drv (fst (Atoi start)) (fst (Atoi num)) ml l;
          Some (reply form (Marshal (PaidangList_json l))) }"

definition SearchPaidang :: "'d Driver \<Rightarrow> Form \<Rightarrow> 'd WebState \<Rightarrow> bytes option" where
  "SearchPaidang drv form st =
     do { location \<leftarrow> arg form ''location''; starttime \<leftarrow> arg form ''starttime''; endtime \<leftarrow> arg form ''endtime''; ml \<leftarrow> st;
          Some (reply form (Marshal (PaidangList_json
            (fold (\<lambda>v l. snd (Mysql_SearchPaidang drv v starttime endtime ml l)) (Split location) no_paidang)))) }"

definition SearchNotPaidang :: "'d Driver \<Rightarrow> Form \<Rightarrow> 'd WebState \<Rightarrow> bytes option" where
  "SearchNotPaidang drv form st =
     do { location \<leftarrow> arg form ''location''; starttime \<leftarrow> arg form ''starttime''; endtime \<leftarrow> arg form ''endtime''; ml \<leftarrow> st;
          let (err, l) = Mysql_SearchPaidangNot drv location starttime endtime ml no_paidang;
          Some (reply form (Marshal (PaidangList_json l))) }"

definition AddPaidang :: "'d Driver \<Rightarrow> Form \<Rightarrow> 'd WebState \<Rightarrow> bytes option \<times> 'd WebState" where
  "AddPaidang drv form =
     changing
       (do { name \<leftarrow> arg form ''name''; phone \<leftarrow> arg form ''phone''; location \<leftarrow> arg form ''location''; user \<leftarrow> arg form ''user'';
             Some (Mysql_AddPaidang drv \<lparr>p_ID = [], p_Name = name, p_Phone = phone, p_Location = location, p_User = user, p_Time = []\<rparr>) }) form
       ''{\"result\": \"AddPaidang OK\"}'' ''{\"result\": \"AddPaidang Error.\"}''"

definition DelPaidang :: "'d Driver \<Rightarrow> Form \<Rightarrow> 'd WebState \<Rightarrow> bytes option \<times> 'd WebState" where
  "DelPaidang drv form =
     changing (map_option (Mysql_DelPaidang drv) (arg form ''id'')) form
       ''{\"result\": \"DelPaidang OK\"}'' ''{\"result\": \"DelPaidang Error.\"}''"

section \<open>Haunt modules\<close>

definition GetHauntModules :: "'d Driver \<Rightarrow> Form \<Rightarrow> 'd WebState \<Rightarrow> bytes option" where
  "GetHauntModules drv form st =
     do { start \<leftarrow> arg form ''start''; num \<leftarrow> arg form ''num''; ml \<leftarrow> st;
          let (err, l) = Mysql_QueryHauntModuleCount drv ml \<lparr>ModuleNum = 0, ModuleList = []\<rparr>;
          let (err, l) = Mysql_QueryHauntModuleList drv (fst (Atoi start)) (fst (Atoi num)) ml l;
          Some (reply form (Marshal (HauntModuleList_json l))) }"

definition module_of :: "Form \<Rightarrow> HauntModule option" where
  "module_of form =
     do { name \<leftarrow> arg form ''ModuleName''; desc \<leftarrow> arg form ''ModuleDesc''; user \<leftarrow> arg form ''ModuleUser''; backup \<leftarrow> arg form ''ModuleBackupUser'';
          Some \<lparr>hm_ID = [], hm_ModuleName = name, hm_ModuleDesc = desc, hm_ModuleUser = user, hm_ModuleBackupUser = backup, hm_UpdateTime = []\<rparr> }"

definition AddHauntModule :: "'d Driver \<Rightarrow> Form \<Rightarrow> 'd WebState \<Rightarrow> bytes option \<times> 'd WebState" where
  "AddHauntModule drv form =
     changing (map_option (Mysql_AddHauntModule drv) (module_of form)) form
       ''{\"result\": \"AddHauntModule OK\"}'' ''{\"result\": \"AddHauntModule Error.\"}''"

definition DelHauntModule :: "'d Driver \<Rightarrow> Form \<Rightarrow> 'd WebState \<Rightarrow> bytes option \<times> 'd WebState" where
  "DelHauntModule drv form =
     changing (map_option (Mysql_DelHauntModule drv) (arg form ''id'')) form
       ''{\"result\": \"DelHauntModule OK\"}'' ''{\"result\": \"DelHauntModule Error.\"}''"

definition UpdateHauntModule :: "'d Driver \<Rightarrow> Form \<Rightarrow> 'd WebState \<Rightarrow> bytes option \<times> 'd WebState" where
  "UpdateHauntModule drv form =
     changing (map_option (Mysql_UpdateHauntModule drv) (module_of form)) form
       ''{\"result\": \"UpdateHauntModule OK\"}'' ''{\"result\": \"UpdateHauntModule Error.\"}''"

section \<open>What a list is answered with\<close>

definition example_logic :: "unit MysqlLogic" where
  "example_logic = \<lparr>db = Some (), maxOpenConns = 1, maxIdleConns = 1\<rparr>"

text \<open>
  C19. The reply to a list request carries the table. When the queries give rows whose addresses are UTF-8, \<open>GetSrvList\<close> writes the callback's name and, in parentheses, a JSON text
  that reads back as the number of servers and the rows in order, each with the status 1 if it can be dialled on port 22 and 2 otherwise; the text
  has no markup characters. The callback's name is written as it was sent.
\<close>

theorem list_reply_carries_table:
  assumes "arg form ''start'' = Some s" and "arg form ''num'' = Some n"
    and "row_of drv ''SELECT count(id) as max_id FROM machine_ip'' ml = Inr row"
    and "rows_of drv (''SELECT ip FROM machine_ip limit '' @ itoa (fst (Atoi s)) @ '','' @ itoa (fst (Atoi n))) ml = Inr rows"
    and "\<forall>r \<in> set rows. valid_utf8 (get r ''ip'')"
  shows "\<exists>body. GetSrvList drv alive form (Some ml) = Some (FormValue form ''callback'' @ ''('' @ body @ '')'') \<and>
    parse_json body = Some (JObj [(''SrvAllNum'', JNum (itoa (fst (Atoi (get row ''max_id''))))),
      (''SrvList'', JArr (map (\<lambda>r. JObj [(''IP'', JStr (get r ''ip'')), (''Status'', JNum (if alive (get r ''ip'' @ '':22'') then ''1'' else ''2''))]) rows))]) \<and>
    (\<forall>c \<in> set body. c \<noteq> CHR ''<'' \<and> c \<noteq> CHR ''>'' \<and> c \<noteq> CHR ''&'')"
proof -
  let ?v = "JObj [(''SrvAllNum'', JNum (itoa (fst (Atoi (get row ''max_id''))))),
      (''SrvList'', JArr (map (\<lambda>r. JObj [(''IP'', JStr (get r ''ip'')), (''Status'', JNum (if alive (get r ''ip'' @ '':22'') then ''1'' else ''2''))]) rows))]"
  have num: "itoa 1 = ''1''" "itoa 2 = ''2''" by code_simp+
  have "ServerList_json (fst (CheckIPAlive alive \<lparr>SrvAllNum = fst (Atoi (get row ''max_id'')), SrvList = map server_row rows\<rparr>)) = ?v"
    by (simp add: ServerList_json_def CheckIPAlive_def Server_json_def server_row_def status_OK_def status_NO_OK_def num)
  then have eq: "GetSrvList drv alive form (Some ml) = Some (FormValue form ''callback'' @ ''('' @ Marshal ?v @ '')'')"
    using assms(1-4) by (simp add: GetSrvList_def Mysql_GetIPMaxID_def Mysql_GetIPList_def query_def reply_def del: Marshal.simps)
  have names: "valid_utf8 ''SrvAllNum''" "valid_utf8 ''SrvList''" "valid_utf8 ''IP''" "valid_utf8 ''Status''"
    by (rule valid_utf8_ascii, simp)+
  have "\<exists>i. (if b then ''1'' else ''2'') = itoa i" for b
    using num(1) [symmetric] num(2) [symmetric] by (cases b) (auto simp del: list.inject)
  then have ok: "json_ok ?v" using names assms(5) by (simp, intro exI [of _ "fst (Atoi (get row ''max_id''))"] refl)
  show ?thesis using eq parse_Marshal [OF ok] Marshal_no_markup [OF ok]
    by (intro exI [of _ "Marshal ?v"]) (simp add: markup_def del: Marshal.simps)
qed

theorem list_reply_carries_table_witness:
  "\<exists>body. GetSrvList example_driver (\<lambda>_. False) (\<lambda>_. Some [''7'']) (Some example_logic) =
      Some (FormValue (\<lambda>_. Some [''7'']) ''callback'' @ ''('' @ body @ '')'') \<and>
    parse_json body = Some (JObj [(''SrvAllNum'', JNum (itoa (fst (Atoi ''NULL'')))),
      (''SrvList'', JArr [JObj [(''IP'', JStr ''10.0.0.1''), (''Status'', JNum ''2'')]])])"
proof -
  let ?row = "row_map [''ip'', ''max_id''] [Some ''10.0.0.1'', None]" and ?form = "\<lambda>_ :: bytes. Some [''7'']"
  have cells: "get ?row ''ip'' = ''10.0.0.1''" "get ?row ''max_id'' = ''NULL''" by (simp_all add: row_map_def put_cell_def get_def)
  have rows: "row_of example_driver sql example_logic = Inr ?row" "rows_of example_driver sql example_logic = Inr [?row]" for sql
    by (simp_all add: FetchRow_def FetchRows_def fetch_def example_driver_def example_logic_def)
  have "\<exists>body. GetSrvList example_driver (\<lambda>_. False) ?form (Some example_logic) = Some (FormValue ?form ''callback'' @ ''('' @ body @ '')'') \<and>
    parse_json body = Some (JObj [(''SrvAllNum'', JNum (itoa (fst (Atoi (get ?row ''max_id''))))),
      (''SrvList'', JArr (map (\<lambda>r. JObj [(''IP'', JStr (get r ''ip'')), (''Status'', JNum (if (\<lambda>_. False) (get r ''ip'' @ '':22'') then ''1'' else ''2''))]) [?row]))]) \<and>
    (\<forall>c \<in> set body. c \<noteq> CHR ''<'' \<and> c \<noteq> CHR ''>'' \<and> c \<noteq> CHR ''&'')"
    by (rule list_reply_carries_table [where s = "''7''" and n = "''7''"]) (simp_all add: arg_def rows cells valid_utf8_ascii)
  then show ?thesis unfolding list.map if_False cells by blast
qed

section \<open>Refused statements\<close>

text \<open>
  C38. What becomes of a refused statement. When the database refuses to prepare every statement, the handlers that insert panic, so that their error replies are never sent;
  those that delete or update send their error replies; and the handlers of lists reply as if the tables were empty.
\<close>

theorem refused_statements:
  assumes "db ml = Some d" and "\<forall>sql. sql_Prepare drv d sql \<noteq> None"
    and "arg form ''start'' \<noteq> None" and "arg form ''num'' \<noteq> None" and "arg form ''ip'' = Some ip" and "arg form ''id'' = Some i" and "module_of form = Some m"
  shows "fst (AddMachine drv form (Some ml)) = None \<and> fst (AddTestModule drv form (Some ml)) = None \<and>
    fst (AddPaidang drv form (Some ml)) = None \<and> fst (AddHauntModule drv form (Some ml)) = None \<and>
    fst (DelMachine drv form (Some ml)) = Some (reply form ''{\"result\": \"Delete IP Error.\"}'') \<and>
    fst (DelPaidang drv form (Some ml)) = Some (reply form ''{\"result\": \"DelPaidang Error.\"}'') \<and>
    fst (DelHauntModule drv form (Some ml)) = Some (reply form ''{\"result\": \"DelHauntModule Error.\"}'') \<and>
    fst (UpdateHauntModule drv form (Some ml)) = Some (reply form ''{\"result\": \"UpdateHauntModule Error.\"}'') \<and>
    GetSrvList drv alive form (Some ml) = Some (reply form ''{\"SrvAllNum\":0,\"SrvList\":[]}'') \<and>
    GetPaidangList drv form (Some ml) = Some (reply form ''{\"PaidangNum\":0,\"PaidangInfoList\":[]}'') \<and>
    GetHauntModules drv form (Some ml) = Some (reply form ''{\"ModuleNum\":0,\"ModuleList\":[]}'')"
proof -
  obtain s n where sn: "arg form ''start'' = Some s" "arg form ''num'' = Some n" using assms(3,4) by blast
  have ins: "fst (inserting drv sql ml) = None" for sql
    using assms(1) assms(2) [rule_format, of sql] by (auto simp: inserting_def Insert_def)
  have exe: "\<exists>err. executing drv sql ml = (Some (Some err), ml)" for sql
    using assms(1) assms(2) [rule_format, of sql] by (auto simp: executing_def Exec_def error_of_def)
  have q: "\<exists>err. rows_of drv sql ml = Inl err" "\<exists>err. row_of drv sql ml = Inl err" for sql
    using assms(1) assms(2) [rule_format, of sql] by (auto simp: FetchRow_def FetchRows_def fetch_def)
  have query: "snd (query (rows_of drv sql ml) f l) = l" "snd (query (row_of drv sql ml) g l') = l'" for sql f g l l'
    using q [of sql] by (auto simp: query_def)
  have inserts: "fst (changing op form ok bad (Some ml)) = None" if "\<And>f. op = Some f \<Longrightarrow> \<exists>sql. f = inserting drv sql" for op ok bad
    using that ins by (auto simp: changing_def split: option.splits prod.splits) (metis fst_conv option.distinct(1))
  have executes: "fst (changing (Some (executing drv sql)) form ok bad (Some ml)) = Some (reply form bad)" for sql ok bad
    using exe [of sql] by (auto simp: changing_def answer_def)
  have json: "Marshal (ServerList_json \<lparr>SrvAllNum = 0, SrvList = []\<rparr>) = ''{\"SrvAllNum\":0,\"SrvList\":[]}''"
    "Marshal (PaidangList_json \<lparr>PaidangNum = 0, PaidangInfoList = []\<rparr>) = ''{\"PaidangNum\":0,\"PaidangInfoList\":[]}''"
    "Marshal (HauntModuleList_json \<lparr>ModuleNum = 0, ModuleList = []\<rparr>) = ''{\"ModuleNum\":0,\"ModuleList\":[]}''"
    by code_simp+
  have "fst (AddMachine drv form (Some ml)) = None" "fst (AddTestModule drv form (Some ml)) = None"
    "fst (AddPaidang drv form (Some ml)) = None" "fst (AddHauntModule drv form (Some ml)) = None"
    unfolding AddMachine_def AddTestModule_def AddPaidang_def AddHauntModule_def
    by (rule inserts; auto simp: Mysql_AddIP_def Mysql_AddTestModule_def Mysql_AddPaidang_def Mysql_AddHauntModule_def split: Option.bind_splits)+
  moreover have "GetSrvList drv alive form (Some ml) = Some (reply form ''{\"SrvAllNum\":0,\"SrvList\":[]}'')"
    unfolding GetSrvList_def sn json(1) [symmetric]
    by (simp add: Mysql_GetIPMaxID_def Mysql_GetIPList_def query split_beta CheckIPAlive_def del: Marshal.simps)
  moreover have "GetPaidangList drv form (Some ml) = Some (reply form ''{\"PaidangNum\":0,\"PaidangInfoList\":[]}'')"
    unfolding GetPaidangList_def sn json(2) [symmetric] no_paidang_def
    by (simp add: Mysql_GetPaidangCount_def Mysql_GetPaidangList_def query split_beta del: Marshal.simps)
  moreover have "GetHauntModules drv form (Some ml) = Some (reply form ''{\"ModuleNum\":0,\"ModuleList\":[]}'')"
    unfolding GetHauntModules_def sn json(3) [symmetric]
    by (simp add: Mysql_QueryHauntModuleCount_def Mysql_QueryHauntModuleList_def query split_beta del: Marshal.simps)
  ultimately show ?thesis
    using assms(5-7) executes
    by (simp add: DelMachine_def DelPaidang_def DelHauntModule_def UpdateHauntModule_def Mysql_DelIP_def Mysql_DelPaidang_def Mysql_DelHauntModule_def
        Mysql_UpdateHauntModule_def)
qed

definition refusing_driver :: "unit Driver" where
  "refusing_driver = example_driver\<lparr>sql_Prepare := \<lambda>_ _. Some ''no such table''\<rparr>"

theorem refused_statements_witness:
  "fst (AddMachine refusing_driver (\<lambda>_. Some [''7'']) (Some example_logic)) = None \<and>
   fst (DelMachine refusing_driver (\<lambda>_. Some [''7'']) (Some example_logic)) = Some (reply (\<lambda>_. Some [''7'']) ''{\"result\": \"Delete IP Error.\"}'')"
proof -
  have "module_of (\<lambda>_. Some [''7'']) = Some \<lparr>hm_ID = [], hm_ModuleName = ''7'', hm_ModuleDesc = ''7'', hm_ModuleUser = ''7'', hm_ModuleBackupUser = ''7'', hm_UpdateTime = []\<rparr>"
    by (simp add: module_of_def arg_def)
  from refused_statements [of example_logic "()" refusing_driver "\<lambda>_. Some [''7'']" "''7''" "''7''", OF _ _ _ _ _ _ this]
  show ?thesis by (simp add: refusing_driver_def arg_def example_logic_def)
qed

end
