(* ===== verification/Haunt_Logic.thy ===== *)
theory Haunt_Logic
  imports Haunt_Http
begin

text \<open>
  The rest of the web application: the name server (\<open>logic_process.go\<close> and the handlers of \<open>http_handler.go\<close> that use it), the wrapped handlers of
  \<open>haunt_endpoint.go\<close>, the table of routes, and the start from a configuration file (\<open>config.go\<close>).

  The etcd client, HTTP requests and the web server belong to other packages: the client is a function from keys to an error or the nodes under
  the key, a request a function from a URL to an error or a response. A nil slice is \<^term>\<open>None\<close>, which is marshalled as \<open>null\<close>.
\<close>

section \<open>The name server\<close>

record EtcdNode =
  Key :: bytes
  Dir :: bool
  Value :: bytes

type_synonym Etcd = "bytes \<Rightarrow> bytes + EtcdNode list"

record RootList =
  rl_Key :: bytes
  IfDir :: bool

record HauntSrvInfo =
  hs_SrvName :: bytes
  hs_IP :: bytes
  hs_Port :: int
  hs_Status :: int
  hs_Weight :: int

record HauntSrvIPInfo =
  ip_IP :: bytes
  ip_Port :: bytes
  ip_SrvName :: bytes
  ip_Weight :: bytes

definition root_of :: "EtcdNode \<Rightarrow> RootList" where
  "root_of node = \<lparr>rl_Key = Key node, IfDir = Dir node\<rparr>"

definition Logic_GetRoot :: "Etcd \<Rightarrow> bytes + RootList list option" where
  "Logic_GetRoot etcd =
     (case etcd ''/'' of
        Inl err \<Rightarrow> Inl err
      | Inr nodes \<Rightarrow> Inr (if nodes = [] then None else Some (map root_of nodes)))"

definition Logic_GetModules :: "Etcd \<Rightarrow> bytes \<Rightarrow> bytes + RootList list option" where
  "Logic_GetModules etcd ns =
     (case etcd (''/'' @ ns) of
        Inl err \<Rightarrow> Inl err
      | Inr nodes \<Rightarrow> Inr (if nodes = [] then None else Some (map root_of nodes)))"

text \<open>
  The fields of a struct are found by their names, upper and lower case being the same (and the letters U+017F and U+212A the same as S and K);
  a value of another type is an error that leaves the field.
\<close>

fun fold_name :: "bytes \<Rightarrow> bytes" where
  "fold_name [] = []"
| "fold_name (c # s) =
     (if HasPrefix (c # s) [char_of (0xC5 :: nat), char_of (0xBF :: nat)] then CHR ''S'' # fold_name (drop 1 s)
      else if HasPrefix (c # s) [char_of (0xE2 :: nat), char_of (0x84 :: nat), char_of (0xAA :: nat)] then CHR ''K'' # fold_name (drop 2 s)
      else (if 97 \<le> (of_char c :: nat) \<and> of_char c \<le> (122 :: nat) then char_of (of_char c - 32 :: nat) else c) # fold_name s)"

definition set_string :: "(bytes \<Rightarrow> HauntSrvInfo \<Rightarrow> HauntSrvInfo) \<Rightarrow> json \<Rightarrow> HauntSrvInfo \<Rightarrow> HauntSrvInfo" where
  "set_string f v info = (case v of JStr s \<Rightarrow> f s info | _ \<Rightarrow> info)"

definition set_int :: "(int \<Rightarrow> HauntSrvInfo \<Rightarrow> HauntSrvInfo) \<Rightarrow> json \<Rightarrow> HauntSrvInfo \<Rightarrow> HauntSrvInfo" where
  "set_int f v info = (case v of JNum t \<Rightarrow> (case Atoi t of (i, None) \<Rightarrow> f i info | _ \<Rightarrow> info) | _ \<Rightarrow> info)"

definition set_field :: "bytes \<times> json \<Rightarrow> HauntSrvInfo \<Rightarrow> HauntSrvInfo" where
  "set_field kv info =
     (let k = fold_name (fst kv); v = snd kv
      in if k = ''SRVNAME'' then set_string (\<lambda>s i. i\<lparr>hs_SrvName := s\<rparr>) v info
         else if k = ''IP'' then set_string (\<lambda>s i. i\<lparr>hs_IP := s\<rparr>) v info
         else if k = ''PORT'' then set_int (\<lambda>n i. i\<lparr>hs_Port := n\<rparr>) v info
         else if k = ''STATUS'' then set_int (\<lambda>n i. i\<lparr>hs_Status := n\<rparr>) v info
         else if k = ''WEIGHT'' then set_int (\<lambda>n i. i\<lparr>hs_Weight := n\<rparr>) v info
         else info)"

definition srv_info :: "bytes \<Rightarrow> HauntSrvInfo" where
  "srv_info text =
     (let zero = \<lparr>hs_SrvName = [], hs_IP = [], hs_Port = 0, hs_Status = 0, hs_Weight = 0\<rparr>
      in case parse_json text of Some (JObj kvs) \<Rightarrow> fold set_field kvs zero | _ \<Rightarrow> zero)"

text \<open>An error of the client is printed and gives the nil slice, as no nodes do.\<close>

definition GetModuleSrvList :: "Etcd \<Rightarrow> bytes \<Rightarrow> HauntSrvInfo list option" where
  "GetModuleSrvList etcd key =
     (case etcd (''/'' @ key) of
        Inl err \<Rightarrow> None
      | Inr nodes \<Rightarrow> (if nodes = [] then None else Some (map (\<lambda>node. srv_info (Value node)) nodes)))"

text \<open>What \<open>http.Get\<close> gives: an error, or a response, with the error of reading its body or the body.\<close>

type_synonym HttpGet = "bytes \<Rightarrow> bytes + (bytes + bytes)"

definition Logic_HttpGet :: "HttpGet \<Rightarrow> bytes \<Rightarrow> bytes option" where
  "Logic_HttpGet http_get url =
     (case http_get url of
        Inl err \<Rightarrow> Some err
      | Inr body \<Rightarrow> (case body of Inl err \<Rightarrow> Some err | Inr b \<Rightarrow> None))"

definition AddSrvIP_url :: "HauntSrvIPInfo \<Rightarrow> bytes" where
  "AddSrvIP_url info =
     ''http://'' @ ip_IP info @ '':8082/registerp?IP='' @ ip_IP info @ ''&Port='' @ ip_Port info @ ''&SrvName='' @ ip_SrvName info @
     ''&Weight='' @ ip_Weight info"

definition DelSrvIP_url :: "HauntSrvIPInfo \<Rightarrow> bytes" where
  "DelSrvIP_url info =
     ''http://'' @ ip_IP info @ '':8082/unregisterp?IP='' @ ip_IP info @ ''&Port='' @ ip_Port info @ ''&SrvName='' @ ip_SrvName info"

definition Logic_AddSrvIP :: "HttpGet \<Rightarrow> HauntSrvIPInfo \<Rightarrow> bytes option" where
  "Logic_AddSrvIP http_get info = Logic_HttpGet http_get (AddSrvIP_url info)"

definition Logic_DelSrvIP :: "HttpGet \<Rightarrow> HauntSrvIPInfo \<Rightarrow> bytes option" where
  "Logic_DelSrvIP http_get info = Logic_HttpGet http_get (DelSrvIP_url info)"

section \<open>Handlers\<close>

definition HauntSrvInfo_json :: "HauntSrvInfo \<Rightarrow> json" where
  "HauntSrvInfo_json s =
     JObj [(''SrvName'', JStr (hs_SrvName s)), (''IP'', JStr (hs_IP s)), (''Port'', JNum (itoa (hs_Port s))),
           (''Status'', JNum (itoa (hs_Status s))), (''Weight'', JNum (itoa (hs_Weight s)))]"

definition slice_json :: "('a \<Rightarrow> json) \<Rightarrow> 'a list option \<Rightarrow> json" where
  "slice_json f l = (case l of None \<Rightarrow> JNull | Some xs \<Rightarrow> JArr (map f xs))"

definition GetHauntSrvList :: "Etcd \<Rightarrow> Form \<Rightarrow> bytes option" where
  "GetHauntSrvList etcd form =
     do { key \<leftarrow> arg form ''key'';
          Some (reply form (Marshal (slice_json HauntSrvInfo_json (GetModuleSrvList etcd key)))) }"

definition AddSrvIP :: "HttpGet \<Rightarrow> Form \<Rightarrow> bytes option" where
  "AddSrvIP http_get form =
     do { ip \<leftarrow> arg form ''IP''; port \<leftarrow> arg form ''Port''; name \<leftarrow> arg form ''SrvName''; weight \<leftarrow> arg form ''Weight'';
          Some (answer form ''{\"result\": \"AddSrvIP OK\"}'' ''{\"result\": \"AddSrvIP Error.\"}''
            (Logic_AddSrvIP http_get \<lparr>ip_IP = ip, ip_Port = port, ip_SrvName = name, ip_Weight = weight\<rparr>)) }"

definition DelSrvIP :: "HttpGet \<Rightarrow> Form \<Rightarrow> bytes option" where
  "DelSrvIP http_get form =
     do { ip \<leftarrow> arg form ''IP''; port \<leftarrow> arg form ''Port''; name \<leftarrow> arg form ''SrvName'';
          Some (answer form ''{\"result\": \"DelSrvIP OK\"}'' ''{\"result\": \"DelSrvIP Error.\"}''
            (Logic_DelSrvIP http_get \<lparr>ip_IP = ip, ip_Port = port, ip_SrvName = name, ip_Weight = []\<rparr>)) }"

text \<open>The wrapped handlers write a status, a header and a body. An object of an interface type is nil only if it has no type: a nil slice is not.\<close>

datatype HttpAct = WriteHeader int | SetHeader bytes bytes | WriteBody bytes

type_synonym HttpHandler = "Form \<Rightarrow> (HttpAct list \<times> json option \<times> bytes option) option"

definition httpWrap :: "HttpHandler \<Rightarrow> Form \<Rightarrow> HttpAct list option" where
  "httpWrap handler form =
     do { (acts, obj, err) \<leftarrow> handler form;
          Some (acts @
            (if err \<noteq> None then [WriteHeader 500, WriteBody ''HTTP ERROR.'']
             else case obj of
                    None \<Rightarrow> []
                  | Some v \<Rightarrow> [SetHeader ''Content-Type'' ''application/json'', WriteBody (Marshal v)])) }"

definition RootList_json :: "RootList \<Rightarrow> json" where
  "RootList_json r = JObj [(''Key'', JStr (rl_Key r)), (''IfDir'', JBool (IfDir r))]"

definition Http_GetRoot :: "Etcd \<Rightarrow> HttpHandler" where
  "Http_GetRoot etcd form =
     Some (case Logic_GetRoot etcd of
             Inl err \<Rightarrow> ([WriteHeader 400, WriteBody err], None, None)
           | Inr l \<Rightarrow> ([], Some (slice_json RootList_json l), None))"

definition Http_GetModules :: "Etcd \<Rightarrow> HttpHandler" where
  "Http_GetModules etcd form =
     do { ns \<leftarrow> arg form ''ns'';
          Some (case Logic_GetModules etcd ns of
                  Inl err \<Rightarrow> ([WriteHeader 400, WriteBody err], None, None)
                | Inr l \<Rightarrow> ([], Some (slice_json RootList_json l), None)) }"

section \<open>Routes\<close>

record 'd WebEnv =
  w_driver :: "'d Driver"
  w_alive :: "bytes \<Rightarrow> bool"
  w_shell :: Shell
  w_etcd :: Etcd
  w_get :: HttpGet

text \<open>A handler that does not change the state, and one that is wrapped.\<close>

definition reading :: "(Form \<Rightarrow> 'd WebState \<Rightarrow> bytes option) \<Rightarrow> Form \<Rightarrow> 'd WebState \<Rightarrow> HttpAct list option \<times> 'd WebState" where
  "reading h form st = (map_option (\<lambda>b. [WriteBody b]) (h form st), st)"

definition writing :: "(Form \<Rightarrow> 'd WebState \<Rightarrow> bytes option \<times> 'd WebState) \<Rightarrow> Form \<Rightarrow> 'd WebState \<Rightarrow> HttpAct list option \<times> 'd WebState" where
  "writing h form st = (let (b, st) = h form st in (map_option (\<lambda>b. [WriteBody b]) b, st))"

definition routes :: "'d WebEnv \<Rightarrow> (bytes \<times> (Form \<Rightarrow> 'd WebState \<Rightarrow> HttpAct list option \<times> 'd WebState)) list" where
  "routes env = (let drv = w_driver env; alive = w_alive env in
     [(''/getsrvlist'', reading (GetSrvList drv alive)),
      (''/searchip'', reading (SearchIP drv alive)),
      (''/addip'', writing (AddMachine drv)),
      (''/delip'', writing (DelMachine drv)),
      (''/gettestmodule'', reading (GetTestModuleList drv)),
      (''/addtestmodule'', writing (AddTestModule drv)),
      (''/execremotecommand'', reading (\<lambda>form st. ExecRemoteCommand (w_shell env) form)),
      (''/getcommands'', reading (SelectCommands drv)),
      (''/updatecompilecommand'', writing (UpdateCompileCommand drv)),
      (''/updaterestartcommand'', writing (UpdateRestartCommand drv)),
      (''/synccode'', reading (\<lambda>form st. SyncTestCode (w_shell env) form)),
      (''/addpaidang'', writing (AddPaidang drv)),
      (''/getpaidanglist'', reading (GetPaidangList drv)),
      (''/searchpaidang'', reading (SearchPaidang drv)),
      (''/delpaidang'', writing (DelPaidang drv)),
      (''/searchnotpaidang'', reading (SearchNotPaidang drv)),
      (''/gethauntmodules'', reading (GetHauntModules drv)),
      (''/gethauntsrvlist'', reading (\<lambda>form st. GetHauntSrvList (w_etcd env) form)),
      (''/addhauntmodule'', writing (AddHauntModule drv)),
      (''/delhauntmodule'', writing (DelHauntModule drv)),
      (''/updatehauntmodule'', writing (UpdateHauntModule drv)),
      (''/hauntaddsrvip'', reading (\<lambda>form st. AddSrvIP (w_get env) form)),
      (''/hauntdelsrvip'', reading (\<lambda>form st. DelSrvIP (w_get env) form)),
      (''/hauntroot'', \<lambda>form st. (httpWrap (Http_GetRoot (w_etcd env)) form, st)),
      (''/hauntmodules'', \<lambda>form st. (httpWrap (Http_GetModules (w_etcd env)) form, st))])"

section \<open>Start\<close>

definition dbinfo :: "bytes \<Rightarrow> bytes \<Rightarrow> bytes \<Rightarrow> bytes \<Rightarrow> bytes" where
  "dbinfo user pass host name =
     ''{\"user\": \"'' @ user @ ''\", \"password\": \"'' @ pass @ ''\", \"address\": \"'' @ host @ ''\", \"dbname\": \"'' @ name @ ''\"}''"

text \<open>
  The variables that \<open>InitConfig\<close> sets: \<open>mysqlHander\<close> and the etcd peers. A missing file or section ends the process (\<^term>\<open>None\<close>); an error of the database is printed, and
  leaves \<open>mysqlHander\<close> nil.
\<close>

definition InitConfig :: "Opener \<Rightarrow> 'd Driver \<Rightarrow> bytes \<Rightarrow> ('d WebState \<times> bytes) option" where
  "InitConfig open drv path =
     (case Read open (if path = [] then ''./youzan_controller.ini'' else path) of
        Inl err \<Rightarrow> None
      | Inr c \<Rightarrow>
          do { r1 \<leftarrow> Configuration_Section c ''MysqlInfo''; r2 \<leftarrow> Configuration_Section c ''EtcdInfo'';
               case (r1, r2) of
                 (Inr p1, Inr p2) \<Rightarrow>
                   (let s = section_at c p1
                    in do { r \<leftarrow> NewMysqlLogic drv (dbinfo (ValueOf s ''MysqlUser'') (ValueOf s ''MysqlPass'') (ValueOf s ''MysqlHost'') (ValueOf s ''MysqlDB''));
                            Some (case r of Inl err \<Rightarrow> None | Inr ml \<Rightarrow> Some ml, ValueOf (section_at c p2) ''EtcdPeers'') })
               | _ \<Rightarrow> None })"

section \<open>The connection a configuration gives\<close>

lemma parse_plain_member:
  assumes "plain_json k" and "plain_json v" and "c = CHR '','' \<or> c = CHR ''}''" and "b = [] \<or> b = '' ''"
  shows "parse_members (Suc (Suc n)) (b @ CHR 0x22 # k @ ''\": \"'' @ v @ CHR 0x22 # c # r) =
    (if c = CHR '','' then do { (kvs, q) \<leftarrow> parse_members (Suc n) r; Some ((k, JStr v) # kvs, q) } else Some ([(k, JStr v)], r))"
proof -
  let ?s = "k @ CHR 0x22 # '': \"'' @ v @ CHR 0x22 # c # r"
  have ws: "skip_ws (b @ CHR 0x22 # ?s) = CHR 0x22 # ?s" "skip_ws (c # r) = c # r" "skip_ws ('': \"'' @ x) = '': \"'' @ x" for x
    using assms(3,4) by (auto simp: skip_ws_def)
  have k: "scan_str ?s = Some (k, '': \"'' @ v @ CHR 0x22 # c # r)" using assms(1) by (rule scan_plain)
  have v: "parse_value (Suc n) ('' \"'' @ v @ CHR 0x22 # c # r) = Some (JStr v, c # r)"
    using assms(2) by (simp add: skip_ws_def scan_plain)
  have "parse_members (Suc (Suc n)) (b @ CHR 0x22 # ?s) =
    (if c = CHR '','' then do { (kvs, q) \<leftarrow> parse_members (Suc n) r; Some ((k, JStr v) # kvs, q) } else Some ([(k, JStr v)], r))"
    unfolding parse_members.simps(2) [of "Suc n" "b @ CHR 0x22 # ?s"] ws k list.case bind.simps prod.case
    using assms(3) ws(2,3) v by (elim disjE) (simp_all del: parse_value.simps parse_members.simps)
  then show ?thesis by (simp del: parse_value.simps parse_members.simps)
qed

lemma plain_json_ascii: "list_all (\<lambda>c. 0x20 \<le> (of_char c :: nat) \<and> of_char c < (0x80 :: nat) \<and> c \<noteq> CHR 0x22 \<and> c \<noteq> CHR 0x5C) s \<Longrightarrow> plain_json s"
  unfolding plain_json_def by (rule conjI, rule valid_utf8_ascii, unfold list_all_iff) blast+

text \<open>Members as \<open>dbinfo\<close> writes them.\<close>

fun spaced :: "(bytes \<times> bytes) list \<Rightarrow> bytes" where
  "spaced [] = []"
| "spaced [(k, v)] = CHR 0x22 # k @ ''\": \"'' @ v @ CHR 0x22 # CHR ''}'' # []"
| "spaced ((k, v) # kvs) = CHR 0x22 # k @ ''\": \"'' @ v @ CHR 0x22 # CHR '','' # '' '' @ spaced kvs"

lemma parse_spaced:
  assumes "\<forall>kv \<in> set kvs. plain_json (fst kv) \<and> plain_json (snd kv)" and "kvs \<noteq> []" and "length kvs < n" and "b = [] \<or> b = '' ''"
  shows "parse_members n (b @ spaced kvs) = Some (map (\<lambda>(k, v). (k, JStr v)) kvs, [])"
  using assms
proof (induction kvs arbitrary: n b)
  case (Cons kv kvs)
  obtain k v where kv: "kv = (k, v)" by fastforce
  then have ok: "plain_json k" "plain_json v" using Cons.prems(1) by simp_all
  have "2 \<le> n" using Cons.prems(3) by simp
  then obtain m where n: "n = Suc (Suc m)" using le_Suc_ex [of 2 n] by auto
  show ?case
  proof (cases kvs)
    case Nil
    have "spaced (kv # kvs) = CHR 0x22 # k @ ''\": \"'' @ v @ CHR 0x22 # CHR ''}'' # []" unfolding kv Nil by simp
    then show ?thesis using parse_plain_member [OF ok, of "CHR ''}''" b m "[]"] Cons.prems(4)
      unfolding n by (simp add: kv Nil del: parse_members.simps)
  next
    case (Cons w ws)
    have "parse_members (Suc m) ('' '' @ spaced kvs) = Some (map (\<lambda>(k, v). (k, JStr v)) kvs, [])"
      using Cons.IH [of "Suc m" "'' ''"] Cons.prems(1,3) n Cons by (simp del: parse_members.simps)
    moreover have "spaced (kv # kvs) = CHR 0x22 # k @ ''\": \"'' @ v @ CHR 0x22 # CHR '','' # '' '' @ spaced kvs" unfolding kv Cons by simp
    ultimately show ?thesis using parse_plain_member [OF ok, of "CHR '',''" b m "'' '' @ spaced kvs"] Cons.prems(4)
      unfolding n by (simp add: kv del: parse_members.simps)
  qed
qed simp

lemma Unmarshal_spaced:
  assumes "\<forall>kv \<in> set kvs. plain_json (fst kv) \<and> plain_json (snd kv)" and "kvs \<noteq> []" and "length kvs \<le> length (spaced kvs)"
  shows "Unmarshal_strings (CHR ''{'' # spaced kvs) = Some (fold (\<lambda>(k, v) m. m(k \<mapsto> v)) kvs (\<lambda>_. None))"
proof -
  obtain s where s: "spaced kvs = CHR 0x22 # s" using assms(2) by (cases kvs rule: spaced.cases) auto
  obtain n where n: "2 * length (CHR ''{'' # spaced kvs) + 2 = Suc n" by simp
  then have "parse_members n ([] @ spaced kvs) = Some (map (\<lambda>(k, v). (k, JStr v)) kvs, [])"
    using assms by (intro parse_spaced) simp_all
  then have "parse_value (Suc n) (CHR ''{'' # spaced kvs) = Some (JObj (map (\<lambda>(k, v). (k, JStr v)) kvs), [])"
    by (simp add: skip_ws_def HasPrefix_def s del: parse_members.simps)
  then have "parse_json (CHR ''{'' # spaced kvs) = Some (JObj (map (\<lambda>(k, v). (k, JStr v)) kvs))"
    unfolding parse_json_def n by (simp add: skip_ws_def del: parse_value.simps)
  then show ?thesis by (simp add: Unmarshal_strings_def fold_map comp_def case_prod_unfold)
qed

lemma plain_names: "plain_json ''user''" "plain_json ''password''" "plain_json ''address''" "plain_json ''dbname''"
  by (rule plain_json_ascii, simp)+

lemma Unmarshal_dbinfo:
  assumes "plain_json user" and "plain_json pass" and "plain_json host" and "plain_json name"
  shows "Unmarshal_strings (dbinfo user pass host name) =
    Some [''user'' \<mapsto> user, ''password'' \<mapsto> pass, ''address'' \<mapsto> host, ''dbname'' \<mapsto> name]"
proof -
  have "dbinfo user pass host name = CHR ''{'' # spaced [(''user'', user), (''password'', pass), (''address'', host), (''dbname'', name)]"
    by (simp add: dbinfo_def)
  then show ?thesis using Unmarshal_spaced [of "[(''user'', user), (''password'', pass), (''address'', host), (''dbname'', name)]"] assms plain_names
    by simp
qed

lemma Unmarshal_second_host:
  assumes "plain_json user" and "plain_json pass" and "plain_json host" and "plain_json name" and "plain_json other"
  shows "Unmarshal_strings (dbinfo user pass host (name @ ''\", \"address\": \"'' @ other)) =
    Some [''user'' \<mapsto> user, ''password'' \<mapsto> pass, ''address'' \<mapsto> other, ''dbname'' \<mapsto> name]"
proof -
  let ?kvs = "[(''user'', user), (''password'', pass), (''address'', host), (''dbname'', name), (''address'', other)]"
  have "dbinfo user pass host (name @ ''\", \"address\": \"'' @ other) = CHR ''{'' # spaced ?kvs" by (simp add: dbinfo_def)
  then show ?thesis using Unmarshal_spaced [of ?kvs] assms plain_names by (simp add: fun_upd_twist)
qed

text \<open>
  C20. The connection a configuration gives. If the file can be read and has both sections, and user, password, host and name are UTF-8 without quotes, backslashes and
  control characters, then the database opened is \<open>user:password@tcp(host)/name?charset=utf8\<close>, with exactly these four values and the default numbers
  of connections: a missing user is the empty user, not \<open>root\<close>. When it can be opened and pinged, \<open>mysqlHander\<close> is its handle; an error of \<open>Ping\<close> leaves it nil.
  Nothing is escaped: a name with quotes replaces the host.
\<close>

theorem connects_as_configured:
  assumes "Read open path = Inr c" and "path \<noteq> []"
    and "Configuration_Section c ''MysqlInfo'' = Some (Inr p)" and "Configuration_Section c ''EtcdInfo'' = Some (Inr q)"
    and "user = ValueOf (section_at c p) ''MysqlUser''" and "pass = ValueOf (section_at c p) ''MysqlPass''"
    and "host = ValueOf (section_at c p) ''MysqlHost''" and "name = ValueOf (section_at c p) ''MysqlDB''"
    and "plain_json user" and "plain_json pass" and "plain_json host" and "plain_json name"
    and "sql_Open drv (user @ '':'' @ pass @ ''@tcp('' @ host @ '')/'' @ name @ ''?charset=utf8'') = Some d"
  shows "InitConfig open drv path =
      Some (if sql_Ping drv d = None then Some \<lparr>db = Some d, maxOpenConns = 200, maxIdleConns = 100\<rparr> else None,
            ValueOf (section_at c q) ''EtcdPeers'') \<and>
    (plain_json other \<longrightarrow> Unmarshal_strings (dbinfo user pass host (name @ ''\", \"address\": \"'' @ other)) =
      Some [''user'' \<mapsto> user, ''password'' \<mapsto> pass, ''address'' \<mapsto> other, ''dbname'' \<mapsto> name])"
proof
  have "itoa 200 = ''200''" "itoa 100 = ''100''" by code_simp+
  then have nums: "Atoi ''200'' = (200, None)" "Atoi ''100'' = (100, None)" using Atoi_itoa [of 200] Atoi_itoa [of 100] by simp_all
  have "InitMysql drv (dbinfo user pass host name) NewMysqlController = Some (sql_Ping drv d, \<lparr>db = Some d, maxOpenConns = 200, maxIdleConns = 100\<rparr>)"
    using assms(13) by (simp add: InitMysql_def Unmarshal_dbinfo assms(9-12) set_default_def data_source_def get_def NewMysqlController_def nums)
  then show "InitConfig open drv path =
      Some (if sql_Ping drv d = None then Some \<lparr>db = Some d, maxOpenConns = 200, maxIdleConns = 100\<rparr> else None, ValueOf (section_at c q) ''EtcdPeers'')"
    using assms(1-8) by (auto simp: InitConfig_def NewMysqlLogic_def)
next
  show "plain_json other \<longrightarrow> Unmarshal_strings (dbinfo user pass host (name @ ''\", \"address\": \"'' @ other)) =
      Some [''user'' \<mapsto> user, ''password'' \<mapsto> pass, ''address'' \<mapsto> other, ''dbname'' \<mapsto> name]"
    using Unmarshal_second_host [OF assms(9-12)] by blast
qed

definition example_ini :: bytes where
  "example_ini = concat (map (\<lambda>l. l @ nl) [''[MysqlInfo]'', ''MysqlUser=u'', ''MysqlPass=p'', ''MysqlHost=h'', ''MysqlDB=n'', ''[EtcdInfo]'', ''EtcdPeers=e''])"

lemma example_options:
  "parseOption ''MysqlUser=u'' = (''MysqlUser'', ''u'')" "parseOption ''MysqlPass=p'' = (''MysqlPass'', ''p'')"
  "parseOption ''MysqlHost=h'' = (''MysqlHost'', ''h'')" "parseOption ''MysqlDB=n'' = (''MysqlDB'', ''n'')"
  "parseOption ''EtcdPeers=e'' = (''EtcdPeers'', ''e'')" "Trim ''[MysqlInfo]'' '' []'' = ''MysqlInfo''" "Trim ''[EtcdInfo]'' '' []'' = ''EtcdInfo''"
  by code_simp+

lemma example_ini_read:
  "\<exists>c. Read (\<lambda>_. Inr (example_ini, None)) ''f'' = Inr c \<and>
     Configuration_Section c ''MysqlInfo'' = Some (Inr (Suc 0)) \<and> Configuration_Section c ''EtcdInfo'' = Some (Inr (Suc (Suc 0))) \<and>
     ValueOf (section_at c (Suc 0)) ''MysqlUser'' = ''u'' \<and> ValueOf (section_at c (Suc 0)) ''MysqlPass'' = ''p'' \<and>
     ValueOf (section_at c (Suc 0)) ''MysqlHost'' = ''h'' \<and> ValueOf (section_at c (Suc 0)) ''MysqlDB'' = ''n'' \<and>
     ValueOf (section_at c (Suc (Suc 0))) ''EtcdPeers'' = ''e''"
proof -
  have ls: "scan_lines example_ini =
    ([''[MysqlInfo]'', ''MysqlUser=u'', ''MysqlPass=p'', ''MysqlHost=h'', ''MysqlDB=n'', ''[EtcdInfo]'', ''EtcdPeers=e''], False)"
    unfolding example_ini_def by (rule scan_lines_concat) (simp add: MaxScanTokenSize_def)
  show ?thesis
    by (simp add: Read_def ls Let_def addSection_def newConfiguration_def read_line_def HasPrefix_def isSection_def example_options
        addOption_def set_section_def section_at_def Configuration_Section_def locking_def ValueOf_def)
qed

theorem connects_as_configured_witness:
  "InitConfig (\<lambda>_. Inr (example_ini, None)) example_driver ''f'' =
     Some (Some \<lparr>db = Some (), maxOpenConns = 200, maxIdleConns = 100\<rparr>, ''e'') \<and>
   Unmarshal_strings (dbinfo ''u'' ''p'' ''h'' (''n'' @ ''\", \"address\": \"'' @ ''h2'')) =
     Some [''user'' \<mapsto> ''u'', ''password'' \<mapsto> ''p'', ''address'' \<mapsto> ''h2'', ''dbname'' \<mapsto> ''n'']"
proof -
  obtain c where c: "Read (\<lambda>_. Inr (example_ini, None)) ''f'' = Inr c"
    "Configuration_Section c ''MysqlInfo'' = Some (Inr (Suc 0))" "Configuration_Section c ''EtcdInfo'' = Some (Inr (Suc (Suc 0)))"
    "ValueOf (section_at c (Suc 0)) ''MysqlUser'' = ''u''" "ValueOf (section_at c (Suc 0)) ''MysqlPass'' = ''p''"
    "ValueOf (section_at c (Suc 0)) ''MysqlHost'' = ''h''" "ValueOf (section_at c (Suc 0)) ''MysqlDB'' = ''n''"
    "ValueOf (section_at c (Suc (Suc 0))) ''EtcdPeers'' = ''e''"
    using example_ini_read by (elim exE conjE)
  have plain: "plain_json ''u''" "plain_json ''p''" "plain_json ''h''" "plain_json ''n''" "plain_json ''h2''" by (rule plain_json_ascii, simp)+
  have drv: "sql_Ping example_driver () = None" by (simp add: example_driver_def)
  have "sql_Open example_driver (''u'' @ '':'' @ ''p'' @ ''@tcp('' @ ''h'' @ '')/'' @ ''n'' @ ''?charset=utf8'') = Some ()"
    by (simp add: example_driver_def)
  from connects_as_configured [OF c(1) _ c(2,3) c(4-7) [symmetric] plain(1-4) this, where other = "''h2''"]
  show ?thesis using plain(5) drv c(8) by (simp del: append.simps)
qed

end
