(* ===== verification/Spec2Isabelle.thy ===== *)
theory Spec2Isabelle
  imports Timing_Wheel Xdiff_Jobs Xman_Config_File Xman_Requests Xman_Remote Xman_Log Xman_Servers Xman_Streams Xman_Redis Xman_Daemonize Haunt_Logic
begin

text \<open>
  A verification library for the repository xman, a collection of Go programs and packages.

  \<^bold>\<open>The program.\<close> The largest part is \<open>github.com/reechou/xdiff/xdiff.go\<close>, which compares files and directories and
  reports the differences as text or HTML. The other parts belong to a server framework: \<open>config/xman_config.go\<close> reads
  and writes configuration files, \<open>xman/\<close> holds the servers, their sessions and the connections to remote servers,
  \<open>utils/\<close> a timing wheel and a connection pool, \<open>logs/\<close> the log files, \<open>db/\<close> wrappers of two databases, and \<open>youzan/\<close> a
  web application.

  \<^bold>\<open>How Go is modelled\<close> (\<open>Go_Base\<close>, \<open>Go_Strings\<close>, \<open>Go_Numbers\<close>, \<open>Go_Utf8\<close>, \<open>Go_Json\<close>). Bytes are characters and strings and byte slices lists of them; \<open>int\<close> is
  \<^typ>\<open>int\<close>, with the wrap-around written out where a product may overflow; \<open>uint32\<close> is \<^typ>\<open>32 word\<close>. A
  panic, a block that nothing ends and an exit of the process are \<^term>\<open>None\<close>, an error value is the left side
  of a sum. Every access by index is checked. A slice that shares its array with its caller is written back. Loops
  that end are \<open>fun\<close> or \<open>function\<close> with a measure; the outer loop of the middle-snake search, the recursion of the
  longest common subsequence and the loop of the shifting of boundaries are \<open>partial_function (option)\<close>, and that they end is a theorem.
  Of the standard library the functions that the program uses are written out: \<open>strconv.Atoi\<close> and \<open>Itoa\<close>, UTF-8, and JSON, whose parser has fuel
  (twice the length of the text and two; \<open>parse_fuel\<close> shows that more changes nothing) and reads back what is written (\<open>parse_Marshal\<close>).

  \<^bold>\<open>The comparison of two texts\<close> (\<open>xdiff.go\<close>), from the inside out:
  \<^item> \<open>Xdiff_Sms\<close>: \<open>algorithm_sms\<close>, the search of a middle snake on one shared work array; it ends, stays in the array
    and returns a run of equal elements that makes the problem smaller.
  \<^item> \<open>Xdiff_Lcs\<close>: \<open>algorithm_lcs\<close> and \<open>do_diff\<close>; the unmarked elements of the two lists are the same.
  \<^item> \<open>Xdiff_Shift\<close>: \<open>shift_boundaries\<close>; moving the marks keeps the unmarked elements.
  \<^item> \<open>Xdiff_Lines\<close>: \<open>split_lines\<close>, the comparison and hash functions for all flags, and the choice between them; the
    comparison chosen is an equivalence that the hash respects.
  \<^item> \<open>Xdiff_Equiv\<close>: \<open>find_equiv_lines\<close> with its hash table, \<open>compress_equiv_ids\<close>, \<open>expand_change_list\<close>, and their
    composition with the above.
  \<^item> \<open>Xdiff_Report\<close>: \<open>report_diff\<close> for any \<open>DiffChanger\<close>; the interface is a locale that the four formats interpret.
  \<^item> \<open>Xdiff_Output\<close>, \<open>Xdiff_Text\<close>, \<open>Xdiff_Html\<close>: what the formats write, as actions on the shared output; a reader of HTML with a stack of open tags says
    what the reader of a page sees and that all tags are closed.
  \<^item> \<open>Xdiff_File\<close>: \<open>diff_file\<close> from the open files to the closed ones, for any operating system; here the parts are put together:
    what is reported is a patch.
  \<^item> \<open>Xdiff_Dirs\<close>: \<open>diff_dirs\<close>, with a bound on the depth as fuel that is shown to be enough for a tree of that depth, and the entry points.
  \<^item> \<open>Xdiff_Jobs\<close>: the goroutines that compare queued files, as steps on what is left of the traces of all goroutines.

  \<^bold>\<open>Configuration files\<close> (\<open>config/xman_config.go\<close>). \<open>Xman_Config\<close> has sections in a heap, since callers share them, and the operations on
  sections and configurations, with the loops that range over the array under a slice while they delete from it;
  \<open>Xman_Config_File\<close> reads and saves. What is saved is read back the same.

  \<^bold>\<open>The timing wheel\<close> (\<open>utils/xman_timewheel.go\<close>) is \<open>Timing_Wheel\<close>: at which tick a timeout fires. \<^bold>\<open>The connection pool\<close>
  (\<open>utils/xman_conn_pool.go\<close>) is \<open>Conn_Pool\<close>, with the contract of a pool as a locale.

  \<^bold>\<open>Connections to remote servers\<close> (\<open>xman/xman_conn_proxy.go\<close>). \<open>Xman_Requests\<close> has the callers, channels and loops of a
  connection as a step relation with an invariant: where each request is. \<open>Xman_Remote\<close> has the registry of servers, the choice among them, and the life of
  connections and of pools of them, whose \<open>Get\<close> is another instance of the contract of a pool.

  \<^bold>\<open>Servers\<close>. \<open>Xman_Session\<close> (\<open>xman/xman_session.go\<close>, \<open>xman/xman_tcp_srv.go\<close>) has the three goroutines of a session, its channels, its close and
  the timing wheel as a step relation: packages and messages keep their order, and when a quiet client is given up.
  \<open>Xman_Servers\<close> (\<open>xman/xman_global_config.go\<close>, \<open>xman/xman_udp_srv.go\<close>) starts servers and connections from a configuration, and has the UDP server: what an
  accepted configuration gives, and that every server needs its handlers.

  \<open>Xman_Streams\<close> has the goroutines at the two ends of a connection, and puts the sending end together with the session at the other: the packages arrive whole and in order, however the
  stream is cut, and the responses that come back are those of the stream.

  \<^bold>\<open>Log files\<close> (\<open>logs/xman_log.go\<close>) are \<open>Xman_Log\<close>: rolling by size and by day on a model of files, and what is lost.

  \<^bold>\<open>The database and the web application\<close>. \<open>Xman_Mysql\<close> (\<open>db/xman_mysql.go\<close>) wraps any driver; \<open>Haunt_Mysql\<close>, \<open>Haunt_Http\<close> and \<open>Haunt_Logic\<close>
  (\<open>youzan/youzan_controller\<close>) make the statements from the requests, answer with JSON, route the requests and start from a configuration file. Shown: what a query
  returns, what a statement says for given values, what a list is answered with, what becomes of refused statements, and which database a configuration connects to.
  \<open>Xman_Redis\<close> (\<open>db/xman_redis.go\<close>) wraps a Redis client; \<open>Xman_Daemonize\<close> (\<open>utils/xman_daemonize.go\<close>) has the calls that make a daemon.

  \<^bold>\<open>What rests on what.\<close> The contracts are locales: the comparison of elements that the hash respects, a changer that reports, the
  operating system behind a comparison, a pool. Each is interpreted on the definitions of the theory that provides it.
  The theorems named in the manifest follow the theories' texts \<open>C1\<close>, \<open>C2\<close> and so on.

  \<^bold>\<open>Not modelled.\<close> Text printed to the standard error output and the log; the number of processors and the scheduler
  (any order of steps is possible); the Go memory model; the libraries behind the parameters (regular expressions, the
  operating system, decompressors, \<open>unicode.ToLower\<close>, dialling). \<open>tcpConnPause\<close> and the reconnect ticker, which nothing
  calls. The etcd client, the HTTP server and requests, the shell and the database behind their interfaces are parameters, too. Of the rest of
  the repository: the programs \<open>xman_main.go\<close>, \<open>xman_remote_main.go\<close> and \<open>xman_client.go\<close> are examples that call the packages above and the package \<open>demo\<close>,
  which the repository does not hold; the goroutines of the last share their state without a lock; \<open>InitHttpHandler\<close> is called by nothing.
\<close>

end
